(* ===== verification/Prelude.thy ===== *)
theory Prelude
  imports Main "HOL-Library.Word"
begin

text \<open>
  Shared vocabulary of the development: the machine types of the C sources, the error numbers of
  \<open>kernel/error.h\<close>, the list operations that stand for \<open>memcpy\<close> between byte arrays, and
  the theory of ring buffers used by the pipe (\<open>kernel/usermode/pipe.c\<close>) and by the terminal
  (\<open>kernel/drivers/tty.c\<close>).  The collection \<open>ring_simps\<close> holds the ring-buffer rewrite
  rules, \<open>errno_simps\<close> the numeric values of the error constants.
\<close>

unbundle bit_operations_syntax

named_theorems ring_simps
named_theorems errno_simps
named_theorems flag_simps

type_synonym byte = "8 word"
type_synonym u16 = "16 word"
type_synonym u32 = "32 word"
type_synonym u64 = "64 word"

lemma sint_u64:
  assumes "unat (x :: u64) < 2 ^ 63"
  shows "sint x = int (unat x)"
proof -
  have "int (unat x) < int (2 ^ 63)" using assms by (simp only: of_nat_less_iff)
  then have "uint x < 2 ^ 63" by simp
  then have "signed_take_bit 63 (uint x) = uint x"
    by (intro signed_take_bit_int_eq_self order_trans [OF _ unsigned_greater_eq]) simp_all
  then show ?thesis using sint_uint [of x] by simp
qed

section \<open>Error numbers\<close>

text \<open>A C function that fails returns the negated error number; every result that is an
  \<open>int\<close> or \<open>int64_t\<close> in the source is an \<open>int\<close> here.\<close>

definition EPERM :: int where [errno_simps]: "EPERM = 1"
definition ENOENT :: int where [errno_simps]: "ENOENT = 2"
definition ESRCH :: int where [errno_simps]: "ESRCH = 3"
definition EINTR :: int where [errno_simps]: "EINTR = 4"
definition EIO :: int where [errno_simps]: "EIO = 5"
definition ENOEXEC :: int where [errno_simps]: "ENOEXEC = 8"
definition EBADF :: int where [errno_simps]: "EBADF = 9"
definition EAGAIN :: int where [errno_simps]: "EAGAIN = 11"
definition ENOMEM :: int where [errno_simps]: "ENOMEM = 12"
definition EFAULT :: int where [errno_simps]: "EFAULT = 14"
definition ENOTBLK :: int where [errno_simps]: "ENOTBLK = 15"
definition EBUSY :: int where [errno_simps]: "EBUSY = 16"
definition EEXIST :: int where [errno_simps]: "EEXIST = 17"
definition EXDEV :: int where [errno_simps]: "EXDEV = 18"
definition ENODEV :: int where [errno_simps]: "ENODEV = 19"
definition ENOTDIR :: int where [errno_simps]: "ENOTDIR = 20"
definition EISDIR :: int where [errno_simps]: "EISDIR = 21"
definition EINVAL :: int where [errno_simps]: "EINVAL = 22"
definition ENFILE :: int where [errno_simps]: "ENFILE = 23"
definition EMFILE :: int where [errno_simps]: "EMFILE = 24"
definition ENOTTY :: int where [errno_simps]: "ENOTTY = 25"
definition ENOSPC :: int where [errno_simps]: "ENOSPC = 28"
definition EROFS :: int where [errno_simps]: "EROFS = 30"
definition EPIPE :: int where [errno_simps]: "EPIPE = 32"
definition ENAMETOOLONG :: int where [errno_simps]: "ENAMETOOLONG = 36"
definition ENOSYS :: int where [errno_simps]: "ENOSYS = 38"
definition ENOTEMPTY :: int where [errno_simps]: "ENOTEMPTY = 39"
definition EMSGSIZE :: int where [errno_simps]: "EMSGSIZE = 90"
definition ETIMEDOUT :: int where [errno_simps]: "ETIMEDOUT = 110"
definition EHOSTUNREACH :: int where [errno_simps]: "EHOSTUNREACH = 113"

section \<open>Outcomes\<close>

text \<open>How a call can end when returning is not the only possibility: \<open>Ret\<close> with its result,
  \<open>Blocks\<close> when it is still waiting (or looping) after all the scheduling events it was given,
  \<open>Fault\<close> when the C code accesses memory outside the object it means to access, divides by
  zero or dereferences a null pointer, \<open>Panic\<close> when it stops the machine by a call of \<open>panic\<close>.\<close>

datatype 'a outcome = Ret 'a | Blocks | Fault | Panic

fun bind_outcome :: "'a outcome \<Rightarrow> ('a \<Rightarrow> 'b outcome) \<Rightarrow> 'b outcome" where
  "bind_outcome (Ret x) f = f x"
| "bind_outcome Blocks f = Blocks"
| "bind_outcome Fault f = Fault"
| "bind_outcome Panic f = Panic"

lemma bind_outcome_eq_Ret:
  "bind_outcome m f = Ret y \<longleftrightarrow> (\<exists>x. m = Ret x \<and> f x = Ret y)"
  by (cases m) simp_all

lemma bind_outcome_assoc: "bind_outcome (bind_outcome m f) g = bind_outcome m (\<lambda>x. bind_outcome (f x) g)"
  by (cases m) simp_all

lemma bind_outcome_cong:
  "m = n \<Longrightarrow> (\<And>x. n = Ret x \<Longrightarrow> f x = g x) \<Longrightarrow> bind_outcome m f = bind_outcome n g"
  by (cases n) simp_all

section \<open>Byte arrays as lists\<close>

text \<open>\<open>read_at xs off n\<close> is the block that \<open>memcpy(dst, xs + off, n)\<close> copies;
  \<open>write_at xs off ys\<close> is the array after \<open>memcpy(xs + off, ys, length ys)\<close>.\<close>

definition read_at :: "'a list \<Rightarrow> nat \<Rightarrow> nat \<Rightarrow> 'a list" where
  "read_at xs off n = take n (drop off xs)"

definition write_at :: "'a list \<Rightarrow> nat \<Rightarrow> 'a list \<Rightarrow> 'a list" where
  "write_at xs off ys = take off xs @ ys @ drop (off + length ys) xs"

lemma length_read_at [simp]: "off + n \<le> length xs \<Longrightarrow> length (read_at xs off n) = n"
  by (simp add: read_at_def)

lemma nth_read_at [simp]: "off + n \<le> length xs \<Longrightarrow> i < n \<Longrightarrow> read_at xs off n ! i = xs ! (off + i)"
  by (simp add: read_at_def)

lemma length_write_at [simp]:
  "off + length ys \<le> length xs \<Longrightarrow> length (write_at xs off ys) = length xs"
  by (simp add: write_at_def)

lemma write_at_Nil [simp]: "write_at xs off [] = xs"
  by (simp add: write_at_def)

lemma nth_write_at:
  "off + length ys \<le> length xs \<Longrightarrow> i < length xs \<Longrightarrow>
   write_at xs off ys ! i = (if off \<le> i \<and> i < off + length ys then ys ! (i - off) else xs ! i)"
  by (auto simp: write_at_def nth_append)

lemma read_at_write_at [simp]:
  "off + length ys \<le> length xs \<Longrightarrow> read_at (write_at xs off ys) off (length ys) = ys"
  by (simp add: read_at_def write_at_def)

lemma read_at_write_at_disjoint:
  assumes "off + length ys \<le> length xs" and "o2 + n \<le> length xs"
    and "o2 + n \<le> off \<or> off + length ys \<le> o2"
  shows "read_at (write_at xs off ys) o2 n = read_at xs o2 n"
  using assms by (intro nth_equalityI) (auto simp: nth_write_at)

lemma read_at_append:
  "read_at xs off (m + n) = read_at xs off m @ read_at xs (off + m) n"
  by (simp add: read_at_def take_add ac_simps)

text \<open>The number that a little-endian field of \<open>n\<close> bytes at offset \<open>off\<close> holds.\<close>

fun le_nat :: "byte list \<Rightarrow> nat" where
  "le_nat [] = 0"
| "le_nat (b # bs) = unat b + 256 * le_nat bs"

definition field :: "byte list \<Rightarrow> nat \<Rightarrow> nat \<Rightarrow> nat" where
  "field buf off n = le_nat (read_at buf off n)"

section \<open>Device numbers\<close>

text \<open>The constructors and selectors of \<open>dev_t\<close> in \<open>kernel/vfs.c\<close>, and the entry types of
  \<open>kernel/uapi/dirent.h\<close>.\<close>

definition makedev :: "u32 \<Rightarrow> u32 \<Rightarrow> u64" where
  "makedev maj mnr = push_bit 32 (ucast maj) OR ucast mnr"

definition major :: "u64 \<Rightarrow> u32" where
  "major device = ucast (drop_bit 32 device)"

definition minor :: "u64 \<Rightarrow> u32" where
  "minor device = ucast (device AND 0xffffffff)"

lemma bit_u32 [simp]: "32 \<le> n \<Longrightarrow> \<not> bit (a :: u32) n"
  using bit_imp_le_length [of a n] by auto

lemma major_makedev [simp]: "major (makedev a b) = a"
  unfolding major_def makedev_def by (auto intro!: bit_word_eqI simp: bit_simps)

lemma minor_makedev [simp]: "minor (makedev a b) = b"
proof -
  have m: "(0xffffffff :: u64) = mask 32" by (simp add: mask_eq_exp_minus_1)
  show ?thesis
    unfolding minor_def makedev_def m by (auto intro!: bit_word_eqI simp: bit_simps)
qed

definition DT_UNKNOWN :: u32 where [flag_simps]: "DT_UNKNOWN = 0"
definition DT_FILE :: u32 where [flag_simps]: "DT_FILE = 1"
definition DT_DIR :: u32 where [flag_simps]: "DT_DIR = 2"
definition DT_BLOCK :: u32 where [flag_simps]: "DT_BLOCK = 3"
definition DT_CHAR :: u32 where [flag_simps]: "DT_CHAR = 4"

section \<open>Page arithmetic\<close>

text \<open>The macros \<open>PAGE_MASK\<close> and \<open>PAGE_ALIGN\<close> of \<open>memory/paging.h\<close>.\<close>

definition page_align :: "u64 \<Rightarrow> u64" where
  "page_align addr = (addr + 4096 - 1) AND NOT 4095"

lemma and_not_4095: "x AND NOT 4095 = x div 4096 * (4096 :: u64)"
proof -
  have "x AND NOT (mask 12) = push_bit 12 (drop_bit 12 x)"
    by (auto intro!: bit_word_eqI simp: bit_simps)
  then show ?thesis by (simp add: mask_eq_exp_minus_1 push_bit_eq_mult drop_bit_eq_div)
qed

lemma unat_and_not_4095: "unat ((x :: u64) AND NOT 4095) = 4096 * (unat x div 4096)"
proof -
  have "unat x div 4096 * 4096 < 2 ^ 64"
    using unsigned_less [of x, where 'a = nat] by (simp add: le_less_trans [OF div_times_less_eq_dividend])
  then have "unat (x div 4096 * 4096) = unat (x div 4096) * 4096"
    using unat_mult_lem [of "x div 4096" 4096] by (simp add: unat_div)
  then show ?thesis unfolding and_not_4095 by (simp add: unat_div)
qed

lemma unat_page_align:
  assumes "unat x + 4095 < 2 ^ 64"
  shows "unat (page_align x) = 4096 * ((unat x + 4095) div 4096)"
proof -
  have "unat (x + 4095) = unat x + 4095"
    using unat_add_lem [of x 4095] assms by simp
  moreover have "x + 4096 - 1 = x + 4095" by simp
  ultimately show ?thesis by (simp only: page_align_def unat_and_not_4095)
qed

section \<open>Ring buffers\<close>

text \<open>
  A ring of \<open>N = length buf\<close> cells with read index \<open>r\<close> and write index \<open>w\<close> holds
  \<open>(w - r) mod N\<close> elements, so one cell always stays free.  \<open>ring_write\<close> is the copy in at
  most two pieces that \<open>pipe_write\<close> performs.
\<close>

definition ring_len :: "nat \<Rightarrow> nat \<Rightarrow> nat \<Rightarrow> nat" where
  "ring_len N r w = (if r \<le> w then w - r else N + w - r)"

definition ring_list :: "'a list \<Rightarrow> nat \<Rightarrow> nat \<Rightarrow> 'a list" where
  "ring_list buf r w =
     map (\<lambda>i. buf ! ((r + i) mod length buf)) [0..<ring_len (length buf) r w]"

definition ring_write :: "'a list \<Rightarrow> nat \<Rightarrow> 'a list \<Rightarrow> 'a list" where
  "ring_write buf w xs =
     (let first = min (length buf - w) (length xs)
      in write_at (write_at buf w (take first xs)) 0 (drop first xs))"

lemma length_ring_list [simp]: "length (ring_list buf r w) = ring_len (length buf) r w"
  by (simp add: ring_list_def)

lemma nth_ring_list [simp]:
  "i < ring_len (length buf) r w \<Longrightarrow> ring_list buf r w ! i = buf ! ((r + i) mod length buf)"
  by (simp add: ring_list_def)

lemma ring_len_less: "r < N \<Longrightarrow> w < N \<Longrightarrow> ring_len N r w < N"
  by (auto simp: ring_len_def)

lemma ring_len_mod: "r < N \<Longrightarrow> w < N \<Longrightarrow> ring_len N r w = (w + N - r) mod N"
  by (auto simp: ring_len_def mod_if)

lemma ring_len_0 [simp]: "r < N \<Longrightarrow> w < N \<Longrightarrow> ring_len N r w = 0 \<longleftrightarrow> r = w"
  by (auto simp: ring_len_def)

lemma mod_lt2: "(x::nat) < 2 * N \<Longrightarrow> x mod N = (if x < N then x else x - N)"
  by (auto simp: mod_if)

lemma ring_len_advance_read [ring_simps]:
  assumes "r < N" "w < N" "k \<le> ring_len N r w"
  shows "ring_len N ((r + k) mod N) w = ring_len N r w - k"
  using assms mod_lt2 [of "r + k" N] by (auto simp: ring_len_def split: if_splits)

lemma ring_len_advance_write [ring_simps]:
  assumes "r < N" "w < N" "ring_len N r w + k < N"
  shows "ring_len N r ((w + k) mod N) = ring_len N r w + k"
  using assms mod_lt2 [of "w + k" N] by (auto simp: ring_len_def split: if_splits)

lemma ring_list_drop [ring_simps]:
  assumes "r < length buf" "w < length buf" "k \<le> ring_len (length buf) r w"
  shows "ring_list buf ((r + k) mod length buf) w = drop k (ring_list buf r w)"
proof (rule nth_equalityI)
  show "length (ring_list buf ((r + k) mod length buf) w) = length (drop k (ring_list buf r w))"
    using assms by (simp add: ring_len_advance_read)
next
  fix i assume i: "i < length (ring_list buf ((r + k) mod length buf) w)"
  then have "k + i < ring_len (length buf) r w"
    using assms by (simp add: ring_len_advance_read)
  then show "ring_list buf ((r + k) mod length buf) w ! i = drop k (ring_list buf r w) ! i"
    using assms i by (simp add: mod_add_left_eq add.assoc)
qed

lemma length_ring_write [simp]:
  "w < length buf \<Longrightarrow> length xs \<le> length buf \<Longrightarrow> length (ring_write buf w xs) = length buf"
  by (auto simp: ring_write_def Let_def min_def)

lemma nth_ring_write:
  assumes "w < length buf" "length xs \<le> length buf" "i < length buf"
  shows "ring_write buf w xs ! i =
    (let j = (i + length buf - w) mod length buf in if j < length xs then xs ! j else buf ! i)"
  using assms mod_lt2 [of "i + length buf - w" "length buf"]
  by (auto simp: ring_write_def Let_def nth_write_at min_def add.commute)

lemma ring_list_write [ring_simps]:
  assumes "r < length buf" "w < length buf" "ring_len (length buf) r w + length xs < length buf"
  shows "ring_list (ring_write buf w xs) r ((w + length xs) mod length buf) = ring_list buf r w @ xs"
    (is "?L = ?R")
proof (rule nth_equalityI)
  show "length ?L = length ?R"
    using assms by (simp add: ring_len_advance_write)
next
  let ?N = "length buf"
  fix i assume "i < length ?L"
  then have i: "i < ring_len ?N r w + length xs"
    using assms by (simp add: ring_len_advance_write)
  have "0 < ?N"
    using assms by linarith
  then have p: "(r + i) mod ?N < ?N"
    by simp
  have j: "((r + i) mod ?N + ?N - w) mod ?N =
      (if i < ring_len ?N r w then i + ?N - ring_len ?N r w else i - ring_len ?N r w)"
    using assms i mod_lt2 [of "r + i" ?N] mod_lt2 [of "(r + i) mod ?N + ?N - w" ?N]
    by (auto simp: ring_len_def split: if_splits)
  have "?L ! i = ring_write buf w xs ! ((r + i) mod ?N)"
    using assms i by (simp add: ring_len_advance_write)
  also have "\<dots> = ?R ! i"
  proof (cases "i < ring_len ?N r w")
    case True
    then have "\<not> i + ?N - ring_len ?N r w < length xs"
      using assms by linarith
    with True assms p j show ?thesis
      by (simp add: nth_ring_write Let_def nth_append)
  next
    case False
    then have "i - ring_len ?N r w < length xs"
      using i by linarith
    with False assms p j show ?thesis
      by (simp add: nth_ring_write Let_def nth_append)
  qed
  finally show "?L ! i = ?R ! i" .
qed

lemma ring_list_take_straight:
  assumes "r \<le> w" "w < length buf" "k \<le> w - r"
  shows "take k (ring_list buf r w) = read_at buf r k"
  using assms by (intro nth_equalityI) (auto simp: ring_len_def)

lemma ring_list_take_wrap:
  assumes "r < length buf" "w < length buf" "k \<le> ring_len (length buf) r w"
  shows "take k (ring_list buf r w) =
    read_at buf r (min k (length buf - r)) @ read_at buf 0 (k - min k (length buf - r))"
    (is "?L = ?R")
proof (rule nth_equalityI)
  show "length ?L = length ?R"
    using assms by (auto simp: ring_len_def min_def split: if_splits)
next
  let ?N = "length buf"
  fix i assume "i < length ?L"
  then have i: "i < k" "i < ring_len ?N r w"
    using assms by auto
  show "?L ! i = ?R ! i"
  proof (cases "i < ?N - r")
    case True
    with assms i show ?thesis by (simp add: nth_append)
  next
    case False
    then have "(r + i) mod ?N = i - (?N - r)" "k - (?N - r) \<le> ?N" "min k (?N - r) = ?N - r"
      using assms i mod_lt2 [of "r + i" ?N] by (auto simp: ring_len_def split: if_splits)
    with assms i False show ?thesis by (simp add: nth_append)
  qed
qed

section \<open>Byte channels\<close>

text \<open>
  The contract between the two sides of a byte channel: \<open>wr s xs\<close> accepts a prefix of \<open>xs\<close>
  and says how long it is, \<open>rd s n\<close> takes at most \<open>n\<close> bytes from the front.  The pipe and
  the terminal's input ring are its two implementations.
\<close>

datatype 'a chan_op = ChRead nat | ChWrite "'a list"

fun chan_run :: "('s \<Rightarrow> nat \<Rightarrow> 'a list \<times> 's) \<Rightarrow> ('s \<Rightarrow> 'a list \<Rightarrow> nat \<times> 's) \<Rightarrow>
    's \<Rightarrow> 'a chan_op list \<Rightarrow> 'a list \<times> 'a list \<times> 's" where
  "chan_run rd wr s [] = ([], [], s)"
| "chan_run rd wr s (ChRead n # ops) =
     (case rd s n of (d, s1) \<Rightarrow> case chan_run rd wr s1 ops of (got, put, s2) \<Rightarrow> (d @ got, put, s2))"
| "chan_run rd wr s (ChWrite xs # ops) =
     (case wr s xs of (k, s1) \<Rightarrow> case chan_run rd wr s1 ops of
        (got, put, s2) \<Rightarrow> (got, take k xs @ put, s2))"

locale byte_channel =
  fixes inv :: "'s \<Rightarrow> bool"
    and contents :: "'s \<Rightarrow> 'a list"
    and cap :: nat
    and rd :: "'s \<Rightarrow> nat \<Rightarrow> 'a list \<times> 's"
    and wr :: "'s \<Rightarrow> 'a list \<Rightarrow> nat \<times> 's"
  assumes bounded: "inv s \<Longrightarrow> length (contents s) \<le> cap"
    and rd_spec: "inv s \<Longrightarrow> rd s n = (d, t) \<Longrightarrow>
      inv t \<and> d = take n (contents s) \<and> contents t = drop n (contents s)"
    and wr_spec: "inv s \<Longrightarrow> wr s xs = (k, t) \<Longrightarrow>
      inv t \<and> k \<le> length xs \<and> contents t = contents s @ take k xs"
begin

text \<open>Whatever the interleaving of reads and writes, the bytes read so far followed by the bytes
  still in the channel are the bytes that were there at the start followed by the accepted
  ones: nothing is lost, duplicated or reordered.\<close>

lemma run_stream:
  "inv s \<Longrightarrow> chan_run rd wr s ops = (got, put, t) \<Longrightarrow>
   inv t \<and> got @ contents t = contents s @ put \<and> length (contents t) \<le> cap"
proof (induction ops arbitrary: s got put)
  case Nil
  then show ?case by (auto intro: bounded)
next
  case (Cons a ops)
  show ?case
  proof (cases a)
    case (ChRead n)
    obtain d s1 where rd: "rd s n = (d, s1)" by (cases "rd s n")
    obtain got' put' t' where run: "chan_run rd wr s1 ops = (got', put', t')"
      by (cases "chan_run rd wr s1 ops")
    from Cons.prems rd run ChRead have eqs: "got = d @ got'" "put = put'" "t = t'"
      by simp_all
    from rd_spec [OF Cons.prems(1) rd] have s1: "inv s1" "d @ contents s1 = contents s"
      by auto
    from Cons.IH [OF s1(1)] run eqs have "inv t" "got' @ contents t = contents s1 @ put"
      "length (contents t) \<le> cap" by auto
    with s1(2) eqs show ?thesis by (metis append.assoc)
  next
    case (ChWrite xs)
    obtain k s1 where wr: "wr s xs = (k, s1)" by (cases "wr s xs")
    obtain got' put' t' where run: "chan_run rd wr s1 ops = (got', put', t')"
      by (cases "chan_run rd wr s1 ops")
    from Cons.prems wr run ChWrite have eqs: "got = got'" "put = take k xs @ put'" "t = t'"
      by simp_all
    from wr_spec [OF Cons.prems(1) wr] have s1: "inv s1" "contents s1 = contents s @ take k xs"
      by auto
    from Cons.IH [OF s1(1)] run eqs s1(2) show ?thesis by auto
  qed
qed

end

end
