(* ===== verification/Tty.thy ===== *)
theory Tty
  imports Prelude
begin

text \<open>
  The terminal line discipline, \<open>kernel/drivers/tty.c\<close>, \<open>tty.h\<close> and
  \<open>uapi/termios.h\<close>.  A terminal keeps a ring of 4096 input bytes that \<open>tty_read\<close> drains
  and, in canonical mode, a line of at most 1024 bytes being edited.  The callbacks
  \<open>tty->echo\<close> and \<open>tty->write\<close> and the call of \<open>kill\<close> are recorded as effects in the
  order in which they happen.  A store outside \<open>line_buffer\<close> has no defined result in C; it is
  the value \<open>None\<close> here.
\<close>

definition ICRNL :: u64 where [flag_simps]: "ICRNL = 1"
definition ISTRIP :: u64 where [flag_simps]: "ISTRIP = 2"
definition OPOST :: u64 where [flag_simps]: "OPOST = 1"
definition ONLCR :: u64 where [flag_simps]: "ONLCR = 2"
definition OCRNL :: u64 where [flag_simps]: "OCRNL = 4"
definition ICANON :: u64 where [flag_simps]: "ICANON = 1"
definition ECHO :: u64 where [flag_simps]: "ECHO = 2"
definition ECHOE :: u64 where [flag_simps]: "ECHOE = 4"
definition ISIG :: u64 where [flag_simps]: "ISIG = 16"
definition MAX_TTYS :: nat where "MAX_TTYS = 256"

definition SIGINT :: int where "SIGINT = 2"
definition SIGTSTP :: int where "SIGTSTP = 20"

record termios =
  c_iflag :: u64
  c_oflag :: u64
  c_lflag :: u64

record tty =
  termios :: termios
  read_buffer :: "byte list"
  tty_read_head :: nat
  tty_write_head :: nat
  line_buffer :: "byte list"
  line_index :: nat
  foreground_pgid :: int
  eof :: bool
  tty_name :: "string option"

datatype tty_effect = Echo "byte list" | Kill int int

definition flag :: "u64 \<Rightarrow> u64 \<Rightarrow> bool" where
  "flag fs f \<longleftrightarrow> fs AND f \<noteq> 0"

definition is_printable :: "byte \<Rightarrow> bool" where
  "is_printable c \<longleftrightarrow> 0x20 \<le> c \<and> c \<le> 0x7E"

definition is_erase :: "byte \<Rightarrow> bool" where
  "is_erase c \<longleftrightarrow> c = 0x08 \<or> c = 0x7F"

text \<open>One store into the input ring; \<open>None\<close> when the ring is full.\<close>

definition tty_push :: "tty \<Rightarrow> byte \<Rightarrow> tty option" where
  "tty_push t c =
     (if (tty_write_head t + 1) mod 4096 = tty_read_head t then None
      else Some (t\<lparr>read_buffer := (read_buffer t)[tty_write_head t := c],
                   tty_write_head := (tty_write_head t + 1) mod 4096\<rparr>))"

text \<open>The loop that moves the edited line to the ring; the flag says that it ran to its end.\<close>

fun tty_push_line :: "tty \<Rightarrow> byte list \<Rightarrow> bool \<times> tty" where
  "tty_push_line t [] = (True, t)"
| "tty_push_line t (c # cs) =
     (case tty_push t c of None \<Rightarrow> (False, t) | Some t' \<Rightarrow> tty_push_line t' cs)"

text \<open>How the input part of \<open>tty_char_recv\<close> ends: with a store out of bounds, with an early
  \<open>return\<close>, or by reaching the echo part (the flag is the local variable \<open>erased\<close>).\<close>

datatype tty_flow = Overrun | Return tty | Continue tty bool

definition tty_map_input :: "tty \<Rightarrow> byte \<Rightarrow> byte" where
  "tty_map_input t c0 =
     (let c = (if flag (c_iflag (termios t)) ISTRIP then c0 AND 0x7F else c0)
      in if flag (c_iflag (termios t)) ICRNL \<and> c = 0x0D then 0x0A else c)"

definition tty_signals :: "tty \<Rightarrow> byte \<Rightarrow> tty_effect list \<times> bool" where
  "tty_signals t c =
     (if flag (c_lflag (termios t)) ISIG then
        if c = 0x03 then
          (if foreground_pgid t > 0 then [Kill (- foreground_pgid t) SIGINT] else [], True)
        else if c = 0x1A then
          (if foreground_pgid t > 0 then [Kill (- foreground_pgid t) SIGTSTP] else [], True)
        else ([], False)
      else ([], False))"

definition tty_eof_char :: "tty \<Rightarrow> tty_flow" where
  "tty_eof_char t =
     (case tty_push_line t (take (line_index t) (line_buffer t)) of
        (False, t') \<Rightarrow> Return t'
      | (True, t') \<Rightarrow>
          Continue ((if line_index t' = 0 then t'\<lparr>eof := True\<rparr> else t')\<lparr>line_index := 0\<rparr>) False)"

definition tty_canon :: "tty \<Rightarrow> byte \<Rightarrow> tty_flow" where
  "tty_canon t c =
     (if is_erase c then
        (if line_index t > 0 then Continue (t\<lparr>line_index := line_index t - 1\<rparr>) True
         else Continue t False)
      else if c = 0x0A then
        (if line_index t \<ge> 1024 then Overrun
         else
          (let t1 = t\<lparr>line_buffer := (line_buffer t)[line_index t := c],
                      line_index := line_index t + 1\<rparr>
           in case tty_push_line t1 (take (line_index t1) (line_buffer t1)) of
                (False, t') \<Rightarrow> Return t'
              | (True, t') \<Rightarrow> Continue (t'\<lparr>line_index := 0\<rparr>) False))
      else if line_index t \<ge> 1022 then Return t
      else Continue (t\<lparr>line_buffer := (line_buffer t)[line_index t := c],
                       line_index := line_index t + 1\<rparr>) False)"

definition tty_raw :: "tty \<Rightarrow> byte \<Rightarrow> tty_flow" where
  "tty_raw t c = (case tty_push t c of None \<Rightarrow> Return t | Some t' \<Rightarrow> Continue t' False)"

definition tty_store :: "tty \<Rightarrow> byte \<Rightarrow> bool \<Rightarrow> tty_flow" where
  "tty_store t c skip_input =
     (let canon = flag (c_lflag (termios t)) ICANON in
      if canon \<and> c = 0x04 then tty_eof_char t
      else if skip_input then Continue t False
      else if canon then tty_canon t c
      else tty_raw t c)"

definition tty_echo :: "tty \<Rightarrow> byte \<Rightarrow> bool \<Rightarrow> tty_effect list" where
  "tty_echo t c erased =
     (let lflag = c_lflag (termios t); erase = [0x08, 0x20, 0x08] in
      if flag lflag ECHOE \<and> flag lflag ICANON \<and> is_erase c then
        (if erased then
           [Echo erase] @ (if is_printable (line_buffer t ! line_index t) then [] else [Echo erase])
         else [])
      else if flag lflag ECHO then
        (if is_printable c \<or> c = 0x0A then [Echo [c]] else [Echo [0x5E, c + 0x40]])
      else [])"

definition tty_input :: "tty \<Rightarrow> byte \<Rightarrow> (tty \<times> tty_effect list) option" where
  "tty_input t c0 =
     (let c = tty_map_input t c0 in
      case tty_signals t c of (kills, skip_input) \<Rightarrow>
      case tty_store t c skip_input of
        Overrun \<Rightarrow> None
      | Return t' \<Rightarrow> Some (t', kills)
      | Continue t' erased \<Rightarrow> Some (t', kills @ tty_echo t' c erased))"

definition tty_char_recv :: "tty list \<Rightarrow> int \<Rightarrow> byte \<Rightarrow> (tty list \<times> tty_effect list) option" where
  "tty_char_recv ttys tty_id c =
     (if tty_id < 0 then Some (ttys, [])
      else if tty_id \<ge> int (length ttys) then Some (ttys, [])
      else (case tty_input (ttys ! nat tty_id) c of
          None \<Rightarrow> None
        | Some (t, es) \<Rightarrow> Some (ttys[nat tty_id := t], es)))"

section \<open>Reading, writing, control\<close>

fun tty_read_loop :: "tty \<Rightarrow> nat \<Rightarrow> byte list \<times> tty" where
  "tty_read_loop t 0 = ([], t)"
| "tty_read_loop t (Suc n) =
     (if tty_read_head t = tty_write_head t then ([], t)
      else (case tty_read_loop (t\<lparr>tty_read_head := (tty_read_head t + 1) mod 4096\<rparr>) n of
          (d, t') \<Rightarrow> (read_buffer t ! tty_read_head t # d, t')))"

definition tty_get :: "tty \<Rightarrow> nat \<Rightarrow> int \<times> byte list \<times> tty" where
  "tty_get t len =
     (if eof t \<and> tty_read_head t = tty_write_head t then (0, [], t\<lparr>eof := False\<rparr>)
      else if tty_read_head t = tty_write_head t then (- EAGAIN, [], t)
      else (case tty_read_loop t len of (d, t') \<Rightarrow> (int (length d), d, t')))"

definition tty_read :: "tty list \<Rightarrow> int \<Rightarrow> nat \<Rightarrow> int \<times> byte list \<times> tty list" where
  "tty_read ttys tty_id len =
     (if tty_id < 0 then (- EINVAL, [], ttys)
      else if tty_id \<ge> int (length ttys) then (- EINVAL, [], ttys)
      else (case tty_get (ttys ! nat tty_id) len of
          (res, d, t) \<Rightarrow> (res, d, ttys[nat tty_id := t])))"

text \<open>The bytes handed to \<open>tty->write\<close>, one list per call; \<open>wr\<close> is the value the callback
  returns.\<close>

definition tty_post :: "tty \<Rightarrow> byte \<Rightarrow> byte list" where
  "tty_post t c =
     (let oflag = c_oflag (termios t) in
      if flag oflag ONLCR \<and> c = 0x0A then [0x0D, 0x0A]
      else if flag oflag OCRNL \<and> c = 0x0D then [0x0A]
      else [c])"

definition tty_write ::
    "(byte list \<Rightarrow> int) \<Rightarrow> tty list \<Rightarrow> int \<Rightarrow> byte list \<Rightarrow> int \<times> byte list list" where
  "tty_write wr ttys tty_id buf =
     (if tty_id < 0 then (- EINVAL, [])
      else if tty_id \<ge> int (length ttys) then (- EINVAL, [])
      else
       (let t = ttys ! nat tty_id in
        if flag (c_oflag (termios t)) OPOST then (int (length buf), map (tty_post t) buf)
        else (wr buf, [buf])))"

definition TCGETS :: u64 where "TCGETS = 1"
definition TCSETS :: u64 where "TCSETS = 2"
definition TCGETPGRP :: u64 where "TCGETPGRP = 10"
definition TCSETPGRP :: u64 where "TCSETPGRP = 11"

text \<open>\<open>valid w\<close> is the result of \<open>validate_user_pointer(arg, sizeof(termios_t), w)\<close> and
  \<open>umem\<close> the \<open>termios_t\<close> found at the address \<open>arg\<close>; the last component of the result is
  what the call stores there.\<close>

definition tty_ioctl ::
    "(bool \<Rightarrow> int) \<Rightarrow> termios \<Rightarrow> tty list \<Rightarrow> int \<Rightarrow> u64 \<Rightarrow> u64 \<Rightarrow> int \<times> tty list \<times> termios option" where
  "tty_ioctl valid umem ttys tty_id request arg =
     (if tty_id < 0 then (- EINVAL, ttys, None)
      else if tty_id \<ge> int (length ttys) then (- EINVAL, ttys, None)
      else
       (let i = nat tty_id; t = ttys ! i in
        if request = TCGETS then
          (if valid True < 0 then (valid True, ttys, None) else (0, ttys, Some (termios t)))
        else if request = TCSETS then
          (if valid False < 0 then (valid False, ttys, None)
           else if arg = 0 then (- EINVAL, ttys, None)
           else (0, ttys[i := t\<lparr>termios := umem\<rparr>], None))
        else if request = TCGETPGRP then (foreground_pgid t, ttys, None)
        else if request = TCSETPGRP then
          (let pg = sint (ucast arg :: u32) in
           if pg < 0 then (- EINVAL, ttys, None)
           else (0, ttys[i := t\<lparr>foreground_pgid := pg\<rparr>], None))
        else (- ENOTTY, ttys, None)))"

text \<open>\<open>register_tty\<close> of a non-null terminal; the third component is the \<open>devfs_mknod\<close> call it
  makes, as path, major and minor number.\<close>

definition register_tty ::
    "int \<Rightarrow> tty list \<Rightarrow> tty \<Rightarrow> int \<times> tty list \<times> (string \<times> int \<times> nat) option" where
  "register_tty tty_driver_index ttys t =
     (if length ttys \<ge> MAX_TTYS then (- EINVAL, ttys, None)
      else (int (length ttys), ttys @ [t],
            (case tty_name t of
               Some n \<Rightarrow> if tty_driver_index \<noteq> 0 then Some (n, tty_driver_index, length ttys) else None
             | None \<Rightarrow> None)))"

section \<open>Invariant and abstraction\<close>

definition tty_inv :: "tty \<Rightarrow> bool" where
  "tty_inv t \<longleftrightarrow> length (read_buffer t) = 4096 \<and> tty_read_head t < 4096 \<and> tty_write_head t < 4096 \<and>
     length (line_buffer t) = 1024 \<and> line_index t \<le> 1024"

definition tty_ready :: "tty \<Rightarrow> byte list" where
  "tty_ready t = ring_list (read_buffer t) (tty_read_head t) (tty_write_head t)"

definition tty_line :: "tty \<Rightarrow> byte list" where
  "tty_line t = take (line_index t) (line_buffer t)"

lemma tty_ready_frame [simp]:
  "tty_ready (t\<lparr>line_index := n\<rparr>) = tty_ready t" "tty_ready (t\<lparr>line_buffer := b\<rparr>) = tty_ready t"
  "tty_ready (t\<lparr>eof := e\<rparr>) = tty_ready t"
  by (simp_all add: tty_ready_def)

lemma tty_ready_bound: "tty_inv t \<Longrightarrow> length (tty_ready t) < 4096"
  by (simp add: tty_inv_def tty_ready_def ring_len_less)

lemma length_tty_line: "tty_inv t \<Longrightarrow> length (tty_line t) = line_index t"
  by (simp add: tty_inv_def tty_line_def)

lemma tty_full_iff:
  "tty_inv t \<Longrightarrow> (tty_write_head t + 1) mod 4096 = tty_read_head t \<longleftrightarrow> length (tty_ready t) = 4095"
  by (auto simp: tty_inv_def tty_ready_def ring_len_def mod_if)

lemma ring_write_one: "w < length buf \<Longrightarrow> ring_write buf w [c] = buf[w := c]"
  by (simp add: ring_write_def write_at_def Let_def upd_conv_take_nth_drop)

lemma tty_push_full: "tty_inv t \<Longrightarrow> tty_push t c = None \<longleftrightarrow> length (tty_ready t) = 4095"
  using tty_full_iff [of t] by (simp add: tty_push_def)

lemma tty_push_Some:
  assumes inv: "tty_inv t" and push: "tty_push t c = Some t'"
  shows "tty_inv t'" "tty_ready t' = tty_ready t @ [c]" "line_buffer t' = line_buffer t"
    "line_index t' = line_index t" "termios t' = termios t" "eof t' = eof t"
proof -
  have nfull: "length (tty_ready t) < 4095"
    using assms tty_push_full [OF inv, of c] tty_ready_bound [OF inv] by simp
  have t': "t' = t\<lparr>read_buffer := (read_buffer t)[tty_write_head t := c],
      tty_write_head := (tty_write_head t + 1) mod 4096\<rparr>"
    using push by (simp add: tty_push_def split: if_splits)
  show "tty_inv t'" using inv by (simp add: t' tty_inv_def)
  show "tty_ready t' = tty_ready t @ [c]"
    using inv nfull ring_list_write [of "tty_read_head t" "read_buffer t" "tty_write_head t" "[c]"]
    by (simp add: t' tty_inv_def tty_ready_def ring_write_one)
qed (use push in \<open>auto simp: tty_push_def split: if_splits\<close>)

lemma tty_push_line_spec:
  assumes "tty_inv t"
  shows "\<exists>t'. tty_push_line t cs = (length cs \<le> 4095 - length (tty_ready t), t') \<and> tty_inv t' \<and>
    tty_ready t' = tty_ready t @ take (4095 - length (tty_ready t)) cs \<and>
    line_buffer t' = line_buffer t \<and> line_index t' = line_index t \<and>
    termios t' = termios t \<and> eof t' = eof t"
  using assms
proof (induction cs arbitrary: t)
  case Nil
  then show ?case by simp
next
  case (Cons c cs)
  show ?case
  proof (cases "tty_push t c")
    case None
    with Cons.prems have "length (tty_ready t) = 4095" by (simp add: tty_push_full)
    with None Cons.prems show ?thesis by simp
  next
    case (Some t1)
    note p = tty_push_Some [OF Cons.prems Some]
    have room: "length (tty_ready t) < 4095"
      using Some tty_push_full [OF Cons.prems, of c] tty_ready_bound [OF Cons.prems] by simp
    then have "4095 - length (tty_ready t) = Suc (4095 - length (tty_ready t1))"
      using p(2) by simp
    with Some Cons.IH [OF p(1)] p show ?thesis by auto
  qed
qed

section \<open>Canonical mode refines a line editor\<close>

text \<open>The editor as a user sees it: bytes ready to be read, the line being typed, and the pending
  end-of-file.  When the ready bytes leave no room for the line, the part that fits is published and the
  line stays.  \<open>None\<close> is a newline behind the end of the line buffer; \<open>isig\<close> says that control-C
  and control-Z are signals.\<close>

type_synonym editor = "byte list \<times> byte list \<times> bool"

definition editor_step :: "bool \<Rightarrow> editor \<Rightarrow> byte \<Rightarrow> editor option" where
  "editor_step isig e c =
     (case e of (ready, line, end_of_file) \<Rightarrow>
        let room = 4095 - length ready in
        if isig \<and> (c = 0x03 \<or> c = 0x1A) then Some e
        else if c = 0x04 then
          Some (if length line \<le> room then (ready @ line, [], end_of_file \<or> line = [])
                else (ready @ take room line, line, end_of_file))
        else if is_erase c then Some (ready, butlast line, end_of_file)
        else if c = 0x0A then
          (if length line \<ge> 1024 then None
           else if length line < room then Some (ready @ line @ [c], [], end_of_file)
           else Some (ready @ take room (line @ [c]), line @ [c], end_of_file))
        else if length line \<ge> 1022 then Some e
        else Some (ready, line @ [c], end_of_file))"

definition tty_editor :: "tty \<Rightarrow> editor" where
  "tty_editor t = (tty_ready t, tty_line t, eof t)"

definition canonical :: "tty \<Rightarrow> bool" where
  "canonical t \<longleftrightarrow> flag (c_lflag (termios t)) ICANON"

lemma take_update_append:
  "n < length xs \<Longrightarrow> take (Suc n) (xs[n := x]) = take n xs @ [x]"
  by (simp add: take_Suc_conv_app_nth)

lemma tty_line_Nil: "tty_inv t \<Longrightarrow> tty_line t = [] \<longleftrightarrow> line_index t = 0"
  using length_tty_line [of t] by force

lemma tty_eof_char_refines:
  assumes "tty_inv t"
  shows "\<exists>t' b. (tty_eof_char t = Continue t' b \<or> tty_eof_char t = Return t') \<and> tty_inv t' \<and>
    termios t' = termios t \<and> Some (tty_editor t') = editor_step isig (tty_editor t) 0x04"
proof -
  let ?fits = "length (tty_line t) \<le> 4095 - length (tty_ready t)"
  from tty_push_line_spec [OF assms, of "tty_line t"]
  obtain t1 where t1: "tty_push_line t (tty_line t) = (?fits, t1)" "tty_inv t1"
      "tty_ready t1 = tty_ready t @ take (4095 - length (tty_ready t)) (tty_line t)" "line_buffer t1 = line_buffer t"
      "line_index t1 = line_index t" "termios t1 = termios t" "eof t1 = eof t"
    by blast
  show ?thesis
  proof (cases ?fits)
    case True
    then have "tty_eof_char t = Continue ((if line_index t = 0 then t1\<lparr>eof := True\<rparr> else t1)\<lparr>line_index := 0\<rparr>) False"
      using t1 by (simp add: tty_eof_char_def tty_line_def [symmetric])
    then show ?thesis using True t1 tty_line_Nil [OF assms]
      by (auto simp: tty_inv_def tty_editor_def editor_step_def Let_def) (auto simp: tty_line_def)
  next
    case False
    then have "tty_eof_char t = Return t1" using t1 by (simp add: tty_eof_char_def tty_line_def [symmetric])
    then show ?thesis using False t1
      by (auto simp: tty_editor_def editor_step_def Let_def) (auto simp: tty_line_def)
  qed
qed

lemma tty_newline_refines:
  assumes inv: "tty_inv t" and idx: "line_index t < 1024"
  shows "\<exists>t' b. (tty_canon t 0x0A = Continue t' b \<or> tty_canon t 0x0A = Return t') \<and> tty_inv t' \<and>
    termios t' = termios t \<and> Some (tty_editor t') = editor_step isig (tty_editor t) 0x0A"
proof -
  let ?room = "4095 - length (tty_ready t)" and ?line = "tty_line t @ [0x0A]"
  have len: "length (line_buffer t) = 1024" using inv by (simp add: tty_inv_def)
  define t1 where "t1 = t\<lparr>line_buffer := (line_buffer t)[line_index t := 0x0A], line_index := line_index t + 1\<rparr>"
  have t1: "tty_inv t1" "tty_ready t1 = tty_ready t" "eof t1 = eof t" "termios t1 = termios t" "tty_line t1 = ?line"
    using inv idx len by (simp_all add: t1_def tty_inv_def tty_ready_def tty_line_def take_update_append)
  from tty_push_line_spec [OF t1(1), of ?line, unfolded t1(2)]
  obtain t2 where t2: "tty_push_line t1 ?line = (length ?line \<le> ?room, t2)" "tty_inv t2"
    "tty_ready t2 = tty_ready t @ take ?room ?line" "line_buffer t2 = line_buffer t1" "line_index t2 = line_index t1"
    "eof t2 = eof t" "termios t2 = termios t"
    using t1(3,4) by auto
  have t2_line: "tty_line t2 = ?line" using t1(5) t2(4,5) by (simp add: tty_line_def)
  have line: "length (tty_line t) = line_index t" by (rule length_tty_line [OF inv])
  have canon: "tty_canon t 0x0A = (if length ?line \<le> ?room then Continue (t2\<lparr>line_index := 0\<rparr>) False else Return t2)"
    using idx t1(5) t2(1) unfolding tty_canon_def t1_def [symmetric] Let_def by (simp add: is_erase_def tty_line_def)
  show ?thesis
  proof (cases "length ?line \<le> ?room")
    case True
    then show ?thesis using canon t2 idx line
      by (intro exI [of _ "t2\<lparr>line_index := 0\<rparr>"] exI [of _ False])
        (auto simp: tty_inv_def tty_editor_def editor_step_def Let_def is_erase_def tty_line_def)
  next
    case False
    then show ?thesis using canon t2 t2_line idx line
      by (intro exI [of _ t2] exI [of _ False]) (auto simp: tty_editor_def editor_step_def Let_def is_erase_def)
  qed
qed

lemma tty_canon_refines:
  assumes inv: "tty_inv t" and c: "c \<noteq> 0x04" "\<not> (isig \<and> (c = 0x03 \<or> c = 0x1A))"
  shows "case editor_step isig (tty_editor t) c of
      None \<Rightarrow> tty_canon t c = Overrun
    | Some e \<Rightarrow> \<exists>t' b. (tty_canon t c = Continue t' b \<or> tty_canon t c = Return t') \<and> tty_inv t' \<and>
        termios t' = termios t \<and> tty_editor t' = e"
proof -
  have len: "length (line_buffer t) = 1024" using inv by (simp add: tty_inv_def)
  have line: "length (tty_line t) = line_index t" by (rule length_tty_line [OF inv])
  consider (erase) "is_erase c" | (overrun) "c = 0x0A" "line_index t \<ge> 1024"
    | (newline) "c = 0x0A" "line_index t < 1024"
    | (overlong) "c \<noteq> 0x0A" "\<not> is_erase c" "line_index t \<ge> 1022"
    | (plain) "c \<noteq> 0x0A" "\<not> is_erase c" "line_index t < 1022"
    by linarith
  then show ?thesis
  proof cases
    case erase
    with inv len c show ?thesis
      by (auto simp: tty_canon_def tty_inv_def tty_editor_def editor_step_def tty_ready_def tty_line_def
          butlast_take Let_def)
  next
    case overrun
    with line show ?thesis by (simp add: tty_canon_def tty_editor_def editor_step_def is_erase_def Let_def)
  next
    case newline
    with tty_newline_refines [OF inv newline(2), of isig] show ?thesis by (auto split: option.split)
  next
    case overlong
    with inv c line show ?thesis
      by (auto simp: tty_canon_def tty_editor_def editor_step_def Let_def)
  next
    case plain
    with inv len c line show ?thesis
      by (auto simp: tty_canon_def tty_inv_def tty_editor_def editor_step_def tty_ready_def tty_line_def
          take_update_append Let_def)
  qed
qed

text \<open>C16. In canonical mode a received character makes exactly the step of the abstract line editor, in every
  state of a well-formed terminal: erase removes the last byte, newline publishes the line, control-D
  publishes it without a newline or raises end-of-file on an empty line, a signal character changes nothing, other bytes
  extend the line up to 1022; with too little room in the ring only a part is published and the line stays, and a newline
  behind the 1024 bytes of the line buffer is a store out of bounds, the only input that is.\<close>

theorem tty_input_refines_editor:
  assumes "tty_inv t" "canonical t"
  shows "case editor_step (flag (c_lflag (termios t)) ISIG) (tty_editor t) (tty_map_input t c) of
      None \<Rightarrow> tty_input t c = None
    | Some e \<Rightarrow> \<exists>t' es. tty_input t c = Some (t', es) \<and> tty_inv t' \<and> canonical t' \<and> tty_editor t' = e"
proof -
  let ?c = "tty_map_input t c" and ?isig = "flag (c_lflag (termios t)) ISIG"
  have "snd (tty_signals t ?c) = (?isig \<and> (?c = 0x03 \<or> ?c = 0x1A))" by (simp add: tty_signals_def)
  then obtain kills where sig: "tty_signals t ?c = (kills, ?isig \<and> (?c = 0x03 \<or> ?c = 0x1A))"
    by (cases "tty_signals t ?c") auto
  consider (eof) "?c = 0x04" | (signal) "?isig" "?c = 0x03 \<or> ?c = 0x1A"
    | (canon) "?c \<noteq> 0x04" "\<not> (?isig \<and> (?c = 0x03 \<or> ?c = 0x1A))" by blast
  then show ?thesis
  proof cases
    case eof
    obtain t' b where t': "tty_eof_char t = Continue t' b \<or> tty_eof_char t = Return t'" "tty_inv t'"
        "termios t' = termios t" "editor_step ?isig (tty_editor t) ?c = Some (tty_editor t')"
      using tty_eof_char_refines [OF assms(1), of ?isig] eof by metis
    then show ?thesis using assms(2) eof sig
      by (auto simp: tty_input_def Let_def tty_store_def canonical_def)
  next
    case signal
    then show ?thesis using assms sig
      by (auto simp: tty_input_def Let_def tty_store_def editor_step_def tty_editor_def)
  next
    case canon
    have inp: "tty_input t c = (case tty_canon t ?c of Overrun \<Rightarrow> None | Return t' \<Rightarrow> Some (t', kills)
        | Continue t' erased \<Rightarrow> Some (t', kills @ tty_echo t' ?c erased))"
      using assms(2) canon sig by (auto simp: tty_input_def Let_def tty_store_def canonical_def)
    show ?thesis using tty_canon_refines [OF assms(1) canon] assms(2)
      by (auto simp: inp canonical_def split: option.splits)
  qed
qed

definition fresh_tty :: "u64 \<Rightarrow> tty" where
  "fresh_tty lflag = \<lparr>termios = \<lparr>c_iflag = 0, c_oflag = 0, c_lflag = lflag\<rparr>,
     read_buffer = replicate 4096 0, tty_read_head = 0, tty_write_head = 0,
     line_buffer = replicate 1024 0, line_index = 0, foreground_pgid = 0, eof = False, tty_name = None\<rparr>"

lemma fresh_tty_inv [simp]: "tty_inv (fresh_tty lflag)"
  by (simp add: fresh_tty_def tty_inv_def)

lemma fresh_tty_ready [simp]: "tty_ready (fresh_tty lflag) = []"
  by (simp add: fresh_tty_def tty_ready_def ring_list_def ring_len_def)

lemma fresh_tty_simps [simp]:
  "line_index (fresh_tty lflag) = 0" "termios (fresh_tty lflag) = \<lparr>c_iflag = 0, c_oflag = 0, c_lflag = lflag\<rparr>"
  by (simp_all add: fresh_tty_def)

lemma fresh_canonical: "canonical (fresh_tty ICANON)"
  by (simp add: canonical_def flag_def flag_simps)

theorem tty_input_refines_editor_witness:
  "\<exists>t' es. tty_input (fresh_tty ICANON) 0x61 = Some (t', es) \<and> tty_editor t' = ([], [0x61], False)"
  using tty_input_refines_editor [of "fresh_tty ICANON" "0x61"] fresh_canonical
  by (fastforce simp: flag_def flag_simps tty_map_input_def Let_def
      tty_editor_def editor_step_def tty_line_def is_erase_def fresh_tty_def [of 1] tty_ready_def
      ring_list_def ring_len_def tty_inv_def)

section \<open>The newline that overruns the line buffer\<close>

text \<open>The newline branch stores at \<open>line_buffer[line_index]\<close> without the bound that the other
  branch checks.  While the ring is full the line is never flushed and \<open>line_index\<close> grows by
  one with each newline.\<close>

fun tty_run :: "tty \<Rightarrow> byte list \<Rightarrow> tty option" where
  "tty_run t [] = Some t"
| "tty_run t (c # cs) = (case tty_input t c of None \<Rightarrow> None | Some (t', _) \<Rightarrow> tty_run t' cs)"

lemma tty_run_append: "tty_run t (xs @ ys) = Option.bind (tty_run t xs) (\<lambda>t'. tty_run t' ys)"
  by (induction xs arbitrary: t) (auto split: option.splits)

definition plain_canonical :: "tty \<Rightarrow> bool" where
  "plain_canonical t \<longleftrightarrow> c_iflag (termios t) = 0 \<and> c_lflag (termios t) = ICANON"

lemma tty_newline_input:
  "plain_canonical t \<Longrightarrow> tty_input t 0x0A =
     (case tty_canon t 0x0A of Overrun \<Rightarrow> None | Return t' \<Rightarrow> Some (t', [])
      | Continue t' b \<Rightarrow> Some (t', tty_echo t' 0x0A b))"
  by (simp add: plain_canonical_def tty_input_def tty_map_input_def tty_signals_def tty_store_def
      flag_def flag_simps split: tty_flow.split)

lemma tty_newline_empty_line:
  assumes "tty_inv t" "plain_canonical t" "line_index t = 0" "length (tty_ready t) < 4095"
  shows "\<exists>t' es. tty_input t 0x0A = Some (t', es) \<and> tty_inv t' \<and> plain_canonical t' \<and>
    line_index t' = 0 \<and> length (tty_ready t') = Suc (length (tty_ready t))"
proof -
  obtain t' b where t': "tty_canon t 0x0A = Continue t' b \<or> tty_canon t 0x0A = Return t'" "tty_inv t'"
      "termios t' = termios t" "Some (tty_editor t') = editor_step False (tty_editor t) 0x0A"
    using tty_newline_refines [OF assms(1), of False] assms(3) by auto
  have "tty_line t' = []" "length (tty_ready t') = Suc (length (tty_ready t))"
    using t'(4) assms(3,4) by (auto simp: tty_editor_def editor_step_def Let_def is_erase_def tty_line_def)
  then show ?thesis using t' assms(2) by (auto simp: tty_newline_input plain_canonical_def tty_line_Nil)
qed

lemma tty_newline_full_ring:
  assumes "tty_inv t" "plain_canonical t" "length (tty_ready t) = 4095" "line_index t < 1024"
  shows "\<exists>t' es. tty_input t 0x0A = Some (t', es) \<and> tty_inv t' \<and> plain_canonical t' \<and>
    line_index t' = Suc (line_index t) \<and> length (tty_ready t') = 4095"
proof -
  define t1 where "t1 = t\<lparr>line_buffer := (line_buffer t)[line_index t := 0x0A],
      line_index := line_index t + 1\<rparr>"
  have t1: "tty_inv t1" "length (tty_ready t1) = 4095" "line_index t1 = Suc (line_index t)"
    "termios t1 = termios t"
    using assms by (simp_all add: t1_def tty_inv_def)
  have "length (take (line_index t1) (line_buffer t1)) = Suc (line_index t)"
    using t1 by (simp add: tty_inv_def)
  with tty_push_line_spec [OF t1(1), of "take (line_index t1) (line_buffer t1)"] t1
  obtain t2 where t2: "tty_push_line t1 (take (line_index t1) (line_buffer t1)) = (False, t2)"
      "tty_inv t2" "tty_ready t2 = tty_ready t1" "line_index t2 = Suc (line_index t)"
      "termios t2 = termios t"
    by auto
  have "tty_canon t 0x0A = Return t2"
    using assms(4) t2(1) unfolding tty_canon_def t1_def [symmetric] Let_def
    by (simp add: is_erase_def)
  with assms(2) t1 t2 show ?thesis
    by (auto simp: tty_newline_input plain_canonical_def)
qed

lemma tty_newlines_fill:
  assumes "tty_inv t" "plain_canonical t" "line_index t = 0" "length (tty_ready t) + n \<le> 4095"
  shows "\<exists>t'. tty_run t (replicate n 0x0A) = Some t' \<and> tty_inv t' \<and> plain_canonical t' \<and>
    line_index t' = 0 \<and> length (tty_ready t') = length (tty_ready t) + n"
  using assms
proof (induction n arbitrary: t)
  case (Suc n)
  from tty_newline_empty_line [OF Suc.prems(1-3)] Suc.prems(4)
  obtain t1 es where "tty_input t 0x0A = Some (t1, es)" "tty_inv t1" "plain_canonical t1"
      "line_index t1 = 0" "length (tty_ready t1) = Suc (length (tty_ready t))" by auto
  with Suc.IH [of t1] Suc.prems(4) show ?case by auto
qed simp

lemma tty_newlines_grow:
  assumes "tty_inv t" "plain_canonical t" "length (tty_ready t) = 4095" "line_index t + n \<le> 1024"
  shows "\<exists>t'. tty_run t (replicate n 0x0A) = Some t' \<and> tty_inv t' \<and> plain_canonical t' \<and>
    line_index t' = line_index t + n"
  using assms
proof (induction n arbitrary: t)
  case (Suc n)
  from tty_newline_full_ring [OF Suc.prems(1-3)] Suc.prems(4)
  obtain t1 es where "tty_input t 0x0A = Some (t1, es)" "tty_inv t1" "plain_canonical t1"
      "line_index t1 = Suc (line_index t)" "length (tty_ready t1) = 4095" by auto
  with Suc.IH [of t1] Suc.prems(4) show ?case by auto
qed simp

text \<open>The line discipline is not memory safe: when nobody reads from a canonical terminal, 4095
  newlines fill the input ring, 1024 more fill the line buffer, and the next one stores past its
  end.  Up to that point every newline is processed without a fault.\<close>

theorem tty_newline_overrun:
  "tty_run (fresh_tty ICANON) (replicate 5119 0x0A) \<noteq> None \<and>
   tty_run (fresh_tty ICANON) (replicate 5120 0x0A) = None"
proof -
  have plain: "plain_canonical (fresh_tty ICANON)"
    by (simp add: plain_canonical_def)
  obtain t where t: "tty_run (fresh_tty ICANON) (replicate 4095 0x0A) = Some t" "tty_inv t"
      "plain_canonical t" "line_index t = 0" "length (tty_ready t) = 4095"
    using tty_newlines_fill [of "fresh_tty ICANON" 4095, OF _ plain] by auto
  obtain u where u: "tty_run t (replicate 1024 0x0A) = Some u" "plain_canonical u" "line_index u = 1024"
    using tty_newlines_grow [OF t(2,3,5), of 1024] t(4) by auto
  have run: "tty_run (fresh_tty ICANON) (replicate 5119 0x0A) = Some u"
    using t(1) u(1) tty_run_append [of _ "replicate 4095 0x0A" "replicate 1024 0x0A"]
    by (simp add: replicate_add [symmetric])
  have "tty_run u [0x0A] = None"
    using u by (simp add: tty_newline_input tty_canon_def is_erase_def)
  then have "tty_run (fresh_tty ICANON) (replicate 5119 0x0A @ [0x0A]) = None"
    using run by (simp add: tty_run_append)
  moreover have "replicate 5120 (0x0A :: byte) = replicate 5119 0x0A @ [0x0A]"
    using replicate_add [of 5119 1 "0x0A :: byte"] by simp
  ultimately show ?thesis using run by simp
qed

section \<open>Raw mode as a byte channel\<close>

text \<open>Without canonical mode, signals and input mapping the terminal is a byte channel from the
  keyboard (or the serial line) to the reader: \<open>tty_wr\<close> feeds a list of received characters and
  counts the accepted ones, \<open>tty_rd\<close> is the data of a \<open>tty_read\<close>.\<close>

definition raw_inv :: "tty \<Rightarrow> bool" where
  "raw_inv t \<longleftrightarrow> tty_inv t \<and> \<not> flag (c_lflag (termios t)) ICANON \<and> \<not> flag (c_lflag (termios t)) ISIG
     \<and> \<not> flag (c_iflag (termios t)) ISTRIP \<and> \<not> flag (c_iflag (termios t)) ICRNL"

definition tty_rd :: "tty \<Rightarrow> nat \<Rightarrow> byte list \<times> tty" where
  "tty_rd t n = (case tty_get t n of (_, d, t') \<Rightarrow> (d, t'))"

definition tty_wr :: "tty \<Rightarrow> byte list \<Rightarrow> nat \<times> tty" where
  "tty_wr t cs = (case tty_run t cs of
       Some t' \<Rightarrow> (length (tty_ready t') - length (tty_ready t), t') | None \<Rightarrow> (0, t))"

lemma tty_read_loop_spec:
  assumes "tty_inv t"
  shows "\<exists>h. tty_read_loop t n = (take n (tty_ready t), t\<lparr>tty_read_head := h\<rparr>) \<and>
    tty_inv (t\<lparr>tty_read_head := h\<rparr>) \<and> tty_ready (t\<lparr>tty_read_head := h\<rparr>) = drop n (tty_ready t)"
  using assms
proof (induction n arbitrary: t)
  case 0
  then show ?case by (auto intro: exI [of _ "tty_read_head t"])
next
  case (Suc n)
  have h: "length (read_buffer t) = 4096" "tty_read_head t < 4096" "tty_write_head t < 4096"
    using Suc.prems by (simp_all add: tty_inv_def)
  show ?case
  proof (cases "tty_read_head t = tty_write_head t")
    case True
    then have "tty_ready t = []" by (simp add: tty_ready_def ring_list_def ring_len_def)
    moreover have "t\<lparr>tty_read_head := tty_read_head t\<rparr> = t" by simp
    ultimately show ?thesis
      using True Suc.prems
      by (intro exI [of _ "tty_read_head t"]) (simp add: tty_inv_def tty_ready_def)
  next
    case False
    let ?t1 = "t\<lparr>tty_read_head := (tty_read_head t + 1) mod 4096\<rparr>"
    have len: "1 \<le> ring_len 4096 (tty_read_head t) (tty_write_head t)"
      using False h ring_len_0 [of "tty_read_head t" 4096 "tty_write_head t"] by linarith
    have ready1: "tty_ready ?t1 = drop 1 (tty_ready t)"
      using h len ring_list_drop [of "tty_read_head t" "read_buffer t" "tty_write_head t" 1]
      by (simp add: tty_ready_def)
    have hd: "tty_ready t = read_buffer t ! tty_read_head t # drop 1 (tty_ready t)"
      using h len by (intro nth_equalityI) (auto simp: tty_ready_def nth_Cons')
    have "tty_inv ?t1" using Suc.prems by (simp add: tty_inv_def)
    from Suc.IH [OF this] obtain h1 where
      "tty_read_loop ?t1 n = (take n (tty_ready ?t1), t\<lparr>tty_read_head := h1\<rparr>)"
      "tty_inv (t\<lparr>tty_read_head := h1\<rparr>)" "tty_ready (t\<lparr>tty_read_head := h1\<rparr>) = drop n (tty_ready ?t1)"
      by auto
    with False hd show ?thesis unfolding ready1
      by (metis (mono_tags, lifting) One_nat_def drop_Suc_Cons take_Suc_Cons drop0 case_prod_conv
          tty_read_loop.simps(2))
  qed
qed

lemma tty_rd_spec:
  assumes "raw_inv t" and "tty_rd t n = (d, t')"
  shows "raw_inv t' \<and> d = take n (tty_ready t) \<and> tty_ready t' = drop n (tty_ready t)"
proof (cases "tty_read_head t = tty_write_head t")
  case True
  then have "tty_ready t = []" by (simp add: tty_ready_def ring_list_def ring_len_def)
  with True assms show ?thesis
    by (auto simp: tty_rd_def tty_get_def raw_inv_def tty_inv_def split: if_splits)
next
  case False
  with assms tty_read_loop_spec [of t n] show ?thesis
    by (auto simp: tty_rd_def tty_get_def raw_inv_def)
qed

lemma tty_run_raw:
  assumes "raw_inv t"
  shows "\<exists>t'. tty_run t cs = Some t' \<and> raw_inv t' \<and>
    tty_ready t' = tty_ready t @ take (4095 - length (tty_ready t)) cs"
  using assms
proof (induction cs arbitrary: t)
  case (Cons c cs)
  have inv: "tty_inv t" using Cons.prems by (simp add: raw_inv_def)
  have inp: "\<exists>es. tty_input t c = Some (case tty_push t c of None \<Rightarrow> t | Some t' \<Rightarrow> t', es)"
    using Cons.prems
    by (auto simp: raw_inv_def tty_input_def tty_map_input_def tty_signals_def tty_store_def tty_raw_def
        split: option.split)
  show ?case
  proof (cases "tty_push t c")
    case None
    with inv have "length (tty_ready t) = 4095" by (simp add: tty_push_full)
    with None inp Cons.IH [OF Cons.prems] show ?thesis by auto
  next
    case (Some t1)
    note p = tty_push_Some [OF inv Some]
    have "length (tty_ready t) < 4095"
      using Some tty_push_full [OF inv, of c] tty_ready_bound [OF inv] by simp
    then have "4095 - length (tty_ready t) = Suc (4095 - length (tty_ready t1))"
      using p(2) by simp
    moreover have "raw_inv t1" using Cons.prems p by (simp add: raw_inv_def)
    ultimately show ?thesis using Some inp Cons.IH [of t1] p(2) by auto
  qed
qed simp

lemma tty_wr_spec:
  assumes "raw_inv t" and "tty_wr t cs = (k, t')"
  shows "raw_inv t' \<and> k \<le> length cs \<and> tty_ready t' = tty_ready t @ take k cs"
proof -
  from tty_run_raw [OF assms(1), of cs] obtain u where u: "tty_run t cs = Some u" "raw_inv u"
    "tty_ready u = tty_ready t @ take (4095 - length (tty_ready t)) cs" by blast
  with assms(2) have "t' = u" "k = min (length cs) (4095 - length (tty_ready t))"
    by (auto simp: tty_wr_def min_def)
  with u show ?thesis by (simp add: min_def)
qed

interpretation tty_chan: byte_channel raw_inv tty_ready 4095 tty_rd tty_wr
proof unfold_locales
  fix s assume "raw_inv s"
  then show "length (tty_ready s) \<le> 4095"
    using tty_ready_bound [of s] by (simp add: raw_inv_def)
qed (rule tty_rd_spec tty_wr_spec; assumption)+

text \<open>In raw mode the terminal delivers what it accepted: over any interleaving of received
  characters and reads, the bytes read followed by the bytes still buffered are the accepted
  characters in the order of arrival.\<close>

theorem tty_raw_stream:
  assumes "raw_inv t"
  shows "case chan_run tty_rd tty_wr t ops of (got, put, t') \<Rightarrow>
    got @ tty_ready t' = tty_ready t @ put \<and> raw_inv t' \<and> length (tty_ready t') \<le> 4095"
proof -
  obtain got put t' where run: "chan_run tty_rd tty_wr t ops = (got, put, t')"
    by (cases "chan_run tty_rd tty_wr t ops")
  from tty_chan.run_stream [OF assms run] show ?thesis by (simp add: run)
qed

theorem tty_raw_stream_witness:
  "raw_inv (fresh_tty 0) \<and>
   (case chan_run tty_rd tty_wr (fresh_tty 0) [ChWrite [1, 2], ChRead 1] of
      (got, put, t') \<Rightarrow> got @ tty_ready t' = put)"
proof -
  have "raw_inv (fresh_tty 0)" by (simp add: raw_inv_def flag_def)
  with tty_raw_stream [OF this, of "[ChWrite [1, 2], ChRead 1]"] show ?thesis
    by (auto split: prod.splits)
qed

end
