(* ===== verification/Timer.thy ===== *)
theory Timer
  imports Prelude
begin

text \<open>
  Time keeping, \<open>kernel/drivers/timer.c\<close>: the millisecond counter in the shared page, the
  programming of the interval timer as the sequence of its port writes, and the conversion between
  Unix time and calendar dates.  The loops over the years count in a 32-bit \<open>int\<close>, whose value is
  kept as the unsigned number of its bits: it wraps around, and \<open>s32\<close> is the signed value that
  \<open>is_leap\<close> sees.  Indexing \<open>mdays\<close> out of range is \<open>None\<close>.
\<close>

record vvar =
  uptime_ms :: u64
  boot_time :: u64

record datetime =
  second :: nat
  minute :: nat
  hour :: nat
  day :: nat
  month :: nat
  year :: nat

definition pit_tick :: "vvar \<Rightarrow> vvar" where
  "pit_tick v = v\<lparr>uptime_ms := uptime_ms v + 1\<rparr>"

definition pit_set_frequency :: "u32 \<Rightarrow> (u16 \<times> byte) list" where
  "pit_set_frequency frequency =
     (if frequency = 0 then []
      else (let divisor = 1193180 div frequency
            in [(0x43, 0x36), (0x40, ucast (divisor AND 0xFF)),
                (0x40, ucast (drop_bit 8 divisor AND 0xFF))]))"

definition get_time :: "vvar \<Rightarrow> u64" where
  "get_time v = boot_time v + uptime_ms v div 1000"

definition get_uptime_seconds :: "vvar \<Rightarrow> u64" where
  "get_uptime_seconds v = uptime_ms v div 1000"

definition is_leap :: "int \<Rightarrow> bool" where
  "is_leap y \<longleftrightarrow> y mod 4 = 0 \<and> (y mod 100 \<noteq> 0 \<or> y mod 400 = 0)"

definition s32 :: "nat \<Rightarrow> int" where
  "s32 y = (if y < 2 ^ 31 then int y else int y - 2 ^ 32)"

definition mdays :: "nat list" where
  "mdays = [31, 28, 31, 30, 31, 30, 31, 31, 30, 31, 30, 31]"

definition days_in_year :: "nat \<Rightarrow> nat" where
  "days_in_year y = (if is_leap (s32 y) then 366 else 365)"

text \<open>The two loops of \<open>to_unix_timestamp\<close>.  The comparison of the year counter with the unsigned field is unsigned.  \<open>dt.day - 1\<close> is computed in 32 unsigned bits.\<close>

function sum_years :: "nat \<Rightarrow> nat \<Rightarrow> nat \<Rightarrow> nat" where
  "sum_years y target days =
     (if y < target then sum_years (y + 1) target (days + (if is_leap (s32 y) then 366 else 365)) else days)"
  by pat_completeness auto
termination by (relation "measure (\<lambda>(y, target, days). target - y)") auto

function sum_months :: "nat \<Rightarrow> nat \<Rightarrow> nat \<Rightarrow> nat \<Rightarrow> nat option" where
  "sum_months m target yr days =
     (if m < target then
        if m - 1 < length mdays then
          sum_months (m + 1) target yr
            (days + mdays ! (m - 1) + (if m = 2 \<and> is_leap (s32 yr) then 1 else 0))
        else None
      else Some days)"
  by pat_completeness auto
termination by (relation "measure (\<lambda>(m, target, yr, days). target - m)") auto

definition to_unix_timestamp :: "datetime \<Rightarrow> nat option" where
  "to_unix_timestamp dt =
     (case sum_months 1 (month dt) (year dt) (sum_years 1970 (year dt) 0) of
        None \<Rightarrow> None
      | Some days \<Rightarrow>
          Some ((days + (if day dt = 0 then 4294967295 else day dt - 1)) * 86400 + hour dt * 3600 + minute dt * 60 + second dt))"

text \<open>The two loops of \<open>to_datetime\<close>.\<close>

function find_year :: "nat \<Rightarrow> nat \<Rightarrow> nat \<times> nat" where
  "find_year days y =
     (let n = (if is_leap (s32 y) then 366 else 365)
      in if days < n then (days, y) else find_year (days - n) ((y + 1) mod 2 ^ 32))"
  by pat_completeness auto
termination by (relation "measure (\<lambda>(days, y). days)") (auto split: if_splits)

function find_month :: "nat \<Rightarrow> nat \<Rightarrow> nat \<Rightarrow> (nat \<times> nat) option" where
  "find_month days m yr =
     (if m < length mdays then
        (let n = mdays ! m + (if m = 1 \<and> is_leap (s32 yr) then 1 else 0)
         in if days < n then Some (days, m) else find_month (days - n) (m + 1) yr)
      else None)"
  by pat_completeness auto
termination by (relation "measure (\<lambda>(days, m, yr). length mdays - m)") auto

definition to_datetime :: "nat \<Rightarrow> datetime option" where
  "to_datetime timestamp =
     (let days = timestamp div 86400; seconds = timestamp mod 86400 in
      case find_year days 1970 of (days1, yr) \<Rightarrow>
      case find_month days1 0 yr of
        None \<Rightarrow> None
      | Some (days2, mon) \<Rightarrow>
          Some \<lparr>second = seconds mod 3600 mod 60, minute = seconds mod 3600 div 60,
                hour = seconds div 3600, day = days2 + 1, month = mon + 1, year = yr\<rparr>)"

declare sum_years.simps [simp del] sum_months.simps [simp del]
  find_year.simps [simp del] find_month.simps [simp del]

section \<open>The calendar\<close>

definition days_in_month :: "nat \<Rightarrow> nat \<Rightarrow> nat" where
  "days_in_month yr m = mdays ! m + (if m = 1 \<and> is_leap (s32 yr) then 1 else 0)"

lemma length_mdays [simp]: "length mdays = 12"
  by (simp add: mdays_def)

lemma sum_years_eq: "sum_years y target days = days + (\<Sum>k = y..<target. days_in_year k)"
proof (induction y target days rule: sum_years.induct)
  case (1 y target days)
  then show ?case
    by (subst sum_years.simps) (auto simp: days_in_year_def sum.atLeast_Suc_lessThan)
qed

lemma sum_months_eq:
  assumes "target \<le> 13" "1 \<le> m"
  shows "sum_months m target yr days = Some (days + (\<Sum>k = m - 1..<target - 1. days_in_month yr k))"
  using assms
proof (induction m target yr days rule: sum_months.induct)
  case (1 m target yr days)
  show ?case
  proof (cases "m < target")
    case True
    with "1.prems" have "{m - 1..<target - 1} = insert (m - 1) {m..<target - 1}" by auto
    then have "(\<Sum>k = m - 1..<target - 1. days_in_month yr k) =
        days_in_month yr (m - 1) + (\<Sum>k = m..<target - 1. days_in_month yr k)"
      using "1.prems" by simp
    moreover have "m - 1 = 1 \<longleftrightarrow> m = 2" using "1.prems" by auto
    ultimately show ?thesis using True 1
      by (subst sum_months.simps) (auto simp: days_in_month_def)
  next
    case False
    then show ?thesis by (subst sum_months.simps) simp
  qed
qed

lemma find_year_rest: "find_year days y = (d, yr) \<Longrightarrow> d < days_in_year yr"
proof (induction days y rule: find_year.induct)
  case (1 days y)
  then show ?case
    by (subst (asm) (2) find_year.simps) (auto simp: days_in_year_def Let_def split: if_splits)
qed

lemma find_year_spec:
  "find_year days y = (d, yr) \<Longrightarrow> y < 2 ^ 31 \<Longrightarrow> days < (\<Sum>k = y..<2 ^ 31. days_in_year k) \<Longrightarrow>
   y \<le> yr \<and> yr < 2 ^ 31 \<and> days = d + (\<Sum>k = y..<yr. days_in_year k) \<and> d < days_in_year yr"
proof (induction days y rule: find_year.induct)
  case (1 days y)
  have split: "(\<Sum>k = y..<2 ^ 31. days_in_year k) = days_in_year y + (\<Sum>k = Suc y..<2 ^ 31. days_in_year k)"
    using "1.prems"(2) by (rule sum.atLeast_Suc_lessThan)
  show ?case
  proof (cases "days < days_in_year y")
    case True
    with "1.prems"(1,2) show ?thesis
      by (subst (asm) find_year.simps) (auto simp: days_in_year_def Let_def split: if_splits)
  next
    case False
    have in_range: "Suc y < 2 ^ 31"
    proof (rule ccontr)
      assume "\<not> Suc y < 2 ^ 31"
      then have "{Suc y..<2 ^ 31} = {}" by simp
      then show False using False split "1.prems"(3) by (simp only: sum.empty)
    qed
    then have w: "(y + 1) mod 2 ^ 32 = Suc y" by simp
    have rest: "find_year (days - days_in_year y) (Suc y) = (d, yr)"
      using False "1.prems"(1) unfolding find_year.simps [of days y] Let_def w by (simp add: days_in_year_def)
    have lt: "days - days_in_year y < (\<Sum>k = Suc y..<2 ^ 31. days_in_year k)" using False split "1.prems"(3) by linarith
    have "Suc y \<le> yr \<and> yr < 2 ^ 31 \<and> days - days_in_year y = d + (\<Sum>k = Suc y..<yr. days_in_year k) \<and> d < days_in_year yr"
      using "1.IH" [OF refl, unfolded w] rest in_range lt False unfolding days_in_year_def [of y] by blast
    with False show ?thesis
      using sum.atLeast_Suc_lessThan [of y yr days_in_year] by auto
  qed
qed

lemma find_month_spec:
  assumes "days < (\<Sum>k = m..<12. days_in_month yr k)"
  shows "\<exists>d mon. find_month days m yr = Some (d, mon) \<and> m \<le> mon \<and> mon < 12 \<and>
    days = d + (\<Sum>k = m..<mon. days_in_month yr k) \<and> d < days_in_month yr mon"
  using assms
proof (induction days m yr rule: find_month.induct)
  case (1 days m yr)
  have m: "m < 12" using "1.prems" by (rule contrapos_pp) simp
  then have split: "(\<Sum>k = m..<12. days_in_month yr k) =
      days_in_month yr m + (\<Sum>k = Suc m..<12. days_in_month yr k)"
    by (rule sum.atLeast_Suc_lessThan)
  show ?case
  proof (cases "days < days_in_month yr m")
    case True
    with m show ?thesis
      by (subst find_month.simps) (simp add: days_in_month_def Let_def)
  next
    case False
    with m have step: "find_month days m yr = find_month (days - days_in_month yr m) (Suc m) yr"
      by (subst find_month.simps) (simp add: days_in_month_def Let_def)
    have "\<exists>d mon. find_month (days - days_in_month yr m) (m + 1) yr = Some (d, mon) \<and> m + 1 \<le> mon \<and>
        mon < 12 \<and> days - days_in_month yr m = d + (\<Sum>k = m + 1..<mon. days_in_month yr k) \<and>
        d < days_in_month yr mon"
      unfolding days_in_month_def
      by (rule "1.IH" [OF _ refl, unfolded days_in_month_def])
        (use m False "1.prems" split in \<open>auto simp: days_in_month_def\<close>)
    then obtain d mon where mon: "find_month (days - days_in_month yr m) (Suc m) yr = Some (d, mon)"
        "Suc m \<le> mon" "mon < 12" "days - days_in_month yr m = d + (\<Sum>k = Suc m..<mon. days_in_month yr k)"
        "d < days_in_month yr mon" by auto
    moreover have "(\<Sum>k = m..<mon. days_in_month yr k) =
        days_in_month yr m + (\<Sum>k = Suc m..<mon. days_in_month yr k)"
      using mon(2) by (intro sum.atLeast_Suc_lessThan) simp
    ultimately show ?thesis using step False by auto
  qed
qed

lemma months_make_year: "(\<Sum>k = 0..<12. days_in_month yr k) = days_in_year yr"
  by (simp add: days_in_month_def days_in_year_def mdays_def numeral_eq_Suc)

lemma hms_roundtrip: "(s::nat) div 3600 * 3600 + s mod 3600 div 60 * 60 + s mod 3600 mod 60 = s"
  by presburger

text \<open>The Gregorian calendar in closed form: the days between 1 January 1970 and 1 January of a year, with
  a leap day every four years, none at the centuries, one every four centuries.\<close>

definition gregorian_days :: "nat \<Rightarrow> nat" where
  "gregorian_days y = 365 * (y - 1970) + (y - 1969) div 4 + (y - 1601) div 400 - (y - 1901) div 100"

lemma days_in_year_leap: "y < 2 ^ 31 \<Longrightarrow> days_in_year y = (if y mod 4 = 0 \<and> (y mod 100 \<noteq> 0 \<or> y mod 400 = 0) then 366 else 365)"
proof -
  assume "y < 2 ^ 31"
  then have "is_leap (s32 y) = is_leap (int y)" by (simp add: s32_def)
  moreover have "int y mod 4 = int (y mod 4)" "int y mod 100 = int (y mod 100)" "int y mod 400 = int (y mod 400)"
    by (simp_all add: zmod_int)
  ultimately show ?thesis unfolding days_in_year_def is_leap_def by simp
qed

lemma gregorian_years: "1970 + n \<le> 2 ^ 31 \<Longrightarrow> (\<Sum>k = 1970..<1970 + n. days_in_year k) + (n + 69) div 100 =
    365 * n + (n + 1) div 4 + (n + 369) div 400"
proof (induction n)
  case (Suc n)
  have shift: "1970 + n = Suc (n + 1) + 4 * 492" "1970 + n = Suc (n + 69) + 100 * 19"
      "1970 + n = Suc (n + 369) + 400 * 4" by simp_all
  have 4: "(1970 + n) mod 4 = Suc (n + 1) mod 4" by (simp only: shift(1) mod_mult_self2)
  have 100: "(1970 + n) mod 100 = Suc (n + 69) mod 100" by (simp only: shift(2) mod_mult_self2)
  have 400: "(1970 + n) mod 400 = Suc (n + 369) mod 400" by (simp only: shift(3) mod_mult_self2)
  have "400 dvd 1970 + n \<Longrightarrow> 100 dvd 1970 + n" "100 dvd 1970 + n \<Longrightarrow> 4 dvd 1970 + n"
    using dvd_trans [of 100 400 "1970 + n"] dvd_trans [of 4 100 "1970 + n"] by simp_all
  then have imp: "(1970 + n) mod 400 = 0 \<longrightarrow> (1970 + n) mod 100 = 0" "(1970 + n) mod 100 = 0 \<longrightarrow> (1970 + n) mod 4 = 0"
    unfolding mod_eq_0_iff_dvd by blast+
  have range: "1970 + n < 2 ^ 31" using Suc.prems by simp
  have "days_in_year (1970 + n) + (if Suc (n + 69) mod 100 = 0 then 1 else 0) =
      365 + (if Suc (n + 1) mod 4 = 0 then 1 else 0) + (if Suc (n + 369) mod 400 = 0 then 1 else 0)"
    using imp unfolding days_in_year_leap [OF range] 4 100 400 by auto
  then show ?case using Suc
    by (simp only: div_Suc add_Suc add_Suc_right sum.op_ivl_Suc) (simp split: if_splits)
qed simp

lemma gregorian_days_eq: "1970 \<le> y \<Longrightarrow> y \<le> 2 ^ 31 \<Longrightarrow> (\<Sum>k = 1970..<y. days_in_year k) = gregorian_days y"
  using gregorian_years [of "y - 1970"] by (simp add: gregorian_days_def Suc_diff_le [symmetric] add_implies_diff)

text \<open>The month loop never leaves its table, whatever the year loop has found.\<close>

lemma to_datetime_total: "\<exists>dt. to_datetime t = Some dt"
proof -
  obtain d yr where yr: "find_year (t div 86400) 1970 = (d, yr)" by (cases "find_year (t div 86400) 1970")
  then have "d < (\<Sum>k = 0..<12. days_in_month yr k)" using find_year_rest by (simp add: months_make_year)
  from find_month_spec [OF this] yr show ?thesis by (auto simp: to_datetime_def Let_def)
qed

lemma calendar_conversion:
  assumes "t div 86400 < gregorian_days (2 ^ 31)"
  shows "\<exists>dt. to_datetime t = Some dt \<and> to_unix_timestamp dt = Some t \<and>
     1 \<le> month dt \<and> month dt \<le> 12 \<and> 1 \<le> day dt \<and> day dt \<le> days_in_month (year dt) (month dt - 1) \<and>
     hour dt < 24 \<and> minute dt < 60 \<and> second dt < 60 \<and>
     1970 \<le> year dt \<and> year dt < 2 ^ 31 \<and>
     t div 86400 = gregorian_days (year dt) + (\<Sum>k = 0..<month dt - 1. days_in_month (year dt) k) + (day dt - 1) \<and>
     gregorian_days (year dt) \<le> t div 86400 \<and> t div 86400 < gregorian_days (year dt + 1)"
proof -
  obtain d yr where yr: "find_year (t div 86400) 1970 = (d, yr)"
    by (cases "find_year (t div 86400) 1970")
  have "t div 86400 < (\<Sum>k = 1970..<2 ^ 31. days_in_year k)" using assms gregorian_days_eq [of "2 ^ 31"] by simp
  note y = find_year_spec [OF yr _ this, simplified]
  then have "d < (\<Sum>k = 0..<12. days_in_month yr k)" by (simp add: months_make_year)
  from find_month_spec [OF this] obtain d2 mon where mon: "find_month d 0 yr = Some (d2, mon)"
      "mon < 12" "d = d2 + (\<Sum>k = 0..<mon. days_in_month yr k)" "d2 < days_in_month yr mon"
    by auto
  define s where "s = t mod 86400"
  have s: "s < 86400" by (simp add: s_def)
  define dt where "dt = \<lparr>second = s mod 3600 mod 60, minute = s mod 3600 div 60,
      hour = s div 3600, day = d2 + 1, month = mon + 1, year = yr\<rparr>"
  have dt: "to_datetime t = Some dt"
    by (simp add: to_datetime_def yr mon(1) Let_def dt_def s_def)
  have "sum_months 1 (mon + 1) yr (sum_years 1970 yr 0) = Some (t div 86400 - d2)"
    using mon y by (simp add: sum_months_eq sum_years_eq)
  then have "to_unix_timestamp dt = Some (t div 86400 * 86400 + s)"
    using mon y hms_roundtrip [of s] by (simp add: to_unix_timestamp_def dt_def)
  then have rt: "to_unix_timestamp dt = Some t"
    by (simp add: s_def div_mult_mod_eq)
  have "t div 86400 = gregorian_days yr + (\<Sum>k = 0..<mon. days_in_month yr k) + d2"
    using y mon gregorian_days_eq [of yr] by simp
  moreover have "gregorian_days yr \<le> t div 86400" "t div 86400 < gregorian_days (yr + 1)"
    using y gregorian_days_eq [of yr] gregorian_days_eq [of "yr + 1"] by simp_all
  ultimately show ?thesis using dt rt mon y s
    by (auto simp: dt_def less_mult_imp_div_less)
qed

lemma gregorian_days_mono: "1970 \<le> a \<Longrightarrow> a \<le> b \<Longrightarrow> b \<le> 2 ^ 31 \<Longrightarrow> gregorian_days a \<le> gregorian_days b"
  using sum_mono2 [of "{1970..<b}" "{1970..<a}" days_in_year] gregorian_days_eq [of a] gregorian_days_eq [of b] by simp

text \<open>C22. Every time stamp up to the end of the year 2147483647, the largest that the \<open>int\<close> counter of the loop can hold, is
  converted to a valid calendar date (the month table is never indexed out of range, month, day, hour, minute and second are in
  range), it is the date of the Gregorian calendar that lies \<open>t / 86400\<close> days behind 1 January 1970, and converting it
  back gives the time stamp.\<close>

theorem datetime_roundtrip:
  assumes "t div 86400 < gregorian_days 2147483648"
  shows "\<exists>dt. to_datetime t = Some dt \<and> to_unix_timestamp dt = Some t \<and>
     1 \<le> month dt \<and> month dt \<le> 12 \<and> 1 \<le> day dt \<and> day dt \<le> days_in_month (year dt) (month dt - 1) \<and>
     hour dt < 24 \<and> minute dt < 60 \<and> second dt < 60 \<and> 1970 \<le> year dt \<and> year dt \<le> 2147483647 \<and>
     t div 86400 = gregorian_days (year dt) + (\<Sum>k = 0..<month dt - 1. days_in_month (year dt) k) + (day dt - 1)"
proof -
  have "(2147483648 :: nat) = 2 ^ 31" by simp
  with assms have "t div 86400 < gregorian_days (2 ^ 31)" by (simp only:)
  from calendar_conversion [OF this] show ?thesis by fastforce
qed

text \<open>The date of 14 November 2023.\<close>

theorem datetime_roundtrip_witness:
  "\<exists>dt. to_datetime 1700000000 = Some dt \<and> to_unix_timestamp dt = Some 1700000000 \<and> 1970 \<le> year dt \<and> month dt \<le> 12"
proof -
  have "(1700000000 :: nat) div 86400 < gregorian_days 2147483648" by (simp add: gregorian_days_def)
  from datetime_roundtrip [OF this] show ?thesis by blast
qed

end
