(* ===== verification/Memops.thy ===== *)
theory Memops
  imports Prelude
begin

text \<open>
  The memory primitives of \<open>kernel/memory/mman.c\<close>: \<open>memcmp\<close>, \<open>memcpy\<close>, \<open>memset\<close> and
  \<open>memmove\<close> over a byte-addressed memory.  The optimised loops copy single bytes up to an aligned
  destination, then 64-bit words, then the remaining bytes; the lemmas show that they agree with
  the one-line specifications \<open>moved\<close> and \<open>filled\<close>, for \<open>memmove\<close> with any overlap.
\<close>

type_synonym mem = "nat \<Rightarrow> byte"

fun memcmp :: "byte list \<Rightarrow> byte list \<Rightarrow> nat \<Rightarrow> int" where
  "memcmp (a # as) (b # bs) (Suc n) = (if a \<noteq> b then uint a - uint b else memcmp as bs n)"
| "memcmp _ _ _ = 0"

definition copy_word :: "mem \<Rightarrow> nat \<Rightarrow> nat \<Rightarrow> mem" where
  "copy_word m d s = (\<lambda>a. if d \<le> a \<and> a < d + 8 then m (s + (a - d)) else m a)"

fun copy_bytes :: "mem \<Rightarrow> nat \<Rightarrow> nat \<Rightarrow> nat \<Rightarrow> mem" where
  "copy_bytes m d s 0 = m"
| "copy_bytes m d s (Suc n) = copy_bytes (m(d := m s)) (d + 1) (s + 1) n"

fun copy_words :: "mem \<Rightarrow> nat \<Rightarrow> nat \<Rightarrow> nat \<Rightarrow> mem" where
  "copy_words m d s n =
     (if n \<ge> 8 then copy_words (copy_word m d s) (d + 8) (s + 8) (n - 8) else copy_bytes m d s n)"

fun copy_align :: "mem \<Rightarrow> nat \<Rightarrow> nat \<Rightarrow> nat \<Rightarrow> mem" where
  "copy_align m d s 0 = copy_words m d s 0"
| "copy_align m d s (Suc n) =
     (if d mod 8 \<noteq> 0 then copy_align (m(d := m s)) (d + 1) (s + 1) n else copy_words m d s (Suc n))"

definition memcpy :: "mem \<Rightarrow> nat \<Rightarrow> nat \<Rightarrow> nat \<Rightarrow> mem" where
  "memcpy m dest src n = copy_align m dest src n"

text \<open>\<open>memset\<close>: the alignment test of the source is \<open>p & sizeof((uintptr_t) - 1)\<close>, that is
  \<open>p & 8\<close>.\<close>

definition set_word :: "mem \<Rightarrow> nat \<Rightarrow> byte \<Rightarrow> mem" where
  "set_word m p c = (\<lambda>a. if p \<le> a \<and> a < p + 8 then c else m a)"

fun set_bytes :: "mem \<Rightarrow> nat \<Rightarrow> byte \<Rightarrow> nat \<Rightarrow> mem" where
  "set_bytes m p c 0 = m"
| "set_bytes m p c (Suc n) = set_bytes (m(p := c)) (p + 1) c n"

fun set_words :: "mem \<Rightarrow> nat \<Rightarrow> byte \<Rightarrow> nat \<Rightarrow> mem" where
  "set_words m p c n =
     (if n \<ge> 8 then set_words (set_word m p c) (p + 8) c (n - 8) else set_bytes m p c n)"

fun set_align :: "mem \<Rightarrow> nat \<Rightarrow> byte \<Rightarrow> nat \<Rightarrow> mem" where
  "set_align m p c 0 = set_words m p c 0"
| "set_align m p c (Suc n) =
     (if p div 8 mod 2 = 1 then set_align (m(p := c)) (p + 1) c n else set_words m p c (Suc n))"

definition memset :: "mem \<Rightarrow> nat \<Rightarrow> byte \<Rightarrow> nat \<Rightarrow> mem" where
  "memset m ptr c n = set_align m ptr c n"

fun copy_down :: "mem \<Rightarrow> nat \<Rightarrow> nat \<Rightarrow> nat \<Rightarrow> mem" where
  "copy_down m d s 0 = m"
| "copy_down m d s (Suc i) = copy_down (m(d + i := m (s + i))) d s i"

definition memmove :: "mem \<Rightarrow> nat \<Rightarrow> nat \<Rightarrow> nat \<Rightarrow> mem" where
  "memmove m dest src n =
     (if dest < src \<or> dest \<ge> src + n then memcpy m dest src n else copy_down m dest src n)"

declare copy_words.simps [simp del] set_words.simps [simp del]

section \<open>Specifications\<close>

definition moved :: "mem \<Rightarrow> nat \<Rightarrow> nat \<Rightarrow> nat \<Rightarrow> mem" where
  "moved m d s n = (\<lambda>a. if d \<le> a \<and> a < d + n then m (s + (a - d)) else m a)"

definition filled :: "mem \<Rightarrow> nat \<Rightarrow> byte \<Rightarrow> nat \<Rightarrow> mem" where
  "filled m p c n = (\<lambda>a. if p \<le> a \<and> a < p + n then c else m a)"

text \<open>Copying forwards a piece of \<open>k\<close> bytes and then the rest is copying everything, provided
  the destination does not start inside the source.\<close>

lemma moved_split:
  assumes "d \<le> s \<or> s + (k + n) \<le> d"
  shows "moved (moved m d s k) (d + k) (s + k) n = moved m d s (k + n)"
  using assms by (auto simp: moved_def fun_eq_iff)

lemma copy_word_moved: "copy_word m d s = moved m d s 8"
  by (simp add: copy_word_def moved_def)

lemma upd_moved: "m(d := m s) = moved m d s 1"
  by (auto simp: moved_def fun_eq_iff)

lemma copy_bytes_moved:
  "d \<le> s \<or> s + n \<le> d \<Longrightarrow> copy_bytes m d s n = moved m d s n"
proof (induction n arbitrary: m d s)
  case 0
  then show ?case by (auto simp: moved_def fun_eq_iff)
next
  case (Suc n)
  then show ?case
    using moved_split [of d s 1 n m] by (auto simp: upd_moved)
qed

lemma copy_words_moved:
  "d \<le> s \<or> s + n \<le> d \<Longrightarrow> copy_words m d s n = moved m d s n"
proof (induction m d s n rule: copy_words.induct)
  case (1 m d s n)
  show ?case
  proof (cases "n \<ge> 8")
    case True
    then have "copy_words m d s n = moved (moved m d s 8) (d + 8) (s + 8) (n - 8)"
      using 1 by (subst copy_words.simps) (auto simp: copy_word_moved)
    then show ?thesis
      using True "1.prems" moved_split [of d s 8 "n - 8" m] by simp
  next
    case False
    with "1.prems" show ?thesis by (subst copy_words.simps) (simp add: copy_bytes_moved)
  qed
qed

lemma copy_align_moved:
  "d \<le> s \<or> s + n \<le> d \<Longrightarrow> copy_align m d s n = moved m d s n"
proof (induction n arbitrary: m d s)
  case 0
  then show ?case by (simp add: copy_words_moved)
next
  case (Suc n)
  then show ?case
    using moved_split [of d s 1 n m] by (auto simp: copy_words_moved upd_moved)
qed

lemma copy_down_moved:
  "s \<le> d \<Longrightarrow> copy_down m d s n = moved m d s n"
proof (induction n arbitrary: m)
  case 0
  then show ?case by (auto simp: moved_def fun_eq_iff)
next
  case (Suc n)
  then show ?case by (auto simp: moved_def fun_eq_iff)
qed

lemma filled_split: "filled (filled m p c k) (p + k) c n = filled m p c (k + n)"
  by (auto simp: filled_def fun_eq_iff)

lemma upd_filled: "m(p := c) = filled m p c 1"
  by (auto simp: filled_def fun_eq_iff)

lemma set_bytes_filled: "set_bytes m p c n = filled m p c n"
proof (induction n arbitrary: m p)
  case 0
  then show ?case by (auto simp: filled_def fun_eq_iff)
next
  case (Suc n)
  then show ?case using filled_split [of m p c 1 n] by (simp add: upd_filled)
qed

lemma set_words_filled: "set_words m p c n = filled m p c n"
proof (induction m p c n rule: set_words.induct)
  case (1 m p c n)
  have "set_word m p c = filled m p c 8" by (simp add: set_word_def filled_def)
  then show ?case
    using 1 filled_split [of m p c 8 "n - 8"]
    by (subst set_words.simps) (auto simp: set_bytes_filled)
qed

lemma set_align_filled: "set_align m p c n = filled m p c n"
proof (induction n arbitrary: m p)
  case 0
  then show ?case by (simp add: set_words_filled)
next
  case (Suc n)
  then show ?case using filled_split [of m p c 1 n] by (simp add: set_words_filled upd_filled)
qed

section \<open>Properties\<close>

text \<open>C23. \<open>memmove\<close> moves a block correctly whatever the overlap of source and destination,
  although for a destination below the source it runs the word-wise forward loop of
  \<open>memcpy\<close>: every destination byte becomes the old source byte and nothing else changes.\<close>

theorem memmove_correct: "memmove m dest src n = moved m dest src n"
  by (cases "dest < src \<or> dest \<ge> src + n")
     (auto simp: memmove_def memcpy_def copy_align_moved copy_down_moved)

text \<open>\<open>memset\<close> with its word-wise loop (and its odd alignment test) stores the byte in
  exactly the \<open>n\<close> cells from \<open>ptr\<close>.\<close>

theorem memset_correct: "memset m ptr c n = filled m ptr c n"
  by (simp add: memset_def set_align_filled)

lemma memcmp_eq_0_iff:
  "n \<le> length as \<Longrightarrow> n \<le> length bs \<Longrightarrow> memcmp as bs n = 0 \<longleftrightarrow> take n as = take n bs"
  by (induction as bs n rule: memcmp.induct) (auto simp: word_uint_eq_iff)

end
