(* ===== verification/Kheap.thy ===== *)
theory Kheap
  imports Memops
begin

text \<open>
  The kernel heap of \<open>kernel/memory/mman.c\<close>: a table of at most 1024 virtual regions that
  \<open>find_available_va\<close> splits first-fit and \<open>kfree\<close> marks free.  The calls into the paging
  code (\<open>alloc_region\<close>, \<open>free_page\<close>) and the clearing \<open>memset\<close> are recorded as effects.
  A kernel panic is the value \<open>None\<close>.  C's \<open>int pages\<close> is an \<open>int\<close>; the conversions to
  \<open>size_t\<close> and back are written out as word conversions.
\<close>

definition PAGE_SIZE :: nat where "PAGE_SIZE = 4096"
definition ALLOC_MAP_SIZE :: nat where "ALLOC_MAP_SIZE = 1024"

record region =
  start :: u64
  pages :: int
  free :: bool

record heap =
  kernel_heap_start :: u64
  regions :: "region list"

datatype mm_call = AllocRegion u64 u64 | ZeroFill u64 u64 | FreePage u64 | CopyBytes u64 u64 u64

definition size_t_of :: "int \<Rightarrow> u64" where
  "size_t_of i = word_of_int i"

definition int_of_size_t :: "u64 \<Rightarrow> int" where
  "int_of_size_t w = sint (ucast w :: u32)"

definition init_mman :: "u64 \<Rightarrow> heap" where
  "init_mman executable_size =
     (let hs = page_align (0xFFFFFFFF80000000 + executable_size)
      in \<lparr>kernel_heap_start = hs,
          regions = [\<lparr>start = hs, pages = int_of_size_t (0xFFFFFFFFF - hs div 4096), free = True\<rparr>]\<rparr>)"

text \<open>The index of the first region that \<open>find_available_va\<close> accepts.\<close>

fun first_fit :: "region list \<Rightarrow> u64 \<Rightarrow> nat option" where
  "first_fit [] need = None"
| "first_fit (r # rs) need =
     (if free r \<and> size_t_of (pages r) \<ge> need then Some 0 else map_option Suc (first_fit rs need))"

definition find_available_va :: "heap \<Rightarrow> u64 \<Rightarrow> (u64 \<times> heap) option" where
  "find_available_va h sz =
     (case first_fit (regions h) sz of
        None \<Rightarrow> None
      | Some i \<Rightarrow>
          (let r = regions h ! i;
               split = size_t_of (pages r) > sz;
               rest = \<lparr>start = start r + sz * 4096, pages = int_of_size_t (size_t_of (pages r) - sz),
                       free = True\<rparr>;
               rs = (if split then regions h @ [rest] else regions h)
           in if split \<and> length rs \<ge> ALLOC_MAP_SIZE then None
              else Some (start r, h\<lparr>regions := rs[i := r\<lparr>pages := int_of_size_t sz, free := False\<rparr>]\<rparr>)))"

definition kmalloc :: "heap \<Rightarrow> u64 \<Rightarrow> (u64 \<times> heap \<times> mm_call list) option" where
  "kmalloc h sz =
     (case find_available_va h (page_align sz div 4096) of
        None \<Rightarrow> None
      | Some (ptr, h') \<Rightarrow> Some (ptr, h', [AllocRegion ptr sz, ZeroFill ptr sz]))"

definition kcalloc :: "heap \<Rightarrow> u64 \<Rightarrow> u64 \<Rightarrow> (u64 \<times> heap \<times> mm_call list) option" where
  "kcalloc h num size_per_element = kmalloc h (num * size_per_element)"

text \<open>The search loop of \<open>kfree\<close> keeps the last match; without a match index 0 and size 0 remain.\<close>

fun last_match :: "region list \<Rightarrow> u64 \<Rightarrow> nat \<Rightarrow> nat \<times> int \<Rightarrow> nat \<times> int" where
  "last_match [] a i acc = acc"
| "last_match (r # rs) a i acc =
     last_match rs a (Suc i) (if start r = a then (i, pages r * 4096) else acc)"

definition kfree :: "heap \<Rightarrow> u64 \<Rightarrow> heap \<times> mm_call list" where
  "kfree h ptr =
     (if ptr < kernel_heap_start h then (h, [])
      else (case last_match (regions h) ptr 0 (0, 0) of
          (idx, bytes) \<Rightarrow>
            (h\<lparr>regions := (regions h)[idx := (regions h ! idx)\<lparr>free := True\<rparr>]\<rparr>,
             map (\<lambda>k. FreePage (ptr + of_nat (4096 * k))) [0..<(nat bytes + 4095) div 4096])))"

definition krealloc :: "heap \<Rightarrow> u64 \<Rightarrow> u64 \<Rightarrow> u64 \<Rightarrow> (u64 \<times> heap \<times> mm_call list) option" where
  "krealloc h ptr old_size new_size =
     (if ptr = 0 then kmalloc h new_size
      else if new_size = 0 then (case kfree h ptr of (h', cs) \<Rightarrow> Some (0, h', cs))
      else (case kmalloc h new_size of
          None \<Rightarrow> None
        | Some (new_ptr, h1, cs1) \<Rightarrow>
            (case kfree h1 ptr of (h2, cs2) \<Rightarrow>
              Some (new_ptr, h2,
                cs1 @ [CopyBytes new_ptr ptr (if old_size < new_size then old_size else new_size)] @ cs2))))"

section \<open>Invariant\<close>

text \<open>The byte interval a region covers, as natural numbers.\<close>

definition lo :: "region \<Rightarrow> nat" where "lo r = unat (start r)"
definition hi :: "region \<Rightarrow> nat" where "hi r = unat (start r) + 4096 * nat (pages r)"

definition apart :: "region \<Rightarrow> region \<Rightarrow> bool" where
  "apart r s \<longleftrightarrow> hi r \<le> lo s \<or> hi s \<le> lo r"

definition heap_inv :: "heap \<Rightarrow> bool" where
  "heap_inv h \<longleftrightarrow> regions h \<noteq> [] \<and> length (regions h) < ALLOC_MAP_SIZE \<and>
     (\<forall>r \<in> set (regions h). 0 < pages r \<and> pages r < 2 ^ 31 \<and> 4096 dvd lo r \<and>
        unat (kernel_heap_start h) \<le> lo r \<and> hi r < 2 ^ 64) \<and>
     (\<forall>i < length (regions h). \<forall>j < length (regions h). i \<noteq> j \<longrightarrow>
        apart (regions h ! i) (regions h ! j))"

lemma apart_sym: "apart r s \<longleftrightarrow> apart s r"
  by (auto simp: apart_def)

lemma size_t_of_small: "0 \<le> i \<Longrightarrow> i < 2 ^ 31 \<Longrightarrow> unat (size_t_of i) = nat i"
  by (simp add: size_t_of_def unat_eq_nat_uint uint_word_of_int)

lemma int_of_size_t_small:
  assumes "unat w < 2 ^ 31"
  shows "int_of_size_t w = int (unat w)"
proof -
  have "int (unat w) < int (2 ^ 31)" using assms by (simp only: of_nat_less_iff)
  then have "uint w < 2 ^ 31" by simp
  moreover have "- (2 ^ 31) \<le> uint w"
    by (rule order_trans [OF _ uint_ge_0]) simp
  ultimately show ?thesis
    by (simp add: int_of_size_t_def signed_ucast_eq signed_take_bit_int_eq_self)
qed

lemma first_fit_Some:
  "first_fit rs need = Some i \<Longrightarrow> i < length rs \<and> free (rs ! i) \<and> need \<le> size_t_of (pages (rs ! i))"
  by (induction rs arbitrary: i) (auto split: if_splits)

lemma first_fit_None:
  "first_fit rs need = None \<longleftrightarrow> (\<forall>r \<in> set rs. free r \<longrightarrow> \<not> need \<le> size_t_of (pages r))"
  by (induction rs) auto

lemma heap_invD:
  assumes "heap_inv h" "i < length (regions h)"
  shows "0 < pages (regions h ! i)" "pages (regions h ! i) < 2 ^ 31" "4096 dvd lo (regions h ! i)"
    "unat (kernel_heap_start h) \<le> lo (regions h ! i)" "hi (regions h ! i) < 2 ^ 64"
    "unat (size_t_of (pages (regions h ! i))) = nat (pages (regions h ! i))"
proof -
  have "regions h ! i \<in> set (regions h)" using assms by simp
  with assms(1) show *: "0 < pages (regions h ! i)" "pages (regions h ! i) < 2 ^ 31"
    "4096 dvd lo (regions h ! i)" "unat (kernel_heap_start h) \<le> lo (regions h ! i)"
    "hi (regions h ! i) < 2 ^ 64"
    unfolding heap_inv_def by blast+
  from *(1,2) show "unat (size_t_of (pages (regions h ! i))) = nat (pages (regions h ! i))"
    by (simp add: size_t_of_small)
qed

text \<open>Splitting a region: the front piece of \<open>sz\<close> pages and the rest are apart, inside the old
  region, and well formed.\<close>

lemma split_region:
  assumes "0 < pages r" "pages r < 2 ^ 31" "hi r < 2 ^ 64" "4096 dvd lo r" "0 < sz" "sz < size_t_of (pages r)"
  defines "front \<equiv> r\<lparr>pages := int_of_size_t sz, free := False\<rparr>"
    and "rest \<equiv> \<lparr>start = start r + sz * 4096, pages = int_of_size_t (size_t_of (pages r) - sz), free = True\<rparr>"
  shows "lo front = lo r" "hi front = lo rest" "hi rest = hi r"
    "pages front = int (unat sz)" "0 < pages rest" "pages rest < 2 ^ 31" "4096 dvd lo rest"
proof -
  have p: "unat (size_t_of (pages r)) = nat (pages r)"
    using assms by (simp add: size_t_of_small)
  have sz: "unat sz < nat (pages r)" "0 < unat sz"
    using assms p by (simp_all add: word_less_nat_alt unat_gt_0 word_neq_0_conv [symmetric])
  have "nat (pages r) < 2 ^ 31" using assms(2) by (simp add: nat_less_iff)
  with sz have sz31: "unat sz < 2 ^ 31" by linarith
  have hir: "unat (start r) + 4096 * nat (pages r) < 2 ^ 64"
    using assms by (simp add: hi_def)
  have mult: "unat (sz * 4096) = 4096 * unat sz"
    using unat_mult_lem [of sz 4096] sz hir by simp
  have start: "unat (start r + sz * 4096) = unat (start r) + 4096 * unat sz"
    using unat_add_lem [of "start r" "sz * 4096"] sz hir by (simp add: mult)
  have diff: "unat (size_t_of (pages r) - sz) = nat (pages r) - unat sz"
    using assms(6) p by (simp add: unat_sub)
  then have ri: "int_of_size_t (size_t_of (pages r) - sz) = int (nat (pages r) - unat sz)"
    using assms(2) by (subst int_of_size_t_small) simp_all
  show "pages front = int (unat sz)" using sz31 by (simp add: front_def int_of_size_t_small)
  then show "hi front = lo rest" by (simp add: hi_def lo_def front_def rest_def start)
  show "lo front = lo r" by (simp add: lo_def front_def)
  have "nat (pages rest) = nat (pages r) - unat sz"
    by (simp only: rest_def region.simps ri nat_int)
  then show "hi rest = hi r" using sz start by (simp add: hi_def rest_def)
  have pr: "pages rest = int (nat (pages r) - unat sz)" by (simp only: rest_def region.simps ri)
  have k: "0 < nat (pages r) - unat sz" "nat (pages r) - unat sz < 2 ^ 31"
    using sz \<open>nat (pages r) < 2 ^ 31\<close> by simp_all
  from k(1) show "0 < pages rest" unfolding pr by (simp only: of_nat_0_less_iff)
  from k(2) have "pages rest < int (2 ^ 31)" unfolding pr by (simp only: of_nat_less_iff)
  then show "pages rest < 2 ^ 31" by simp
  show "4096 dvd lo rest" using assms(4) by (simp add: lo_def rest_def start)
qed

text \<open>What a successful search returns, in both branches (exact fit and split): the region table
  with entry \<open>i\<close> cut down to \<open>sz\<close> pages and marked used, and possibly one new free region
  behind it.\<close>

lemma find_available_va_cases:
  assumes inv: "heap_inv h" and sz: "0 < sz" and res: "find_available_va h sz = Some (ptr, h')"
  obtains i front where "i < length (regions h)" "free (regions h ! i)"
    "ptr = start (regions h ! i)" "start front = ptr" "pages front = int (unat sz)" "\<not> free front"
    "hi front \<le> hi (regions h ! i)" "kernel_heap_start h' = kernel_heap_start h"
    "regions h' = (regions h)[i := front] \<or>
      (\<exists>rest. regions h' = (regions h)[i := front] @ [rest] \<and> free rest \<and> length (regions h) + 1 < ALLOC_MAP_SIZE
        \<and> hi front = lo rest \<and> hi rest = hi (regions h ! i) \<and> 0 < pages rest \<and> pages rest < 2 ^ 31 \<and> 4096 dvd lo rest)"
proof -
  from res obtain i where i: "first_fit (regions h) sz = Some i"
    by (auto simp: find_available_va_def split: option.splits)
  let ?r = "regions h ! i"
  let ?front = "?r\<lparr>pages := int_of_size_t sz, free := False\<rparr>"
  have ib: "i < length (regions h)" "free ?r" "sz \<le> size_t_of (pages ?r)"
    using first_fit_Some [OF i] by auto
  note r = heap_invD [OF inv ib(1)]
  show ?thesis
  proof (cases "sz < size_t_of (pages ?r)")
    case True
    note sp = split_region [OF r(1,2,5,3) sz True]
    let ?rest = "\<lparr>start = start ?r + sz * 4096, pages = int_of_size_t (size_t_of (pages ?r) - sz), free = True\<rparr>"
    have h': "ptr = start ?r" "kernel_heap_start h' = kernel_heap_start h"
        "regions h' = (regions h)[i := ?front] @ [?rest]" "length (regions h) + 1 < ALLOC_MAP_SIZE"
      using res i True ib(1)
      by (auto simp: find_available_va_def Let_def list_update_append1 split: if_splits)
    show ?thesis
    proof (rule that [of i ?front])
      show "hi ?front \<le> hi ?r" using sp r(1) by (simp add: hi_def lo_def)
      show "regions h' = (regions h)[i := ?front] \<or>
        (\<exists>rest. regions h' = (regions h)[i := ?front] @ [rest] \<and> free rest \<and> length (regions h) + 1 < ALLOC_MAP_SIZE
          \<and> hi ?front = lo rest \<and> hi rest = hi ?r \<and> 0 < pages rest \<and> pages rest < 2 ^ 31 \<and> 4096 dvd lo rest)"
        using h' sp by (intro disjI2 exI [of _ ?rest]) simp
    qed (use h' ib sp in simp_all)
  next
    case False
    with ib have eq: "sz = size_t_of (pages ?r)" by simp
    have "int_of_size_t sz = pages ?r"
      using r by (simp add: eq int_of_size_t_small nat_less_iff)
    moreover have "int (unat sz) = pages ?r" using r by (simp add: eq)
    moreover have "ptr = start ?r" "h' = h\<lparr>regions := (regions h)[i := ?front]\<rparr>"
      using res i False by (auto simp: find_available_va_def Let_def)
    ultimately show ?thesis using ib
      by (intro that [of i ?front]) (auto simp: hi_def)
  qed
qed

lemma apart_within:
  "apart r s \<Longrightarrow> lo r \<le> lo t \<Longrightarrow> hi t \<le> hi r \<Longrightarrow> apart t s"
  by (auto simp: apart_def)

lemma heap_inv_update:
  assumes inv: "heap_inv h" and i: "i < length (regions h)"
    and f: "lo f = lo (regions h ! i)" "hi f \<le> hi (regions h ! i)" "0 < pages f" "pages f < 2 ^ 31"
  shows "heap_inv (h\<lparr>regions := (regions h)[i := f]\<rparr>)"
proof -
  let ?rs = "(regions h)[i := f]"
  have "apart (?rs ! j) (?rs ! k)" if "j < length ?rs" "k < length ?rs" "j \<noteq> k" for j k
  proof -
    have "apart (regions h ! j) (regions h ! k)"
      using inv that by (simp add: heap_inv_def)
    with i f that show ?thesis
      by (cases "i = j"; cases "i = k") (auto simp: apart_def)
  qed
  moreover have "0 < pages r \<and> pages r < 2 ^ 31 \<and> 4096 dvd lo r \<and>
      unat (kernel_heap_start h) \<le> lo r \<and> hi r < 2 ^ 64" if "r \<in> set ?rs" for r
    using that heap_invD [OF inv i] f inv
    by (auto simp: heap_inv_def dest!: set_update_subset_insert [THEN subsetD])
  ultimately show ?thesis using inv by (simp add: heap_inv_def)
qed

lemma heap_inv_append:
  assumes inv: "heap_inv h" and len: "length (regions h) + 1 < ALLOC_MAP_SIZE"
    and r: "0 < pages r" "pages r < 2 ^ 31" "4096 dvd lo r" "unat (kernel_heap_start h) \<le> lo r" "hi r < 2 ^ 64"
    and apart: "\<And>j. j < length (regions h) \<Longrightarrow> apart (regions h ! j) r"
  shows "heap_inv (h\<lparr>regions := regions h @ [r]\<rparr>)"
proof -
  have "apart ((regions h @ [r]) ! j) ((regions h @ [r]) ! k)"
    if "j < Suc (length (regions h))" "k < Suc (length (regions h))" "j \<noteq> k" for j k
    using that inv apart [of j] apart [of k] apart_sym [of r]
    by (auto simp: nth_append heap_inv_def less_Suc_eq)
  with inv len r show ?thesis by (simp add: heap_inv_def)
qed

lemma find_available_va_inv:
  assumes inv: "heap_inv h" and sz: "0 < sz" and res: "find_available_va h sz = Some (ptr, h')"
  shows "heap_inv h'"
  using inv sz res
proof (rule find_available_va_cases)
  fix i f
  assume i: "i < length (regions h)" "ptr = start (regions h ! i)" and f: "start f = ptr"
    "pages f = int (unat sz)" "hi f \<le> hi (regions h ! i)" and hs: "kernel_heap_start h' = kernel_heap_start h"
    and cases: "regions h' = (regions h)[i := f] \<or>
      (\<exists>rest. regions h' = (regions h)[i := f] @ [rest] \<and> free rest \<and> length (regions h) + 1 < ALLOC_MAP_SIZE
        \<and> hi f = lo rest \<and> hi rest = hi (regions h ! i) \<and> 0 < pages rest \<and> pages rest < 2 ^ 31 \<and> 4096 dvd lo rest)"
  note r = heap_invD [OF inv i(1)]
  have "0 < unat sz" using sz by (simp add: unat_gt_0)
  moreover have "unat sz \<le> nat (pages (regions h ! i))" using f i by (simp add: hi_def)
  ultimately have "0 < pages f" "pages f < 2 ^ 31" using r f by linarith+
  then have inv1: "heap_inv (h\<lparr>regions := (regions h)[i := f]\<rparr>)"
    using f i by (intro heap_inv_update [OF inv i(1)]) (simp_all add: lo_def)
  from cases show "heap_inv h'"
  proof (elim disjE exE conjE)
    assume "regions h' = (regions h)[i := f]"
    with hs have "h' = h\<lparr>regions := (regions h)[i := f]\<rparr>" by simp
    with inv1 show ?thesis by simp
  next
    fix rest
    assume rest: "regions h' = (regions h)[i := f] @ [rest]" "length (regions h) + 1 < ALLOC_MAP_SIZE"
      "hi f = lo rest" "hi rest = hi (regions h ! i)" "0 < pages rest" "pages rest < 2 ^ 31" "4096 dvd lo rest"
    have ap: "apart ((regions h)[i := f] ! j) rest" if "j < length (regions h)" for j
    proof (cases "j = i")
      case True
      with i rest show ?thesis by (simp add: apart_def)
    next
      case False
      then have "apart (regions h ! j) (regions h ! i)" using inv that i by (simp add: heap_inv_def)
      with False rest f i show ?thesis by (auto simp: apart_def lo_def hi_def)
    qed
    have "lo (regions h ! i) \<le> lo rest" using rest(3) f i by (simp add: lo_def hi_def)
    with inv1 rest ap r have "heap_inv (h\<lparr>regions := (regions h)[i := f] @ [rest]\<rparr>)"
      using heap_inv_append [of "h\<lparr>regions := (regions h)[i := f]\<rparr>" rest] by simp
    moreover have "h' = h\<lparr>regions := (regions h)[i := f] @ [rest]\<rparr>" using hs rest(1) by simp
    ultimately show ?thesis by simp
  qed
qed

section \<open>Initial state\<close>

text \<open>The page count of the initial region is computed in 64 bits and truncated to an \<open>int\<close>: modulo
  \<open>2 ^ 32\<close> it is the number of pages up to the last page of the address space.\<close>

lemma int_of_size_t_heap_pages:
  assumes "c < 0x7F001"
  shows "int_of_size_t (0xFFFFFFFFF - of_nat (0xFFFFFFFF80000 + c)) = int (0x7FFFF - c)"
proof -
  let ?k = "0xFFFFFFFFF - (0xFFFFFFFF80000 + int c)"
  have "(0xFFFFFFFFF - of_nat (0xFFFFFFFF80000 + c) :: u64) = word_of_int ?k"
    by simp
  then have "int_of_size_t (0xFFFFFFFFF - of_nat (0xFFFFFFFF80000 + c)) =
      signed_take_bit 31 (take_bit 64 ?k)"
    by (simp only: int_of_size_t_def signed_ucast_eq uint_word_of_int_eq) simp
  also have "\<dots> = signed_take_bit 31 (0x7FFFF - int c)"
  proof -
    have "?k = 0x7FFFF - int c - 2 ^ 32 * 0xFFFF0" by simp
    then have "2 ^ 32 dvd ?k - (0x7FFFF - int c)" by (simp only:) simp
    then have "take_bit 32 ?k = take_bit 32 (0x7FFFF - int c)"
      by (simp only: take_bit_eq_mod mod_eq_dvd_iff)
    then show ?thesis by (simp add: signed_take_bit_eq_iff_take_bit_eq)
  qed
  also have "\<dots> = 0x7FFFF - int c"
    using assms by (intro signed_take_bit_int_eq_self) simp_all
  finally show ?thesis using assms by simp
qed

lemma init_mman_region:
  assumes "executable_size \<le> 0x7F000000"
  defines "c \<equiv> (unat executable_size + 4095) div 4096"
  shows "\<exists>r. regions (init_mman executable_size) = [r] \<and> free r \<and> start r = kernel_heap_start (init_mman executable_size)
    \<and> lo r = 0xFFFFFFFF80000000 + 4096 * c \<and> pages r = int (0x7FFFF - c) \<and> c < 0x7F001"
proof -
  have e: "unat executable_size \<le> 0x7F000000" using assms by (simp add: word_le_nat_alt)
  then have c: "c < 0x7F001" by (simp add: c_def)
  have sum: "unat (0xFFFFFFFF80000000 + executable_size) = 0xFFFFFFFF80000000 + unat executable_size"
    using unat_add_lem [of "0xFFFFFFFF80000000" executable_size] e by simp
  let ?hs = "page_align (0xFFFFFFFF80000000 + executable_size)"
  have hs: "unat ?hs = 0xFFFFFFFF80000000 + 4096 * c"
  proof -
    have "unat ?hs = 4096 * ((0xFFFFFFFF80000000 + unat executable_size + 4095) div 4096)"
      using e by (subst unat_page_align) (simp_all add: sum)
    also have "0xFFFFFFFF80000000 + unat executable_size + 4095 =
        (unat executable_size + 4095) + 0xFFFFFFFF80000 * 4096" by simp
    also have "4096 * (\<dots> div 4096) = 0xFFFFFFFF80000000 + 4096 * c"
      by (simp only: div_mult_self1 c_def) simp
    finally show ?thesis .
  qed
  then have "unat (?hs div 4096) = 0xFFFFFFFF80000 + c" by (simp add: unat_div)
  then have "of_nat (unat (?hs div 4096)) = (of_nat (0xFFFFFFFF80000 + c) :: u64)" by (simp only:)
  then have "?hs div 4096 = of_nat (0xFFFFFFFF80000 + c)" by (simp only: of_nat_unat ucast_id)
  then have "int_of_size_t (0xFFFFFFFFF - ?hs div 4096) = int (0x7FFFF - c)"
    using int_of_size_t_heap_pages [OF c] by (simp only:)
  with hs c show ?thesis by (simp add: init_mman_def Let_def lo_def)
qed

lemma init_mman_inv:
  assumes "executable_size \<le> 0x7F000000"
  shows "heap_inv (init_mman executable_size)"
proof -
  define c where "c = (unat executable_size + 4095) div 4096"
  obtain r where r: "regions (init_mman executable_size) = [r]"
      "start r = kernel_heap_start (init_mman executable_size)"
      "lo r = 0xFFFFFFFF80000000 + 4096 * c" "pages r = int (0x7FFFF - c)" "c < 0x7F001"
    using init_mman_region [OF assms] unfolding c_def by blast
  have "nat (pages r) = 0x7FFFF - c" "0 < pages r" "pages r < 2 ^ 31" using r by simp_all
  moreover have "hi r = lo r + 4096 * nat (pages r)" by (simp add: hi_def lo_def)
  moreover have "4096 dvd lo r" by (simp add: r(3))
  ultimately show ?thesis using r by (simp add: heap_inv_def ALLOC_MAP_SIZE_def lo_def)
qed

section \<open>Properties\<close>

lemma page_align_covers:
  assumes "unat sz \<le> 2 ^ 64 - 4096" "sz \<noteq> 0"
  shows "0 < page_align sz div 4096" "unat sz \<le> 4096 * unat (page_align sz div 4096)"
proof -
  have "unat (page_align sz div 4096) = (unat sz + 4095) div 4096"
    using assms by (simp add: unat_div unat_page_align)
  moreover have "0 < unat sz" using assms by (simp add: unat_gt_0)
  ultimately show "unat sz \<le> 4096 * unat (page_align sz div 4096)" "0 < page_align sz div 4096"
    by (simp_all add: word_less_nat_alt)
qed

text \<open>C24. Memory handed out by \<open>kmalloc\<close> is fresh: for a request between 1 and
  \<open>2 ^ 64 - 4096\<close> bytes that succeeds, the block is page aligned, lies in the heap, is large
  enough, and is disjoint from every region in use, all of which stay in use unchanged; the
  region table stays well formed.\<close>

theorem kmalloc_fresh:
  assumes inv: "heap_inv h" and sz: "sz \<noteq> 0" "unat sz \<le> 2 ^ 64 - 4096"
    and res: "kmalloc h sz = Some (ptr, h', calls)"
  shows "heap_inv h' \<and> 4096 dvd unat ptr \<and> kernel_heap_start h \<le> ptr \<and>
    (\<exists>b \<in> set (regions h'). \<not> free b \<and> start b = ptr \<and> unat sz \<le> hi b - lo b \<and>
      (\<forall>r \<in> set (regions h). \<not> free r \<longrightarrow> r \<in> set (regions h') \<and> apart r b))"
proof -
  note cov = page_align_covers [OF sz(2,1)]
  have va: "find_available_va h (page_align sz div 4096) = Some (ptr, h')"
    using res by (auto simp: kmalloc_def split: option.splits)
  from inv cov(1) va show ?thesis
  proof (rule find_available_va_cases)
    fix i f
    assume i: "i < length (regions h)" "free (regions h ! i)" "ptr = start (regions h ! i)"
      and f: "start f = ptr" "pages f = int (unat (page_align sz div 4096))" "\<not> free f"
      "hi f \<le> hi (regions h ! i)"
      and cases: "regions h' = (regions h)[i := f] \<or>
        (\<exists>rest. regions h' = (regions h)[i := f] @ [rest] \<and> free rest \<and> length (regions h) + 1 < ALLOC_MAP_SIZE
          \<and> hi f = lo rest \<and> hi rest = hi (regions h ! i) \<and> 0 < pages rest \<and> pages rest < 2 ^ 31 \<and> 4096 dvd lo rest)"
    have sub: "set ((regions h)[i := f]) \<subseteq> set (regions h')" using cases by auto
    then have fin: "f \<in> set (regions h')" using i(1) by (auto simp: set_update_memI)
    have others: "r \<in> set (regions h') \<and> apart r f" if "r \<in> set (regions h)" "\<not> free r" for r
    proof -
      obtain j where j: "j < length (regions h)" "r = regions h ! j" using \<open>r \<in> set (regions h)\<close>
        by (auto simp: in_set_conv_nth)
      with i(2) that have "j \<noteq> i" by auto
      then have "r \<in> set ((regions h)[i := f])"
        using j by (metis length_list_update nth_list_update_neq nth_mem)
      moreover have "apart r (regions h ! i)" using inv i(1) j \<open>j \<noteq> i\<close> by (simp add: heap_inv_def)
      then have "apart r f" using f i(3) by (auto simp: apart_def lo_def)
      ultimately show ?thesis using sub by blast
    qed
    have "unat sz \<le> hi f - lo f" using cov(2) f by (simp add: hi_def lo_def)
    moreover have "4096 dvd unat ptr" "kernel_heap_start h \<le> ptr"
      using heap_invD [OF inv i(1)] i(3) by (simp_all add: lo_def word_le_nat_alt)
    ultimately show ?thesis
      using find_available_va_inv [OF inv cov(1) va] fin f others by blast
  qed
qed

text \<open>\<open>kmalloc\<close> panics exactly when no free region has enough pages, or when the first one
  that has must be split while the table of 1024 regions is used up.\<close>

theorem kmalloc_panics_iff:
  "kmalloc h sz = None \<longleftrightarrow>
    (\<forall>r \<in> set (regions h). free r \<longrightarrow> size_t_of (pages r) < page_align sz div 4096) \<or>
    (\<exists>i. first_fit (regions h) (page_align sz div 4096) = Some i \<and>
       page_align sz div 4096 < size_t_of (pages (regions h ! i)) \<and> ALLOC_MAP_SIZE \<le> length (regions h) + 1)"
proof (cases "first_fit (regions h) (page_align sz div 4096)")
  case None
  then have "\<forall>r \<in> set (regions h). free r \<longrightarrow> size_t_of (pages r) < page_align sz div 4096"
    using first_fit_None [of "regions h" "page_align sz div 4096"] by (simp add: not_le)
  with None show ?thesis
    by (simp add: kmalloc_def find_available_va_def)
next
  case (Some i)
  then have "\<not> (\<forall>r \<in> set (regions h). free r \<longrightarrow> size_t_of (pages r) < page_align sz div 4096)"
    using first_fit_None [of "regions h" "page_align sz div 4096"] by (simp add: not_le)
  with Some show ?thesis
    by (auto simp: kmalloc_def find_available_va_def Let_def)
qed

lemma last_match_none: "\<forall>r \<in> set rs. start r \<noteq> a \<Longrightarrow> last_match rs a k acc = acc"
  by (induction rs arbitrary: k acc) auto

lemma last_match_unique:
  assumes "i < length rs" "\<And>j. j < length rs \<Longrightarrow> start (rs ! j) = a \<longleftrightarrow> j = i"
  shows "last_match rs a k acc = (k + i, pages (rs ! i) * 4096)"
  using assms
proof (induction rs arbitrary: i k acc)
  case (Cons r rs)
  show ?case
  proof (cases i)
    case 0
    then have "start r = a" "\<forall>s \<in> set rs. start s \<noteq> a"
      using Cons.prems(2) [of 0] Cons.prems(2) [of "Suc _"] by (auto simp: in_set_conv_nth)
    with 0 show ?thesis by (simp add: last_match_none)
  next
    case (Suc i')
    have "last_match rs a (Suc k) acc = (Suc k + i', pages (rs ! i') * 4096)"
      using Cons.prems Suc by (intro Cons.IH) (use Cons.prems(2) [of "Suc _"] in auto)
    with Suc Cons.prems(2) [of 0] show ?thesis by simp
  qed
qed simp


lemma small_heap: "heap_inv (init_mman 0)"
  by (rule init_mman_inv) simp

theorem kmalloc_fresh_witness:
  "\<exists>ptr h' calls. kmalloc (init_mman 0) 100 = Some (ptr, h', calls) \<and> heap_inv h' \<and>
    (\<exists>b \<in> set (regions h'). start b = ptr \<and> 100 \<le> hi b - lo b)"
proof -
  obtain r where r: "regions (init_mman 0) = [r]" "free r" "pages r = 0x7FFFF"
    using init_mman_region [of 0] by auto
  have "page_align 100 div 4096 = 1" by (simp add: page_align_def)
  then have "kmalloc (init_mman 0) 100 \<noteq> None"
    by (simp add: kmalloc_def find_available_va_def r size_t_of_def ALLOC_MAP_SIZE_def)
  then obtain ptr h' calls where k: "kmalloc (init_mman 0) 100 = Some (ptr, h', calls)" by auto
  with kmalloc_fresh [OF small_heap _ _ k] show ?thesis by fastforce
qed

theorem kmalloc_panics_iff_witness: "kmalloc (init_mman 0) 0x10000000000 = None"
proof -
  obtain r where r: "regions (init_mman 0) = [r]" "free r" "pages r = 0x7FFFF"
    using init_mman_region [of 0] by auto
  then show ?thesis
    using kmalloc_panics_iff [of "init_mman 0" "0x10000000000"]
    by (simp add: page_align_def size_t_of_def)
qed


end
