(* ===== verification/Blockdev.thy ===== *)
theory Blockdev
  imports Prelude
begin

text \<open>
  The block device layer of \<open>kernel/drivers/block.c\<close> and the partition driver of
  \<open>kernel/drivers/partitions.c\<close>: the driver table, the sector operations that dispatch through
  it, the byte-granular \<open>block_read\<close> and \<open>block_write\<close>, and the partition driver, which
  forwards sector requests to the device the partition lies on.  A hardware driver is a record of
  functions on a device state of any type \<open>'w\<close>; the partition driver is the one driver the
  table can hold that is itself code of the kernel.  A partition is only ever created on a device
  that is not a partition (\<open>register_block_device\<close>), so its backing device is driven by hardware.
\<close>

record block_device =
  bdev_major :: u32
  bdev_minor :: u32
  bdev_name :: "string option"
  bdev_is_partition :: bool

record 'w hw_driver =
  hw_read_sectors :: "u32 \<Rightarrow> u64 \<Rightarrow> u64 \<Rightarrow> 'w \<Rightarrow> int \<times> byte list \<times> 'w"
  hw_write_sectors :: "u32 \<Rightarrow> u64 \<Rightarrow> byte list \<Rightarrow> u64 \<Rightarrow> 'w \<Rightarrow> int \<times> 'w"
  hw_ioctl :: "(u32 \<Rightarrow> u64 \<Rightarrow> u64 \<Rightarrow> 'w \<Rightarrow> int \<times> 'w) option"
  hw_get_blockdev_size :: "u32 \<Rightarrow> 'w \<Rightarrow> int"
  hw_get_sector_size :: "u32 \<Rightarrow> 'w \<Rightarrow> int"

datatype 'w block_driver = HwDriver "'w hw_driver" | PartitionDriver

record partition =
  part_blockdev :: block_device
  part_start :: u64
  part_size :: u64

text \<open>\<open>block_drivers\<close> holds the registered drivers in order: entry \<open>i\<close> of the list is the
  array element \<open>i + 1\<close>, since element 0 stays empty.\<close>

record 'w blk =
  block_drivers :: "'w block_driver list"
  partitions :: "partition list"
  partition_driver_index :: u32

section \<open>Dispatch\<close>

text \<open>\<open>block_drivers[major]\<close> together with its \<open>present\<close> flag: \<open>Ret None\<close> is an entry
  that is not present.  The array has 128 elements and a larger major number is not rejected.\<close>

definition block_driver_at :: "'w blk \<Rightarrow> u32 \<Rightarrow> 'w block_driver option outcome" where
  "block_driver_at t maj =
     (if maj = 0 then Ret None
      else if unat maj \<ge> 128 then Fault
      else if unat maj \<le> length (block_drivers t) then Ret (Some (block_drivers t ! (unat maj - 1)))
      else Ret None)"

text \<open>The sector operations of a device that is driven by hardware.\<close>

definition hw_read :: "'w blk \<Rightarrow> block_device \<Rightarrow> u64 \<Rightarrow> u64 \<Rightarrow> 'w \<Rightarrow> (int \<times> byte list \<times> 'w) outcome" where
  "hw_read t dev lba cnt w =
     bind_outcome (block_driver_at t (bdev_major dev)) (\<lambda>d. case d of
       None \<Rightarrow> Ret (- ENODEV, [], w)
     | Some (HwDriver h) \<Rightarrow> Ret (hw_read_sectors h (bdev_minor dev) lba cnt w)
     | Some PartitionDriver \<Rightarrow> Fault)"

definition hw_write :: "'w blk \<Rightarrow> block_device \<Rightarrow> u64 \<Rightarrow> byte list \<Rightarrow> u64 \<Rightarrow> 'w \<Rightarrow> (int \<times> 'w) outcome" where
  "hw_write t dev lba bs cnt w =
     bind_outcome (block_driver_at t (bdev_major dev)) (\<lambda>d. case d of
       None \<Rightarrow> Ret (- ENODEV, w)
     | Some (HwDriver h) \<Rightarrow> Ret (hw_write_sectors h (bdev_minor dev) lba bs cnt w)
     | Some PartitionDriver \<Rightarrow> Fault)"

definition hw_sector_size :: "'w blk \<Rightarrow> block_device \<Rightarrow> 'w \<Rightarrow> int outcome" where
  "hw_sector_size t dev w =
     bind_outcome (block_driver_at t (bdev_major dev)) (\<lambda>d. case d of
       None \<Rightarrow> Ret (- ENODEV)
     | Some (HwDriver h) \<Rightarrow> Ret (hw_get_sector_size h (bdev_minor dev) w)
     | Some PartitionDriver \<Rightarrow> Fault)"

section \<open>The partition driver\<close>

text \<open>\<open>partitions[partition]\<close>: 256 zero-initialised entries; the minor number is not checked.\<close>

definition no_device :: block_device where
  "no_device = \<lparr>bdev_major = 0, bdev_minor = 0, bdev_name = None, bdev_is_partition = False\<rparr>"

definition partition_at :: "'w blk \<Rightarrow> u32 \<Rightarrow> partition outcome" where
  "partition_at t p =
     (if unat p < length (partitions t) then Ret (partitions t ! unat p)
      else if unat p < 256 then Ret \<lparr>part_blockdev = no_device, part_start = 0, part_size = 0\<rparr>
      else Fault)"

definition partition_read_sectors ::
  "'w blk \<Rightarrow> u32 \<Rightarrow> u64 \<Rightarrow> u64 \<Rightarrow> 'w \<Rightarrow> (int \<times> byte list \<times> 'w) outcome" where
  "partition_read_sectors t p lba cnt w =
     bind_outcome (partition_at t p) (\<lambda>part.
       let adjusted_lba = part_start part + lba in
       if adjusted_lba < part_start part \<or> adjusted_lba + cnt > part_start part + part_size part
       then Ret (- EINVAL, [], w)
       else hw_read t (part_blockdev part) adjusted_lba cnt w)"

definition partition_write_sectors ::
  "'w blk \<Rightarrow> u32 \<Rightarrow> u64 \<Rightarrow> byte list \<Rightarrow> u64 \<Rightarrow> 'w \<Rightarrow> (int \<times> 'w) outcome" where
  "partition_write_sectors t p lba bs cnt w =
     bind_outcome (partition_at t p) (\<lambda>part.
       let adjusted_lba = part_start part + lba in
       if adjusted_lba < part_start part \<or> adjusted_lba + cnt > part_start part + part_size part
       then Ret (- EINVAL, w)
       else hw_write t (part_blockdev part) adjusted_lba bs cnt w)"

definition partition_get_sector_size :: "'w blk \<Rightarrow> u32 \<Rightarrow> 'w \<Rightarrow> int outcome" where
  "partition_get_sector_size t p w =
     bind_outcome (partition_at t p) (\<lambda>part. hw_sector_size t (part_blockdev part) w)"

definition partition_get_size :: "'w blk \<Rightarrow> u32 \<Rightarrow> 'w \<Rightarrow> int outcome" where
  "partition_get_size t p w =
     bind_outcome (partition_at t p) (\<lambda>part.
     bind_outcome (partition_get_sector_size t p w) (\<lambda>ssz.
       Ret (sint (part_size part * word_of_int ssz))))"

section \<open>The operations of the block layer\<close>

definition read_sectors ::
  "'w blk \<Rightarrow> block_device \<Rightarrow> u64 \<Rightarrow> u64 \<Rightarrow> 'w \<Rightarrow> (int \<times> byte list \<times> 'w) outcome" where
  "read_sectors t dev lba cnt w =
     bind_outcome (block_driver_at t (bdev_major dev)) (\<lambda>d. case d of
       None \<Rightarrow> Ret (- ENODEV, [], w)
     | Some (HwDriver h) \<Rightarrow> Ret (hw_read_sectors h (bdev_minor dev) lba cnt w)
     | Some PartitionDriver \<Rightarrow> partition_read_sectors t (bdev_minor dev) lba cnt w)"

definition write_sectors ::
  "'w blk \<Rightarrow> block_device \<Rightarrow> u64 \<Rightarrow> byte list \<Rightarrow> u64 \<Rightarrow> 'w \<Rightarrow> (int \<times> 'w) outcome" where
  "write_sectors t dev lba bs cnt w =
     bind_outcome (block_driver_at t (bdev_major dev)) (\<lambda>d. case d of
       None \<Rightarrow> Ret (- ENODEV, w)
     | Some (HwDriver h) \<Rightarrow> Ret (hw_write_sectors h (bdev_minor dev) lba bs cnt w)
     | Some PartitionDriver \<Rightarrow> partition_write_sectors t (bdev_minor dev) lba bs cnt w)"

definition get_device_size :: "'w blk \<Rightarrow> block_device \<Rightarrow> 'w \<Rightarrow> int outcome" where
  "get_device_size t dev w =
     bind_outcome (block_driver_at t (bdev_major dev)) (\<lambda>d. case d of
       None \<Rightarrow> Ret (- ENODEV)
     | Some (HwDriver h) \<Rightarrow> Ret (hw_get_blockdev_size h (bdev_minor dev) w)
     | Some PartitionDriver \<Rightarrow> partition_get_size t (bdev_minor dev) w)"

definition get_sector_size :: "'w blk \<Rightarrow> block_device \<Rightarrow> 'w \<Rightarrow> int outcome" where
  "get_sector_size t dev w =
     bind_outcome (block_driver_at t (bdev_major dev)) (\<lambda>d. case d of
       None \<Rightarrow> Ret (- ENODEV)
     | Some (HwDriver h) \<Rightarrow> Ret (hw_get_sector_size h (bdev_minor dev) w)
     | Some PartitionDriver \<Rightarrow> partition_get_sector_size t (bdev_minor dev) w)"

definition block_ioctl ::
  "'w blk \<Rightarrow> block_device \<Rightarrow> u64 \<Rightarrow> u64 \<Rightarrow> 'w \<Rightarrow> (int \<times> 'w) outcome" where
  "block_ioctl t dev request arg w =
     bind_outcome (block_driver_at t (bdev_major dev)) (\<lambda>d. case d of
       None \<Rightarrow> Ret (- ENODEV, w)
     | Some (HwDriver h) \<Rightarrow> (case hw_ioctl h of
         None \<Rightarrow> Ret (- ENOTTY, w)
       | Some f \<Rightarrow> Ret (f (bdev_minor dev) request arg w))
     | Some PartitionDriver \<Rightarrow> Ret (- ENOTTY, w))"

definition register_block_driver :: "'w blk \<Rightarrow> 'w block_driver \<Rightarrow> int \<times> 'w blk" where
  "register_block_driver t d =
     (if length (block_drivers t) \<ge> 127 then (- ENOSPC, t)
      else (int (length (block_drivers t)) + 1, t\<lparr>block_drivers := block_drivers t @ [d]\<rparr>))"

definition partition_init :: "'w blk \<Rightarrow> 'w blk" where
  "partition_init t =
     (case register_block_driver t PartitionDriver of (i, t') \<Rightarrow>
        t'\<lparr>partition_driver_index := (if i < 0 then 0 else word_of_int i)\<rparr>)"

section \<open>Byte-granular access\<close>

text \<open>
  The loops run over the sectors \<open>s\<close> from \<open>start_sector\<close> to \<open>end_sector\<close>; \<open>out\<close> is what has
  been stored in \<open>buffer\<close> so far.  The local array holds 4096 bytes, so a larger sector size
  overruns it, and a sector size of zero divides by zero.  With a sector size of at least 2 the
  64-bit loop variable does not wrap.
\<close>

definition sector_range :: "nat \<Rightarrow> nat \<Rightarrow> nat \<Rightarrow> nat \<Rightarrow> nat \<Rightarrow> nat \<times> nat" where
  "sector_range ssz off sz s k =
     (let sector_start = s * ssz;
          from = (if off > sector_start then off - sector_start else 0);
          till = (if k + (ssz - from) > sz then from + (sz - k) else ssz)
      in (from, till))"

function block_read_loop ::
  "'w blk \<Rightarrow> block_device \<Rightarrow> nat \<Rightarrow> nat \<Rightarrow> nat \<Rightarrow> nat \<Rightarrow> nat \<Rightarrow> byte list \<Rightarrow> 'w \<Rightarrow>
     (int \<times> byte list \<times> 'w) outcome" where
  "block_read_loop t dev ssz off sz end_s s out w =
     (if s > end_s then Ret (sint (word_of_nat sz :: u32), out, w)
      else bind_outcome (read_sectors t dev (word_of_nat s) 1 w) (\<lambda>(res, sector, w1).
        if res < 0 then Ret (res, out, w1)
        else case sector_range ssz off sz s (length out) of (from, till) \<Rightarrow>
          block_read_loop t dev ssz off sz end_s (s + 1)
            (out @ map (\<lambda>i. sector ! i) [from..<till]) w1))"
  by pat_completeness auto
termination by (relation "measure (\<lambda>(t, dev, ssz, off, sz, end_s, s, out, w). end_s + 1 - s)") auto

declare block_read_loop.simps [simp del]

definition block_read ::
  "'w blk \<Rightarrow> block_device \<Rightarrow> u64 \<Rightarrow> u64 \<Rightarrow> 'w \<Rightarrow> (int \<times> byte list \<times> 'w) outcome" where
  "block_read t dev off sz w =
     bind_outcome (block_driver_at t (bdev_major dev)) (\<lambda>d.
       if Option.is_none d then Ret (- ENODEV, [], w)
       else bind_outcome (get_sector_size t dev w) (\<lambda>ssz.
         let sector_size = (word_of_int ssz :: u64) in
         if sector_size = 0 \<or> sector_size > 4096 then Fault
         else block_read_loop t dev (unat sector_size) (unat off) (unat sz)
                (unat ((off + sz - 1) div sector_size)) (unat (off div sector_size)) [] w))"

function block_write_loop ::
  "'w blk \<Rightarrow> block_device \<Rightarrow> nat \<Rightarrow> nat \<Rightarrow> byte list \<Rightarrow> nat \<Rightarrow> nat \<Rightarrow> nat \<Rightarrow> nat \<Rightarrow> 'w \<Rightarrow>
     (int \<times> 'w) outcome" where
  "block_write_loop t dev ssz off buf sz end_s s in_off w =
     (if s > end_s then Ret (sint (word_of_nat sz :: u32), w)
      else bind_outcome (read_sectors t dev (word_of_nat s) 1 w) (\<lambda>(res, sector, w1).
        if res < 0 then Ret (res, w1)
        else case sector_range ssz off sz s in_off of (from, till) \<Rightarrow>
          bind_outcome
            (write_sectors t dev (word_of_nat s)
               (write_at sector from (read_at buf in_off (till - from))) 1 w1)
            (\<lambda>(res, w2). if res < 0 then Ret (res, w2)
               else block_write_loop t dev ssz off buf sz end_s (s + 1) (in_off + (till - from)) w2)))"
  by pat_completeness auto
termination
  by (relation "measure (\<lambda>(t, dev, ssz, off, buf, sz, end_s, s, in_off, w). end_s + 1 - s)") auto

declare block_write_loop.simps [simp del]

definition block_write ::
  "'w blk \<Rightarrow> block_device \<Rightarrow> u64 \<Rightarrow> byte list \<Rightarrow> u64 \<Rightarrow> 'w \<Rightarrow> (int \<times> 'w) outcome" where
  "block_write t dev off buf sz w =
     bind_outcome (block_driver_at t (bdev_major dev)) (\<lambda>d.
       if Option.is_none d then Ret (- ENODEV, w)
       else bind_outcome (get_sector_size t dev w) (\<lambda>ssz.
         let sector_size = (word_of_int ssz :: u64) in
         if sector_size = 0 \<or> sector_size > 4096 then Fault
         else block_write_loop t dev (unat sector_size) (unat off) buf (unat sz)
                (unat ((off + sz - 1) div sector_size)) (unat (off div sector_size)) 0 w))"

section \<open>Correctness of byte-granular access\<close>

text \<open>
  \<open>serves t dev ssz img\<close>: through the table \<open>t\<close>, the device \<open>dev\<close> behaves as a disk with
  sectors of \<open>ssz\<close> bytes whose contents in the device state \<open>w\<close> are \<open>img w\<close>.  This is what
  the block layer relies on of a driver.
\<close>

definition serves :: "'w blk \<Rightarrow> block_device \<Rightarrow> nat \<Rightarrow> ('w \<Rightarrow> byte list) \<Rightarrow> bool" where
  "serves t dev ssz img \<longleftrightarrow>
     (\<exists>d. block_driver_at t (bdev_major dev) = Ret (Some d)) \<and>
     (\<forall>w. get_sector_size t dev w = Ret (int ssz)) \<and>
     (\<forall>w lba cnt. (unat lba + unat cnt) * ssz \<le> length (img w) \<longrightarrow>
        (\<exists>res. 0 \<le> res \<and>
           read_sectors t dev lba cnt w = Ret (res, read_at (img w) (unat lba * ssz) (unat cnt * ssz), w))) \<and>
     (\<forall>w lba cnt bs. (unat lba + unat cnt) * ssz \<le> length (img w) \<and> unat cnt * ssz \<le> length bs \<longrightarrow>
        (\<exists>res w'. 0 \<le> res \<and> write_sectors t dev lba bs cnt w = Ret (res, w') \<and>
           img w' = write_at (img w) (unat lba * ssz) (take (unat cnt * ssz) bs)))"

lemma serves_read:
  assumes "serves t dev ssz img" and "(s + 1) * ssz \<le> length (img w)" and "s < 2 ^ 64"
  obtains res where "0 \<le> res"
    and "read_sectors t dev (word_of_nat s) 1 w = Ret (res, read_at (img w) (s * ssz) ssz, w)"
proof -
  have "unat (word_of_nat s :: u64) = s" using assms(3) by (simp add: unat_of_nat)
  moreover have "(unat (word_of_nat s :: u64) + unat (1 :: u64)) * ssz \<le> length (img w) \<longrightarrow>
    (\<exists>res. 0 \<le> res \<and> read_sectors t dev (word_of_nat s) 1 w =
       Ret (res, read_at (img w) (unat (word_of_nat s :: u64) * ssz) (unat (1 :: u64) * ssz), w))"
    using assms(1) unfolding serves_def by blast
  ultimately show thesis using assms(2) that by auto
qed

lemma serves_write:
  assumes "serves t dev ssz img" and "(s + 1) * ssz \<le> length (img w)" and "s < 2 ^ 64"
    and "length bs = ssz"
  obtains res w' where "0 \<le> res" and "write_sectors t dev (word_of_nat s) bs 1 w = Ret (res, w')"
    and "img w' = write_at (img w) (s * ssz) bs"
proof -
  have "unat (word_of_nat s :: u64) = s" using assms(3) by (simp add: unat_of_nat)
  moreover have "(unat (word_of_nat s :: u64) + unat (1 :: u64)) * ssz \<le> length (img w) \<and>
      unat (1 :: u64) * ssz \<le> length bs \<longrightarrow>
    (\<exists>res w'. 0 \<le> res \<and> write_sectors t dev (word_of_nat s) bs 1 w = Ret (res, w') \<and>
       img w' = write_at (img w) (unat (word_of_nat s :: u64) * ssz) (take (unat (1 :: u64) * ssz) bs))"
    using assms(1) unfolding serves_def by blast
  ultimately show thesis using assms(2,4) that by auto
qed

text \<open>The piece of the buffer a sector contributes: after sector \<open>s\<close> the transferred count is
  the distance from \<open>off\<close> to the end of that sector, or the whole request.\<close>

lemma sector_range_step:
  assumes "k = min sz (s * ssz - off)" and "off < (s + 1) * ssz" and "k < sz"
  obtains fr till where "sector_range ssz off sz s k = (fr, till)" and "fr \<le> till"
    and "till \<le> ssz" and "s * ssz + fr = off + k" and "k + (till - fr) = min sz ((s + 1) * ssz - off)"
proof -
  obtain fr till where r: "sector_range ssz off sz s k = (fr, till)" by (cases "sector_range ssz off sz s k")
  have "(s + 1) * ssz = s * ssz + ssz" by simp
  then show thesis
    using assms r
    by (intro that [OF r]) (auto simp: sector_range_def Let_def split: if_splits)
qed

lemma map_nth_read_at:
  "b \<le> n \<Longrightarrow> off + n \<le> length xs \<Longrightarrow>
   map (\<lambda>i. read_at xs off n ! i) [a..<b] = read_at xs (off + a) (b - a)"
  by (intro nth_equalityI) (simp_all add: read_at_def add.assoc)

lemma write_at_sector:
  assumes "a + n \<le> length xs" and "fr + length ys \<le> n"
  shows "write_at xs a (write_at (read_at xs a n) fr ys) = write_at xs (a + fr) ys"
  using assms by (intro nth_equalityI) (auto simp: nth_write_at)

lemma write_at_write_at_next:
  assumes "off + length xs + length ys \<le> length zs"
  shows "write_at (write_at zs off xs) (off + length xs) ys = write_at zs off (xs @ ys)"
  using assms by (intro nth_equalityI) (auto simp: nth_write_at nth_append)

lemma block_read_loop_correct:
  assumes sv: "serves t dev ssz img" and fits: "off + sz \<le> length (img w)"
    and len: "length (img w) < 2 ^ 64" and ssz: "0 < ssz" "ssz dvd length (img w)"
  shows "off div ssz \<le> s \<Longrightarrow> s \<le> (off + sz - 1) div ssz + 1 \<Longrightarrow> 0 < sz \<Longrightarrow>
    out = read_at (img w) off (min sz (s * ssz - off)) \<Longrightarrow>
    block_read_loop t dev ssz off sz ((off + sz - 1) div ssz) s out w =
      Ret (sint (word_of_nat sz :: u32), read_at (img w) off sz, w)"
proof (induction "(off + sz - 1) div ssz + 1 - s" arbitrary: s out)
  case 0
  then have s: "s = (off + sz - 1) div ssz + 1" by simp
  have "off + sz - 1 < s * ssz" using ssz(1) s
    by (metis add.commute div_less_iff_less_mult less_add_one mult.commute)
  then have "min sz (s * ssz - off) = sz" by linarith
  then show ?case using 0 s by (simp add: block_read_loop.simps)
next
  case (Suc n)
  let ?e = "(off + sz - 1) div ssz" and ?k = "min sz (s * ssz - off)"
  from Suc.hyps(2) have le: "s \<le> ?e" by simp
  then have "s * ssz \<le> off + sz - 1" using ssz(1) by (simp add: less_eq_div_iff_mult_less_eq)
  then have k: "?k < sz" using Suc.prems(3) by linarith
  have "off < (s + 1) * ssz" using Suc.prems(1) ssz(1)
    by (metis Suc_eq_plus1 div_less_iff_less_mult le_imp_less_Suc)
  then obtain fr till where r: "sector_range ssz off sz s ?k = (fr, till)" "fr \<le> till"
      "till \<le> ssz" "s * ssz + fr = off + ?k" "?k + (till - fr) = min sz ((s + 1) * ssz - off)"
    using sector_range_step [OF refl _ k] by blast
  have "s * ssz < length (img w)" using \<open>s * ssz \<le> off + sz - 1\<close> fits Suc.prems(3) by linarith
  then have inside: "(s + 1) * ssz \<le> length (img w)"
    using ssz by (metis Suc_eq_plus1 dvdE less_eq_Suc_le mult.commute mult_le_mono2 mult_less_cancel2)
  have "s \<le> s * ssz" using ssz(1) by simp
  then have "s < 2 ^ 64" using \<open>s * ssz < length (img w)\<close> len by linarith
  then obtain res where rd: "0 \<le> res"
      "read_sectors t dev (word_of_nat s) 1 w = Ret (res, read_at (img w) (s * ssz) ssz, w)"
    using serves_read [OF sv inside] by blast
  have lo: "length out = ?k" using Suc.prems(4) fits by simp
  have piece: "map (\<lambda>i. read_at (img w) (s * ssz) ssz ! i) [fr..<till] =
      read_at (img w) (off + ?k) (till - fr)"
    using map_nth_read_at [OF r(3), of "s * ssz" "img w" fr] inside unfolding r(4) by simp
  have "out @ read_at (img w) (off + ?k) (till - fr) =
      read_at (img w) off (min sz ((s + 1) * ssz - off))"
    using Suc.prems(4) read_at_append [of "img w" off ?k "till - fr"] r(5) by simp
  then have "block_read_loop t dev ssz off sz ?e (s + 1)
      (out @ read_at (img w) (off + ?k) (till - fr)) w =
      Ret (sint (word_of_nat sz :: u32), read_at (img w) off sz, w)"
    using Suc.hyps(2) Suc.prems le by (intro Suc.hyps(1)) auto
  then show ?case using le rd r(1) lo piece by (subst block_read_loop.simps) simp
qed

lemma block_write_loop_correct:
  assumes sv: "serves t dev ssz img" and ssz: "0 < ssz" and buf: "sz \<le> length buf"
  shows "off + sz \<le> length (img w) \<Longrightarrow> length (img w) < 2 ^ 64 \<Longrightarrow> ssz dvd length (img w) \<Longrightarrow>
    off div ssz \<le> s \<Longrightarrow> s \<le> (off + sz - 1) div ssz + 1 \<Longrightarrow> 0 < sz \<Longrightarrow>
    img w = write_at img0 off (take (min sz (s * ssz - off)) buf) \<Longrightarrow> length (img w) = length img0 \<Longrightarrow>
    \<exists>w'. block_write_loop t dev ssz off buf sz ((off + sz - 1) div ssz) s (min sz (s * ssz - off)) w =
      Ret (sint (word_of_nat sz :: u32), w') \<and> img w' = write_at img0 off (take sz buf)"
proof (induction "(off + sz - 1) div ssz + 1 - s" arbitrary: s w)
  case 0
  then have s: "s = (off + sz - 1) div ssz + 1" by simp
  have "off + sz - 1 < s * ssz" using ssz s
    by (metis add.commute div_less_iff_less_mult less_add_one mult.commute)
  then have "min sz (s * ssz - off) = sz" by linarith
  then show ?case using 0 s by (simp add: block_write_loop.simps)
next
  case (Suc n)
  let ?e = "(off + sz - 1) div ssz" and ?k = "min sz (s * ssz - off)"
  from Suc.hyps(2) have le: "s \<le> ?e" by simp
  then have "s * ssz \<le> off + sz - 1" using ssz by (simp add: less_eq_div_iff_mult_less_eq)
  then have k: "?k < sz" using Suc.prems(6) by linarith
  have "off < (s + 1) * ssz" using Suc.prems(4) ssz
    by (metis Suc_eq_plus1 div_less_iff_less_mult le_imp_less_Suc)
  then obtain fr till where r: "sector_range ssz off sz s ?k = (fr, till)" "fr \<le> till"
      "till \<le> ssz" "s * ssz + fr = off + ?k" "?k + (till - fr) = min sz ((s + 1) * ssz - off)"
    using sector_range_step [OF refl _ k] by blast
  have "s * ssz < length (img w)" using \<open>s * ssz \<le> off + sz - 1\<close> Suc.prems(1,6) by linarith
  then have inside: "(s + 1) * ssz \<le> length (img w)"
    using ssz Suc.prems(3)
    by (metis Suc_eq_plus1 dvdE less_eq_Suc_le mult.commute mult_le_mono2 mult_less_cancel2)
  have "s \<le> s * ssz" using ssz by simp
  then have s64: "s < 2 ^ 64" using \<open>s * ssz < length (img w)\<close> Suc.prems(2) by linarith
  then obtain res where rd: "0 \<le> res"
      "read_sectors t dev (word_of_nat s) 1 w = Ret (res, read_at (img w) (s * ssz) ssz, w)"
    using serves_read [OF sv inside] by blast
  let ?piece = "read_at buf ?k (till - fr)"
  let ?sec = "write_at (read_at (img w) (s * ssz) ssz) fr ?piece"
  have kle: "?k + (till - fr) \<le> length buf" using r(5) buf by linarith
  have lsec: "length (read_at (img w) (s * ssz) ssz) = ssz" using inside by simp
  have len: "length ?sec = ssz" using r(2,3) kle lsec by simp
  obtain res' w' where wr: "0 \<le> res'" "write_sectors t dev (word_of_nat s) ?sec 1 w = Ret (res', w')"
      "img w' = write_at (img w) (s * ssz) ?sec"
    using serves_write [OF sv inside s64 len] by blast
  have whole: "write_at (img w) (s * ssz) ?sec = write_at (img w) (off + ?k) ?piece"
    using write_at_sector [of "s * ssz" ssz "img w" fr ?piece] inside r kle by simp
  have lk: "length (take ?k buf) = ?k" and lp: "length ?piece = till - fr" using buf k kle by simp_all
  have "img w' = write_at (write_at img0 off (take ?k buf)) (off + length (take ?k buf)) ?piece"
    unfolding wr(3) whole lk by (simp only: Suc.prems(7))
  also have "\<dots> = write_at img0 off (take ?k buf @ ?piece)"
    by (rule write_at_write_at_next) (use lk lp r(5) Suc.prems(1,8) in linarith)
  finally have "img w' = write_at img0 off (take ?k buf @ ?piece)" .
  moreover have "take ?k buf @ ?piece = take (min sz ((s + 1) * ssz - off)) buf"
    unfolding r(5) [symmetric] by (simp add: read_at_def take_add)
  ultimately have img': "img w' = write_at img0 off (take (min sz ((s + 1) * ssz - off)) buf)" by simp
  have l': "length (img w') = length img0" using wr(3) inside len Suc.prems(8) by simp
  have "\<exists>w''. block_write_loop t dev ssz off buf sz ?e (s + 1) (min sz ((s + 1) * ssz - off)) w' =
      Ret (sint (word_of_nat sz :: u32), w'') \<and> img w'' = write_at img0 off (take sz buf)"
  proof (rule Suc.hyps(1))
    show "n = ?e + 1 - (s + 1)" using Suc.hyps(2) by linarith
    show "off + sz \<le> length (img w')" "length (img w') < 2 ^ 64" "ssz dvd length (img w')"
      using Suc.prems(1-3) unfolding l' Suc.prems(8) .
    show "off div ssz \<le> s + 1" "s + 1 \<le> ?e + 1" "0 < sz" using Suc.prems(4,6) le by linarith+
  qed (fact img' l')+
  then show ?case using le rd wr(1,2) r(1,5) by (subst block_write_loop.simps) simp
qed

lemma end_sector:
  assumes "unat off + unat sz < 2 ^ 64" and "0 < sz" and "0 < ssz" and "ssz < 2 ^ 64"
  shows "unat ((off + sz - 1) div (word_of_nat ssz :: u64)) = (unat off + unat sz - 1) div ssz"
    and "unat (off div (word_of_nat ssz :: u64)) = unat off div ssz"
proof -
  have s: "unat (word_of_nat ssz :: u64) = ssz" using assms(4) by (simp add: unat_of_nat)
  have a: "unat (off + sz) = unat off + unat sz"
    using assms(1) unat_add_lem [of off sz] by simp
  have "1 \<le> off + sz"
    using assms(2) a by (metis add_eq_0_iff_both_eq_0 linorder_not_less unat_eq_zero word_less_1 word_not_simps(1))
  then have "unat (off + sz - 1) = unat off + unat sz - 1" using a by (simp add: unat_sub)
  then show "unat ((off + sz - 1) div (word_of_nat ssz :: u64)) = (unat off + unat sz - 1) div ssz"
    using s by (simp add: unat_div)
  show "unat (off div (word_of_nat ssz :: u64)) = unat off div ssz" using s by (simp add: unat_div)
qed

lemma serves_driver:
  "serves t dev ssz img \<Longrightarrow> \<exists>d. block_driver_at t (bdev_major dev) = Ret (Some d)"
  by (simp add: serves_def)

lemma serves_sector_size: "serves t dev ssz img \<Longrightarrow> get_sector_size t dev w = Ret (int ssz)"
  by (simp add: serves_def)

lemma sint_count:
  assumes "n < 2 ^ 31"
  shows "sint (word_of_nat n :: u32) = int n"
proof -
  have "sint (word_of_int (int n) :: u32) = signed_take_bit 31 (int n)"
    by (simp only: sint_sbintrunc') simp
  also have "\<dots> = int n" using assms by (intro signed_take_bit_int_eq_self) simp_all
  finally show ?thesis by simp
qed

lemma start_le_end: "0 < sz \<Longrightarrow> off div ssz \<le> (off + sz - 1) div ssz + (1 :: nat)"
  by (rule le_trans [OF div_le_mono [of off "off + sz - 1"]]) simp_all

text \<open>C26. \<open>block_read\<close> on a device that serves the image \<open>img\<close> in sectors of at most 4096 bytes: a request of at
  least one and fewer than \<open>2 ^ 31\<close> bytes inside the device returns exactly the bytes from \<open>offset\<close> on, whatever the alignment of the
  request to sectors, and its size as the result; the device state does not change.\<close>

theorem block_read_correct:
  assumes "serves t dev ssz img" and "0 < ssz" and "ssz \<le> 4096"
    and "ssz dvd length (img w)" and "length (img w) < 2 ^ 64"
    and "unat off + unat sz \<le> length (img w)" and "0 < sz" and "unat sz < 2 ^ 31"
  shows "block_read t dev off sz w = Ret (int (unat sz), read_at (img w) (unat off) (unat sz), w)"
proof -
  obtain d where d: "block_driver_at t (bdev_major dev) = Ret (Some d)"
    using serves_driver [OF assms(1)] by blast
  have w64: "unat (word_of_nat ssz :: u64) = ssz" using assms(3) by (simp add: unat_of_nat)
  have "block_read_loop t dev ssz (unat off) (unat sz) ((unat off + unat sz - 1) div ssz)
      (unat off div ssz) [] w = Ret (sint (word_of_nat (unat sz) :: u32), read_at (img w) (unat off) (unat sz), w)"
  proof (rule block_read_loop_correct [OF assms(1,6,5,2,4)])
    show "unat off div ssz \<le> (unat off + unat sz - 1) div ssz + 1"
      using assms(7) by (intro start_le_end) (simp add: word_less_nat_alt)
    show "[] = read_at (img w) (unat off) (min (unat sz) (unat off div ssz * ssz - unat off))"
      by (simp add: read_at_def)
  qed (use assms(7) in \<open>simp_all add: word_less_nat_alt\<close>)
  then show ?thesis
    using d end_sector [of off sz ssz] assms w64 serves_sector_size [OF assms(1)]
      sint_count [of "unat sz"]
    by (simp add: block_read_def word_less_nat_alt word_unat_eq_iff)
qed

text \<open>A disk of three sectors of two bytes held in memory, as a concrete driver for which the
  hypotheses hold.\<close>

type_synonym ram = "nat \<Rightarrow> byte"

definition ram_img :: "ram \<Rightarrow> byte list" where
  "ram_img w = map w [0..<6]"

definition ram_disk :: "ram hw_driver" where
  "ram_disk = \<lparr>hw_read_sectors = (\<lambda>minor lba cnt w. (0, read_at (ram_img w) (unat lba * 2) (unat cnt * 2), w)),
     hw_write_sectors = (\<lambda>minor lba bs cnt w.
       (0, \<lambda>i. write_at (ram_img w) (unat lba * 2) (take (unat cnt * 2) bs) ! i)),
     hw_ioctl = None, hw_get_blockdev_size = (\<lambda>minor w. 6), hw_get_sector_size = (\<lambda>minor w. 2)\<rparr>"

definition ram_dev :: block_device where
  "ram_dev = no_device\<lparr>bdev_major := 1\<rparr>"

definition ram_part :: partition where
  "ram_part = \<lparr>part_blockdev = ram_dev, part_start = 1, part_size = 2\<rparr>"

definition ram_blk :: "ram blk" where
  "ram_blk = \<lparr>block_drivers = [HwDriver ram_disk, PartitionDriver], partitions = [ram_part],
     partition_driver_index = 2\<rparr>"

lemma ram_driver_at [simp]:
  "block_driver_at ram_blk 1 = Ret (Some (HwDriver ram_disk))"
  "block_driver_at ram_blk 2 = Ret (Some PartitionDriver)"
  by (simp_all add: block_driver_at_def ram_blk_def)

lemma ram_part_at: "partition_at ram_blk 0 = Ret ram_part"
  by (simp add: partition_at_def ram_blk_def)

lemma ram_img_of_list: "length xs = 6 \<Longrightarrow> ram_img (\<lambda>i. xs ! i) = xs"
  unfolding ram_img_def by (metis map_nth)

lemma length_ram_img [simp]: "length (ram_img w) = 6"
  by (simp add: ram_img_def)

lemma ram_serves: "serves ram_blk ram_dev 2 ram_img"
  unfolding serves_def
  by (auto simp: ram_dev_def get_sector_size_def read_sectors_def write_sectors_def ram_disk_def
    ram_img_of_list)

definition ram0 :: ram where
  "ram0 = (\<lambda>i. word_of_nat (10 + i))"

lemma ram_img_ram0 [simp]: "ram_img ram0 = [10, 11, 12, 13, 14, 15]"
  by (simp add: ram_img_def ram0_def upt_rec)

theorem block_read_correct_witness:
  "block_read ram_blk ram_dev 1 4 ram0 = Ret (4, [11, 12, 13, 14], ram0)"
  using block_read_correct [OF ram_serves, of ram0 1 4] by (simp add: read_at_def)

text \<open>C13. \<open>block_write\<close> on a device that serves the image \<open>img\<close> in sectors of at most 4096 bytes: a request of at
  least one and fewer than \<open>2 ^ 31\<close> bytes inside the device replaces exactly the bytes from \<open>offset\<close> on by the first \<open>size\<close> bytes of
  the buffer and leaves every other byte of the device as it was, the partly written first and
  last sectors included.\<close>

theorem block_write_correct:
  assumes "serves t dev ssz img" and "0 < ssz" and "ssz \<le> 4096"
    and "ssz dvd length (img w)" and "length (img w) < 2 ^ 64"
    and "unat off + unat sz \<le> length (img w)" and "0 < sz" and "unat sz < 2 ^ 31"
    and "unat sz \<le> length buf"
  shows "\<exists>w'. block_write t dev off buf sz w = Ret (int (unat sz), w') \<and>
    img w' = write_at (img w) (unat off) (take (unat sz) buf)"
proof -
  obtain d where d: "block_driver_at t (bdev_major dev) = Ret (Some d)"
    using serves_driver [OF assms(1)] by blast
  have w64: "unat (word_of_nat ssz :: u64) = ssz" using assms(3) by (simp add: unat_of_nat)
  have sz: "0 < unat sz" using assms(7) by (simp add: word_less_nat_alt)
  have z: "min (unat sz) (unat off div ssz * ssz - unat off) = 0" by simp
  have "\<exists>w'. block_write_loop t dev ssz (unat off) buf (unat sz) ((unat off + unat sz - 1) div ssz)
      (unat off div ssz) (min (unat sz) (unat off div ssz * ssz - unat off)) w =
      Ret (sint (word_of_nat (unat sz) :: u32), w') \<and> img w' = write_at (img w) (unat off) (take (unat sz) buf)"
    by (rule block_write_loop_correct [OF assms(1,2,9,6,5,4)])
      (use sz start_le_end [OF sz] in simp_all)
  then show ?thesis
    using d end_sector [of off sz ssz] assms w64 serves_sector_size [OF assms(1)]
      sint_count [of "unat sz"] unfolding z
    by (simp add: block_write_def word_less_nat_alt word_unat_eq_iff)
qed

theorem block_write_correct_witness:
  "\<exists>w'. block_write ram_blk ram_dev 1 [1, 2, 3, 4] 3 ram0 = Ret (3, w') \<and>
     ram_img w' = [10, 1, 2, 3, 14, 15]"
  using block_write_correct [OF ram_serves, of ram0 1 3 "[1, 2, 3, 4]"] by (simp add: write_at_def)

section \<open>Partitions\<close>

text \<open>A partition that lies inside a device shows the sectors of the device from its start on.\<close>

definition partition_image :: "partition \<Rightarrow> nat \<Rightarrow> byte list \<Rightarrow> byte list" where
  "partition_image part ssz xs = read_at xs (unat (part_start part) * ssz) (unat (part_size part) * ssz)"

lemma read_at_read_at: "b + m \<le> n \<Longrightarrow> read_at (read_at xs a n) b m = read_at xs (a + b) m"
  by (simp add: read_at_def drop_take add.commute min_absorb1)

lemma read_at_write_at_inside:
  "b + length ys \<le> n \<Longrightarrow> a + n \<le> length xs \<Longrightarrow>
   read_at (write_at xs (a + b) ys) a n = write_at (read_at xs a n) b ys"
  by (intro nth_equalityI) (auto simp: nth_write_at)

lemma partition_bounds:
  fixes start n lba cnt :: u64
  assumes "unat start + unat n < 2 ^ 64" and "unat lba + unat cnt \<le> unat n"
  shows "unat (start + lba) = unat start + unat lba"
    and "\<not> (start + lba < start \<or> start + lba + cnt > start + n)"
proof -
  show a: "unat (start + lba) = unat start + unat lba"
    using assms unat_add_lem [of start lba] by simp
  have "unat (start + lba + cnt) = unat start + unat lba + unat cnt"
    using a assms unat_add_lem [of "start + lba" cnt] by simp
  moreover have "unat (start + n) = unat start + unat n"
    using assms unat_add_lem [of start n] by simp
  ultimately show "\<not> (start + lba < start \<or> start + lba + cnt > start + n)"
    using a assms(2) by (simp add: word_less_nat_alt)
qed

lemma hw_is_read:
  assumes "block_driver_at t (bdev_major dev) = Ret (Some (HwDriver h))"
  shows "hw_read t dev = read_sectors t dev" and "hw_write t dev = write_sectors t dev"
    and "hw_sector_size t dev = get_sector_size t dev"
  using assms by (simp_all add: fun_eq_iff hw_read_def hw_write_def hw_sector_size_def
    read_sectors_def write_sectors_def get_sector_size_def)

definition partition_fits :: "partition \<Rightarrow> nat \<Rightarrow> ('w \<Rightarrow> byte list) \<Rightarrow> bool" where
  "partition_fits part ssz img \<longleftrightarrow> unat (part_start part) + unat (part_size part) < 2 ^ 64 \<and>
     (\<forall>w. (unat (part_start part) + unat (part_size part)) * ssz \<le> length (img w))"

lemma partition_fitsD:
  fixes lba cnt :: u64
  assumes "partition_fits part ssz img" and "unat lba + unat cnt \<le> unat (part_size part)"
  shows "(unat (part_start part + lba) + unat cnt) * ssz \<le> length (img w)"
    and "unat (part_start part + lba) * ssz = unat (part_start part) * ssz + unat lba * ssz"
    and "unat lba * ssz + unat cnt * ssz \<le> unat (part_size part) * ssz"
    and "unat (part_start part) * ssz + unat (part_size part) * ssz \<le> length (img w)"
proof -
  have b: "unat (part_start part) + unat (part_size part) < 2 ^ 64"
    and l: "(unat (part_start part) + unat (part_size part)) * ssz \<le> length (img w)"
    using assms(1) by (simp_all add: partition_fits_def)
  note u = partition_bounds(1) [OF b assms(2)]
  have "unat (part_start part + lba) + unat cnt \<le> unat (part_start part) + unat (part_size part)"
    using u assms(2) by linarith
  then show "(unat (part_start part + lba) + unat cnt) * ssz \<le> length (img w)"
    using l by (meson le_trans mult_le_mono1)
  show "unat (part_start part + lba) * ssz = unat (part_start part) * ssz + unat lba * ssz"
    by (simp add: u add_mult_distrib)
  show "unat lba * ssz + unat cnt * ssz \<le> unat (part_size part) * ssz"
    using mult_le_mono1 [OF assms(2), of ssz] by (simp add: add_mult_distrib)
  show "unat (part_start part) * ssz + unat (part_size part) * ssz \<le> length (img w)"
    using l by (simp add: add_mult_distrib)
qed

lemma partition_read_image:
  assumes "serves t (part_blockdev part) ssz img" and "partition_fits part ssz img"
    and "block_driver_at t (bdev_major (part_blockdev part)) = Ret (Some (HwDriver h))"
    and "partition_at t p = Ret part" and "unat lba + unat cnt \<le> unat (part_size part)"
  shows "\<exists>res. 0 \<le> res \<and> partition_read_sectors t p lba cnt w =
    Ret (res, read_at (partition_image part ssz (img w)) (unat lba * ssz) (unat cnt * ssz), w)"
proof -
  note f = partition_fitsD [OF assms(2,5)]
  obtain res where "0 \<le> res" "read_sectors t (part_blockdev part) (part_start part + lba) cnt w =
      Ret (res, read_at (img w) (unat (part_start part + lba) * ssz) (unat cnt * ssz), w)"
    using assms(1) f(1) unfolding serves_def by metis
  moreover have "read_at (img w) (unat (part_start part + lba) * ssz) (unat cnt * ssz) =
      read_at (partition_image part ssz (img w)) (unat lba * ssz) (unat cnt * ssz)"
    unfolding partition_image_def f(2) by (rule read_at_read_at [OF f(3), symmetric])
  ultimately show ?thesis
    using partition_bounds(2) [of "part_start part" "part_size part" lba cnt] assms(2-5)
    by (simp add: partition_read_sectors_def Let_def hw_is_read partition_fits_def)
qed

lemma partition_write_image:
  assumes "serves t (part_blockdev part) ssz img" and "partition_fits part ssz img"
    and "block_driver_at t (bdev_major (part_blockdev part)) = Ret (Some (HwDriver h))"
    and "partition_at t p = Ret part" and "unat lba + unat cnt \<le> unat (part_size part)"
    and "unat cnt * ssz \<le> length bs"
  shows "\<exists>res w'. 0 \<le> res \<and> partition_write_sectors t p lba bs cnt w = Ret (res, w') \<and>
    partition_image part ssz (img w') =
      write_at (partition_image part ssz (img w)) (unat lba * ssz) (take (unat cnt * ssz) bs)"
proof -
  note f = partition_fitsD [OF assms(2,5)]
  obtain res w' where "0 \<le> res"
      "write_sectors t (part_blockdev part) (part_start part + lba) bs cnt w = Ret (res, w')"
      and w': "img w' = write_at (img w) (unat (part_start part + lba) * ssz) (take (unat cnt * ssz) bs)"
    using assms(1,6) f(1) unfolding serves_def by metis
  moreover have "partition_image part ssz (img w') =
      write_at (partition_image part ssz (img w)) (unat lba * ssz) (take (unat cnt * ssz) bs)"
    unfolding partition_image_def w' f(2)
    by (rule read_at_write_at_inside) (use f(3,4) assms(6) in simp_all)
  ultimately show ?thesis
    using partition_bounds(2) [of "part_start part" "part_size part" lba cnt] assms(2-5)
    by (simp add: partition_write_sectors_def Let_def hw_is_read partition_fits_def)
qed

text \<open>C14. The partition driver turns a device into a smaller device: when the backing device is
  driven by hardware, serves the image \<open>img\<close> and is large enough for the partition in every
  state, the partition device serves the image between the partition's bounds, so every read and
  write through it stays there and \<open>block_read\<close> and \<open>block_write\<close> are correct on it.\<close>

theorem partition_serves:
  assumes "serves t (part_blockdev part) ssz img" and "partition_fits part ssz img"
    and "block_driver_at t (bdev_major (part_blockdev part)) = Ret (Some (HwDriver h))"
    and "block_driver_at t (bdev_major dev) = Ret (Some PartitionDriver)"
    and "partition_at t (bdev_minor dev) = Ret part" and "0 < ssz"
  shows "serves t dev ssz (\<lambda>w. partition_image part ssz (img w))"
proof -
  have "length (partition_image part ssz (img w)) = unat (part_size part) * ssz" for w
    using assms(2) by (simp add: partition_image_def partition_fits_def add_mult_distrib)
  moreover have "get_sector_size t dev w = Ret (int ssz)" for w
    using assms serves_sector_size [OF assms(1), of w]
    by (simp add: get_sector_size_def partition_get_sector_size_def hw_is_read)
  ultimately show ?thesis
    using partition_read_image [OF assms(1-3,5)] partition_write_image [OF assms(1-3,5)] assms(4,6)
    by (simp add: serves_def read_sectors_def write_sectors_def)
qed

theorem partition_serves_witness:
  "serves ram_blk (no_device\<lparr>bdev_major := 2\<rparr>) 2 (\<lambda>w. partition_image ram_part 2 (ram_img w))"
  using partition_serves [of ram_blk ram_part 2 ram_img ram_disk "no_device\<lparr>bdev_major := 2\<rparr>"] ram_serves
    ram_part_at
  by (simp add: ram_part_def partition_fits_def) (simp add: ram_dev_def no_device_def)

text \<open>The bounds check of the partition driver is passed by a request that reaches far beyond
  the partition: the end of the request is computed modulo \<open>2 ^ 64\<close>, so a count that makes it
  wrap to zero is forwarded unchanged to the backing device.\<close>

theorem partition_check_wraps:
  assumes "partition_at t p = Ret part" and "part_start part \<noteq> 0"
  shows "partition_read_sectors t p 0 (- part_start part) w =
     hw_read t (part_blockdev part) (part_start part) (- part_start part) w"
  using assms by (simp add: partition_read_sectors_def Let_def)

theorem partition_check_wraps_witness:
  "partition_read_sectors ram_blk 0 0 (- 1) ram0 = hw_read ram_blk ram_dev 1 (- 1) ram0"
  using partition_check_wraps [of ram_blk 0 ram_part ram0] ram_part_at by (simp add: ram_part_def)

end
