(* ===== verification/Chrdev.thy ===== *)
theory Chrdev
  imports Prelude
begin

text \<open>
  The character device layer of \<open>kernel/drivers/chrdev.c\<close>: the driver table and the three
  operations that dispatch through it, and the drivers of \<open>kernel/drivers/nulldev.c\<close>
  (\<open>/dev/null\<close> is minor 0, \<open>/dev/zero\<close> minor 1).  A driver is a record of optional functions
  on a device state of any type \<open>'w\<close>, as in the theory of block devices.
\<close>

record char_device =
  cdev_major :: u32
  cdev_minor :: u32

record 'w char_driver =
  cd_read :: "(u32 \<Rightarrow> u64 \<Rightarrow> u64 \<Rightarrow> 'w \<Rightarrow> int \<times> byte list \<times> 'w) option"
  cd_write :: "(u32 \<Rightarrow> u64 \<Rightarrow> byte list \<Rightarrow> u64 \<Rightarrow> 'w \<Rightarrow> int \<times> 'w) option"
  cd_ioctl :: "(u32 \<Rightarrow> u64 \<Rightarrow> u64 \<Rightarrow> 'w \<Rightarrow> int \<times> 'w) option"

text \<open>The list holds the array elements from index 1 on; element 0 stays empty.\<close>

type_synonym 'w chr = "'w char_driver list"

definition char_driver_at :: "'w chr \<Rightarrow> u32 \<Rightarrow> 'w char_driver option outcome" where
  "char_driver_at t maj =
     (if maj = 0 then Ret None
      else if unat maj \<ge> 128 then Fault
      else if unat maj \<le> length t then Ret (Some (t ! (unat maj - 1)))
      else Ret None)"

definition register_char_driver :: "'w chr \<Rightarrow> 'w char_driver \<Rightarrow> int \<times> 'w chr" where
  "register_char_driver t d =
     (if length t \<ge> 127 then (- ENOSPC, t) else (int (length t) + 1, t @ [d]))"

definition char_read ::
  "'w chr \<Rightarrow> char_device \<Rightarrow> u64 \<Rightarrow> u64 \<Rightarrow> 'w \<Rightarrow> (int \<times> byte list \<times> 'w) outcome" where
  "char_read t dev off sz w =
     bind_outcome (char_driver_at t (cdev_major dev)) (\<lambda>d. case d of
       None \<Rightarrow> Ret (- ENODEV, [], w)
     | Some dr \<Rightarrow> (case cd_read dr of
         None \<Rightarrow> Ret (- ENOSYS, [], w)
       | Some f \<Rightarrow> Ret (f (cdev_minor dev) off sz w)))"

definition char_write ::
  "'w chr \<Rightarrow> char_device \<Rightarrow> u64 \<Rightarrow> byte list \<Rightarrow> u64 \<Rightarrow> 'w \<Rightarrow> (int \<times> 'w) outcome" where
  "char_write t dev off buf sz w =
     bind_outcome (char_driver_at t (cdev_major dev)) (\<lambda>d. case d of
       None \<Rightarrow> Ret (- ENODEV, w)
     | Some dr \<Rightarrow> (case cd_write dr of
         None \<Rightarrow> Ret (- ENOSYS, w)
       | Some f \<Rightarrow> Ret (f (cdev_minor dev) off buf sz w)))"

definition char_ioctl ::
  "'w chr \<Rightarrow> char_device \<Rightarrow> u64 \<Rightarrow> u64 \<Rightarrow> 'w \<Rightarrow> (int \<times> 'w) outcome" where
  "char_ioctl t dev request arg w =
     bind_outcome (char_driver_at t (cdev_major dev)) (\<lambda>d. case d of
       None \<Rightarrow> Ret (- ENODEV, w)
     | Some dr \<Rightarrow> (case cd_ioctl dr of
         None \<Rightarrow> Ret (- ENOTTY, w)
       | Some f \<Rightarrow> Ret (f (cdev_minor dev) request arg w)))"

section \<open>The null devices\<close>

definition null_write :: "u32 \<Rightarrow> u64 \<Rightarrow> byte list \<Rightarrow> u64 \<Rightarrow> 'w \<Rightarrow> int \<times> 'w" where
  "null_write mnr off buf sz w =
     (if sint mnr < 0 \<or> sint mnr > 1 then (- ENODEV, w) else (sint sz, w))"

definition zero_read :: "u64 \<Rightarrow> u64 \<Rightarrow> int \<times> byte list" where
  "zero_read off sz = (sint sz, replicate (unat sz) 0)"

definition null_read :: "u32 \<Rightarrow> u64 \<Rightarrow> u64 \<Rightarrow> 'w \<Rightarrow> int \<times> byte list \<times> 'w" where
  "null_read mnr off sz w =
     (if mnr = 0 then (0, [], w)
      else if mnr = 1 then (case zero_read off sz of (r, bs) \<Rightarrow> (r, bs, w))
      else (- ENODEV, [], w))"

definition null_driver :: "'w char_driver" where
  "null_driver = \<lparr>cd_read = Some null_read, cd_write = Some null_write, cd_ioctl = None\<rparr>"

section \<open>Registration\<close>

text \<open>A driver keeps the major number it was given: later registrations do not move it, so
  the device nodes made from it stay valid.\<close>

lemma char_driver_at_registered:
  assumes "register_char_driver t d = (maj, t')" and "0 \<le> maj"
  shows "char_driver_at t' (word_of_int maj) = Ret (Some d)"
proof -
  from assms have len: "length t < 127" and maj: "maj = int (length t) + 1" and t': "t' = t @ [d]"
    by (auto simp: register_char_driver_def errno_simps split: if_splits)
  have "(word_of_int maj :: u32) = word_of_nat (length t + 1)" by (simp add: maj)
  then have "unat (word_of_int maj :: u32) = length t + 1"
    using len by (simp only: unat_of_nat) simp
  then show ?thesis using len by (auto simp: char_driver_at_def t')
qed

lemma char_driver_at_kept:
  assumes "register_char_driver t d = (r, t')" and "char_driver_at t m = Ret (Some e)"
  shows "char_driver_at t' m = Ret (Some e)"
proof -
  from assms(2) have "0 < unat m" and "unat m \<le> length t"
    by (auto simp: char_driver_at_def unat_gt_0 split: if_splits)
  then show ?thesis
    using assms by (auto simp: register_char_driver_def char_driver_at_def nth_append split: if_splits)
qed

end
