(* ===== verification/Ramfs.thy ===== *)
theory Ramfs
  imports Blockdev Chrdev
begin

text \<open>
  The memory file system of \<open>kernel/fs/ramfs.c\<close>.  Directory entries live in a store indexed by
  their address and are linked by the pointers \<open>previous\<close>, \<open>next\<close>, \<open>parent\<close> and
  \<open>child\<close>, with 0 for the null pointer; an access through a null or freed pointer is a
  \<open>Fault\<close>.  The data blocks of a file belong to that file alone, so the chain behind
  \<open>first_block\<close> is the list of its blocks, each of \<open>RAMFS_BLOCK_SIZE\<close> bytes, the empty list
  standing for the null pointer.  \<open>kmalloc\<close> returns fresh zeroed memory (theory of the kernel
  heap), so a new entry has all fields zero; \<open>rf_next\<close> is the next address it returns.  A path
  is a string without its terminating null character.
\<close>

definition RAMFS_BLOCK_SIZE :: nat where
  "RAMFS_BLOCK_SIZE = 4096 - 8"

record ramfs_dirent =
  rd_name :: string
  rd_type :: u32
  rd_device :: u64
  rd_file_size :: u64
  rd_open_count :: u64
  rd_mtime :: u64
  rd_ctime :: u64
  rd_btime :: u64
  rd_to_delete :: bool
  rd_first_block :: "byte list list"
  rd_previous :: nat
  rd_next :: nat
  rd_parent :: nat
  rd_child :: nat

record ramfs =
  rf_root :: nat
  rf_read_only :: bool
  rf_dirents :: "nat \<Rightarrow> ramfs_dirent option"
  rf_next :: nat

definition zero_block :: "byte list" where
  "zero_block = replicate RAMFS_BLOCK_SIZE 0"

definition zero_dirent :: ramfs_dirent where
  "zero_dirent = \<lparr>rd_name = [], rd_type = 0, rd_device = 0, rd_file_size = 0, rd_open_count = 0,
     rd_mtime = 0, rd_ctime = 0, rd_btime = 0, rd_to_delete = False, rd_first_block = [],
     rd_previous = 0, rd_next = 0, rd_parent = 0, rd_child = 0\<rparr>"

text \<open>Reading and writing through a pointer.\<close>

definition deref :: "ramfs \<Rightarrow> nat \<Rightarrow> ramfs_dirent outcome" where
  "deref s p = (if p = 0 then Fault else case rf_dirents s p of None \<Rightarrow> Fault | Some d \<Rightarrow> Ret d)"

definition upd :: "ramfs \<Rightarrow> nat \<Rightarrow> (ramfs_dirent \<Rightarrow> ramfs_dirent) \<Rightarrow> ramfs outcome" where
  "upd s p f = bind_outcome (deref s p) (\<lambda>d. Ret (s\<lparr>rf_dirents := (rf_dirents s)(p \<mapsto> f d)\<rparr>))"

definition alloc_dirent :: "ramfs \<Rightarrow> ramfs_dirent \<Rightarrow> nat \<times> ramfs" where
  "alloc_dirent s d = (rf_next s, s\<lparr>rf_dirents := (rf_dirents s)(rf_next s \<mapsto> d), rf_next := rf_next s + 1\<rparr>)"

section \<open>Names and paths\<close>

text \<open>\<open>strncmp\<close>: the end of a list is the terminating null character.\<close>

fun strncmp :: "string \<Rightarrow> string \<Rightarrow> nat \<Rightarrow> int" where
  "strncmp s1 s2 0 = 0"
| "strncmp [] [] (Suc n) = 0"
| "strncmp (c # s1) [] (Suc n) = of_char c"
| "strncmp [] (c # s2) (Suc n) = - of_char c"
| "strncmp (c1 # s1) (c2 # s2) (Suc n) =
     (if c1 \<noteq> c2 then of_char c1 - of_char c2 else if c1 = CHR 0x00 then 0 else strncmp s1 s2 n)"

text \<open>The loop that copies one path component into \<open>subdir\<close>; it stops after 256 characters.\<close>

fun scan_component :: "nat \<Rightarrow> string \<Rightarrow> string \<times> string" where
  "scan_component 0 path = ([], path)"
| "scan_component (Suc n) [] = ([], [])"
| "scan_component (Suc n) (c # path) =
     (if c = CHR ''/'' then ([], c # path)
      else case scan_component n path of (sub, rest) \<Rightarrow> (c # sub, rest))"

text \<open>The loop over the entries of a directory.  The fuel is one more than the number of addresses
  the allocator has handed out, which bounds the length of every list without a cycle.\<close>

fun find_sibling :: "ramfs \<Rightarrow> nat \<Rightarrow> string \<Rightarrow> nat \<Rightarrow> nat option outcome" where
  "find_sibling s 0 name p = Blocks"
| "find_sibling s (Suc n) name p =
     (if p = 0 then Ret None
      else bind_outcome (deref s p) (\<lambda>d.
        if strncmp name (rd_name d) 256 = 0 then Ret (Some p) else find_sibling s n name (rd_next d)))"

lemma scan_component_length: "length (snd (scan_component n path)) + length (fst (scan_component n path)) = length path"
  by (induction n path rule: scan_component.induct) (auto split: prod.splits)

lemma scan_component_shorter:
  "(sub, rest) = scan_component n path \<Longrightarrow> sub \<noteq> [] \<Longrightarrow> length rest < length path"
  using scan_component_length [of n path] by (cases "scan_component n path") (auto simp: neq_Nil_conv)

text \<open>The array \<open>subdir\<close> has 256 characters, so a component of 256 or more characters makes the
  terminator land behind it.\<close>

function ramfs_walk :: "ramfs \<Rightarrow> nat \<Rightarrow> string \<Rightarrow> (int + nat) outcome" where
  "ramfs_walk s current path =
     (if path = [] then Ret (Inr current)
      else case scan_component 256 path of (sub, rest) \<Rightarrow>
        if sub = [] then ramfs_walk s current (tl path)
        else if length sub \<ge> 256 then Fault
        else bind_outcome (deref s current) (\<lambda>d.
          if rd_type d \<noteq> DT_DIR then Ret (Inl (- ENOENT))
          else bind_outcome (find_sibling s (Suc (rf_next s)) sub (rd_child d)) (\<lambda>r. case r of
            None \<Rightarrow> Ret (Inl (- ENOENT))
          | Some p \<Rightarrow> ramfs_walk s p rest)))"
  by pat_completeness auto
termination
  by (relation "measure (\<lambda>(s, current, path). length path)") (auto dest: scan_component_shorter)

declare ramfs_walk.simps [simp del]

definition ramfs_get_dirent :: "ramfs \<Rightarrow> string \<Rightarrow> (int + nat) outcome" where
  "ramfs_get_dirent s path = ramfs_walk s (rf_root s) (dropWhile (\<lambda>c. c = CHR ''/'') path)"

text \<open>The two backward loops of the functions that take a path apart.\<close>

primrec trim_slashes :: "string \<Rightarrow> nat \<Rightarrow> nat" where
  "trim_slashes path 0 = 0"
| "trim_slashes path (Suc n) = (if path ! n = CHR ''/'' then trim_slashes path n else Suc n)"

primrec last_slash :: "string \<Rightarrow> nat \<Rightarrow> nat" where
  "last_slash path 0 = 0"
| "last_slash path (Suc n) = (if path ! n \<noteq> CHR ''/'' then last_slash path n else Suc n)"

text \<open>\<open>dirname\<close> and \<open>filename\<close> are arrays of 256 characters; nothing bounds what is copied.\<close>

definition split_parent :: "string \<Rightarrow> (string \<times> string) outcome" where
  "split_parent path =
     (let len = trim_slashes path (length path);
          slash = last_slash path len;
          dirname = (if slash = 0 then [] else take (slash - 1) path);
          filename = take (len - slash) (drop slash path)
      in if length dirname \<ge> 256 \<or> length filename \<ge> 256 then Fault else Ret (dirname, filename))"

section \<open>Entries\<close>

definition ramfs_unlink :: "ramfs \<Rightarrow> nat \<Rightarrow> ramfs outcome" where
  "ramfs_unlink s p =
     bind_outcome (deref s p) (\<lambda>d.
     bind_outcome (if rd_previous d \<noteq> 0 then upd s (rd_previous d) (\<lambda>q. q\<lparr>rd_next := rd_next d\<rparr>) else Ret s) (\<lambda>s1.
     bind_outcome (deref s1 p) (\<lambda>d1.
     bind_outcome (deref s1 (rd_parent d1)) (\<lambda>par.
     bind_outcome (if rd_child par = p then upd s1 (rd_parent d1) (\<lambda>q. q\<lparr>rd_child := rd_next d1\<rparr>) else Ret s1) (\<lambda>s2.
     bind_outcome (deref s2 p) (\<lambda>d2.
     if rd_next d2 \<noteq> 0 then upd s2 (rd_next d2) (\<lambda>q. q\<lparr>rd_previous := rd_previous d2\<rparr>) else Ret s2))))))"

definition ramfs_free_dirent :: "ramfs \<Rightarrow> nat \<Rightarrow> (int \<times> ramfs) outcome" where
  "ramfs_free_dirent s p =
     bind_outcome (ramfs_unlink s p) (\<lambda>s1. Ret (0, s1\<lparr>rf_dirents := (rf_dirents s1)(p := None)\<rparr>))"

definition ramfs_get_root :: "ramfs \<Rightarrow> nat" where
  "ramfs_get_root s = rf_root s"

definition ramfs_lookup :: "ramfs \<Rightarrow> string \<Rightarrow> nat \<Rightarrow> (int + nat) outcome" where
  "ramfs_lookup s name par =
     bind_outcome (deref s par) (\<lambda>d.
       if rd_type d \<noteq> DT_DIR then Ret (Inl (- ENOTDIR))
       else bind_outcome (find_sibling s (Suc (rf_next s)) name (rd_child d)) (\<lambda>r. case r of
         None \<Rightarrow> Ret (Inl (- ENOENT))
       | Some p \<Rightarrow> Ret (Inr p)))"

definition ramfs_open :: "ramfs \<Rightarrow> nat \<Rightarrow> (int \<times> ramfs) outcome" where
  "ramfs_open s p =
     bind_outcome (upd s p (\<lambda>d. d\<lparr>rd_open_count := rd_open_count d + 1\<rparr>)) (\<lambda>s1. Ret (0, s1))"

definition ramfs_close :: "ramfs \<Rightarrow> nat \<Rightarrow> (int \<times> ramfs) outcome" where
  "ramfs_close s p =
     bind_outcome (upd s p (\<lambda>d. d\<lparr>rd_open_count := rd_open_count d - 1\<rparr>)) (\<lambda>s1.
     bind_outcome (deref s1 p) (\<lambda>d.
       if rd_open_count d = 0 \<and> rd_to_delete d then ramfs_free_dirent s1 p else Ret (0, s1)))"

fun readdir_loop :: "ramfs \<Rightarrow> nat \<Rightarrow> nat \<Rightarrow> int \<Rightarrow> int \<Rightarrow> (int \<times> (string \<times> u32) option) outcome" where
  "readdir_loop s 0 p i index = Blocks"
| "readdir_loop s (Suc n) p i index =
     (if p = 0 then Ret (0, None)
      else bind_outcome (deref s p) (\<lambda>d.
        if rd_to_delete d then readdir_loop s n (rd_next d) i index
        else if i = index then Ret (1, Some (rd_name d, rd_type d))
        else readdir_loop s n (rd_next d) (i + 1) index))"

definition ramfs_readdir :: "ramfs \<Rightarrow> nat \<Rightarrow> int \<Rightarrow> (int \<times> (string \<times> u32) option) outcome" where
  "ramfs_readdir s p index =
     bind_outcome (deref s p) (\<lambda>d.
       if rd_type d \<noteq> DT_DIR then Ret (- ENOTDIR, None)
       else readdir_loop s (Suc (rf_next s)) (rd_child d) 0 index)"

definition ramfs_delete :: "ramfs \<Rightarrow> string \<Rightarrow> (int \<times> ramfs) outcome" where
  "ramfs_delete s path =
     (if rf_read_only s then Ret (- EROFS, s)
      else bind_outcome (ramfs_get_dirent s path) (\<lambda>r. case r of
        Inl e \<Rightarrow> Ret (e, s)
      | Inr p \<Rightarrow>
          bind_outcome (upd s p (\<lambda>d. d\<lparr>rd_to_delete := True\<rparr>)) (\<lambda>s1.
          bind_outcome (deref s1 p) (\<lambda>d.
            if rd_open_count d > 0 then Ret (0, s1) else ramfs_free_dirent s1 p))))"

definition ramfs_add_dirent :: "ramfs \<Rightarrow> string \<Rightarrow> nat \<Rightarrow> u64 \<Rightarrow> (int \<times> ramfs) outcome" where
  "ramfs_add_dirent s path p now =
     (if rf_read_only s then Ret (- EROFS, s)
      else bind_outcome (ramfs_get_dirent s path) (\<lambda>r. case r of
        Inl e \<Rightarrow> Ret (e, s)
      | Inr dir \<Rightarrow>
          bind_outcome (deref s dir) (\<lambda>par.
          if rd_type par \<noteq> DT_DIR then Ret (- ENOTDIR, s)
          else
          bind_outcome (upd s p (\<lambda>d. d\<lparr>rd_mtime := now, rd_ctime := now, rd_btime := now,
                                       rd_parent := dir, rd_next := rd_child par\<rparr>)) (\<lambda>s1.
          bind_outcome (upd s1 dir (\<lambda>q. q\<lparr>rd_child := p\<rparr>)) (\<lambda>s2.
          bind_outcome (deref s2 p) (\<lambda>d.
          bind_outcome (if rd_next d \<noteq> 0 then upd s2 (rd_next d) (\<lambda>q. q\<lparr>rd_previous := p\<rparr>) else Ret s2) (\<lambda>s3.
          bind_outcome (upd s3 p (\<lambda>d. d\<lparr>rd_previous := 0, rd_child := 0\<rparr>)) (\<lambda>s4.
          Ret (0, s4)))))))))"

text \<open>The common body of \<open>ramfs_mknod\<close>, \<open>ramfs_create_file\<close> and \<open>ramfs_create_directory\<close>, which the
  source writes out three times.\<close>

definition ramfs_create :: "ramfs \<Rightarrow> string \<Rightarrow> u32 \<Rightarrow> u64 \<Rightarrow> u64 \<Rightarrow> (int \<times> ramfs) outcome" where
  "ramfs_create s path ty dev now =
     bind_outcome (ramfs_get_dirent s path) (\<lambda>r. case r of
       Inr tmp \<Rightarrow> Ret (- EEXIST, s)
     | Inl e \<Rightarrow>
         bind_outcome (split_parent path) (\<lambda>(dirname, filename).
           case alloc_dirent s (zero_dirent\<lparr>rd_name := take 255 filename, rd_type := ty, rd_device := dev\<rparr>) of
             (p, s1) \<Rightarrow> ramfs_add_dirent s1 dirname p now))"

definition ramfs_mknod :: "ramfs \<Rightarrow> string \<Rightarrow> u32 \<Rightarrow> u64 \<Rightarrow> u64 \<Rightarrow> (int \<times> ramfs) outcome" where
  "ramfs_mknod s path ty dev now =
     (if rf_read_only s then Ret (- EROFS, s)
      else if ty \<noteq> DT_BLOCK \<and> ty \<noteq> DT_CHAR then Ret (- EINVAL, s)
      else ramfs_create s path ty dev now)"

definition ramfs_create_file :: "ramfs \<Rightarrow> string \<Rightarrow> u64 \<Rightarrow> (int \<times> ramfs) outcome" where
  "ramfs_create_file s path now =
     (if rf_read_only s then Ret (- EROFS, s) else ramfs_create s path DT_FILE 0 now)"

definition ramfs_create_directory :: "ramfs \<Rightarrow> string \<Rightarrow> u64 \<Rightarrow> (int \<times> ramfs) outcome" where
  "ramfs_create_directory s path now =
     (if rf_read_only s then Ret (- EROFS, s) else ramfs_create s path DT_DIR 0 now)"

definition ramfs_rename :: "ramfs \<Rightarrow> string \<Rightarrow> string \<Rightarrow> u64 \<Rightarrow> (int \<times> ramfs) outcome" where
  "ramfs_rename s old_path new_path now =
     (if rf_read_only s then Ret (- EROFS, s)
      else bind_outcome (ramfs_get_dirent s old_path) (\<lambda>r. case r of
        Inl e \<Rightarrow> Ret (e, s)
      | Inr p \<Rightarrow>
          bind_outcome (ramfs_unlink s p) (\<lambda>s1.
          bind_outcome (split_parent new_path) (\<lambda>(dirname, filename).
          bind_outcome (upd s1 p (\<lambda>d. d\<lparr>rd_name := filename\<rparr>)) (\<lambda>s2.
            ramfs_add_dirent s2 dirname p now)))))"

record stat_t =
  st_size :: u64
  st_ctime :: u64
  st_mtime :: u64
  st_btime :: u64
  st_rdev :: u64
  st_mode :: u32
  st_type :: u32

definition zero_stat :: stat_t where
  "zero_stat = \<lparr>st_size = 0, st_ctime = 0, st_mtime = 0, st_btime = 0, st_rdev = 0, st_mode = 0, st_type = 0\<rparr>"

definition ramfs_stat :: "ramfs \<Rightarrow> nat \<Rightarrow> (int \<times> stat_t) outcome" where
  "ramfs_stat s p =
     bind_outcome (deref s p) (\<lambda>d. Ret (0, zero_stat\<lparr>st_type := rd_type d, st_size := rd_file_size d,
       st_rdev := rd_device d, st_mtime := rd_mtime d, st_ctime := rd_ctime d, st_btime := rd_btime d\<rparr>))"

section \<open>File data\<close>

text \<open>The read loop from the block \<open>current\<close> on; \<open>n\<close> is \<open>size - bytes_read\<close>.\<close>

fun read_blocks :: "byte list list \<Rightarrow> nat \<Rightarrow> nat \<Rightarrow> byte list" where
  "read_blocks [] off n = []"
| "read_blocks (b # bs) off n =
     (if n = 0 then []
      else let to_read = min (RAMFS_BLOCK_SIZE - off) n
           in read_at b off to_read @ read_blocks bs 0 (n - to_read))"

definition ramfs_read_data :: "byte list list \<Rightarrow> u64 \<Rightarrow> u64 \<Rightarrow> u64 \<Rightarrow> byte list outcome" where
  "ramfs_read_data blocks fsize off sz =
     (if off \<ge> fsize then Ret []
      else let n = (if off + sz > fsize then fsize - off else sz);
               skipped = unat off div RAMFS_BLOCK_SIZE
           in if skipped > length blocks then Fault
              else Ret (read_blocks (drop skipped blocks) (unat off mod RAMFS_BLOCK_SIZE) (unat n)))"

definition ramfs_read ::
  "'w blk \<Rightarrow> 'w chr \<Rightarrow> ramfs \<Rightarrow> nat \<Rightarrow> u64 \<Rightarrow> u64 \<Rightarrow> 'w \<Rightarrow> (int \<times> byte list \<times> 'w) outcome" where
  "ramfs_read bt ct s p off sz w =
     bind_outcome (deref s p) (\<lambda>d.
       if rd_type d = DT_DIR then Ret (- EISDIR, [], w)
       else if rd_type d = DT_BLOCK then
         block_read bt (no_device\<lparr>bdev_major := major (rd_device d), bdev_minor := minor (rd_device d)\<rparr>) off sz w
       else if rd_type d = DT_CHAR then
         char_read ct \<lparr>cdev_major = major (rd_device d), cdev_minor = minor (rd_device d)\<rparr> off sz w
       else bind_outcome (ramfs_read_data (rd_first_block d) (rd_file_size d) off sz) (\<lambda>bs.
         Ret (int (length bs), bs, w)))"

text \<open>The write loop from the block \<open>current\<close> on, with the bytes still to write.  When the block
  has no successor one is allocated, also after the last byte.\<close>

function write_blocks :: "byte list list \<Rightarrow> nat \<Rightarrow> byte list \<Rightarrow> byte list list" where
  "write_blocks [] off data = []"
| "write_blocks (b # bs) off data =
     (if data = [] then b # bs
      else let to_write = min (RAMFS_BLOCK_SIZE - off) (length data)
           in write_at b off (take to_write data) #
              write_blocks (if bs = [] then [zero_block] else bs) 0 (drop to_write data))"
  by pat_completeness auto
termination
  by (relation "measure (\<lambda>(bs, off, data). 2 * length data + (if off = 0 then 0 else 1))")
    (auto simp: RAMFS_BLOCK_SIZE_def)

text \<open>The loop that skips blocks and allocates those that are missing: afterwards block number
  \<open>skipped\<close> exists.\<close>

definition extend_blocks :: "byte list list \<Rightarrow> nat \<Rightarrow> byte list list" where
  "extend_blocks blocks skipped = blocks @ replicate (Suc skipped - length blocks) zero_block"

definition ramfs_write_data :: "byte list list \<Rightarrow> u64 \<Rightarrow> byte list \<Rightarrow> byte list list" where
  "ramfs_write_data blocks off data =
     (let skipped = unat off div RAMFS_BLOCK_SIZE; bs = extend_blocks blocks skipped
      in take skipped bs @ write_blocks (drop skipped bs) (unat off mod RAMFS_BLOCK_SIZE) data)"

definition ramfs_write ::
  "'w blk \<Rightarrow> 'w chr \<Rightarrow> ramfs \<Rightarrow> nat \<Rightarrow> byte list \<Rightarrow> u64 \<Rightarrow> u64 \<Rightarrow> u64 \<Rightarrow> 'w \<Rightarrow> (int \<times> ramfs \<times> 'w) outcome" where
  "ramfs_write bt ct s p buf off sz now w =
     (if rf_read_only s then Ret (- EROFS, s, w)
      else bind_outcome (deref s p) (\<lambda>d.
        if rd_type d = DT_DIR then Ret (- EISDIR, s, w)
        else if rd_type d = DT_BLOCK then
          bind_outcome (block_write bt
            (no_device\<lparr>bdev_major := major (rd_device d), bdev_minor := minor (rd_device d)\<rparr>) off buf sz w)
            (\<lambda>(r, w1). Ret (r, s, w1))
        else if rd_type d = DT_CHAR then
          bind_outcome (char_write ct
            \<lparr>cdev_major = major (rd_device d), cdev_minor = minor (rd_device d)\<rparr> off buf sz w)
            (\<lambda>(r, w1). Ret (r, s, w1))
        else bind_outcome (upd s p (\<lambda>d. d\<lparr>
               rd_first_block := ramfs_write_data (rd_first_block d) off (take (unat sz) buf),
               rd_mtime := now,
               rd_file_size := (if rd_file_size d < off + sz then off + sz else rd_file_size d)\<rparr>))
             (\<lambda>s1. Ret (sint sz, s1, w))))"

text \<open>The loop of \<open>ramfs_truncate\<close> that keeps the last \<open>difference + 1\<close> blocks of the chain in
  the ring \<open>last_blocks\<close>; a block is named by its position in the chain of length \<open>len\<close>.\<close>

function trunc_scan :: "nat \<Rightarrow> nat \<Rightarrow> nat option list \<Rightarrow> nat \<Rightarrow> nat \<Rightarrow> nat option list \<times> nat" where
  "trunc_scan diff len ring head i =
     (if i + 1 < len
      then let head' = (head + 1) mod (diff + 1)
           in trunc_scan diff len (ring[head' := Some (i + 1)]) head' (i + 1)
      else (ring, head))"
  by pat_completeness auto
termination by (relation "measure (\<lambda>(diff, len, ring, head, i). len - i)") auto

declare trunc_scan.simps [simp del]

definition block_count :: "u64 \<Rightarrow> u64" where
  "block_count n = (n + word_of_nat RAMFS_BLOCK_SIZE - 1) div word_of_nat RAMFS_BLOCK_SIZE"

definition trunc_shrink :: "byte list list \<Rightarrow> nat \<Rightarrow> nat \<Rightarrow> byte list list outcome" where
  "trunc_shrink blocks diff new_size =
     (if blocks = [] then Fault
      else case trunc_scan diff (length blocks) ((replicate (diff + 1) None)[0 := Some 0]) 0 0 of
        (ring, head) \<Rightarrow> (case ring ! ((head + 1) mod (diff + 1)) of
          None \<Rightarrow> Ret []
        | Some new_end \<Rightarrow>
            let cut = new_size mod RAMFS_BLOCK_SIZE; kept = take (new_end + 1) blocks
            in Ret (if cut \<noteq> 0
                    then kept[new_end := write_at (kept ! new_end) cut (replicate (RAMFS_BLOCK_SIZE - cut) 0)]
                    else kept)))"

definition ramfs_truncate_data :: "byte list list \<Rightarrow> u64 \<Rightarrow> u64 \<Rightarrow> byte list list outcome" where
  "ramfs_truncate_data blocks old_size new_size =
     (if block_count old_size < block_count new_size
      then Ret (blocks @ replicate (unat (block_count new_size - block_count old_size)) zero_block)
      else if block_count old_size > block_count new_size
      then trunc_shrink blocks (unat (block_count old_size - block_count new_size)) (unat new_size)
      else Ret blocks)"

definition ramfs_truncate :: "ramfs \<Rightarrow> nat \<Rightarrow> u64 \<Rightarrow> u64 \<Rightarrow> (int \<times> ramfs) outcome" where
  "ramfs_truncate s p new_size now =
     bind_outcome (deref s p) (\<lambda>d.
     bind_outcome (ramfs_truncate_data (rd_first_block d) (rd_file_size d) new_size) (\<lambda>bs.
     bind_outcome (upd s p (\<lambda>d. d\<lparr>rd_file_size := new_size, rd_ctime := now, rd_mtime := now,
                                  rd_first_block := bs\<rparr>)) (\<lambda>s1.
       Ret (0, s1))))"

section \<open>Mounting\<close>

definition ramfs_check :: "block_device \<Rightarrow> int" where
  "ramfs_check dev = 1"

definition FLAG_READ_ONLY :: u32 where [flag_simps]: "FLAG_READ_ONLY = 1"

text \<open>The mount structure embeds the root entry, so its address is the root's; the store of a
  fresh instance starts at that address.\<close>

definition ramfs_mount :: "block_device \<Rightarrow> u32 \<Rightarrow> nat \<Rightarrow> u64 \<Rightarrow> ramfs" where
  "ramfs_mount dev flags addr now =
     \<lparr>rf_root = addr, rf_read_only = (flags AND FLAG_READ_ONLY \<noteq> 0),
      rf_dirents = [addr \<mapsto> zero_dirent\<lparr>rd_type := DT_DIR, rd_mtime := now, rd_ctime := now, rd_btime := now\<rparr>],
      rf_next = addr + 1\<rparr>"

text \<open>Recursive deletion: the loop over the children and the call for each of them, with fuel for the
  nesting and the lists together.\<close>

fun delete_list :: "nat \<Rightarrow> ramfs \<Rightarrow> nat \<Rightarrow> ramfs outcome" where
  "delete_list 0 s p = Blocks"
| "delete_list (Suc n) s p =
     (if p = 0 then Ret s
      else bind_outcome (deref s p) (\<lambda>d.
        bind_outcome (delete_list n s (rd_child d)) (\<lambda>s1.
        bind_outcome (ramfs_free_dirent s1 p) (\<lambda>(r, s2).
          delete_list n s2 (rd_next d)))))"

definition ramfs_recursive_delete :: "ramfs \<Rightarrow> nat \<Rightarrow> ramfs outcome" where
  "ramfs_recursive_delete s p =
     bind_outcome (deref s p) (\<lambda>d.
     bind_outcome (delete_list (Suc (rf_next s)) s (rd_child d)) (\<lambda>s1.
     bind_outcome (ramfs_free_dirent s1 p) (\<lambda>(r, s2). Ret s2)))"

definition ramfs_unmount :: "ramfs \<Rightarrow> (int \<times> ramfs) outcome" where
  "ramfs_unmount s =
     bind_outcome (deref s (rf_root s)) (\<lambda>d.
     bind_outcome (delete_list (Suc (rf_next s)) s (rd_child d)) (\<lambda>s1.
       Ret (0, s1\<lparr>rf_dirents := (rf_dirents s1)(rf_root s := None)\<rparr>)))"

section \<open>File data: lemmas\<close>

abbreviation BS :: nat where
  "BS \<equiv> RAMFS_BLOCK_SIZE"

lemma BS_pos [simp]: "0 < BS"
  by (simp add: RAMFS_BLOCK_SIZE_def)

lemma length_zero_block [simp]: "length zero_block = BS"
  by (simp add: zero_block_def)

definition blocks_ok :: "byte list list \<Rightarrow> bool" where
  "blocks_ok bs \<longleftrightarrow> (\<forall>b\<in>set bs. length b = BS)"

lemma blocks_ok_simps [simp]:
  "blocks_ok []" "blocks_ok (b # bs) \<longleftrightarrow> length b = BS \<and> blocks_ok bs"
  "blocks_ok (as @ bs) \<longleftrightarrow> blocks_ok as \<and> blocks_ok bs" "blocks_ok (replicate n zero_block)"
  "blocks_ok [zero_block]"
  by (auto simp: blocks_ok_def zero_block_def)

lemma length_concat_ok: "blocks_ok bs \<Longrightarrow> length (concat bs) = length bs * BS"
  by (induction bs) simp_all

lemma blocks_ok_take [simp]: "blocks_ok bs \<Longrightarrow> blocks_ok (take n bs)"
  by (auto simp: blocks_ok_def dest: in_set_takeD)

lemma blocks_ok_drop [simp]: "blocks_ok bs \<Longrightarrow> blocks_ok (drop n bs)"
  by (auto simp: blocks_ok_def dest: in_set_dropD)

lemma concat_drop: "blocks_ok bs \<Longrightarrow> concat (drop k bs) = drop (k * BS) (concat bs)"
proof (induction k arbitrary: bs)
  case (Suc k)
  then show ?case by (cases bs) (simp_all add: add.commute)
qed simp

lemma concat_take: "blocks_ok bs \<Longrightarrow> concat (take k bs) = take (k * BS) (concat bs)"
proof (induction k arbitrary: bs)
  case (Suc k)
  then show ?case by (cases bs) (simp_all add: add.commute)
qed simp

lemma concat_replicate_zero: "concat (replicate n zero_block) = replicate (n * BS) 0"
  by (induction n) (simp_all add: zero_block_def replicate_add)

lemma read_blocks_concat:
  "blocks_ok bs \<Longrightarrow> off < BS \<Longrightarrow> read_blocks bs off n = read_at (concat bs) off n"
proof (induction bs off n rule: read_blocks.induct)
  case (2 b bs off n)
  show ?case
  proof (cases "n = 0")
    case False
    let ?k = "min (BS - off) n"
    have "read_blocks bs 0 (n - ?k) = read_at (concat bs) 0 (n - ?k)"
      using 2 False by simp
    moreover have "read_at (b @ concat bs) off n = read_at b off ?k @ read_at (concat bs) 0 (n - ?k)"
      using 2(2,3) by (auto simp: read_at_def min_def)
    ultimately show ?thesis using False by (simp add: Let_def)
  qed (simp add: read_at_def)
qed (simp add: read_at_def)

lemma write_at_append:
  "off < length b \<Longrightarrow> length b - off \<le> length ys \<Longrightarrow>
   write_at (b @ c) off ys = write_at b off (take (length b - off) ys) @ write_at c 0 (drop (length b - off) ys)"
  by (simp add: write_at_def add.commute)

lemma write_at_append_right: "write_at (a @ b) (length a + k) ys = a @ write_at b k ys"
  by (simp add: write_at_def)

lemma write_at_append_left:
  "off + length ys \<le> length b \<Longrightarrow> write_at (b @ c) off ys = write_at b off ys @ c"
  by (simp add: write_at_def)

lemma write_blocks_concat:
  "blocks_ok bs \<Longrightarrow> off < BS \<Longrightarrow> bs \<noteq> [] \<Longrightarrow>
   blocks_ok (write_blocks bs off data) \<and>
   (\<exists>m. off + length data \<le> length (concat bs) + m \<and>
        concat (write_blocks bs off data) = write_at (concat bs @ replicate m 0) off data)"
proof (induction bs off data rule: write_blocks.induct)
  case (2 b bs off data)
  show ?case
  proof (cases "data = []")
    case True
    then show ?thesis using 2(2,3) by (auto intro!: exI [of _ 0])
  next
    case False
    let ?k = "min (BS - off) (length data)" and ?bs = "if bs = [] then [zero_block] else bs"
    let ?r = "write_blocks ?bs 0 (drop ?k data)"
    have "blocks_ok ?bs" and "?bs \<noteq> []" using 2(2) by auto
    then obtain m where ok: "blocks_ok ?r" and m: "length data - ?k \<le> length (concat ?bs) + m"
        and r: "concat ?r = write_at (concat ?bs @ replicate m 0) 0 (drop ?k data)"
      using 2(1) [OF False refl] by auto
    obtain z where z: "concat ?bs = concat bs @ replicate z 0"
      by (cases "bs = []") (auto simp: zero_block_def intro: that [of 0])
    have b: "length b = BS" using 2(2) by simp
    have "write_at b off (take ?k data) @ write_at (concat bs @ replicate (z + m) 0) 0 (drop ?k data) =
        write_at (b @ concat bs @ replicate (z + m) 0) off data"
    proof (cases "length data \<le> BS - off")
      case True
      then show ?thesis using 2(3) b by (simp add: write_at_append_left)
    next
      case False
      then show ?thesis using 2(3) b write_at_append [of off b data "concat bs @ replicate (z + m) 0"] by simp
    qed
    then have "concat (write_blocks (b # bs) off data) = write_at (concat (b # bs) @ replicate (z + m) 0) off data"
      using r z False by (simp add: Let_def replicate_add)
    moreover have "off + length data \<le> length (concat (b # bs)) + (z + m)"
      using m z b 2(3) by (auto simp: min_def split: if_splits)
    moreover have "blocks_ok (write_blocks (b # bs) off data)"
      using ok False b 2(3) by (simp add: Let_def)
    ultimately show ?thesis by blast
  qed
qed simp


lemma ramfs_write_data_concat:
  assumes "blocks_ok bs"
  shows "blocks_ok (ramfs_write_data bs off data) \<and>
    (\<exists>m. unat off + length data \<le> length (concat bs) + m \<and>
         concat (ramfs_write_data bs off data) = write_at (concat bs @ replicate m 0) (unat off) data)"
proof -
  define k where "k = unat off div BS"
  define r where "r = unat off mod BS"
  define e where "e = extend_blocks bs k"
  have off: "unat off = k * BS + r" and r: "r < BS" by (simp_all add: k_def r_def)
  have ext: "blocks_ok e" "k < length e" using assms by (auto simp: extend_blocks_def e_def)
  obtain z where z: "concat e = concat bs @ replicate z 0"
    by (auto simp: e_def extend_blocks_def concat_replicate_zero)
  have "drop k e \<noteq> []" and "blocks_ok (drop k e)" using ext by auto
  then obtain m where m: "r + length data \<le> length (concat (drop k e)) + m"
      and w: "concat (write_blocks (drop k e) r data) = write_at (concat (drop k e) @ replicate m 0) r data"
      and ok: "blocks_ok (write_blocks (drop k e) r data)"
    using write_blocks_concat [of "drop k e" r data] r by auto
  have split: "concat e = concat (take k e) @ concat (drop k e)" by (simp flip: concat_append)
  have lt: "length (concat (take k e)) = k * BS" using ext by (simp add: length_concat_ok)
  have "write_at (concat e @ replicate m 0) (unat off) data =
      concat (take k e) @ write_at (concat (drop k e) @ replicate m 0) r data"
    using write_at_append_right [of "concat (take k e)" "concat (drop k e) @ replicate m 0" r data]
    unfolding lt split off by simp
  then have 1: "concat (ramfs_write_data bs off data) = write_at (concat bs @ replicate (z + m) 0) (unat off) data"
    using w z by (simp add: ramfs_write_data_def Let_def replicate_add flip: k_def r_def e_def)
  have "length (concat e) = length (concat bs) + z" using z by simp
  moreover have "length (concat e) = k * BS + length (concat (drop k e))"
    using arg_cong [OF split, of length] lt by simp
  ultimately have 2: "unat off + length data \<le> length (concat bs) + (z + m)"
    using m off by linarith
  have "blocks_ok (ramfs_write_data bs off data)"
    using ok ext by (simp add: ramfs_write_data_def Let_def flip: k_def r_def e_def)
  with 1 2 show ?thesis by blast
qed

text \<open>The contents of a file, and the invariant of a file entry: whole blocks, at least as many as
  the size needs, and zeros behind the end of the file.\<close>

definition file_bytes :: "ramfs_dirent \<Rightarrow> byte list" where
  "file_bytes d = take (unat (rd_file_size d)) (concat (rd_first_block d))"

definition file_ok :: "ramfs_dirent \<Rightarrow> bool" where
  "file_ok d \<longleftrightarrow> blocks_ok (rd_first_block d) \<and> unat (rd_file_size d) \<le> length (concat (rd_first_block d))"

definition tail_zero :: "ramfs_dirent \<Rightarrow> bool" where
  "tail_zero d \<longleftrightarrow> (\<forall>b\<in>set (drop (unat (rd_file_size d)) (concat (rd_first_block d))). b = 0)"

lemma length_file_bytes: "file_ok d \<Longrightarrow> length (file_bytes d) = unat (rd_file_size d)"
  by (simp add: file_ok_def file_bytes_def)

lemma tail_zero_concat:
  assumes "file_ok d" and "tail_zero d"
  obtains z where "concat (rd_first_block d) = file_bytes d @ replicate z 0"
proof -
  let ?c = "concat (rd_first_block d)" and ?n = "unat (rd_file_size d)"
  have "drop ?n ?c = replicate (length ?c - ?n) 0"
    using assms(2) by (metis tail_zero_def length_drop replicate_eqI)
  then have "?c = file_bytes d @ replicate (length ?c - ?n) 0"
    unfolding file_bytes_def by (metis append_take_drop_id)
  then show thesis by (rule that)
qed

text \<open>What a write does to the contents of a file: the gap behind the old end is filled with
  zeros.\<close>

definition file_write :: "byte list \<Rightarrow> nat \<Rightarrow> byte list \<Rightarrow> byte list" where
  "file_write c off data = write_at (c @ replicate (off + length data - length c) 0) off data"

lemma ramfs_read_data_correct:
  assumes "blocks_ok bs" and "unat n \<le> length (concat bs)" and "unat off + unat sz < 2 ^ 64"
  shows "ramfs_read_data bs n off sz = Ret (read_at (take (unat n) (concat bs)) (unat off) (unat sz))"
proof (cases "off \<ge> n")
  case True
  then show ?thesis by (simp add: ramfs_read_data_def read_at_def word_le_nat_alt)
next
  case False
  let ?m = "if off + sz > n then n - off else sz"
  have lt: "unat off < unat n" using False by (simp add: word_less_nat_alt not_le)
  have sum: "unat (off + sz) = unat off + unat sz" using assms(3) unat_add_lem [of off sz] by simp
  have m: "unat ?m = min (unat sz) (unat n - unat off)"
    using lt sum by (auto simp: word_less_nat_alt unat_sub word_le_nat_alt)
  have sk: "unat off div BS * BS \<le> length bs * BS"
    using lt assms(2) length_concat_ok [OF assms(1)] by (metis div_times_less_eq_dividend le_trans less_or_eq_imp_le)
  then have "unat off div BS \<le> length bs" by simp
  moreover have "read_blocks (drop (unat off div BS) bs) (unat off mod BS) (unat ?m) =
      read_at (concat bs) (unat off) (unat ?m)"
    using assms(1) by (simp add: read_blocks_concat concat_drop read_at_def)
  moreover have "read_at (concat bs) (unat off) (unat ?m) = read_at (take (unat n) (concat bs)) (unat off) (unat sz)"
    unfolding m by (simp add: read_at_def drop_take min.commute)
  ultimately show ?thesis using False by (simp add: ramfs_read_data_def Let_def)
qed


lemma file_write_pad:
  assumes "off + length data \<le> length c + q"
  shows "write_at (c @ replicate q 0) off data =
    file_write c off data @ replicate (length c + q - max (length c) (off + length data)) 0"
proof -
  let ?a = "off + length data - length c"
  have "replicate q 0 = replicate ?a 0 @ replicate (q - ?a) (0 :: byte)"
    using assms by (simp flip: replicate_add)
  then have "write_at (c @ replicate q 0) off data = write_at ((c @ replicate ?a 0) @ replicate (q - ?a) 0) off data"
    by simp
  also have "\<dots> = file_write c off data @ replicate (q - ?a) 0"
    unfolding file_write_def by (rule write_at_append_left) simp
  also have "q - ?a = length c + q - max (length c) (off + length data)" using assms by simp
  finally show ?thesis .
qed

lemma length_file_write: "length (file_write c off data) = max (length c) (off + length data)"
  by (simp add: file_write_def)

lemma file_write_entry:
  assumes "file_ok d" and "tail_zero d" and "unat off + unat sz < 2 ^ 64" and "length data = unat sz"
    and d': "d' = d\<lparr>rd_first_block := ramfs_write_data (rd_first_block d) off data, rd_mtime := now,
      rd_file_size := (if rd_file_size d < off + sz then off + sz else rd_file_size d)\<rparr>"
  shows "file_ok d' \<and> tail_zero d' \<and> file_bytes d' = file_write (file_bytes d) (unat off) data"
proof -
  obtain z where z: "concat (rd_first_block d) = file_bytes d @ replicate z 0"
    by (rule tail_zero_concat [OF assms(1,2)])
  have lenf: "length (file_bytes d) = unat (rd_file_size d)" by (rule length_file_bytes [OF assms(1)])
  have bs: "blocks_ok (rd_first_block d)" using assms(1) by (simp add: file_ok_def)
  then have ok: "blocks_ok (rd_first_block d')" using ramfs_write_data_concat by (simp add: d')
  obtain m where "unat off + length data \<le> length (concat (rd_first_block d)) + m"
      and "concat (rd_first_block d') = write_at (concat (rd_first_block d) @ replicate m 0) (unat off) data"
    using ramfs_write_data_concat [OF bs, of off data] by (auto simp: d')
  then have m: "unat off + unat sz \<le> length (file_bytes d) + (z + m)"
      and c: "concat (rd_first_block d') = write_at (file_bytes d @ replicate (z + m) 0) (unat off) data"
    by (simp_all add: z replicate_add assms(4))
  have "unat (off + sz) = unat off + unat sz" using assms(3) unat_add_lem [of off sz] by simp
  then have n: "unat (rd_file_size d') = max (length (file_bytes d)) (unat off + length data)"
    using lenf assms(4) by (auto simp: d' word_less_nat_alt max_def)
  have c': "concat (rd_first_block d') = file_write (file_bytes d) (unat off) data @
      replicate (length (file_bytes d) + (z + m) - unat (rd_file_size d')) 0"
    unfolding c n using m assms(4) by (intro file_write_pad) simp
  have "length (file_write (file_bytes d) (unat off) data) = unat (rd_file_size d')"
    by (simp add: length_file_write n)
  then show ?thesis using c' ok by (auto simp: file_ok_def tail_zero_def file_bytes_def)
qed

text \<open>C15. Writing to a regular file of a writable memory file system, in whose last block the bytes behind the end
  of the file are zero (\<open>tail_zero\<close>), overwrites the bytes from
  \<open>offset\<close> on and extends the file with zeros up to \<open>offset\<close> if it was shorter; all bytes are
  written, no other entry changes, and the entry keeps its invariant and the zero tail.  The end of the write lies below
  \<open>2 ^ 64\<close> and its size below \<open>2 ^ 63\<close>.  (\<open>ramfs_truncate\<close> can leave a tail that is not zero.)\<close>

theorem ramfs_write_refines:
  assumes "deref s p = Ret d" and "\<not> rf_read_only s" and "rd_type d = DT_FILE"
    and "file_ok d" and "tail_zero d"
    and "unat off + unat sz < 2 ^ 64" and "unat sz < 2 ^ 63" and "unat sz \<le> length buf"
  shows "\<exists>d'. ramfs_write bt ct s p buf off sz now w =
      Ret (int (unat sz), s\<lparr>rf_dirents := (rf_dirents s)(p \<mapsto> d')\<rparr>, w) \<and>
    file_ok d' \<and> tail_zero d' \<and>
    file_bytes d' = file_write (file_bytes d) (unat off) (take (unat sz) buf)"
proof -
  define d' where "d' = d\<lparr>
    rd_first_block := ramfs_write_data (rd_first_block d) off (take (unat sz) buf), rd_mtime := now,
    rd_file_size := (if rd_file_size d < off + sz then off + sz else rd_file_size d)\<rparr>"
  have "ramfs_write bt ct s p buf off sz now w =
      Ret (int (unat sz), s\<lparr>rf_dirents := (rf_dirents s)(p \<mapsto> d')\<rparr>, w)"
    using assms(1-3) sint_u64 [OF assms(7)]
    by (simp add: ramfs_write_def upd_def DT_FILE_def DT_DIR_def DT_BLOCK_def DT_CHAR_def d'_def)
  moreover have "file_ok d' \<and> tail_zero d' \<and>
      file_bytes d' = file_write (file_bytes d) (unat off) (take (unat sz) buf)"
    using assms(8) by (intro file_write_entry [OF assms(4-6) _ d'_def]) simp
  ultimately show ?thesis by blast
qed


text \<open>A file system with one file of three bytes, for the concrete instances.\<close>

definition demo_file :: ramfs_dirent where
  "demo_file = zero_dirent\<lparr>rd_name := ''f'', rd_type := DT_FILE, rd_file_size := 3,
     rd_first_block := [write_at zero_block 0 [1, 2, 3]], rd_parent := 1\<rparr>"

definition demo_fs :: ramfs where
  "demo_fs = \<lparr>rf_root = 1, rf_read_only = False,
     rf_dirents = [1 \<mapsto> zero_dirent\<lparr>rd_type := DT_DIR, rd_child := 2\<rparr>, 2 \<mapsto> demo_file], rf_next = 3\<rparr>"

lemma demo_deref: "deref demo_fs 2 = Ret demo_file" "\<not> rf_read_only demo_fs" "rd_type demo_file = DT_FILE"
  by (simp_all add: deref_def demo_fs_def demo_file_def)

lemma demo_file_ok: "file_ok demo_file" "tail_zero demo_file" "file_bytes demo_file = [1, 2, 3]"
  by (simp_all add: file_ok_def tail_zero_def file_bytes_def demo_file_def zero_block_def
    RAMFS_BLOCK_SIZE_def write_at_def)

theorem ramfs_write_refines_witness:
  "\<exists>d'. ramfs_write ram_blk [] demo_fs 2 [7, 8] 4 2 0 ram0 =
      Ret (2, demo_fs\<lparr>rf_dirents := (rf_dirents demo_fs)(2 \<mapsto> d')\<rparr>, ram0) \<and>
    file_ok d' \<and> tail_zero d' \<and> file_bytes d' = [1, 2, 3, 0, 7, 8]"
  using ramfs_write_refines [OF demo_deref demo_file_ok(1,2), of 4 2 "[7, 8]" ram_blk "[]" 0 ram0]
  by (simp add: demo_file_ok(3) file_write_def write_at_def numeral_3_eq_3)

text \<open>C27. Reading from a regular file returns exactly the bytes of the file between
  \<open>offset\<close> and \<open>offset + size\<close>, cut off at the end of the file, and their number.\<close>

theorem ramfs_read_correct:
  assumes "deref s p = Ret d" and "rd_type d = DT_FILE" and "file_ok d"
    and "unat off + unat sz < 2 ^ 64"
  shows "ramfs_read bt ct s p off sz w =
    (let bs = read_at (file_bytes d) (unat off) (unat sz) in Ret (int (length bs), bs, w))"
  using assms ramfs_read_data_correct [of "rd_first_block d" "rd_file_size d" off sz]
  by (simp add: ramfs_read_def DT_FILE_def DT_DIR_def DT_BLOCK_def DT_CHAR_def file_ok_def
    file_bytes_def Let_def)

theorem ramfs_read_correct_witness:
  "ramfs_read ram_blk [] demo_fs 2 1 10 ram0 = Ret (2, [2, 3], ram0)"
  using ramfs_read_correct [OF demo_deref(1,3) demo_file_ok(1), of 1 10 ram_blk "[]" ram0]
  by (simp add: demo_file_ok(3) read_at_def)

section \<open>Truncation\<close>

text \<open>The ring of \<open>ramfs_truncate\<close> is a window of the last \<open>diff + 1\<close> blocks.\<close>

lemma trunc_scan_window:
  assumes "length ring = diff + 1" and "i < len"
    and "\<And>k. k \<le> i \<Longrightarrow> i \<le> k + diff \<Longrightarrow> ring ! (k mod (diff + 1)) = Some k"
    and "\<And>j. i < j \<Longrightarrow> j \<le> diff \<Longrightarrow> ring ! j = None"
    and "trunc_scan diff len ring (i mod (diff + 1)) i = (ring', head)"
  shows "head = (len - 1) mod (diff + 1) \<and> length ring' = diff + 1 \<and>
    (\<forall>k. k < len \<longrightarrow> len - 1 \<le> k + diff \<longrightarrow> ring' ! (k mod (diff + 1)) = Some k) \<and>
    (\<forall>j. len - 1 < j \<longrightarrow> j \<le> diff \<longrightarrow> ring' ! j = None)"
  using assms
proof (induction "len - i" arbitrary: ring i)
  case 0
  then show ?case by simp
next
  case (Suc n)
  show ?case
  proof (cases "i + 1 < len")
    case False
    then have "len = i + 1" using Suc.prems(2) by simp
    then show ?thesis using Suc.prems by (auto simp: trunc_scan.simps)
  next
    case True
    let ?h = "(i + 1) mod (diff + 1)" and ?ring = "ring[(i + 1) mod (diff + 1) := Some (i + 1)]"
    have step: "trunc_scan diff len ?ring ?h (i + 1) = (ring', head)"
      using Suc.prems(5) True by (subst (asm) trunc_scan.simps) (simp add: Let_def mod_Suc_eq)
    have win: "?ring ! (k mod (diff + 1)) = Some k" if "k \<le> i + 1" "i + 1 \<le> k + diff" for k
    proof (cases "k = i + 1")
      case False
      then have "k \<le> i" "i \<le> k + diff" using that by simp_all
      moreover have "k mod (diff + 1) \<noteq> ?h"
      proof
        assume "k mod (diff + 1) = ?h"
        then have "(diff + 1) dvd (i + 1 - k)" using that by (metis mod_eq_dvd_iff_nat)
        then show False using False that by (auto dest: dvd_imp_le)
      qed
      ultimately show ?thesis using Suc.prems(1,3) by simp
    qed (use Suc.prems(1) in simp)
    have none: "?ring ! j = None" if "i + 1 < j" "j \<le> diff" for j
      using that Suc.prems(4) [of j] by (simp add: mod_less)
    show ?thesis
      using Suc.prems(1) Suc.hyps(2) True by (intro Suc.hyps(1) [OF _ _ _ win none step]) auto
  qed
qed

text \<open>The ring computes a position that a counter would give: the block that becomes the last one
  is \<open>diff\<close> blocks before the end of the chain.\<close>

lemma trunc_scan_new_end:
  assumes "trunc_scan diff len ((replicate (diff + 1) None)[0 := Some 0]) 0 0 = (ring, head)" and "0 < len"
  shows "ring ! ((head + 1) mod (diff + 1)) = (if diff < len then Some (len - 1 - diff) else None)"
proof -
  have t: "trunc_scan diff len ((replicate (diff + 1) None)[0 := Some 0]) (0 mod (diff + 1)) 0 = (ring, head)"
    using assms(1) by simp
  have w: "head = (len - 1) mod (diff + 1) \<and> length ring = diff + 1 \<and>
    (\<forall>k. k < len \<longrightarrow> len - 1 \<le> k + diff \<longrightarrow> ring ! (k mod (diff + 1)) = Some k) \<and>
    (\<forall>j. len - 1 < j \<longrightarrow> j \<le> diff \<longrightarrow> ring ! j = None)"
    by (rule trunc_scan_window [OF _ assms(2) _ _ t]) auto
  show ?thesis
  proof (cases "diff < len")
    case True
    have "(head + 1) mod (diff + 1) = (len - 1 - diff) mod (diff + 1)"
    proof -
      have "(head + 1) mod (diff + 1) = len mod (diff + 1)" using w assms(2) by (simp add: mod_Suc_eq)
      also have "len = len - 1 - diff + (diff + 1)" using True by simp
      finally show ?thesis by (simp only: mod_add_self2)
    qed
    then show ?thesis using w True by simp
  next
    case False
    then have "(head + 1) mod (diff + 1) = len" using w assms(2) by simp
    moreover have "ring ! len = None" using w False assms(2) by auto
    ultimately show ?thesis using False by simp
  qed
qed

lemma trunc_shrink_eq:
  assumes "bs \<noteq> []"
  shows "trunc_shrink bs diff n =
    (if diff < length bs
     then let new_end = length bs - 1 - diff; cut = n mod BS; kept = take (length bs - diff) bs
          in Ret (if cut \<noteq> 0 then kept[new_end := write_at (bs ! new_end) cut (replicate (BS - cut) 0)] else kept)
     else Ret [])"
proof -
  obtain ring head where r: "trunc_scan diff (length bs) ((replicate (diff + 1) None)[0 := Some 0]) 0 0 = (ring, head)"
    by (cases "trunc_scan diff (length bs) ((replicate (diff + 1) None)[0 := Some 0]) 0 0")
  have e: "ring ! ((head + 1) mod (diff + 1)) =
      (if diff < length bs then Some (length bs - 1 - diff) else None)"
    by (rule trunc_scan_new_end [OF r]) (use assms in simp)
  have "diff < length bs \<Longrightarrow> length bs - 1 - diff + 1 = length bs - diff" by simp
  then show ?thesis using assms r e unfolding trunc_shrink_def by (simp add: Let_def)
qed

lemma unat_block_count:
  assumes "unat n + BS < 2 ^ 64"
  shows "unat (block_count n) = (unat n + BS - 1) div BS"
proof -
  have w: "unat (word_of_nat BS :: u64) = BS" by (simp add: unat_of_nat RAMFS_BLOCK_SIZE_def)
  have "unat (n + word_of_nat BS) = unat n + BS"
    using assms w unat_add_lem [of n "word_of_nat BS"] by simp
  moreover have "1 \<le> n + word_of_nat BS" using calculation by (simp add: word_le_nat_alt RAMFS_BLOCK_SIZE_def)
  ultimately have "unat (n + word_of_nat BS - 1) = unat n + BS - 1" by (simp add: unat_sub)
  then show ?thesis using w by (simp add: block_count_def unat_div)
qed

lemma take_update_last:
  assumes "blocks_ok bs" and "k < length bs" and "q \<le> BS" and "n \<le> k * BS + q"
  shows "take n (concat (bs[k := write_at (bs ! k) q (replicate (BS - q) 0)])) = take n (concat bs)"
proof -
  let ?A = "concat (take k bs)" and ?C = "concat (drop (Suc k) bs)"
  have b: "length (bs ! k) = BS" using assms(1,2) by (simp add: blocks_ok_def)
  have A: "length ?A = k * BS" using assms(1,2) by (simp add: length_concat_ok)
  have "concat bs = ?A @ bs ! k @ ?C"
    using id_take_nth_drop [OF assms(2)] by (metis concat.simps(2) concat_append)
  then have 1: "concat bs = (?A @ take q (bs ! k)) @ drop q (bs ! k) @ ?C" by simp
  have "concat (bs[k := write_at (bs ! k) q (replicate (BS - q) 0)]) =
      (?A @ take q (bs ! k)) @ replicate (BS - q) 0 @ ?C"
    using assms(2,3) b by (simp add: upd_conv_take_nth_drop write_at_def)
  moreover have "n \<le> length (?A @ take q (bs ! k))" using A b assms(3,4) by simp
  ultimately show ?thesis unfolding 1 by (simp only: take_append) simp
qed

lemma blocks_ok_update: "blocks_ok bs \<Longrightarrow> length b = BS \<Longrightarrow> blocks_ok (bs[k := b])"
  by (auto simp: blocks_ok_def dest!: set_update_subset_insert [THEN subsetD])

lemma ceil_ge: "(n + BS - 1) div BS \<le> L \<longleftrightarrow> n \<le> L * BS"
proof -
  have "(n + BS - 1) div BS \<le> L \<longleftrightarrow> n + BS - 1 < (L + 1) * BS"
    using BS_pos by (metis Suc_eq_plus1 div_less_iff_less_mult less_Suc_eq_le)
  also have "\<dots> \<longleftrightarrow> n \<le> L * BS" using BS_pos by (auto simp del: BS_pos)
  finally show ?thesis .
qed

lemma trunc_shrink_correct:
  assumes ok: "blocks_ok bs" and L: "diff + r \<le> length bs" and r: "r = (n + BS - 1) div BS" and "0 < diff"
  shows "\<exists>bs'. trunc_shrink bs diff n = Ret bs' \<and> blocks_ok bs' \<and> n \<le> length (concat bs') \<and>
    take n (concat bs') = take n (concat bs)"
proof -
  have ne: "bs \<noteq> []" using L \<open>0 < diff\<close> by auto
  have n: "n \<le> r * BS" using ceil_ge [of n r] r by simp
  show ?thesis
  proof (cases "diff < length bs")
    case False
    then have "r = 0" using L by simp
    then show ?thesis using n False ne by (simp add: trunc_shrink_eq)
  next
    case True
    let ?m = "length bs - diff" and ?q = "n mod BS"
    let ?kept = "take ?m bs"
    have k: "blocks_ok ?kept" "?m - 1 < length ?kept" using ok True by simp_all
    have cat: "concat ?kept = take (?m * BS) (concat bs)" by (rule concat_take [OF ok])
    have "r \<le> ?m" using L by simp
    then have nm: "n \<le> ?m * BS" using n mult_le_mono1 le_trans by blast
    have t: "take n (concat ?kept) = take n (concat bs)" using nm by (simp add: cat min_absorb1)
    have lk: "length (concat ?kept) = ?m * BS" using k(1) True by (simp add: length_concat_ok)
    show ?thesis
    proof (cases "?q = 0")
      case True
      then show ?thesis using \<open>diff < length bs\<close> ne k t lk nm by (simp add: trunc_shrink_eq Let_def)
    next
      case False
      let ?bs' = "?kept[?m - 1 := write_at (?kept ! (?m - 1)) ?q (replicate (BS - ?q) 0)]"
      have "?kept ! (?m - 1) = bs ! (length bs - 1 - diff)" using True by simp
      then have e: "trunc_shrink bs diff n = Ret ?bs'"
        using True False ne by (simp add: trunc_shrink_eq Let_def)
      have "length (?kept ! (?m - 1)) = BS" using k unfolding blocks_ok_def by (metis nth_mem)
      then have ok': "blocks_ok ?bs'" using k(1) by (intro blocks_ok_update) (simp_all add: less_imp_le)
      have "n div BS < ?m" using nm False by (metis div_less_iff_less_mult BS_pos le_neq_implies_less mod_mult_self2_is_0)
      then have "n \<le> (?m - 1) * BS + ?q"
        by (metis Suc_diff_1 add_le_mono1 div_mult_mod_eq gr_implies_not0 less_Suc_eq_le mult_le_mono1 neq0_conv)
      then have "take n (concat ?bs') = take n (concat ?kept)"
        using k by (intro take_update_last) (simp_all add: less_imp_le)
      moreover have "length (concat ?bs') = ?m * BS"
        using ok' True by (simp add: length_concat_ok)
      ultimately show ?thesis using e ok' t nm by simp
    qed
  qed
qed


lemma ramfs_truncate_data_correct:
  assumes "file_ok d" and "tail_zero d" and "unat (rd_file_size d) + BS < 2 ^ 64" and "unat n + BS < 2 ^ 64"
  shows "\<exists>bs. ramfs_truncate_data (rd_first_block d) (rd_file_size d) n = Ret bs \<and> blocks_ok bs \<and>
    unat n \<le> length (concat bs) \<and>
    take (unat n) (concat bs) = take (unat n) (file_bytes d) @ replicate (unat n - length (file_bytes d)) 0"
proof -
  let ?bs = "rd_first_block d" and ?old = "unat (rd_file_size d)"
  let ?o = "(?old + BS - 1) div BS" and ?r = "(unat n + BS - 1) div BS"
  have ok: "blocks_ok ?bs" and sz: "?old \<le> length ?bs * BS"
    using assms(1) by (auto simp: file_ok_def length_concat_ok)
  have L: "?o \<le> length ?bs" using sz ceil_ge by blast
  have bo: "unat (block_count (rd_file_size d)) = ?o" and br: "unat (block_count n) = ?r"
    using assms(3,4) by (simp_all add: unat_block_count)
  obtain z where z: "concat ?bs = file_bytes d @ replicate z 0" by (rule tail_zero_concat [OF assms(1,2)])
  have lenf: "length (file_bytes d) = ?old" by (rule length_file_bytes [OF assms(1)])
  have pad: "take (unat n) (concat (?bs @ replicate k zero_block)) =
      take (unat n) (file_bytes d) @ replicate (unat n - length (file_bytes d)) 0"
    if "?r \<le> length ?bs + k" for k
  proof -
    have "unat n \<le> (length ?bs + k) * BS" using that ceil_ge by blast
    then have "unat n \<le> length (concat (?bs @ replicate k zero_block))"
      using length_concat_ok [of "?bs @ replicate k zero_block"] ok by simp
    then have "unat n \<le> length (file_bytes d) + z + k * BS" by (simp add: z concat_replicate_zero)
    then show ?thesis by (simp add: z concat_replicate_zero flip: replicate_add)
  qed
  consider "?o < ?r" | "?o = ?r" | "?r < ?o" by linarith
  then show ?thesis
  proof cases
    case 1
    let ?k = "unat (block_count n - block_count (rd_file_size d))"
    have "block_count (rd_file_size d) < block_count n" using 1 bo br by (simp add: word_less_nat_alt)
    moreover have k: "?k = ?r - ?o" using 1 bo br by (simp add: unat_sub word_le_nat_alt)
    moreover have "?r \<le> length ?bs + ?k" using L k by linarith
    ultimately show ?thesis
      using pad [of ?k] ok ceil_ge [of "unat n" "length ?bs + ?k"]
        length_concat_ok [of "?bs @ replicate ?k zero_block"]
      by (simp add: ramfs_truncate_data_def)
  next
    case 2
    then have "block_count (rd_file_size d) = block_count n" using bo br by (simp add: word_unat_eq_iff)
    then show ?thesis using pad [of 0] ok L 2 ceil_ge [of "unat n" "length ?bs"]
      by (simp add: ramfs_truncate_data_def length_concat_ok)
  next
    case 3
    let ?k = "unat (block_count (rd_file_size d) - block_count n)"
    have lt: "block_count n < block_count (rd_file_size d)" using 3 bo br by (simp add: word_less_nat_alt)
    have k: "?k = ?o - ?r" using 3 bo br by (simp add: unat_sub word_le_nat_alt)
    have "?k + ?r \<le> length ?bs" and "0 < ?k" using k 3 L by linarith+
    then obtain bs' where "trunc_shrink ?bs ?k (unat n) = Ret bs'" "blocks_ok bs'"
        "unat n \<le> length (concat bs')" "take (unat n) (concat bs') = take (unat n) (concat ?bs)"
      using trunc_shrink_correct [OF ok _ refl] by blast
    moreover have "\<not> block_count (rd_file_size d) < block_count n" using lt by (rule less_not_sym)
    ultimately show ?thesis using lt pad [of 0] L 3 by (simp add: ramfs_truncate_data_def)
  qed
qed


lemma replicate_2: "replicate 2 x = [x, x]"
  by (simp add: numeral_2_eq_2)

lemma demo_file_size: "rd_file_size demo_file = 3"
  by (simp add: demo_file_def)


lemma block_count_one: "0 < unat n \<Longrightarrow> unat n \<le> BS \<Longrightarrow> block_count n = 1"
  using unat_block_count [of n]
  by (simp add: word_unat_eq_iff RAMFS_BLOCK_SIZE_def div_nat_eqI)

text \<open>The hypothesis on the last block is needed, and truncation itself breaks it: a file that
  is cut from three bytes to one and extended to three bytes again shows its old contents, where
  an extended file should read as zeros.\<close>

theorem ramfs_truncate_stale:
  "\<exists>s1 s2 d'. ramfs_truncate demo_fs 2 1 0 = Ret (0, s1) \<and> ramfs_truncate s1 2 3 0 = Ret (0, s2) \<and>
    deref s2 2 = Ret d' \<and> file_bytes d' = [1, 2, 3]"
proof -
  have c: "block_count 1 = 1" "block_count 3 = 1"
    by (simp_all add: block_count_one RAMFS_BLOCK_SIZE_def)
  let ?d = "\<lambda>n. demo_file\<lparr>rd_file_size := n, rd_ctime := 0, rd_mtime := 0\<rparr>"
  let ?s = "\<lambda>n. demo_fs\<lparr>rf_dirents := (rf_dirents demo_fs)(2 \<mapsto> ?d n)\<rparr>"
  have "ramfs_truncate demo_fs 2 1 0 = Ret (0, ?s 1)"
    using demo_deref by (simp add: ramfs_truncate_def upd_def ramfs_truncate_data_def demo_file_size c)
  moreover have "ramfs_truncate (?s 1) 2 3 0 = Ret (0, ?s 3)"
    by (simp add: ramfs_truncate_def upd_def ramfs_truncate_data_def deref_def c)
  moreover have "deref (?s 3) 2 = Ret (?d 3)" by (simp add: deref_def)
  moreover have "file_bytes (?d 3) = [1, 2, 3]"
    using demo_file_ok(3) by (simp add: file_bytes_def demo_file_size)
  ultimately show ?thesis by blast
qed

section \<open>Directories\<close>

text \<open>The store invariant: addresses come from the allocator, so the next one is not in use.\<close>

definition fs_ok :: "ramfs \<Rightarrow> bool" where
  "fs_ok s \<longleftrightarrow> 0 < rf_next s \<and> (\<forall>q. rf_dirents s q \<noteq> None \<longrightarrow> q < rf_next s)"

lemma fs_ok_fresh: "fs_ok s \<Longrightarrow> rf_dirents s (rf_next s) = None"
  unfolding fs_ok_def by (metis less_irrefl)

text \<open>\<open>links_kept s s'\<close>: every entry of \<open>s\<close> is still there with its name, type and successor.\<close>

definition links_kept :: "ramfs \<Rightarrow> ramfs \<Rightarrow> bool" where
  "links_kept s s' \<longleftrightarrow> (\<forall>q d. deref s q = Ret d \<longrightarrow>
     (\<exists>d'. deref s' q = Ret d' \<and> rd_name d' = rd_name d \<and> rd_type d' = rd_type d \<and> rd_next d' = rd_next d))"

lemma strncmp_refl [simp]: "strncmp x x n = 0"
proof -
  have "x = y \<Longrightarrow> strncmp x y n = 0" for y
    by (induction x y n rule: strncmp.induct) auto
  then show ?thesis by simp
qed

lemma deref_Ret: "deref s q = Ret d \<longleftrightarrow> q \<noteq> 0 \<and> rf_dirents s q = Some d"
  by (auto simp: deref_def split: option.splits)

lemma find_sibling_kept:
  "find_sibling s n name q = Ret r \<Longrightarrow> n \<le> n' \<Longrightarrow> links_kept s s' \<Longrightarrow> find_sibling s' n' name q = Ret r"
proof (induction s n name q arbitrary: n' rule: find_sibling.induct)
  case (2 s n name p)
  obtain m where m: "n' = Suc m" "n \<le> m" using 2(3) by (cases n') auto
  show ?case
  proof (cases "p = 0")
    case False
    then obtain d where d: "deref s p = Ret d" using 2(2) by (auto simp: bind_outcome_eq_Ret)
    then obtain d' where "deref s' p = Ret d'" "rd_name d' = rd_name d" "rd_next d' = rd_next d"
      using 2(4) unfolding links_kept_def by blast
    then show ?thesis using 2 m d False by (auto split: if_splits)
  qed (use 2 m in simp)
qed simp

definition store_extends :: "ramfs \<Rightarrow> ramfs \<Rightarrow> bool" where
  "store_extends s s' \<longleftrightarrow> (\<forall>q d. deref s q = Ret d \<longrightarrow> deref s' q = Ret d) \<and> rf_next s \<le> rf_next s'"

lemma store_extends_links: "store_extends s s' \<Longrightarrow> links_kept s s'"
  by (auto simp: store_extends_def links_kept_def)

lemma ramfs_walk_kept:
  "store_extends s s' \<Longrightarrow> ramfs_walk s cur path = Ret r \<Longrightarrow> ramfs_walk s' cur path = Ret r"
proof (induction s cur path rule: ramfs_walk.induct)
  case (1 s cur path)
  obtain sub rest where sr: "scan_component 256 path = (sub, rest)" by (cases "scan_component 256 path")
  show ?case
  proof (cases "path = [] \<or> sub = []")
    case True
    then show ?thesis
    proof (cases "path = []")
      case False
      then have "sub = []" using True by simp
      then have "ramfs_walk s cur (tl path) = Ret r"
        using 1(4) False sr by (subst (asm) ramfs_walk.simps) simp
      then have "ramfs_walk s' cur (tl path) = Ret r"
        using 1(1) [OF False sr [symmetric] \<open>sub = []\<close> 1(3)] by simp
      then show ?thesis using False sr \<open>sub = []\<close> by (subst ramfs_walk.simps) simp
    qed (use 1(4) in \<open>simp add: ramfs_walk.simps\<close>)
  next
    case False
    then have sh: "\<not> 256 \<le> length sub"
      using 1(4) sr by (subst (asm) ramfs_walk.simps) (auto split: if_splits)
    obtain d where d: "deref s cur = Ret d"
      using 1(4) sr False sh by (subst (asm) ramfs_walk.simps) (auto simp: bind_outcome_eq_Ret)
    then have d': "deref s' cur = Ret d" using 1(3) by (simp add: store_extends_def)
    show ?thesis
    proof (cases "rd_type d = DT_DIR")
      case dir: True
      obtain x where x: "find_sibling s (Suc (rf_next s)) sub (rd_child d) = Ret x"
        using 1(4) sr False sh d dir
        by (subst (asm) ramfs_walk.simps) (auto simp: bind_outcome_eq_Ret simp del: find_sibling.simps)
      then have x': "find_sibling s' (Suc (rf_next s')) sub (rd_child d) = Ret x"
        using find_sibling_kept [OF x _ store_extends_links [OF 1(3)], of "Suc (rf_next s')"] 1(3)
        by (simp add: store_extends_def del: find_sibling.simps)
      have w: "ramfs_walk s cur path = (case x of None \<Rightarrow> Ret (Inl (- ENOENT)) | Some p \<Rightarrow> ramfs_walk s p rest)"
        and w': "ramfs_walk s' cur path = (case x of None \<Rightarrow> Ret (Inl (- ENOENT)) | Some p \<Rightarrow> ramfs_walk s' p rest)"
        using sr False sh d d' dir x x'
        by (subst ramfs_walk.simps; simp del: find_sibling.simps)+
      show ?thesis
        using 1(4) w w' 1(2) [OF _ sr [symmetric] _ sh _ 1(3), of d] False dir
        by (cases x) auto
    qed (use 1(4) sr False sh d d' in \<open>subst ramfs_walk.simps, subst (asm) ramfs_walk.simps, simp\<close>)
  qed
qed


lemma ramfs_get_dirent_kept:
  "store_extends s s' \<Longrightarrow> rf_root s' = rf_root s \<Longrightarrow> ramfs_get_dirent s path = Ret r \<Longrightarrow>
   ramfs_get_dirent s' path = Ret r"
  by (simp add: ramfs_get_dirent_def ramfs_walk_kept)

text \<open>The state after an entry \<open>d\<close> has been allocated and linked in as the first child of \<open>dir\<close>.\<close>

definition linked :: "ramfs \<Rightarrow> nat \<Rightarrow> ramfs_dirent \<Rightarrow> ramfs_dirent \<Rightarrow> u64 \<Rightarrow> ramfs" where
  "linked s dir par d now =
     (let p = rf_next s; c = rd_child par;
          d1 = d\<lparr>rd_mtime := now, rd_ctime := now, rd_btime := now, rd_parent := dir, rd_next := c,
                 rd_previous := 0, rd_child := 0\<rparr>;
          m1 = (rf_dirents s)(p \<mapsto> d1, dir \<mapsto> par\<lparr>rd_child := p\<rparr>);
          m2 = (if c = 0 then m1 else m1(c := map_option (\<lambda>q. q\<lparr>rd_previous := p\<rparr>) (m1 c)))
      in s\<lparr>rf_dirents := m2, rf_next := p + 1\<rparr>)"

lemma ramfs_add_dirent_linked:
  assumes ok: "fs_ok s" "\<not> rf_read_only s" and dir: "ramfs_get_dirent s path = Ret (Inr dir)"
    and par: "deref s dir = Ret par" "rd_type par = DT_DIR"
    and c: "rd_child par \<noteq> 0 \<Longrightarrow> \<exists>e. deref s (rd_child par) = Ret e"
    and s1: "alloc_dirent s d = (p, s1)"
  shows "ramfs_add_dirent s1 path p now = Ret (0, linked s dir par d now)"
proof -
  have p: "p = rf_next s" "0 < p" "rf_dirents s p = None"
    and s1': "s1 = s\<lparr>rf_dirents := (rf_dirents s)(p \<mapsto> d), rf_next := p + 1\<rparr>"
    using ok s1 by (auto simp: alloc_dirent_def fs_ok_def)
  have ext: "store_extends s s1" using p by (auto simp: store_extends_def s1' deref_Ret)
  have g: "ramfs_get_dirent s1 path = Ret (Inr dir)"
    by (rule ramfs_get_dirent_kept [OF ext _ dir]) (simp add: s1')
  have dirp: "dir \<noteq> p" "dir \<noteq> 0" "rf_dirents s dir = Some par" using par p by (auto simp: deref_Ret)
  have cp: "rd_child par \<noteq> p" using c p by (auto simp: deref_Ret)
  note defs = ramfs_add_dirent_def upd_def linked_def Let_def s1' deref_def
  show ?thesis
  proof (cases "rd_child par = 0")
    case True
    then show ?thesis using ok g par dirp p by (auto simp: defs fun_upd_twist)
  next
    case False
    then obtain e where "rf_dirents s (rd_child par) = Some e" using c by (auto simp: deref_Ret)
    then show ?thesis
      using ok g par dirp cp p False by (cases "rd_child par = dir") (auto simp: defs fun_upd_twist)
  qed
qed

lemma linked_links:
  assumes "fs_ok s" and "deref s dir = Ret par"
  shows "links_kept s (linked s dir par d now)"
proof -
  have "rf_dirents s (rf_next s) = None" using assms(1) by (auto simp: fs_ok_def)
  then show ?thesis
    using assms(2) by (auto simp: links_kept_def linked_def Let_def deref_Ret)
qed

lemma linked_entries:
  assumes "fs_ok s" and "deref s dir = Ret par"
  shows "\<exists>par'. deref (linked s dir par d now) dir = Ret par' \<and> rd_child par' = rf_next s \<and>
      rd_type par' = rd_type par"
    and "rd_child par \<noteq> rf_next s \<Longrightarrow> deref (linked s dir par d now) (rf_next s) =
      Ret (d\<lparr>rd_mtime := now, rd_ctime := now, rd_btime := now, rd_parent := dir,
             rd_next := rd_child par, rd_previous := 0, rd_child := 0\<rparr>)"
    and "fs_ok (linked s dir par d now)"
proof -
  have n: "rf_dirents s (rf_next s) = None" and z: "0 < rf_next s"
    and lt: "\<And>q. rf_dirents s q \<noteq> None \<Longrightarrow> q < rf_next s"
    using assms(1) by (auto simp: fs_ok_def)
  have d: "rf_dirents s dir = Some par" "dir \<noteq> 0" using assms(2) by (auto simp: deref_Ret)
  then have "dir \<noteq> rf_next s" using n by auto
  then show "\<exists>par'. deref (linked s dir par d now) dir = Ret par' \<and> rd_child par' = rf_next s \<and>
      rd_type par' = rd_type par"
    using d by (auto simp: linked_def Let_def deref_Ret)
  show "rd_child par \<noteq> rf_next s \<Longrightarrow> deref (linked s dir par d now) (rf_next s) =
      Ret (d\<lparr>rd_mtime := now, rd_ctime := now, rd_btime := now, rd_parent := dir,
             rd_next := rd_child par, rd_previous := 0, rd_child := 0\<rparr>)"
    using z \<open>dir \<noteq> rf_next s\<close> by (auto simp: linked_def Let_def deref_Ret)
  show "fs_ok (linked s dir par d now)"
    using lt d z by (auto simp: fs_ok_def linked_def Let_def less_Suc_eq split: if_splits)
qed

lemma lookup_find:
  assumes "deref s dir = Ret par" and "rd_type par = DT_DIR"
  shows "ramfs_lookup s name dir = Ret r \<longleftrightarrow>
    (\<exists>x. find_sibling s (Suc (rf_next s)) name (rd_child par) = Ret x \<and>
         r = (case x of None \<Rightarrow> Inl (- ENOENT) | Some p \<Rightarrow> Inr p))"
  using assms by (auto simp: ramfs_lookup_def bind_outcome_eq_Ret simp del: find_sibling.simps split: option.splits)

text \<open>Creating a file whose directory exists and does not hold an entry of that name: the call
  succeeds, a lookup of the name in that directory then finds the new entry, which is an empty
  regular file, and a lookup of any other name gives what it gave before.\<close>

theorem ramfs_create_lookup:
  assumes ok: "fs_ok s" "\<not> rf_read_only s" and new: "ramfs_get_dirent s path = Ret (Inl e)"
    and sp: "split_parent path = Ret (dirname, fname)"
    and dir: "ramfs_get_dirent s dirname = Ret (Inr dir)" "deref s dir = Ret par" "rd_type par = DT_DIR"
    and none: "ramfs_lookup s fname dir = Ret (Inl (- ENOENT))"
  shows "\<exists>s' p d. ramfs_create_file s path now = Ret (0, s') \<and> fs_ok s' \<and>
    ramfs_lookup s' fname dir = Ret (Inr p) \<and> deref s' p = Ret d \<and> rd_type d = DT_FILE \<and>
    file_ok d \<and> file_bytes d = [] \<and>
    (\<forall>name r. strncmp name fname 256 \<noteq> 0 \<and> ramfs_lookup s name dir = Ret r \<longrightarrow>
       ramfs_lookup s' name dir = Ret r)"
proof -
  let ?d = "zero_dirent\<lparr>rd_name := take 255 fname, rd_type := DT_FILE, rd_device := 0\<rparr>"
  let ?s = "linked s dir par ?d now" and ?p = "rf_next s"
  have len: "length fname < 256" using sp by (auto simp: split_parent_def Let_def split: if_splits)
  have c: "rd_child par \<noteq> 0 \<Longrightarrow> \<exists>e. deref s (rd_child par) = Ret e"
    using none dir(2,3) by (auto simp: lookup_find bind_outcome_eq_Ret split: option.splits if_splits)
  then have cp: "rd_child par \<noteq> ?p"
    using ok fs_ok_fresh [OF ok(1)] by (auto simp: fs_ok_def deref_Ret)
  have "ramfs_create_file s path now = ramfs_add_dirent (snd (alloc_dirent s ?d)) dirname ?p now"
    using ok(2) new sp by (simp add: ramfs_create_file_def ramfs_create_def alloc_dirent_def)
  also have "\<dots> = Ret (0, ?s)"
    by (rule ramfs_add_dirent_linked [OF ok dir c]) (simp_all add: alloc_dirent_def)
  finally have cr: "ramfs_create_file s path now = Ret (0, ?s)" .
  obtain par' where par': "deref ?s dir = Ret par'" "rd_child par' = ?p" "rd_type par' = DT_DIR"
    using linked_entries(1) [OF ok(1) dir(2)] dir(3) by auto
  note new_entry = linked_entries(2) [OF ok(1) dir(2) cp, of ?d now]
  have nx: "rf_next ?s = Suc (rf_next s)" "0 < ?p"
    using ok by (auto simp: linked_def Let_def fs_ok_def)
  have found: "find_sibling ?s (Suc (rf_next ?s)) name ?p =
      (if strncmp name fname 256 = 0 then Ret (Some ?p)
       else find_sibling ?s (rf_next ?s) name (rd_child par))" for name
    using new_entry len nx(2) by simp
  have "ramfs_lookup ?s fname dir = Ret (Inr ?p)"
    using par' found by (simp add: ramfs_lookup_def del: find_sibling.simps)
  moreover have "ramfs_lookup ?s name dir = Ret r"
    if diff: "strncmp name fname 256 \<noteq> 0" and old: "ramfs_lookup s name dir = Ret r" for name r
  proof -
    obtain x where x: "find_sibling s (Suc (rf_next s)) name (rd_child par) = Ret x"
        and r: "r = (case x of None \<Rightarrow> Inl (- ENOENT) | Some p \<Rightarrow> Inr p)"
      using old dir(2,3) by (auto simp: lookup_find simp del: find_sibling.simps)
    have "find_sibling ?s (rf_next ?s) name (rd_child par) = Ret x"
      by (rule find_sibling_kept [OF x _ linked_links [OF ok(1) dir(2)]]) (simp add: nx)
    then show ?thesis using found [of name] diff par' r
      by (auto simp: lookup_find simp del: find_sibling.simps)
  qed
  moreover have "file_ok (?d\<lparr>rd_parent := dir\<rparr>)" by (simp add: file_ok_def zero_dirent_def)
  ultimately show ?thesis
    using cr new_entry linked_entries(3) [OF ok(1) dir(2)]
    by (intro exI [of _ ?s] exI [of _ ?p] exI conjI) (auto simp: file_ok_def file_bytes_def zero_dirent_def)
qed

lemma walk_error: "ramfs_walk s cur path = Ret (Inl e) \<Longrightarrow> e = - ENOENT"
proof (induction s cur path rule: ramfs_walk.induct)
  case (1 s cur path)
  then show ?case
    by (subst (asm) (3) ramfs_walk.simps)
      (auto simp: bind_outcome_eq_Ret simp del: find_sibling.simps split: if_splits prod.splits option.splits)
qed

lemma demo_get:
  "ramfs_get_dirent demo_fs ''g'' = Ret (Inl (- ENOENT))" "ramfs_get_dirent demo_fs [] = Ret (Inr 1)"
  "split_parent ''g'' = Ret ([], ''g'')" "deref demo_fs 1 = Ret (zero_dirent\<lparr>rd_type := DT_DIR, rd_child := 2\<rparr>)"
  "ramfs_lookup demo_fs ''g'' 1 = Ret (Inl (- ENOENT))"
  by (simp_all add: ramfs_get_dirent_def ramfs_walk.simps demo_fs_def deref_def demo_file_def
    split_parent_def ramfs_lookup_def numeral_eq_Suc DT_DIR_def zero_dirent_def)

theorem ramfs_create_lookup_witness:
  "\<exists>s' p d. ramfs_create_file demo_fs ''g'' 0 = Ret (0, s') \<and> fs_ok s' \<and>
    ramfs_lookup s' ''g'' 1 = Ret (Inr p) \<and> deref s' p = Ret d \<and> rd_type d = DT_FILE \<and>
    file_ok d \<and> file_bytes d = [] \<and>
    (\<forall>name r. strncmp name ''g'' 256 \<noteq> 0 \<and> ramfs_lookup demo_fs name 1 = Ret r \<longrightarrow>
       ramfs_lookup s' name 1 = Ret r)"
proof -
  have "fs_ok demo_fs" by (auto simp: fs_ok_def demo_fs_def split: if_splits)
  then show ?thesis
    using ramfs_create_lookup [OF _ demo_deref(2) demo_get(1,3,2,4) _ demo_get(5)] by simp
qed

lemma upd_Ret: "upd s p f = Ret s' \<longleftrightarrow>
    (\<exists>d. deref s p = Ret d \<and> s' = s\<lparr>rf_dirents := (rf_dirents s)(p \<mapsto> f d)\<rparr>)"
  by (auto simp: upd_def bind_outcome_eq_Ret)

lemma ramfs_add_dirent_child:
  assumes "ramfs_add_dirent s path p now = Ret (0, s')"
  shows "\<exists>d. deref s' p = Ret d \<and> rd_child d = 0"
proof -
  obtain x where x: "ramfs_get_dirent s path = Ret x"
    using assms by (auto simp: ramfs_add_dirent_def bind_outcome_eq_Ret errno_simps split: if_splits)
  have "\<exists>s3. upd s3 p (\<lambda>d. d\<lparr>rd_previous := 0, rd_child := 0\<rparr>) = Ret s'"
  proof (cases x)
    case (Inl e)
    then have "e = - ENOENT" using x walk_error by (simp add: ramfs_get_dirent_def)
    then show ?thesis using assms x Inl by (simp add: ramfs_add_dirent_def errno_simps split: if_splits)
  next
    case (Inr dir)
    then show ?thesis
      using assms x by (auto simp: ramfs_add_dirent_def bind_outcome_eq_Ret errno_simps split: if_splits)
  qed
  then show ?thesis by (auto simp: upd_Ret deref_Ret)
qed

text \<open>Renaming a directory empties it: whenever \<open>ramfs_rename\<close> succeeds, the entry has no
  children afterwards, because \<open>ramfs_add_dirent\<close>, written for new entries, clears the child
  pointer of the entry it links in.  The contents of the directory become unreachable.\<close>

theorem ramfs_rename_drops_children:
  assumes "ramfs_get_dirent s old_path = Ret (Inr p)"
    and "ramfs_rename s old_path new_path now = Ret (0, s')"
  shows "\<exists>d. deref s' p = Ret d \<and> rd_child d = 0"
  using assms
  by (auto simp: ramfs_rename_def bind_outcome_eq_Ret errno_simps dest!: ramfs_add_dirent_child split: if_splits)

text \<open>A directory \<open>a\<close> that holds a file \<open>b\<close>.\<close>

definition demo_tree :: ramfs where
  "demo_tree = \<lparr>rf_root = 1, rf_read_only = False,
     rf_dirents = [1 \<mapsto> zero_dirent\<lparr>rd_type := DT_DIR, rd_child := 2\<rparr>,
       2 \<mapsto> zero_dirent\<lparr>rd_name := ''a'', rd_type := DT_DIR, rd_parent := 1, rd_child := 3\<rparr>,
       3 \<mapsto> zero_dirent\<lparr>rd_name := ''b'', rd_type := DT_FILE, rd_parent := 2\<rparr>], rf_next = 4\<rparr>"

lemmas demo_eval = ramfs_get_dirent_def ramfs_walk.simps demo_tree_def deref_def split_parent_def
  ramfs_rename_def ramfs_unlink_def upd_def ramfs_add_dirent_def numeral_eq_Suc DT_DIR_def DT_FILE_def zero_dirent_def

theorem ramfs_rename_drops_children_witness:
  "ramfs_get_dirent demo_tree ''a'' = Ret (Inr 2) \<and> ramfs_get_dirent demo_tree ''a/b'' = Ret (Inr 3) \<and>
   (\<exists>s' d. ramfs_rename demo_tree ''a'' ''c'' 0 = Ret (0, s') \<and> deref s' 2 = Ret d \<and> rd_child d = 0)"
proof -
  have a: "ramfs_get_dirent demo_tree ''a'' = Ret (Inr 2)" "ramfs_get_dirent demo_tree ''a/b'' = Ret (Inr 3)"
    by (simp_all add: demo_eval)
  have "\<exists>s'. ramfs_rename demo_tree ''a'' ''c'' 0 = Ret (0, s')" by (simp add: demo_eval)
  then show ?thesis using a ramfs_rename_drops_children [OF a(1)] by blast
qed

text \<open>A rename that fails because the target directory does not exist returns \<open>-ENOENT\<close> but
  has already unlinked the entry: the file can no longer be found under its old name.\<close>

theorem ramfs_failed_rename_loses_entry:
  "ramfs_get_dirent demo_tree ''a/b'' = Ret (Inr 3) \<and>
   (\<exists>s'. ramfs_rename demo_tree ''a/b'' ''x/b'' 0 = Ret (- ENOENT, s') \<and>
         ramfs_get_dirent s' ''a/b'' = Ret (Inl (- ENOENT)))"
  by (simp add: demo_eval)

end
