(* ===== verification/Devfs.thy ===== *)
theory Devfs
  imports Ramfs
begin

text \<open>
  The device file system of \<open>kernel/fs/devfs.c\<close>: one instance of the memory file system, made by
  \<open>devfs_register\<close>, that all mounts of it share.  Every operation selects that instance and calls
  the operation of the memory file system.  The registration of the null devices
  (\<open>kernel/drivers/nulldev.c\<close>) is here because it creates device nodes.
\<close>

record devfs =
  ramfs_instance :: ramfs

definition devfs_get_root :: "devfs \<Rightarrow> nat" where
  "devfs_get_root v = ramfs_get_root (ramfs_instance v)"

definition devfs_lookup :: "devfs \<Rightarrow> string \<Rightarrow> nat \<Rightarrow> (int + nat) outcome" where
  "devfs_lookup v name par = ramfs_lookup (ramfs_instance v) name par"

text \<open>The result of an operation that changes the instance.\<close>

definition on_instance :: "devfs \<Rightarrow> (int \<times> ramfs) outcome \<Rightarrow> (int \<times> devfs) outcome" where
  "on_instance v r = bind_outcome r (\<lambda>(res, s). Ret (res, v\<lparr>ramfs_instance := s\<rparr>))"

definition devfs_open :: "devfs \<Rightarrow> nat \<Rightarrow> (int \<times> devfs) outcome" where
  "devfs_open v h = on_instance v (ramfs_open (ramfs_instance v) h)"

definition devfs_close :: "devfs \<Rightarrow> nat \<Rightarrow> (int \<times> devfs) outcome" where
  "devfs_close v h = on_instance v (ramfs_close (ramfs_instance v) h)"

definition devfs_readdir :: "devfs \<Rightarrow> nat \<Rightarrow> int \<Rightarrow> (int \<times> (string \<times> u32) option) outcome" where
  "devfs_readdir v h index = ramfs_readdir (ramfs_instance v) h index"

definition devfs_read ::
  "'w blk \<Rightarrow> 'w chr \<Rightarrow> devfs \<Rightarrow> nat \<Rightarrow> u64 \<Rightarrow> u64 \<Rightarrow> 'w \<Rightarrow> (int \<times> byte list \<times> 'w) outcome" where
  "devfs_read bt ct v h off sz w = ramfs_read bt ct (ramfs_instance v) h off sz w"

definition devfs_delete :: "devfs \<Rightarrow> string \<Rightarrow> (int \<times> devfs) outcome" where
  "devfs_delete v path = on_instance v (ramfs_delete (ramfs_instance v) path)"

definition devfs_create_file :: "devfs \<Rightarrow> string \<Rightarrow> u64 \<Rightarrow> (int \<times> devfs) outcome" where
  "devfs_create_file v path now = on_instance v (ramfs_create_file (ramfs_instance v) path now)"

definition devfs_create_directory :: "devfs \<Rightarrow> string \<Rightarrow> u64 \<Rightarrow> (int \<times> devfs) outcome" where
  "devfs_create_directory v path now = on_instance v (ramfs_create_directory (ramfs_instance v) path now)"

definition devfs_write ::
  "'w blk \<Rightarrow> 'w chr \<Rightarrow> devfs \<Rightarrow> nat \<Rightarrow> byte list \<Rightarrow> u64 \<Rightarrow> u64 \<Rightarrow> u64 \<Rightarrow> 'w \<Rightarrow> (int \<times> devfs \<times> 'w) outcome" where
  "devfs_write bt ct v h buf off sz now w =
     bind_outcome (ramfs_write bt ct (ramfs_instance v) h buf off sz now w)
       (\<lambda>(r, s, w1). Ret (r, v\<lparr>ramfs_instance := s\<rparr>, w1))"

definition devfs_rename :: "devfs \<Rightarrow> string \<Rightarrow> string \<Rightarrow> u64 \<Rightarrow> (int \<times> devfs) outcome" where
  "devfs_rename v old_path new_path now =
     on_instance v (ramfs_rename (ramfs_instance v) old_path new_path now)"

definition devfs_stat :: "devfs \<Rightarrow> nat \<Rightarrow> (int \<times> stat_t) outcome" where
  "devfs_stat v h = ramfs_stat (ramfs_instance v) h"

definition devfs_mknod :: "devfs \<Rightarrow> string \<Rightarrow> u32 \<Rightarrow> u64 \<Rightarrow> u64 \<Rightarrow> (int \<times> devfs) outcome" where
  "devfs_mknod v path ty dev now = on_instance v (ramfs_mknod (ramfs_instance v) path ty dev now)"

definition devfs_truncate :: "devfs \<Rightarrow> nat \<Rightarrow> u64 \<Rightarrow> u64 \<Rightarrow> (int \<times> devfs) outcome" where
  "devfs_truncate v h new_size now = on_instance v (ramfs_truncate (ramfs_instance v) h new_size now)"

definition devfs_check :: "block_device \<Rightarrow> int" where
  "devfs_check dev = 1"

definition devfs_register :: "nat \<Rightarrow> u64 \<Rightarrow> devfs" where
  "devfs_register addr now = \<lparr>ramfs_instance = ramfs_mount no_device 0 addr now\<rparr>"

section \<open>The null devices\<close>

definition register_null_devices :: "'w chr \<Rightarrow> devfs \<Rightarrow> u64 \<Rightarrow> (int \<times> 'w chr \<times> devfs) outcome" where
  "register_null_devices ct v now =
     (case register_char_driver ct null_driver of (driver, ct1) \<Rightarrow>
        if driver < 0 then Ret (driver, ct1, v)
        else if driver = 0 then Ret (-1, ct1, v)
        else bind_outcome (devfs_mknod v ''null'' DT_CHAR (makedev (word_of_int driver) 0) now) (\<lambda>(r1, v1).
          bind_outcome (devfs_mknod v1 ''zero'' DT_CHAR (makedev (word_of_int driver) 1) now) (\<lambda>(r2, v2).
            Ret (0, ct1, v2))))"

lemma fresh_mount:
  assumes "0 < addr"
  shows "fs_ok (ramfs_mount dev fl addr now)" and "rf_root (ramfs_mount dev fl addr now) = addr"
    and "deref (ramfs_mount dev fl addr now) addr =
      Ret (zero_dirent\<lparr>rd_type := DT_DIR, rd_mtime := now, rd_ctime := now, rd_btime := now\<rparr>)"
  using assms by (auto simp: ramfs_mount_def fs_ok_def deref_def split: if_splits)

lemma short_name [simp]:
  "scan_component 256 ''null'' = (''null'', [])" "scan_component 256 ''zero'' = (''zero'', [])"
  "split_parent ''null'' = Ret ([], ''null'')" "split_parent ''zero'' = Ret ([], ''zero'')"
  "strncmp ''zero'' ''null'' 256 \<noteq> 0"
  by (simp_all add: numeral_eq_Suc split_parent_def)

lemma register_null_nodes:
  assumes "length ct < 127" and "0 < addr"
  shows "\<exists>v1. register_null_devices ct (devfs_register addr now) now = Ret (0, ct @ [null_driver], v1) \<and>
    devfs_lookup v1 ''zero'' (devfs_get_root v1) = Ret (Inr (addr + 2)) \<and>
    (\<exists>d. deref (ramfs_instance v1) (addr + 2) = Ret d \<and> rd_type d = DT_CHAR \<and>
         rd_device d = makedev (word_of_int (int (length ct) + 1)) 1)"
  using assms
  by (simp add: register_null_devices_def register_char_driver_def devfs_register_def devfs_mknod_def
    on_instance_def ramfs_mknod_def ramfs_create_def ramfs_get_dirent_def ramfs_mount_def
    ramfs_walk.simps deref_def alloc_dirent_def ramfs_add_dirent_def upd_def zero_dirent_def
    devfs_lookup_def ramfs_lookup_def devfs_get_root_def ramfs_get_root_def DT_DIR_def DT_CHAR_def DT_BLOCK_def)

text \<open>After boot has created the device file system and registered the null devices, the
  node \<open>/dev/zero\<close> exists and reading from it through the file system, the character device
  table and the driver yields as many zero bytes as were asked for.\<close>

theorem dev_zero_reads_zeros:
  assumes "length ct < 127" and "0 < addr" and "unat sz < 2 ^ 63"
  shows "\<exists>ct1 v1 h. register_null_devices ct (devfs_register addr now) now = Ret (0, ct1, v1) \<and>
    devfs_lookup v1 ''zero'' (devfs_get_root v1) = Ret (Inr h) \<and>
    devfs_read bt ct1 v1 h off sz w = Ret (int (unat sz), replicate (unat sz) 0, w)"
proof -
  obtain v1 d where v1: "register_null_devices ct (devfs_register addr now) now = Ret (0, ct @ [null_driver], v1)"
      "devfs_lookup v1 ''zero'' (devfs_get_root v1) = Ret (Inr (addr + 2))"
      and d: "deref (ramfs_instance v1) (addr + 2) = Ret d" "rd_type d = DT_CHAR"
         "rd_device d = makedev (word_of_int (int (length ct) + 1)) 1"
    using register_null_nodes [OF assms(1,2), of now] by blast
  have "char_driver_at (ct @ [null_driver]) (word_of_int (int (length ct) + 1)) = Ret (Some null_driver)"
    using assms(1) by (intro char_driver_at_registered [of ct]) (simp_all add: register_char_driver_def)
  then have "devfs_read bt (ct @ [null_driver]) v1 (addr + 2) off sz w =
      Ret (int (unat sz), replicate (unat sz) 0, w)"
    using d sint_u64 [OF assms(3)]
    by (simp add: devfs_read_def ramfs_read_def char_read_def null_driver_def null_read_def
      zero_read_def DT_CHAR_def DT_DIR_def DT_BLOCK_def)
  then show ?thesis using v1 by blast
qed

theorem dev_zero_reads_zeros_witness:
  "\<exists>ct1 v1 h. register_null_devices [] (devfs_register 1 0) 0 = Ret (0, ct1, v1) \<and>
    devfs_lookup v1 ''zero'' (devfs_get_root v1) = Ret (Inr h) \<and>
    devfs_read ram_blk ct1 v1 h 7 2 ram0 = Ret (2, [0, 0], ram0)"
  using dev_zero_reads_zeros [of "[]" 1 2 0 ram_blk 7 ram0] by (simp add: replicate_2)

end
