(* ===== verification/Partitions.thy ===== *)
theory Partitions
  imports Devfs
begin

text \<open>
  Partition detection of \<open>kernel/drivers/partitions.c\<close> and \<open>register_block_device\<close> of
  \<open>kernel/drivers/block.c\<close>: the MBR and GPT tables of a device are read through the block layer,
  each usable entry becomes an element of the partition array and a device node of the device
  file system.  On-disk structures are read at the offsets of the packed C structures; integers are
  little endian.  The local sector buffers are arrays of 512 and 1024 bytes, and a transfer that
  returns more than that is a \<open>Fault\<close>.
\<close>

section \<open>Names\<close>

function digits_u64 :: "nat \<Rightarrow> nat" where
  "digits_u64 v = (if v \<ge> 10 then digits_u64 (v div 10) + 1 else 1)"
  by pat_completeness auto
termination by (relation "measure id") auto

declare digits_u64.simps [simp del]

primrec itoa_fill :: "nat \<Rightarrow> nat \<Rightarrow> string \<Rightarrow> string" where
  "itoa_fill 0 v acc = acc"
| "itoa_fill (Suc len) v acc = itoa_fill len (v div 10) (char_of (48 + v mod 10) # acc)"

definition itoa :: "nat \<Rightarrow> string" where
  "itoa v = (if v = 0 then ''0'' else itoa_fill (digits_u64 v) v [])"

text \<open>The name of partition number \<open>i\<close>: the name buffer comes from \<open>kmalloc\<close> and is zero, so
  overwriting the terminator by \<open>p\<close> leaves a terminated string.  The code looks at the character
  before the terminator, which does not exist for an empty name.\<close>

definition is_digit :: "char \<Rightarrow> bool" where
  "is_digit c \<longleftrightarrow> (48 :: nat) \<le> of_char c \<and> of_char c \<le> (57 :: nat)"

definition partition_name :: "string option \<Rightarrow> nat \<Rightarrow> string outcome" where
  "partition_name nm i =
     (case nm of None \<Rightarrow> Fault
      | Some base0 \<Rightarrow>
          (let base = take 244 base0 in
           if base = [] then Fault
           else Ret (base @ (if is_digit (List.last base) then ''p'' else []) @ itoa i)))"

section \<open>Registration\<close>

definition add_device_node :: "devfs \<Rightarrow> block_device \<Rightarrow> u64 \<Rightarrow> devfs outcome" where
  "add_device_node v dev now =
     (case bdev_name dev of
        None \<Rightarrow> Ret v
      | Some nm \<Rightarrow>
          bind_outcome (devfs_mknod v nm DT_BLOCK (makedev (bdev_major dev) (bdev_minor dev)) now)
            (\<lambda>(r, v1). Ret v1))"

text \<open>The part of the two detection loops that enters a partition into the table and registers its
  device; the device is marked as a partition, so no detection happens on it.\<close>

definition register_partition ::
  "'w blk \<Rightarrow> devfs \<Rightarrow> block_device \<Rightarrow> u64 \<Rightarrow> u64 \<Rightarrow> nat \<Rightarrow> u64 \<Rightarrow> ('w blk \<times> devfs) outcome" where
  "register_partition t v dev start sz num now =
     (let idx = length (partitions t);
          t1 = t\<lparr>partitions := partitions t @ [\<lparr>part_blockdev = dev, part_start = start, part_size = sz\<rparr>]\<rparr>
      in bind_outcome (partition_name (bdev_name dev) num) (\<lambda>nm.
         bind_outcome (add_device_node v \<lparr>bdev_major = partition_driver_index t, bdev_minor = word_of_nat idx,
             bdev_name = Some nm, bdev_is_partition = True\<rparr> now) (\<lambda>v1.
           Ret (t1, v1))))"

section \<open>MBR\<close>

definition efi_part :: "byte list" where
  "efi_part = [0x45, 0x46, 0x49, 0x20, 0x50, 0x41, 0x52, 0x54]"

definition has_mbr :: "'w blk \<Rightarrow> block_device \<Rightarrow> 'w \<Rightarrow> (int \<times> 'w) outcome" where
  "has_mbr t dev w =
     bind_outcome (read_sectors t dev 0 2 w) (\<lambda>(res, buf, w1).
       if res < 0 then Ret (res, w1)
       else if length buf > 1024 then Fault
       else if read_at buf 512 8 = efi_part then Ret (0, w1)
       else if read_at buf 510 2 = [0x55, 0xAA] then Ret (1, w1)
       else Ret (0, w1))"

text \<open>The loop over the four entries; \<open>n\<close> of them remain.  The array bound is not checked.\<close>

fun mbr_loop ::
  "byte list \<Rightarrow> block_device \<Rightarrow> u64 \<Rightarrow> nat \<Rightarrow> nat \<Rightarrow> int \<Rightarrow> 'w blk \<Rightarrow> devfs \<Rightarrow> (int \<times> 'w blk \<times> devfs) outcome" where
  "mbr_loop buf dev now 0 i found t v = Ret (found, t, v)"
| "mbr_loop buf dev now (Suc n) i found t v =
     (let e = 446 + i * 16; ty = field buf (e + 4) 1 in
      if ty = 0x00 \<or> ty = 0x05 \<or> ty = 0x0F then mbr_loop buf dev now n (i + 1) found t v
      else if length (partitions t) \<ge> 256 then Fault
      else bind_outcome (register_partition t v dev (word_of_nat (field buf (e + 8) 4))
             (word_of_nat (field buf (e + 12) 4)) (i + 1) now) (\<lambda>(t1, v1).
             mbr_loop buf dev now n (i + 1) (found + 1) t1 v1))"

definition mbr_detect_partitions ::
  "'w blk \<Rightarrow> devfs \<Rightarrow> block_device \<Rightarrow> u64 \<Rightarrow> 'w \<Rightarrow> (int \<times> 'w blk \<times> devfs \<times> 'w) outcome" where
  "mbr_detect_partitions t v dev now w =
     bind_outcome (has_mbr t dev w) (\<lambda>(h, w1).
       if h = 0 then Ret (0, t, v, w1)
       else bind_outcome (read_sectors t dev 0 1 w1) (\<lambda>(res, buf, w2).
         if res < 0 then Ret (res, t, v, w2)
         else if length buf > 512 then Fault
         else bind_outcome (mbr_loop buf dev now 4 0 0 t v) (\<lambda>(found, t1, v1). Ret (found, t1, v1, w2))))"

section \<open>GPT\<close>

definition has_gpt :: "'w blk \<Rightarrow> block_device \<Rightarrow> 'w \<Rightarrow> (int \<times> 'w) outcome" where
  "has_gpt t dev w =
     bind_outcome (read_sectors t dev 0 2 w) (\<lambda>(res, buf, w1).
       if res < 0 then Ret (res, w1)
       else if length buf > 1024 then Fault
       else Ret (if read_at buf 512 8 = efi_part then 1 else 0, w1))"

text \<open>The entries of one sector; a negative count is an error that ends the detection.  The type
  GUID occupies the first 16 bytes of an entry, the two block numbers the bytes 32 to 47; the entry
  size is a field of the header and may be smaller than the structure.\<close>

fun gpt_entries ::
  "byte list \<Rightarrow> nat \<Rightarrow> block_device \<Rightarrow> u64 \<Rightarrow> nat \<Rightarrow> nat \<Rightarrow> int \<Rightarrow> 'w blk \<Rightarrow> devfs \<Rightarrow> (int \<times> 'w blk \<times> devfs) outcome" where
  "gpt_entries buf esz dev now 0 j found t v = Ret (found, t, v)"
| "gpt_entries buf esz dev now (Suc n) j found t v =
     (let e = j * esz; start = (word_of_nat (field buf (e + 32) 8) :: u64);
          ending = word_of_nat (field buf (e + 40) 8) in
      if e + 16 > 512 then Fault
      else if list_all (\<lambda>b. b = 0) (read_at buf e 16) then gpt_entries buf esz dev now n (j + 1) found t v
      else if e + 48 > 512 then Fault
      else if start = 0 \<or> ending < start then gpt_entries buf esz dev now n (j + 1) found t v
      else if length (partitions t) \<ge> 256 then Ret (- ENOSPC, t, v)
      else bind_outcome (register_partition t v dev start (ending - start + 1) (nat found + 1) now) (\<lambda>(t1, v1).
             gpt_entries buf esz dev now n (j + 1) (found + 1) t1 v1))"

text \<open>The loop over the sectors of the entry array; \<open>n\<close> of them remain.  The index arithmetic is
  that of \<open>uint32_t\<close>.\<close>

fun gpt_sectors ::
  "u64 \<Rightarrow> nat \<Rightarrow> u32 \<Rightarrow> u32 \<Rightarrow> block_device \<Rightarrow> u64 \<Rightarrow> nat \<Rightarrow> u32 \<Rightarrow> int \<Rightarrow> 'w blk \<Rightarrow> devfs \<Rightarrow> 'w \<Rightarrow>
     (int \<times> 'w blk \<times> devfs \<times> 'w) outcome" where
  "gpt_sectors lba0 esz eps total_entries dev now 0 si found t v w = Ret (found, t, v, w)"
| "gpt_sectors lba0 esz eps total_entries dev now (Suc n) si found t v w =
     bind_outcome (read_sectors t dev (lba0 + ucast si) 1 w) (\<lambda>(res, buf, w1).
       if res < 0 then Ret (res, t, v, w1)
       else if length buf > 512 then Fault
       else let here = (if (si + 1) * eps > total_entries then total_entries - si * eps else eps) in
         bind_outcome (gpt_entries buf esz dev now (unat here) 0 found t v) (\<lambda>(found1, t1, v1).
           if found1 < 0 then Ret (found1, t1, v1, w1)
           else gpt_sectors lba0 esz eps total_entries dev now n (si + 1) found1 t1 v1 w1))"

definition gpt_detect_partitions ::
  "'w blk \<Rightarrow> devfs \<Rightarrow> block_device \<Rightarrow> u64 \<Rightarrow> 'w \<Rightarrow> (int \<times> 'w blk \<times> devfs \<times> 'w) outcome" where
  "gpt_detect_partitions t v dev now w =
     bind_outcome (has_gpt t dev w) (\<lambda>(h, w1).
       if h = 0 then Ret (0, t, v, w1)
       else bind_outcome (read_sectors t dev 1 1 w1) (\<lambda>(res, hdr, w2).
         if res < 0 then Ret (res, t, v, w2)
         else if length hdr > 512 then Fault
         else if read_at hdr 0 8 \<noteq> efi_part then Ret (0, t, v, w2)
         else let esz = field hdr 84 4; total_entries = (word_of_nat (field hdr 80 4) :: u32);
                  lba0 = word_of_nat (field hdr 72 8) in
           if esz = 0 \<or> total_entries = 0 then Ret (0, t, v, w2)
           else let eps = (word_of_nat (512 div esz) :: u32) in
             if eps = 0 then Ret (0, t, v, w2)
             else gpt_sectors lba0 esz eps total_entries dev now (unat ((total_entries + eps - 1) div eps)) 0 0 t v w2))"

definition detect_partitions ::
  "'w blk \<Rightarrow> devfs \<Rightarrow> block_device \<Rightarrow> u64 \<Rightarrow> 'w \<Rightarrow> (int \<times> 'w blk \<times> devfs \<times> 'w) outcome" where
  "detect_partitions t v dev now w =
     bind_outcome (has_gpt t dev w) (\<lambda>(g, w1).
       if g \<noteq> 0 then gpt_detect_partitions t v dev now w1
       else bind_outcome (has_mbr t dev w1) (\<lambda>(m, w2).
         if m \<noteq> 0 then mbr_detect_partitions t v dev now w2 else Ret (0, t, v, w2)))"

definition register_block_device ::
  "'w blk \<Rightarrow> devfs \<Rightarrow> block_device \<Rightarrow> u64 \<Rightarrow> 'w \<Rightarrow> (int \<times> 'w blk \<times> devfs \<times> 'w) outcome" where
  "register_block_device t v dev now w =
     bind_outcome (if bdev_is_partition dev then Ret (0, t, v, w) else detect_partitions t v dev now w)
       (\<lambda>(n, t1, v1, w1).
       bind_outcome (add_device_node v1 dev now) (\<lambda>v2. Ret (0, t1, v2, w1)))"

section \<open>Properties\<close>

text \<open>Reading a decimal number back.\<close>

definition atoi :: "string \<Rightarrow> nat" where
  "atoi s = foldl (\<lambda>n c. 10 * n + (of_char c - 48)) 0 s"

lemma digits_bound: "v < 10 ^ digits_u64 v"
proof (induction v rule: digits_u64.induct)
  case (1 v)
  show ?case
  proof (cases "v \<ge> 10")
    case True
    with 1 have "v < 10 * 10 ^ digits_u64 (v div 10)" by (simp add: div_less_iff_less_mult mult.commute)
    then show ?thesis using True by (subst digits_u64.simps) simp
  qed (simp add: digits_u64.simps)
qed

lemma foldl_digits:
  "v < 10 ^ len \<Longrightarrow> foldl (\<lambda>n c. 10 * n + (of_char c - 48)) a (itoa_fill len v acc) =
   foldl (\<lambda>n c. 10 * n + (of_char c - 48)) (a * 10 ^ len + v) acc"
proof (induction len arbitrary: v acc)
  case (Suc len)
  then have "v div 10 < 10 ^ len" by (simp add: less_mult_imp_div_less)
  moreover have "of_char (char_of (48 + v mod 10) :: char) - 48 = v mod 10"
    by (simp add: of_char_of)
  moreover have "10 * (a * 10 ^ len + v div 10) + v mod 10 = a * 10 ^ Suc len + v"
    by (simp add: distrib_left)
  ultimately show ?case using Suc.IH by (simp add: distrib_left ac_simps)
qed simp

text \<open>The number a device name ends in is the number it was made from: \<open>itoa\<close> writes the
  decimal digits of every 64-bit value, with no leading zero lost and none missing.\<close>

theorem itoa_roundtrip: "atoi (itoa v) = v"
proof (cases "v = 0")
  case False
  then have "v < 10 ^ digits_u64 v" using digits_bound by simp
  then show ?thesis using False foldl_digits [of v "digits_u64 v" 0 "[]"] by (simp add: atoi_def itoa_def)
qed (simp add: itoa_def atoi_def)

text \<open>\<open>adds dev n t t'\<close>: \<open>t'\<close> has the partitions of \<open>t\<close> followed by \<open>n\<close> new ones on \<open>dev\<close>, and
  nothing else differs.\<close>

definition adds :: "block_device \<Rightarrow> 'w blk \<Rightarrow> 'w blk \<Rightarrow> int \<Rightarrow> bool" where
  "adds dev t t' n \<longleftrightarrow> (\<exists>new. t' = t\<lparr>partitions := partitions t @ new\<rparr> \<and> int (length new) = n \<and>
     (\<forall>p\<in>set new. part_blockdev p = dev))"

lemma adds_refl: "adds dev t t 0"
  by (simp add: adds_def)

lemma adds_trans: "adds dev t t1 n \<Longrightarrow> adds dev t1 t2 m \<Longrightarrow> adds dev t t2 (n + m)"
  unfolding adds_def
proof (elim exE conjE)
  fix new new'
  assume "t1 = t\<lparr>partitions := partitions t @ new\<rparr>" "int (length new) = n" "\<forall>p\<in>set new. part_blockdev p = dev"
    "t2 = t1\<lparr>partitions := partitions t1 @ new'\<rparr>" "int (length new') = m" "\<forall>p\<in>set new'. part_blockdev p = dev"
  then show "\<exists>new. t2 = t\<lparr>partitions := partitions t @ new\<rparr> \<and> int (length new) = n + m \<and>
      (\<forall>p\<in>set new. part_blockdev p = dev)"
    by (intro exI [of _ "new @ new'"]) auto
qed

lemma adds_step: "adds dev t t1 1 \<Longrightarrow> adds dev t1 t2 (r - (found + 1)) \<Longrightarrow> adds dev t t2 (r - found)"
  by (drule (1) adds_trans) simp

lemma register_partition_adds:
  "register_partition t v dev start sz num now = Ret (t1, v1) \<Longrightarrow> adds dev t t1 1"
  by (auto simp: register_partition_def Let_def bind_outcome_eq_Ret adds_def)

lemma mbr_loop_adds:
  "mbr_loop buf dev now n i found t v = Ret (r, t', v') \<Longrightarrow> adds dev t t' (r - found)"
proof (induction buf dev now n i found t v rule: mbr_loop.induct)
  case (2 buf dev now n i found t v)
  then show ?case
    by (auto simp: Let_def bind_outcome_eq_Ret split: if_splits
      intro: adds_step dest!: register_partition_adds)
qed (simp add: adds_refl)

lemma gpt_entries_adds:
  "gpt_entries buf esz dev now n j found t v = Ret (r, t', v') \<Longrightarrow> 0 \<le> r \<Longrightarrow> adds dev t t' (r - found)"
proof (induction buf esz dev now n j found t v rule: gpt_entries.induct)
  case (2 buf esz dev now n j found t v)
  then show ?case
    by (auto simp: Let_def bind_outcome_eq_Ret errno_simps split: if_splits
      intro: adds_step dest!: register_partition_adds)
qed (simp add: adds_refl)

lemma gpt_sectors_adds:
  "gpt_sectors lba0 esz eps tot dev now n si found t v w = Ret (r, t', v', w') \<Longrightarrow> 0 \<le> r \<Longrightarrow>
   adds dev t t' (r - found)"
proof (induction lba0 esz eps tot dev now n si found t v w rule: gpt_sectors.induct)
  case (2 lba0 esz eps tot dev now n si found t v w)
  from 2(2,3) obtain buf w1 here found1 t1 v1 where
      "gpt_entries buf esz dev now here 0 found t v = Ret (found1, t1, v1)" "0 \<le> found1"
      "gpt_sectors lba0 esz eps tot dev now n (si + 1) found1 t1 v1 w1 = Ret (r, t', v', w')"
      and "adds dev t1 t' (r - found1)"
    using 2(1) by (auto simp: Let_def bind_outcome_eq_Ret not_less split: if_splits)
  moreover from this have "adds dev t t1 (found1 - found)" using gpt_entries_adds by blast
  ultimately show ?case using adds_trans [of dev t t1 "found1 - found" t' "r - found1"] by simp
qed (simp add: adds_refl)

text \<open>Detection only appends to the partition array: whenever \<open>detect_partitions\<close> reports a
  number of partitions, the array has exactly that many new elements, all of them backed by the
  device that was examined, and no earlier partition and no driver changes.\<close>

theorem detect_partitions_appends:
  assumes "detect_partitions t v dev now w = Ret (n, t', v', w')" and "0 \<le> n"
  shows "\<exists>new. t' = t\<lparr>partitions := partitions t @ new\<rparr> \<and> int (length new) = n \<and>
    (\<forall>p\<in>set new. part_blockdev p = dev)"
proof -
  have "adds dev t t' n"
    using assms mbr_loop_adds [where found = 0] gpt_sectors_adds [where found = 0] adds_refl
    by (auto simp: detect_partitions_def mbr_detect_partitions_def gpt_detect_partitions_def Let_def
      bind_outcome_eq_Ret split: if_splits)
  then show ?thesis by (simp add: adds_def)
qed

text \<open>A disk with an MBR that holds one partition, of 8 sectors from sector 2 on.\<close>

definition mbr_image :: "byte list" where
  "mbr_image = replicate 446 0 @ [0, 0, 0, 0, 0x83, 0, 0, 0, 2, 0, 0, 0, 8, 0, 0, 0] @
     replicate 48 0 @ [0x55, 0xAA] @ replicate 512 0"

definition mbr_blk :: "unit blk" where
  "mbr_blk = \<lparr>block_drivers = [HwDriver \<lparr>
     hw_read_sectors = (\<lambda>mnr lba cnt w. (0, read_at mbr_image (unat lba * 512) (unat cnt * 512), w)),
     hw_write_sectors = (\<lambda>mnr lba bs cnt w. (- EROFS, w)), hw_ioctl = None,
     hw_get_blockdev_size = (\<lambda>mnr w. 1024), hw_get_sector_size = (\<lambda>mnr w. 512)\<rparr>],
     partitions = [], partition_driver_index = 2\<rparr>"

definition mbr_dev :: block_device where
  "mbr_dev = \<lparr>bdev_major = 1, bdev_minor = 0, bdev_name = Some ''hd0'', bdev_is_partition = False\<rparr>"

lemma mbr_read:
  "unat lba = 0 \<Longrightarrow> read_sectors mbr_blk mbr_dev lba cnt () = Ret (0, read_at mbr_image 0 (unat cnt * 512), ())"
  by (simp add: read_sectors_def block_driver_at_def mbr_blk_def mbr_dev_def)

lemma mbr_fields:
  "read_at mbr_image 512 8 = replicate 8 0" "read_at mbr_image 510 2 = [0x55, 0xAA]"
  "length mbr_image = 1024"
  by (simp_all add: mbr_image_def read_at_def)

lemma mbr_sector:
  "field (read_at mbr_image 0 512) 450 1 = 0x83" "field (read_at mbr_image 0 512) 454 4 = 2"
  "field (read_at mbr_image 0 512) 458 4 = 8" "field (read_at mbr_image 0 512) 466 1 = 0"
  "field (read_at mbr_image 0 512) 482 1 = 0" "field (read_at mbr_image 0 512) 498 1 = 0"
  by (simp_all add: mbr_image_def read_at_def field_def)

lemma zeros_not_efi: "replicate 8 0 \<noteq> efi_part"
proof
  assume "replicate 8 0 = efi_part"
  then have "replicate 8 0 ! 0 = efi_part ! 0" by simp
  then show False by (simp add: efi_part_def)
qed

lemma mbr_name: "partition_name (Some ''hd0'') 1 = Ret ''hd0p1''"
proof -
  have "digits_u64 1 = 1" by (subst digits_u64.simps) simp
  then show ?thesis by (simp add: partition_name_def itoa_def is_digit_def char_of_def bit_Suc_0_iff)
qed

lemma hd0p1_path:
  "scan_component 256 ''hd0p1'' = (''hd0p1'', [])" "split_parent ''hd0p1'' = Ret ([], ''hd0p1'')"
  by (simp_all add: numeral_eq_Suc split_parent_def)

lemma mbr_node:
  "\<exists>v1. add_device_node (devfs_register 1 0) \<lparr>bdev_major = 2, bdev_minor = 0, bdev_name = Some ''hd0p1'',
     bdev_is_partition = True\<rparr> 0 = Ret v1"
  by (simp add: add_device_node_def devfs_mknod_def on_instance_def ramfs_mknod_def ramfs_create_def
    devfs_register_def ramfs_mount_def ramfs_get_dirent_def ramfs_walk.simps hd0p1_path deref_def
    alloc_dirent_def ramfs_add_dirent_def upd_def zero_dirent_def DT_DIR_def DT_BLOCK_def)

lemma mbr_detected:
  "\<exists>t' v'. detect_partitions mbr_blk (devfs_register 1 0) mbr_dev 0 () = Ret (1, t', v', ())"
proof -
  obtain v1 where v1: "add_device_node (devfs_register 1 0) \<lparr>bdev_major = 2, bdev_minor = 0,
      bdev_name = Some ''hd0p1'', bdev_is_partition = True\<rparr> 0 = Ret v1"
    using mbr_node by blast
  have p: "partitions mbr_blk = []" "partition_driver_index mbr_blk = 2" "bdev_name mbr_dev = Some ''hd0''"
    by (simp_all add: mbr_blk_def mbr_dev_def)
  have r: "read_at (read_at mbr_image 0 1024) n k = read_at mbr_image n k" for n k
    using mbr_fields(3) by (simp add: read_at_def)
  have "has_gpt mbr_blk mbr_dev () = Ret (0, ())" and "has_mbr mbr_blk mbr_dev () = Ret (1, ())"
    using zeros_not_efi
    by (simp_all add: has_gpt_def has_mbr_def mbr_read mbr_fields r)
  moreover have "\<exists>t' v'. mbr_loop (read_at mbr_image 0 512) mbr_dev 0 4 0 0 mbr_blk (devfs_register 1 0) = Ret (1, t', v')"
    using mbr_sector v1 p mbr_name by (simp add: numeral_eq_Suc register_partition_def Let_def)
  ultimately show ?thesis
    by (auto simp: detect_partitions_def mbr_detect_partitions_def mbr_read mbr_fields read_at_def)
qed

theorem detect_partitions_appends_witness:
  "\<exists>t' v'. detect_partitions mbr_blk (devfs_register 1 0) mbr_dev 0 () = Ret (1, t', v', ()) \<and>
     (\<exists>new. t' = mbr_blk\<lparr>partitions := partitions mbr_blk @ new\<rparr> \<and> int (length new) = 1 \<and>
       (\<forall>p\<in>set new. part_blockdev p = mbr_dev))"
  using mbr_detected detect_partitions_appends [of mbr_blk "devfs_register 1 0" mbr_dev 0 "()" 1] by fastforce

text \<open>Detection on a device with sectors of 2048 bytes, as every CD drive has, writes outside
  its 1024-byte sector buffer: the first two sectors are read before the sector size is looked
  at.\<close>

theorem detect_partitions_overflow:
  assumes "serves t dev 2048 img" and "4096 \<le> length (img w)"
  shows "detect_partitions t v dev now w = Fault"
proof -
  have "(unat (0 :: u64) + unat (2 :: u64)) * 2048 \<le> length (img w) \<longrightarrow>
    (\<exists>res. 0 \<le> res \<and> read_sectors t dev 0 2 w =
       Ret (res, read_at (img w) (unat (0 :: u64) * 2048) (unat (2 :: u64) * 2048), w))"
    using assms(1) unfolding serves_def by blast
  then show ?thesis
    using assms(2) by (auto simp: detect_partitions_def has_gpt_def)
qed

text \<open>A disk of two sectors of 2048 bytes.\<close>

definition cd_img :: "ram \<Rightarrow> byte list" where
  "cd_img w = map w [0..<4096]"

definition cd_blk :: "ram blk" where
  "cd_blk = \<lparr>block_drivers = [HwDriver \<lparr>
     hw_read_sectors = (\<lambda>mnr lba cnt w. (0, read_at (cd_img w) (unat lba * 2048) (unat cnt * 2048), w)),
     hw_write_sectors = (\<lambda>mnr lba bs cnt w.
       (0, \<lambda>i. write_at (cd_img w) (unat lba * 2048) (take (unat cnt * 2048) bs) ! i)),
     hw_ioctl = None, hw_get_blockdev_size = (\<lambda>mnr w. 4096), hw_get_sector_size = (\<lambda>mnr w. 2048)\<rparr>],
     partitions = [], partition_driver_index = 2\<rparr>"

lemma length_cd_img: "length (cd_img w) = 4096"
  by (simp add: cd_img_def)

lemma cd_img_of_list: "length xs = 4096 \<Longrightarrow> cd_img (\<lambda>i. xs ! i) = xs"
  unfolding cd_img_def by (metis map_nth)

lemma cd_serves: "serves cd_blk ram_dev 2048 cd_img"
  unfolding serves_def
  by (auto simp: ram_dev_def get_sector_size_def read_sectors_def write_sectors_def cd_blk_def
    block_driver_at_def length_cd_img intro!: cd_img_of_list)

theorem detect_partitions_overflow_witness:
  "detect_partitions cd_blk (devfs_register 1 0) ram_dev 0 ram0 = Fault"
  using detect_partitions_overflow [OF cd_serves, of ram0] by (simp add: length_cd_img)

end
