(* ===== verification/Paging.thy ===== *)
theory Paging
  imports Prelude
begin

text \<open>
  Virtual memory, \<open>kernel/memory/paging.c\<close> and \<open>paging.h\<close>: the physical page allocator with its
  array of reference counts, the four-level page tables of the x86-64, copy-on-write, and the checks
  of user pointers.  Physical memory is a function from page number and index to the 64-bit word
  there, as the kernel sees it through the direct map; a pointer to a table is its page number.  The
  reference counts are natural numbers (a count of 2 to the power 32 would need 32 GB of page
  tables).  Accesses outside the array of counts and outside a table are a \<open>Fault\<close>, the calls of
  \<open>panic\<close> are \<open>Panic\<close>.  Translation caches and their flushes are not modelled: a translation always
  reads the tables.
\<close>

named_theorems paging_simps

definition FLAGS_PRESENT :: u64 where [flag_simps]: "FLAGS_PRESENT = 1"
definition FLAGS_RW :: u64 where [flag_simps]: "FLAGS_RW = 2"
definition FLAGS_USER :: u64 where [flag_simps]: "FLAGS_USER = 4"
definition FLAGS_COW :: u64 where [flag_simps]: "FLAGS_COW = 0x200"
definition FLAGS_NX :: u64 where [flag_simps]: "FLAGS_NX = 0x8000000000000000"
definition FLAGS_MASK :: u64 where [flag_simps]: "FLAGS_MASK = 0xFFF0000000000FFF"
definition HIGHER_LEVEL_FLAGS :: u64 where "HIGHER_LEVEL_FLAGS = FLAGS_PRESENT OR FLAGS_RW OR FLAGS_USER"
definition PAGE_MASK :: u64 where [flag_simps]: "PAGE_MASK = NOT 4095"

record page_address =
  pml4_index :: nat
  pdpt_index :: nat
  pd_index :: nat
  pt_index :: nat

record paging =
  pml4_physical :: u64
  memory_bitmap :: "nat \<Rightarrow> nat"
  first_usable :: nat
  usable_page_count :: nat
  zero_page :: u64
  phys :: "nat \<Rightarrow> nat \<Rightarrow> u64"

section \<open>Entries and tables\<close>

definition flag :: "u64 \<Rightarrow> u64 \<Rightarrow> bool" where
  "flag f e \<longleftrightarrow> e AND f \<noteq> 0"

definition page_table_to_address :: "u64 \<Rightarrow> u64" where
  "page_table_to_address e = e AND NOT FLAGS_MASK"

definition page_no :: "u64 \<Rightarrow> nat" where
  "page_no a = unat a div 4096"

definition table_of :: "u64 \<Rightarrow> nat" where
  "table_of e = page_no (page_table_to_address e)"

definition get_page_entry :: "u64 \<Rightarrow> page_address" where
  "get_page_entry a =
     \<lparr>pml4_index = unat (drop_bit 39 a AND 0x1FF), pdpt_index = unat (drop_bit 30 a AND 0x1FF),
      pd_index = unat (drop_bit 21 a AND 0x1FF), pt_index = unat (drop_bit 12 a AND 0x1FF)\<rparr>"

definition set_word :: "nat \<Rightarrow> nat \<Rightarrow> u64 \<Rightarrow> paging \<Rightarrow> paging" where
  "set_word p i v m = m\<lparr>phys := (phys m)(p := (phys m p)(i := v))\<rparr>"

definition clear_page :: "nat \<Rightarrow> paging \<Rightarrow> paging" where
  "clear_page p m = m\<lparr>phys := (phys m)(p := (\<lambda>_. 0))\<rparr>"

definition pml4 :: "paging \<Rightarrow> nat" where
  "pml4 m = page_no (pml4_physical m)"

definition change_pml4 :: "u64 \<Rightarrow> paging \<Rightarrow> paging" where
  "change_pml4 cr3 m = m\<lparr>pml4_physical := cr3\<rparr>"

text \<open>The walk through the three upper levels that opens most functions: the tables below the root,
  as far as every entry on the way satisfies the test.\<close>

definition walk :: "(u64 \<Rightarrow> bool) \<Rightarrow> paging \<Rightarrow> page_address \<Rightarrow> (nat \<times> nat \<times> nat) option" where
  "walk ok m idx =
     (let pml4e = phys m (pml4 m) (pml4_index idx) in
      if \<not> ok pml4e then None
      else let pdpt = table_of pml4e; pdpte = phys m pdpt (pdpt_index idx) in
        if \<not> ok pdpte then None
        else let pd = table_of pdpte; pde = phys m pd (pd_index idx) in
          if \<not> ok pde then None else Some (pdpt, pd, table_of pde))"

definition get_physical_address :: "paging \<Rightarrow> u64 \<Rightarrow> u64" where
  "get_physical_address m virtual_address =
     (let idx = get_page_entry virtual_address in
      case walk (flag FLAGS_PRESENT) m idx of
        None \<Rightarrow> 0
      | Some (pdpt, pd, pt) \<Rightarrow>
          if flag FLAGS_PRESENT (phys m pt (pt_index idx)) then page_table_to_address (phys m pt (pt_index idx)) else 0)"

section \<open>The page allocator\<close>

definition inc_page :: "nat \<Rightarrow> paging \<Rightarrow> paging outcome" where
  "inc_page p m =
     (if p < usable_page_count m
      then Ret (m\<lparr>memory_bitmap := (memory_bitmap m)(p := memory_bitmap m p + 1)\<rparr>) else Fault)"

text \<open>The three lines that drop a reference: count down unless it is 0, and remember a lower free page.\<close>

definition dec_page :: "nat \<Rightarrow> paging \<Rightarrow> paging outcome" where
  "dec_page p m =
     (if p < usable_page_count m
      then let c = memory_bitmap m p - 1 in
        Ret (m\<lparr>memory_bitmap := (memory_bitmap m)(p := c),
               first_usable := (if c = 0 \<and> p < first_usable m then p else first_usable m)\<rparr>)
      else Fault)"

function find_free :: "paging \<Rightarrow> nat \<Rightarrow> nat option" where
  "find_free m i =
     (if i < usable_page_count m then if memory_bitmap m i = 0 then Some i else find_free m (i + 1) else None)"
  by pat_completeness auto
termination by (relation "measure (\<lambda>(m, i). usable_page_count m - i)") auto

declare find_free.simps [simp del]

definition get_available_address :: "paging \<Rightarrow> (u64 \<times> paging) outcome" where
  "get_available_address m =
     (case find_free m (first_usable m) of
        None \<Rightarrow> Panic
      | Some i \<Rightarrow> Ret (word_of_nat (i * 4096), m\<lparr>first_usable := i + 1\<rparr>))"

definition allocate_physical_page :: "paging \<Rightarrow> (u64 \<times> paging) outcome" where
  "allocate_physical_page m =
     bind_outcome (get_available_address m) (\<lambda>(a, m1).
     bind_outcome (inc_page (page_no a) m1) (\<lambda>m2. Ret (a, clear_page (page_no a) m2)))"

record memmap_entry =
  base :: u64
  len :: u64
  usable :: bool

definition highest_usable :: "memmap_entry list \<Rightarrow> u64" where
  "highest_usable es = foldl (\<lambda>h e. if \<not> usable e then h else if base e + len e > h then base e + len e else h) 0 es"

definition bitmap_place :: "memmap_entry list \<Rightarrow> u64 \<Rightarrow> u64" where
  "bitmap_place es sz = (case find (\<lambda>e. usable e \<and> len e \<ge> sz) es of None \<Rightarrow> 0 | Some e \<Rightarrow> base e)"

definition mark :: "nat list \<Rightarrow> nat \<Rightarrow> paging \<Rightarrow> paging outcome" where
  "mark ps v m =
     (if \<forall>p\<in>set ps. p < usable_page_count m
      then Ret (m\<lparr>memory_bitmap := (\<lambda>p. if p \<in> set ps then v else memory_bitmap m p)\<rparr>) else Fault)"

text \<open>The memory map is given by the boot loader; \<open>init_paging\<close> also stores the base of the direct map.\<close>

definition init_paging :: "u64 \<Rightarrow> memmap_entry list option \<Rightarrow> paging \<Rightarrow> paging outcome" where
  "init_paging cr3 memmap m =
     (case memmap of None \<Rightarrow> Panic | Some es \<Rightarrow>
      if cr3 = 0 then Panic
      else let pages = unat (highest_usable es) div 4096;
               sz = word_of_nat (pages * 4) :: u64;
               bp = bitmap_place es sz
        in if bp = 0 then Panic
        else let m1 = m\<lparr>pml4_physical := cr3, usable_page_count := pages, memory_bitmap := (\<lambda>_. 1)\<rparr> in
          bind_outcome (foldl (\<lambda>r e. bind_outcome r (\<lambda>m. if usable e
              then mark [unat (base e) div 4096 ..< unat (base e + len e) div 4096] 0 m else Ret m)) (Ret m1) es) (\<lambda>m2.
          bind_outcome (mark (map (\<lambda>k. (unat bp + 4096 * k) div 4096) [0..<(pages * 4 + 4095) div 4096]) 1 m2) (\<lambda>m3.
          bind_outcome (get_available_address m3) (\<lambda>(z, m4).
            mark [page_no z] 1 (clear_page (page_no z) (m4\<lparr>zero_page := z\<rparr>))))))"

section \<open>Mapping regions\<close>

text \<open>One level of the walk of the \<open>alloc\<close> functions: the table below an entry, made when it is missing.\<close>

definition ensure_table :: "nat \<Rightarrow> nat \<Rightarrow> paging \<Rightarrow> (nat \<times> paging) outcome" where
  "ensure_table t i m =
     (let e = phys m t i in
      if flag FLAGS_PRESENT e then Ret (table_of e, m)
      else bind_outcome (allocate_physical_page m) (\<lambda>(a, m1).
        if a = 0 then Panic
        else let e1 = (a AND PAGE_MASK) OR HIGHER_LEVEL_FLAGS
          in Ret (table_of e1, set_word t i e1 (clear_page (page_no a) m1))))"

text \<open>The local variables of the loop: the indices and, for each level, the table last used and
  whether it has to be looked up again.\<close>

record cursor =
  c_idx :: page_address
  pml4_changed :: bool
  pdpt_changed :: bool
  pd_changed :: bool
  c_pdpt :: nat
  c_pd :: nat
  c_pt :: nat

definition cursor_tables :: "cursor \<Rightarrow> paging \<Rightarrow> (cursor \<times> paging) outcome" where
  "cursor_tables c m =
     (let idx = c_idx c in
      bind_outcome (if pml4_changed c then ensure_table (pml4 m) (pml4_index idx) m else Ret (c_pdpt c, m)) (\<lambda>(pdpt, m1).
      bind_outcome (if pdpt_changed c then ensure_table pdpt (pdpt_index idx) m1 else Ret (c_pd c, m1)) (\<lambda>(pd, m2).
      bind_outcome (if pd_changed c then ensure_table pd (pd_index idx) m2 else Ret (c_pt c, m2)) (\<lambda>(pt, m3).
        Ret (c\<lparr>pml4_changed := False, pdpt_changed := False, pd_changed := False,
               c_pdpt := pdpt, c_pd := pd, c_pt := pt\<rparr>, m3)))))"

definition or_word :: "nat \<Rightarrow> nat \<Rightarrow> u64 \<Rightarrow> paging \<Rightarrow> paging" where
  "or_word p i f m = set_word p i (phys m p i OR f) m"

definition cursor_next :: "cursor \<Rightarrow> cursor" where
  "cursor_next c =
     (let x = c_idx c in
      if pt_index x + 1 < 512 then c\<lparr>c_idx := x\<lparr>pt_index := pt_index x + 1\<rparr>\<rparr>
      else if pd_index x + 1 < 512
        then c\<lparr>c_idx := x\<lparr>pt_index := 0, pd_index := pd_index x + 1\<rparr>, pd_changed := True\<rparr>
      else if pdpt_index x + 1 < 512
        then c\<lparr>c_idx := x\<lparr>pt_index := 0, pd_index := 0, pdpt_index := pdpt_index x + 1\<rparr>,
               pd_changed := True, pdpt_changed := True\<rparr>
      else c\<lparr>c_idx := x\<lparr>pt_index := 0, pd_index := 0, pdpt_index := 0, pml4_index := pml4_index x + 1\<rparr>,
             pd_changed := True, pdpt_changed := True, pml4_changed := True\<rparr>)"

definition upper_flags :: "cursor \<Rightarrow> paging \<Rightarrow> paging" where
  "upper_flags c m =
     (let x = c_idx c in
      or_word (c_pd c) (pd_index x) HIGHER_LEVEL_FLAGS
        (or_word (c_pdpt c) (pdpt_index x) HIGHER_LEVEL_FLAGS
          (or_word (pml4 m) (pml4_index x) HIGHER_LEVEL_FLAGS m)))"

text \<open>One pass of the loop for the address \<open>i\<close>; \<open>leaf\<close> yields the physical address and the flags of
  the new entry, the only point where the three \<open>alloc\<close> functions differ.\<close>

definition alloc_step ::
  "(nat \<Rightarrow> paging \<Rightarrow> (u64 \<times> u64 \<times> paging) outcome) \<Rightarrow> nat \<Rightarrow> cursor \<Rightarrow> paging \<Rightarrow> (cursor \<times> paging) outcome" where
  "alloc_step leaf i c m =
     (if pml4_index (c_idx c) \<ge> 512 then Fault
      else bind_outcome (cursor_tables c m) (\<lambda>(c1, m1).
        let x = c_idx c1; m2 = upper_flags c1 m1
        in if flag FLAGS_PRESENT (phys m2 (c_pt c1) (pt_index x)) then Panic
        else bind_outcome (leaf i m2) (\<lambda>(a, f, m3).
             bind_outcome (inc_page (page_no a) (set_word (c_pt c1) (pt_index x) ((a AND PAGE_MASK) OR f OR FLAGS_PRESENT) m3)) (\<lambda>m4.
               Ret (cursor_next c1, m4)))))"

function alloc_loop ::
  "(nat \<Rightarrow> paging \<Rightarrow> (u64 \<times> u64 \<times> paging) outcome) \<Rightarrow> nat \<Rightarrow> nat \<Rightarrow> cursor \<Rightarrow> paging \<Rightarrow> paging outcome" where
  "alloc_loop leaf i end c m =
     (if i < end then bind_outcome (alloc_step leaf i c m) (\<lambda>(c1, m1). alloc_loop leaf (i + 4096) end c1 m1)
      else Ret m)"
  by pat_completeness auto
termination by (relation "measure (\<lambda>(leaf, i, end, c, m). end - i)") auto

declare alloc_loop.simps [simp del]

definition start_cursor :: "u64 \<Rightarrow> cursor" where
  "start_cursor vaddr = \<lparr>c_idx = get_page_entry vaddr, pml4_changed = True, pdpt_changed = True,
     pd_changed = True, c_pdpt = 0, c_pd = 0, c_pt = 0\<rparr>"

definition map_region ::
  "(nat \<Rightarrow> paging \<Rightarrow> (u64 \<times> u64 \<times> paging) outcome) \<Rightarrow> u64 \<Rightarrow> u64 \<Rightarrow> paging \<Rightarrow> (u64 \<times> paging) outcome" where
  "map_region leaf vaddr sz m =
     bind_outcome (alloc_loop leaf (unat vaddr) (unat (page_align (vaddr + sz))) (start_cursor vaddr) m)
       (\<lambda>m1. Ret (vaddr, m1))"

definition fresh_leaf :: "u64 \<Rightarrow> nat \<Rightarrow> paging \<Rightarrow> (u64 \<times> u64 \<times> paging) outcome" where
  "fresh_leaf flags i m = bind_outcome (get_available_address m) (\<lambda>(a, m1). Ret (a, flags, m1))"

definition mmio_leaf :: "u64 \<Rightarrow> u64 \<Rightarrow> u64 \<Rightarrow> nat \<Rightarrow> paging \<Rightarrow> (u64 \<times> u64 \<times> paging) outcome" where
  "mmio_leaf vaddr paddr flags i m = Ret (paddr + (word_of_nat i - vaddr), flags, m)"

definition zero_leaf :: "u64 \<Rightarrow> nat \<Rightarrow> paging \<Rightarrow> (u64 \<times> u64 \<times> paging) outcome" where
  "zero_leaf flags i m =
     Ret (zero_page m, (flags AND NOT FLAGS_RW) OR (if flag FLAGS_RW flags then FLAGS_COW else 0), m)"

definition alloc_region :: "u64 \<Rightarrow> u64 \<Rightarrow> u64 \<Rightarrow> paging \<Rightarrow> (u64 \<times> paging) outcome" where
  "alloc_region vaddr sz flags = map_region (fresh_leaf flags) vaddr sz"

definition alloc_mmio_region :: "u64 \<Rightarrow> u64 \<Rightarrow> u64 \<Rightarrow> u64 \<Rightarrow> paging \<Rightarrow> (u64 \<times> paging) outcome" where
  "alloc_mmio_region vaddr paddr sz flags = map_region (mmio_leaf vaddr paddr flags) vaddr sz"

definition alloc_zero_region :: "u64 \<Rightarrow> u64 \<Rightarrow> u64 \<Rightarrow> paging \<Rightarrow> (u64 \<times> paging) outcome" where
  "alloc_zero_region vaddr sz flags = map_region (zero_leaf flags) vaddr sz"

section \<open>Unmapping\<close>

definition table_empty :: "paging \<Rightarrow> nat \<Rightarrow> bool" where
  "table_empty m t \<longleftrightarrow> (\<forall>i\<in>set [0..<512]. \<not> flag FLAGS_PRESENT (phys m t i))"

text \<open>When the table below an entry is empty its page is released and the entry cleared.\<close>

definition release_empty :: "nat \<Rightarrow> nat \<Rightarrow> nat \<Rightarrow> paging \<Rightarrow> paging outcome" where
  "release_empty child t i m =
     (if table_empty m child
      then bind_outcome (dec_page (table_of (phys m t i)) m) (\<lambda>m1. Ret (set_word t i 0 m1)) else Ret m)"

definition free_page :: "u64 \<Rightarrow> paging \<Rightarrow> (int \<times> paging) outcome" where
  "free_page page m =
     (if page = 0 then Ret (- 1, m)
      else let idx = get_page_entry page in
        case walk (flag FLAGS_PRESENT) m idx of
          None \<Rightarrow> Ret (- 1, m)
        | Some (pdpt, pd, pt) \<Rightarrow>
            let e = phys m pt (pt_index idx) in
            if \<not> flag FLAGS_PRESENT e then Ret (- 1, m)
            else bind_outcome (dec_page (table_of e) (set_word pt (pt_index idx) 0 m)) (\<lambda>m1.
                 bind_outcome (release_empty pt pd (pd_index idx) m1) (\<lambda>m2.
                 bind_outcome (release_empty pd pdpt (pdpt_index idx) m2) (\<lambda>m3.
                 bind_outcome (release_empty pdpt (pml4 m3) (pml4_index idx) m3) (\<lambda>m4. Ret (0, m4))))))"

function free_loop :: "nat \<Rightarrow> nat \<Rightarrow> paging \<Rightarrow> paging outcome" where
  "free_loop i end m =
     (if i < end then bind_outcome (free_page (word_of_nat i) m) (\<lambda>(r, m1). free_loop (i + 4096) end m1) else Ret m)"
  by pat_completeness auto
termination by (relation "measure (\<lambda>(i, end, m). end - i)") auto

declare free_loop.simps [simp del]

definition free_region :: "u64 \<Rightarrow> u64 \<Rightarrow> paging \<Rightarrow> paging outcome" where
  "free_region vaddr sz = free_loop (unat vaddr) (unat (page_align (vaddr + sz)))"

section \<open>Address spaces\<close>

fun each :: "nat list \<Rightarrow> (nat \<Rightarrow> paging \<Rightarrow> paging outcome) \<Rightarrow> paging \<Rightarrow> paging outcome" where
  "each [] f m = Ret m"
| "each (i # is) f m = bind_outcome (f i m) (each is f)"

text \<open>The innermost loop of \<open>clone_page_tables\<close>: writable pages become copy-on-write in both tables.\<close>

definition cow_entry :: "u64 \<Rightarrow> u64" where
  "cow_entry e = (if flag FLAGS_RW e then (e AND NOT FLAGS_RW) OR FLAGS_COW else e)"

definition clone_pt :: "nat \<Rightarrow> nat \<Rightarrow> paging \<Rightarrow> paging outcome" where
  "clone_pt pt new_pt = each [0..<512] (\<lambda>l m.
     let e = phys m pt l in
     if flag FLAGS_PRESENT e then
       bind_outcome (inc_page (table_of e) (set_word pt l (cow_entry e) m)) (\<lambda>m1.
         Ret (set_word new_pt l (page_table_to_address e OR (phys m1 pt l AND FLAGS_MASK)) m1))
     else Ret m)"

text \<open>The two loops around it, for page directories and their parents, have the same shape.\<close>

definition clone_table ::
  "(nat \<Rightarrow> nat \<Rightarrow> paging \<Rightarrow> paging outcome) \<Rightarrow> nat list \<Rightarrow> nat \<Rightarrow> nat \<Rightarrow> paging \<Rightarrow> paging outcome" where
  "clone_table child is src dst = each is (\<lambda>i m.
     let e = phys m src i in
     if flag FLAGS_PRESENT e then
       bind_outcome (allocate_physical_page m) (\<lambda>(a, m1).
       bind_outcome (child (table_of e) (page_no a) m1) (\<lambda>m2.
         Ret (set_word dst i ((a AND PAGE_MASK) OR (e AND HIGHER_LEVEL_FLAGS)) m2)))
     else Ret m)"

definition clone_page_tables :: "u64 \<Rightarrow> paging \<Rightarrow> (u64 \<times> paging) outcome" where
  "clone_page_tables pml4_addr m =
     bind_outcome (allocate_physical_page m) (\<lambda>(a, m1).
     bind_outcome (clone_table (clone_table (clone_table clone_pt [0..<512]) [0..<512]) [0..<256]
       (page_no pml4_addr) (page_no a) m1) (\<lambda>m2.
     bind_outcome (each [256..<512] (\<lambda>i m. Ret (set_word (page_no a) i (phys m (page_no pml4_addr) i) m)) m2)
       (\<lambda>m3. Ret (a, m3))))"

definition free_pt :: "nat \<Rightarrow> paging \<Rightarrow> paging outcome" where
  "free_pt pt = each [0..<512] (\<lambda>l m. let e = phys m pt l in
     if flag FLAGS_PRESENT e then dec_page (table_of e) m else Ret m)"

definition free_table :: "(nat \<Rightarrow> paging \<Rightarrow> paging outcome) \<Rightarrow> nat list \<Rightarrow> nat \<Rightarrow> paging \<Rightarrow> paging outcome" where
  "free_table child is t = each is (\<lambda>i m. let e = phys m t i in
     if flag FLAGS_PRESENT e then bind_outcome (child (table_of e) m) (dec_page (table_of e)) else Ret m)"

definition free_page_tables :: "u64 \<Rightarrow> paging \<Rightarrow> paging outcome" where
  "free_page_tables pml4_addr m =
     bind_outcome (free_table (free_table (free_table free_pt [0..<512]) [0..<512]) [0..<256] (page_no pml4_addr) m)
       (dec_page (page_no pml4_addr))"

definition cow_handler :: "u64 \<Rightarrow> paging \<Rightarrow> (bool \<times> paging) outcome" where
  "cow_handler faulting_address m =
     (let idx = get_page_entry faulting_address in
      case walk (flag FLAGS_PRESENT) m idx of
        None \<Rightarrow> Ret (False, m)
      | Some (pdpt, pd, pt) \<Rightarrow>
          let pte = phys m pt (pt_index idx); page_index = table_of pte in
          if \<not> flag FLAGS_PRESENT pte then Ret (False, m)
          else if \<not> flag FLAGS_COW pte then Ret (False, m)
          else if page_index \<ge> usable_page_count m then Fault
          else if memory_bitmap m page_index > 1 then
            bind_outcome (get_available_address m) (\<lambda>(new_phys, m1).
              let n = page_no new_phys;
                  m2 = m1\<lparr>memory_bitmap := (memory_bitmap m1)(page_index := memory_bitmap m1 page_index - 1, n := 1),
                          phys := (phys m1)(n := phys m1 page_index)\<rparr>
              in Ret (True, set_word pt (pt_index idx)
                   ((new_phys AND PAGE_MASK) OR (phys m2 pt (pt_index idx) AND NOT FLAGS_COW AND FLAGS_MASK) OR FLAGS_RW) m2))
          else Ret (True, set_word pt (pt_index idx) ((pte AND NOT FLAGS_COW) OR FLAGS_RW) m))"

section \<open>Checks of user pointers\<close>

definition user_ok :: "u64 \<Rightarrow> bool" where
  "user_ok e \<longleftrightarrow> flag FLAGS_PRESENT e \<and> flag FLAGS_USER e"

definition USER_MAX :: nat where "USER_MAX = 0x00007FFFFFFFFFFF"

definition validate_page :: "bool \<Rightarrow> u64 \<Rightarrow> paging \<Rightarrow> (int \<times> paging) outcome" where
  "validate_page write addr m =
     (let idx = get_page_entry addr in
      case walk user_ok m idx of
        None \<Rightarrow> Ret (- EFAULT, m)
      | Some (pdpt, pd, pt) \<Rightarrow>
          let e = phys m pt (pt_index idx) in
          if \<not> user_ok e then Ret (- EFAULT, m)
          else if write \<and> \<not> flag FLAGS_RW e then
            if flag FLAGS_COW e then
              bind_outcome (cow_handler addr m) (\<lambda>(ok, m1). Ret (if ok then 0 else - EFAULT, m1))
            else Ret (- EFAULT, m)
          else Ret (0, m))"

text \<open>The addresses of the loop stay below the limit tested before it, so they do not wrap around.\<close>

function validate_loop :: "bool \<Rightarrow> nat \<Rightarrow> nat \<Rightarrow> paging \<Rightarrow> (int \<times> paging) outcome" where
  "validate_loop write addr end m =
     (if addr < end then
        bind_outcome (validate_page write (word_of_nat addr) m) (\<lambda>(r, m1).
          if r < 0 then Ret (r, m1) else validate_loop write (addr + 4096) end m1)
      else Ret (0, m))"
  by pat_completeness auto
termination by (relation "measure (\<lambda>(write, addr, end, m). end - addr)") auto

declare validate_loop.simps [simp del]

definition validate_user_pointer :: "u64 \<Rightarrow> u64 \<Rightarrow> bool \<Rightarrow> paging \<Rightarrow> (int \<times> paging) outcome" where
  "validate_user_pointer ptr sz write m =
     (if sz = 0 then Ret (0, m)
      else if ptr = 0 then Ret (- EFAULT, m)
      else if unat ptr > USER_MAX then Ret (- EFAULT, m)
      else if unat (sz - 1) > USER_MAX - unat ptr then Ret (- EFAULT, m)
      else validate_loop write (unat ptr) (unat ptr + unat sz) m)"

text \<open>A byte of the current address space as the kernel reads it; an unmapped address is a page fault
  in the kernel.\<close>

definition load_byte :: "paging \<Rightarrow> u64 \<Rightarrow> byte outcome" where
  "load_byte m a =
     (let idx = get_page_entry a in
      case walk (flag FLAGS_PRESENT) m idx of
        None \<Rightarrow> Fault
      | Some (pdpt, pd, pt) \<Rightarrow>
          let e = phys m pt (pt_index idx) in
          if \<not> flag FLAGS_PRESENT e then Fault
          else let off = unat a mod 4096
            in Ret (ucast (drop_bit (8 * (off mod 8)) (phys m (table_of e) (off div 8)))))"

fun find_nul :: "paging \<Rightarrow> u64 \<Rightarrow> nat \<Rightarrow> bool outcome" where
  "find_nul m a 0 = Ret False"
| "find_nul m a (Suc n) = bind_outcome (load_byte m a) (\<lambda>b. if b = 0 then Ret True else find_nul m (a + 1) n)"

function string_loop :: "u64 \<Rightarrow> nat \<Rightarrow> nat \<Rightarrow> paging \<Rightarrow> (int \<times> paging) outcome" where
  "string_loop str i max_len m =
     (if i < max_len then
        let page_remaining = 4096 - unat (str + word_of_nat i) mod 4096;
            n = min page_remaining (max_len - i)
        in bind_outcome (validate_user_pointer (str + word_of_nat i) (word_of_nat n) False m) (\<lambda>(r, m1).
           if r < 0 then Ret (r, m1)
           else bind_outcome (find_nul m1 (str + word_of_nat i) n) (\<lambda>found.
             if found then Ret (0, m1) else string_loop str (i + n) max_len m1))
      else Ret (- ENAMETOOLONG, m))"
  by pat_completeness auto
termination
proof (relation "measure (\<lambda>(str, i, max_len, m). max_len - i)", goal_cases)
  case (2 str i max_len m x xa)
  have "0 < min (4096 - unat (str + word_of_nat i) mod 4096) (max_len - i)" using 2(1) by simp
  then show ?case using 2(1-3) unfolding in_measure prod.case by linarith
qed simp

declare string_loop.simps [simp del]

definition validate_user_string :: "u64 \<Rightarrow> nat \<Rightarrow> paging \<Rightarrow> (int \<times> paging) outcome" where
  "validate_user_string str max_len m = (if str = 0 then Ret (- EFAULT, m) else string_loop str 0 max_len m)"

section \<open>Indices\<close>

lemma unat_and_1FF: "unat (w AND 0x1FF :: u64) = unat w mod 512"
proof -
  have "w AND 0x1FF = take_bit 9 w" by (simp add: take_bit_eq_mask mask_eq_exp_minus_1)
  then show ?thesis by (simp add: take_bit_eq_mod unat_mod)
qed

lemma get_page_entry_vpn:
  "get_page_entry a = (let n = page_no a in
     \<lparr>pml4_index = n div 134217728 mod 512, pdpt_index = n div 262144 mod 512,
      pd_index = n div 512 mod 512, pt_index = n mod 512\<rparr>)"
  by (simp add: get_page_entry_def page_no_def Let_def unat_and_1FF drop_bit_eq_div unat_div div_mult2_eq [symmetric])

lemma index_less [simp]:
  "pml4_index (get_page_entry a) < 512" "pdpt_index (get_page_entry a) < 512"
  "pd_index (get_page_entry a) < 512" "pt_index (get_page_entry a) < 512"
  by (simp_all add: get_page_entry_vpn Let_def)

lemma get_page_entry_page: "page_no a = page_no b \<Longrightarrow> get_page_entry a = get_page_entry b"
  by (simp add: get_page_entry_vpn)

section \<open>User pointers\<close>

text \<open>What the processor lets a user program read at an address: every entry on the way is present and
  marked for the user.\<close>

definition user_access :: "paging \<Rightarrow> u64 \<Rightarrow> bool" where
  "user_access m a \<longleftrightarrow>
     (case walk user_ok m (get_page_entry a) of
        None \<Rightarrow> False
      | Some (pdpt, pd, pt) \<Rightarrow> user_ok (phys m pt (pt_index (get_page_entry a))))"

lemma user_access_page: "page_no a = page_no b \<Longrightarrow> user_access m a = user_access m b"
  by (simp only: user_access_def get_page_entry_page [of a b])

lemma validate_page_read:
  "validate_page False a m = Ret (if user_access m a then 0 else - EFAULT, m)"
  by (simp add: validate_page_def user_access_def Let_def split: option.split)

text \<open>The addresses \<open>i\<close>, \<open>i + 4096\<close>, and so on below \<open>e\<close> are all accessible.\<close>

definition pages_access :: "paging \<Rightarrow> nat \<Rightarrow> nat \<Rightarrow> bool" where
  "pages_access m i e \<longleftrightarrow> (\<forall>k. i + 4096 * k < e \<longrightarrow> user_access m (word_of_nat (i + 4096 * k)))"

lemma pages_access_step:
  "pages_access m i e \<longleftrightarrow> (i < e \<longrightarrow> user_access m (word_of_nat i) \<and> pages_access m (i + 4096) e)"
proof -
  have nat_split: "(\<forall>k. Q k) \<longleftrightarrow> Q 0 \<and> (\<forall>k. Q (Suc k))" for Q by (metis not0_implies_Suc)
  show ?thesis unfolding pages_access_def by (subst nat_split) (auto simp: add.assoc)
qed

lemma validate_loop_read:
  "validate_loop False i e m = Ret (if pages_access m i e then 0 else - EFAULT, m)"
proof (induction "False" i e m rule: validate_loop.induct)
  case (1 i e m)
  then show ?case
    by (subst validate_loop.simps, subst pages_access_step) (auto simp: validate_page_read EFAULT_def)
qed

text \<open>The exact meaning of a successful check for reading.\<close>

definition in_user_half :: "u64 \<Rightarrow> u64 \<Rightarrow> bool" where
  "in_user_half ptr sz \<longleftrightarrow> ptr \<noteq> 0 \<and> unat ptr + unat sz \<le> USER_MAX + 1"

lemma validate_read:
  assumes "sz \<noteq> 0"
  shows "validate_user_pointer ptr sz False m =
    Ret (if in_user_half ptr sz \<and> pages_access m (unat ptr) (unat ptr + unat sz) then 0 else - EFAULT, m)"
proof -
  have "unat (sz - 1) = unat sz - 1" "0 < unat sz"
    using assms by (simp_all add: unat_minus_one unat_gt_0)
  then have "\<not> unat (sz - 1) > USER_MAX - unat ptr \<and> \<not> unat ptr > USER_MAX \<longleftrightarrow> unat ptr + unat sz \<le> USER_MAX + 1"
    by linarith
  then show ?thesis using assms unfolding validate_user_pointer_def validate_loop_read in_user_half_def by (simp split: if_split) blast
qed

text \<open>The last page is reached by the steps of the loop when the range does not start late in its page.\<close>

lemma pages_access_covers:
  assumes "pages_access m (unat ptr) (unat ptr + unat sz)" and "in_user_half ptr sz"
    and "unat ptr mod 4096 + (unat sz - 1) mod 4096 < 4096" and "j < unat sz"
  shows "user_access m (ptr + word_of_nat j)"
proof -
  define k where "k = (unat ptr mod 4096 + j) div 4096"
  have jm: "j mod 4096 < 4096" by simp
  have kle: "4096 * k \<le> unat ptr mod 4096 + j" unfolding k_def by simp
  have "unat ptr + 4096 * k < unat ptr + unat sz"
  proof -
    have "k \<le> (unat ptr mod 4096 + (unat sz - 1)) div 4096"
      unfolding k_def using assms(4) by (intro div_le_mono) linarith
    also have "\<dots> = (unat sz - 1) div 4096"
      using assms(3) by (subst div_add1_eq) simp
    finally have "4096 * k \<le> unat sz - 1" by (metis dual_order.trans mult_le_mono2 times_div_less_eq_dividend)
    then show ?thesis using assms(4) by linarith
  qed
  then have acc: "user_access m (word_of_nat (unat ptr + 4096 * k))"
    using assms(1) by (simp add: pages_access_def)
  have small: "unat ptr + unat sz < 2 ^ 64" using assms(2) by (simp add: in_user_half_def USER_MAX_def)
  have "page_no (ptr + word_of_nat j) = page_no (word_of_nat (unat ptr + 4096 * k))"
  proof -
    have u: "unat (ptr + word_of_nat j) = unat ptr + j"
      using small assms(4) by (simp add: unat_word_ariths(1) unat_of_nat take_bit_nat_eq_self_iff mod_less)
    have v: "unat (word_of_nat (unat ptr + 4096 * k) :: u64) = unat ptr + 4096 * k"
      using small \<open>unat ptr + 4096 * k < unat ptr + unat sz\<close> by (simp only: unat_of_nat) simp
    have "(unat ptr + j) div 4096 = unat ptr div 4096 + k"
      unfolding k_def
      by (subst div_add1_eq [of "unat ptr" j], subst div_add1_eq [of "unat ptr mod 4096" j]) simp
    then show ?thesis unfolding page_no_def u v by simp
  qed
  then show ?thesis using acc user_access_page by blast
qed

lemma walk_mono: "walk p m idx = Some t \<Longrightarrow> (\<And>e. p e \<Longrightarrow> q e) \<Longrightarrow> walk q m idx = Some t"
  by (auto simp: walk_def Let_def split: if_splits)

lemma user_access_load: "user_access m a \<Longrightarrow> \<exists>b. load_byte m a = Ret b"
proof -
  assume a: "user_access m a"
  then obtain pdpt pd pt where w: "walk user_ok m (get_page_entry a) = Some (pdpt, pd, pt)"
      and u: "user_ok (phys m pt (pt_index (get_page_entry a)))"
    by (auto simp: user_access_def split: option.splits)
  have "walk (flag FLAGS_PRESENT) m (get_page_entry a) = Some (pdpt, pd, pt)"
    using w by (rule walk_mono) (simp add: user_ok_def)
  then show ?thesis using u by (simp add: load_byte_def user_ok_def Let_def)
qed

text \<open>A small address space: the root in page 1, one page mapped for the user at address 4096, backed by
  page 5.\<close>

definition demo_paging :: paging where
  "demo_paging = \<lparr>pml4_physical = 0x1000, memory_bitmap = (\<lambda>p. if p < 6 then 1 else 0), first_usable = 6,
     usable_page_count = 16, zero_page = 0,
     phys = (\<lambda>p i. if p = 1 \<and> i = 0 then 0x2007 else if p = 2 \<and> i = 0 then 0x3007
                    else if p = 3 \<and> i = 0 then 0x4007 else if p = 4 \<and> i = 1 then 0x5007 else
                    if p = 5 \<and> i = 1 then 0x6600 else if p = 5 then 0x4141414141414141 else 0)\<rparr>"

lemmas paging_eval = user_access_def load_byte_def walk_def get_page_entry_vpn page_no_def pml4_def table_of_def
  page_table_to_address_def flag_def flag_simps user_ok_def Let_def

lemma validated_access:
  assumes "validate_user_pointer ptr sz False m = Ret (0, m1)"
    and "unat ptr mod 4096 + (unat sz - 1) mod 4096 < 4096" and "j < unat sz"
  shows "user_access m (ptr + word_of_nat j)"
proof -
  have "sz \<noteq> 0" using assms(3) by (cases "sz = 0") auto
  then have "in_user_half ptr sz \<and> pages_access m (unat ptr) (unat ptr + unat sz)"
    using assms(1) by (auto simp: validate_read EFAULT_def split: if_splits)
  then show ?thesis using pages_access_covers assms(2,3) by blast
qed

text \<open>C35. A successful read check of a range means that a user program could read every byte of it, and
  that the kernel reads all of them without a page fault, provided the range starts no later in its
  page than it ends: the loop of \<open>validate_user_pointer\<close> advances by whole pages from the start of the
  range.\<close>

theorem validate_user_pointer_sound:
  assumes "validate_user_pointer ptr sz False m = Ret (0, m1)"
    and "unat ptr mod 4096 + (unat sz - 1) mod 4096 < 4096" and "j < unat sz"
  shows "user_access m (ptr + word_of_nat j) \<and> (\<exists>b. load_byte m (ptr + word_of_nat j) = Ret b)"
  using validated_access [OF assms] user_access_load by blast

theorem validate_user_pointer_sound_witness:
  "validate_user_pointer 0x1000 16 False demo_paging = Ret (0, demo_paging) \<and>
   user_access demo_paging (0x1000 + word_of_nat 9) \<and> load_byte demo_paging (0x1000 + word_of_nat 9) = Ret 0x66"
proof -
  have v: "validate_user_pointer 0x1000 16 False demo_paging = Ret (0, demo_paging)"
    unfolding validate_user_pointer_def by (simp add: USER_MAX_def validate_loop.simps validate_page_read demo_paging_def paging_eval)
  have "load_byte demo_paging (0x1000 + word_of_nat 9) = Ret 0x66" by (simp add: demo_paging_def paging_eval)
  then show ?thesis using v validate_user_pointer_sound [OF v, of 9] by simp
qed

text \<open>The step over whole pages misses the last page of a range that starts late in its page: two
  bytes across a page boundary pass the check although the second one is not accessible, and the
  kernel faults on it.\<close>

theorem validate_user_pointer_misses_page:
  assumes "unat ptr mod 4096 = 4095" and "in_user_half ptr 2" and "user_access m ptr"
    and "\<not> user_access m (ptr + 1)"
  shows "validate_user_pointer ptr 2 False m = Ret (0, m)"
proof -
  have "pages_access m (unat ptr) (unat ptr + 2)"
    using assms(3) pages_access_step [of m "unat ptr" "unat ptr + 2"] pages_access_step [of m "unat ptr + 4096" "unat ptr + 2"]
    by auto
  then show ?thesis using assms(2) by (simp add: validate_read)
qed

theorem validate_user_pointer_misses_page_witness:
  "validate_user_pointer 0x1FFF 2 False demo_paging = Ret (0, demo_paging) \<and>
   \<not> user_access demo_paging (0x1FFF + 1) \<and> load_byte demo_paging (0x1FFF + 1) = Fault"
proof -
  have "user_access demo_paging 0x1FFF" "\<not> user_access demo_paging (0x1FFF + 1)"
    "load_byte demo_paging (0x1FFF + 1) = Fault" by (simp_all add: demo_paging_def paging_eval)
  moreover have "in_user_half 0x1FFF 2" by (simp add: in_user_half_def USER_MAX_def)
  ultimately show ?thesis using validate_user_pointer_misses_page [of "0x1FFF" demo_paging] by simp
qed

section \<open>User strings\<close>

text \<open>A C string of less than \<open>max_len\<close> characters that a user program can read.\<close>

definition user_string :: "paging \<Rightarrow> u64 \<Rightarrow> nat \<Rightarrow> nat \<Rightarrow> bool" where
  "user_string m str i n \<longleftrightarrow> i \<le> n \<and> load_byte m (str + word_of_nat n) = Ret 0 \<and>
     (\<forall>j. i \<le> j \<and> j \<le> n \<longrightarrow> user_access m (str + word_of_nat j)) \<and>
     (\<forall>j. i \<le> j \<and> j < n \<longrightarrow> load_byte m (str + word_of_nat j) \<noteq> Ret 0)"

lemma find_nul_cases:
  assumes "\<forall>j<n. \<exists>b. load_byte m (a + word_of_nat j) = Ret b"
  shows "find_nul m a n = Ret (\<exists>j<n. load_byte m (a + word_of_nat j) = Ret 0)"
  using assms
proof (induction n arbitrary: a)
  case (Suc n)
  have shift: "a + 1 + word_of_nat j = a + word_of_nat (Suc j)" for j by (simp add: add_ac)
  obtain b where b: "load_byte m a = Ret b" using Suc.prems [rule_format, of 0] by auto
  have "find_nul m (a + 1) n = Ret (\<exists>j<n. load_byte m (a + 1 + word_of_nat j) = Ret 0)"
    by (rule Suc.IH) (simp add: shift Suc.prems del: of_nat_Suc)
  then show ?case using b by (auto simp: shift Ex_less_Suc2 simp del: of_nat_Suc)
qed simp

lemma string_chunk:
  assumes "0 < n" and "n \<le> 4096 - unat a mod 4096"
    and "validate_user_pointer a (word_of_nat n) False m = Ret (0, m1)"
  shows "m1 = m" and "j < n \<Longrightarrow> user_access m (a + word_of_nat j)"
    and "find_nul m a n = Ret (\<exists>j<n. load_byte m (a + word_of_nat j) = Ret 0)"
proof -
  have n: "unat (word_of_nat n :: u64) = n" using assms(2) by (simp add: unat_of_nat take_bit_nat_eq_self_iff)
  have nz: "(word_of_nat n :: u64) \<noteq> 0" using n assms(1) by (metis less_numeral_extra(3) unat_0)
  show "m1 = m" using assms(3) nz by (simp add: validate_read)
  have cover: "unat a mod 4096 + (unat (word_of_nat n :: u64) - 1) mod 4096 < 4096"
    using assms(1,2) n by simp
  have acc: "user_access m (a + word_of_nat j) \<and> (\<exists>b. load_byte m (a + word_of_nat j) = Ret b)" if "j < n" for j
    using validated_access [OF assms(3) cover] that n user_access_load by auto
  then show "j < n \<Longrightarrow> user_access m (a + word_of_nat j)" by blast
  show "find_nul m a n = Ret (\<exists>j<n. load_byte m (a + word_of_nat j) = Ret 0)"
    using acc by (intro find_nul_cases) blast
qed

lemma user_string_extend:
  assumes "user_string m str (i + k) n"
    and "\<And>j. i \<le> j \<Longrightarrow> j < i + k \<Longrightarrow> user_access m (str + word_of_nat j) \<and> load_byte m (str + word_of_nat j) \<noteq> Ret 0"
  shows "user_string m str i n"
  using assms unfolding user_string_def by (metis add_leE not_le)

lemma user_string_first:
  assumes "j < k" and "load_byte m (str + word_of_nat (i + j)) = Ret 0"
    and acc: "\<And>j. i \<le> j \<Longrightarrow> j < i + k \<Longrightarrow> user_access m (str + word_of_nat j)"
  shows "\<exists>n < i + k. user_string m str i n"
proof -
  define n where "n = (LEAST n. i \<le> n \<and> load_byte m (str + word_of_nat n) = Ret 0)"
  have n: "i \<le> n" "load_byte m (str + word_of_nat n) = Ret 0"
    using LeastI [of "\<lambda>n. i \<le> n \<and> load_byte m (str + word_of_nat n) = Ret 0" "i + j"] assms(2)
    unfolding n_def by auto
  have le: "n \<le> i + j" unfolding n_def using assms(2) by (intro Least_le) simp
  have "load_byte m (str + word_of_nat l) \<noteq> Ret 0" if "i \<le> l" "l < n" for l
    using not_less_Least [of l "\<lambda>n. i \<le> n \<and> load_byte m (str + word_of_nat n) = Ret 0"] that
    unfolding n_def by blast
  moreover have "n < i + k" using le assms(1) by linarith
  ultimately show ?thesis using n acc unfolding user_string_def by (intro exI [of _ n]) (auto intro: le_less_trans)
qed

lemma string_loop_finds:
  assumes "string_loop str i max_len m = Ret (0, m1)"
  shows "m1 = m \<and> (\<exists>n<max_len. user_string m str i n)"
  using assms
proof (induction str i max_len m rule: string_loop.induct)
  case (1 str i max_len m)
  define a where "a = str + word_of_nat i"
  define k where "k = min (4096 - unat a mod 4096) (max_len - i)"
  define found where "found = (\<exists>j<k. load_byte m (a + word_of_nat j) = Ret 0)"
  have i: "i < max_len" using "1.prems" by (subst (asm) string_loop.simps) (auto simp: ENAMETOOLONG_def split: if_splits)
  have k: "0 < k" "k \<le> 4096 - unat a mod 4096" "i + k \<le> max_len" using i unfolding k_def by auto
  have shift: "a + word_of_nat j = str + word_of_nat (i + j)" for j by (simp add: a_def add_ac)
  have unshift: "str + word_of_nat j = a + word_of_nat (j - i)" if "i \<le> j" for j
    using that by (simp add: a_def of_nat_diff)
  have unf: "string_loop str i max_len m = bind_outcome (validate_user_pointer a (word_of_nat k) False m) (\<lambda>(r, m1).
      if r < 0 then Ret (r, m1)
      else bind_outcome (find_nul m1 a k) (\<lambda>found. if found then Ret (0, m1) else string_loop str (i + k) max_len m1))"
    unfolding a_def k_def string_loop.simps [of str i] Let_def if_P [OF i] ..
  obtain r m2 where v: "validate_user_pointer a (word_of_nat k) False m = Ret (r, m2)" and "\<not> r < 0"
    using "1.prems" unfolding unf by (auto simp: bind_outcome_eq_Ret split: if_splits)
  moreover have "r = 0 \<or> r < 0"
    using v by (auto simp: validate_user_pointer_def validate_loop_read EFAULT_def split: if_splits)
  ultimately have v0: "validate_user_pointer a (word_of_nat k) False m = Ret (0, m2)" by auto
  note chunk = string_chunk [OF k(1,2) v0]
  have loop: "(if found then Ret (0, m) else string_loop str (i + k) max_len m) = Ret (0, m1)"
    using "1.prems" v0 chunk(1,3) unfolding unf found_def [symmetric] by simp
  have acc: "user_access m (str + word_of_nat j)" if "i \<le> j" "j < i + k" for j
    using chunk(2) [of "j - i"] unshift that by (simp only: less_diff_conv2 add.commute [of k])
  show ?case
  proof (cases found)
    case True
    then obtain j where "j < k" "load_byte m (str + word_of_nat (i + j)) = Ret 0" using shift by (auto simp: found_def)
    then have "\<exists>n < i + k. user_string m str i n" using user_string_first acc by blast
    then show ?thesis using loop True k(3) by (auto intro: less_le_trans)
  next
    case False
    have "m1 = m \<and> (\<exists>n<max_len. user_string m str (i + k) n)"
      using "1.IH" [OF i refl refl, folded a_def, folded k_def, of 0 False m] loop False v0 chunk(1,3)
      by simp
    moreover have "load_byte m (str + word_of_nat j) \<noteq> Ret 0" if "i \<le> j" "j < i + k" for j
    proof -
      have "j - i < k" using that by linarith
      then show ?thesis using False unfolding found_def unshift [OF that(1)] by blast
    qed
    ultimately show ?thesis using acc user_string_extend by blast
  qed
qed

text \<open>C34. \<open>validate_user_string\<close> accepts only pointers to a C string: it returns 0 only when a null
  byte follows within \<open>max_len\<close> bytes and a user program can read every byte up to it; nothing is
  changed.\<close>

theorem validate_user_string_sound:
  assumes "validate_user_string str max_len m = Ret (0, m1)"
  shows "m1 = m \<and> str \<noteq> 0 \<and> (\<exists>n<max_len. load_byte m (str + word_of_nat n) = Ret 0 \<and>
    (\<forall>j\<le>n. user_access m (str + word_of_nat j)) \<and> (\<forall>j<n. load_byte m (str + word_of_nat j) \<noteq> Ret 0))"
proof -
  have "str \<noteq> 0" and loop: "string_loop str 0 max_len m = Ret (0, m1)"
    using assms by (auto simp: validate_user_string_def EFAULT_def split: if_splits)
  then show ?thesis using string_loop_finds [OF loop] by (auto simp: user_string_def)
qed

theorem validate_user_string_sound_witness:
  "validate_user_string 0x1009 256 demo_paging = Ret (0, demo_paging) \<and>
   (\<exists>n<256. load_byte demo_paging (0x1009 + word_of_nat n) = Ret 0 \<and> user_access demo_paging (0x1009 + word_of_nat n))"
proof -
  have c: "validate_user_pointer 0x1009 256 False demo_paging = Ret (0, demo_paging)"
    unfolding validate_user_pointer_def
    by (simp add: USER_MAX_def validate_loop.simps validate_page_read demo_paging_def paging_eval)
  have b: "load_byte demo_paging 0x1009 = Ret 0x66" "load_byte demo_paging (0x1009 + 1) = Ret 0"
    by (simp_all add: demo_paging_def paging_eval)
  have "find_nul demo_paging 0x1009 (Suc (Suc 254)) = Ret True"
    using b by (simp only: find_nul.simps bind_outcome.simps) simp
  then have "string_loop 0x1009 0 256 demo_paging = Ret (0, demo_paging)"
    using c by (subst string_loop.simps) (simp add: Let_def)
  then have v: "validate_user_string 0x1009 256 demo_paging = Ret (0, demo_paging)"
    by (simp add: validate_user_string_def)
  show ?thesis using validate_user_string_sound [OF v] v by blast
qed

section \<open>Physical addresses in entries\<close>

lemma table_of_or: "f AND NOT FLAGS_MASK = 0 \<Longrightarrow> table_of (e OR f) = table_of e"
  by (simp add: table_of_def page_table_to_address_def bit.conj_disj_distrib2)

lemma page_table_to_address_eq: "page_table_to_address e = push_bit 12 (take_bit 40 (drop_bit 12 e))"
proof -
  have m: "NOT FLAGS_MASK = push_bit 12 (mask 40)"
    by (simp add: FLAGS_MASK_def mask_eq_exp_minus_1 push_bit_eq_mult)
  show ?thesis unfolding page_table_to_address_def m by (rule bit_word_eqI) (auto simp: bit_simps)
qed

lemma unat_page: "p < 2 ^ 40 \<Longrightarrow> unat (word_of_nat (p * 4096) :: u64) = p * 4096"
  by (simp only: unat_of_nat) simp

lemma page_no_word: "p < 2 ^ 40 \<Longrightarrow> page_no (word_of_nat (p * 4096)) = p"
  by (simp only: page_no_def unat_page nonzero_mult_div_cancel_right numeral_neq_zero not_False_eq_True)

lemma table_of_page:
  assumes "p < 2 ^ 40"
  shows "table_of (word_of_nat (p * 4096) AND PAGE_MASK) = p"
proof -
  note u = unat_page [OF assms]
  have a: "(word_of_nat (p * 4096) AND PAGE_MASK) = (word_of_nat (p * 4096) :: u64)"
    by (rule word_unat_eq_iff [THEN iffD2]) (simp only: PAGE_MASK_def unat_and_not_4095 u, simp)
  have t: "take_bit 40 (drop_bit 12 (word_of_nat (p * 4096) :: u64)) = word_of_nat p"
    by (rule word_unat_eq_iff [THEN iffD2])
      (use assms in \<open>simp add: drop_bit_eq_div take_bit_eq_mod unat_mod unat_div u unat_of_nat del: of_nat_mult\<close>)
  show ?thesis
    unfolding table_of_def a page_table_to_address_eq t
    using assms page_no_word by (simp add: push_bit_eq_mult mult.commute)
qed

lemma flags_outside_mask [simp]:
  "HIGHER_LEVEL_FLAGS AND NOT FLAGS_MASK = 0" "FLAGS_PRESENT AND NOT FLAGS_MASK = 0" "FLAGS_RW AND NOT FLAGS_MASK = 0"
  "FLAGS_COW AND NOT FLAGS_MASK = 0"
  by (simp_all add: HIGHER_LEVEL_FLAGS_def flag_simps)

lemma flag_or: "flag f (a OR b) \<longleftrightarrow> flag f a \<or> flag f b"
proof -
  have "(a OR b) AND f = 0 \<longleftrightarrow> a AND f = 0 \<and> b AND f = 0"
    by (simp add: bit.conj_disj_distrib2 or_eq_0_iff)
  then show ?thesis by (auto simp: flag_def)
qed

lemma flag_present_higher [simp]: "flag FLAGS_PRESENT HIGHER_LEVEL_FLAGS" "flag FLAGS_PRESENT FLAGS_PRESENT"
  by (simp_all add: flag_def HIGHER_LEVEL_FLAGS_def flag_simps)

section \<open>The free pages\<close>

text \<open>The invariant of the page allocator: every page below \<open>first_usable\<close> is in use, so the search
  starts early enough, and physical addresses fit into the address field of an entry.\<close>

definition pages_ok :: "paging \<Rightarrow> bool" where
  "pages_ok m \<longleftrightarrow> usable_page_count m \<le> 2 ^ 40 \<and> (\<forall>p<first_usable m. p < usable_page_count m \<longrightarrow> 0 < memory_bitmap m p)"

lemma find_free_Some:
  "find_free m i = Some p \<Longrightarrow> i \<le> p \<and> p < usable_page_count m \<and> memory_bitmap m p = 0 \<and> (\<forall>q. i \<le> q \<and> q < p \<longrightarrow> 0 < memory_bitmap m q)"
proof (induction m i rule: find_free.induct)
  case (1 m i)
  have "0 < memory_bitmap m q" if "memory_bitmap m i \<noteq> 0" "\<forall>q. i + 1 \<le> q \<and> q < p \<longrightarrow> 0 < memory_bitmap m q" "i \<le> q" "q < p" for q
    using that by (cases "q = i") auto
  then show ?case using 1 find_free.simps [of m i] by (cases "memory_bitmap m i = 0") (auto split: if_splits)
qed

lemma find_free_None: "find_free m i = None \<longleftrightarrow> (\<forall>p. i \<le> p \<and> p < usable_page_count m \<longrightarrow> 0 < memory_bitmap m p)"
proof (induction m i rule: find_free.induct)
  case (1 m i)
  have "(\<forall>p. i \<le> p \<and> Q p \<longrightarrow> R p) \<longleftrightarrow> (Q i \<longrightarrow> R i) \<and> (\<forall>p. i + 1 \<le> p \<and> Q p \<longrightarrow> R p)" for Q R
    by (metis Suc_eq_plus1 le_eq_less_or_eq Suc_leI Suc_leD)
  then show ?case using 1 by (subst find_free.simps) (auto)
qed

lemma get_available_Ret:
  assumes "get_available_address m = Ret (a, m1)"
  obtains p where "a = word_of_nat (p * 4096)" "p < usable_page_count m" "memory_bitmap m p = 0"
    "m1 = m\<lparr>first_usable := p + 1\<rparr>" "\<forall>q. first_usable m \<le> q \<and> q < p \<longrightarrow> 0 < memory_bitmap m q"
  using assms find_free_Some [of m "first_usable m"] by (auto simp: get_available_address_def split: option.splits)

section \<open>Trees of tables\<close>

text \<open>\<open>look m t is\<close> is the last entry on the way along the indices \<open>is\<close> from the table \<open>t\<close>, 0 when an
  entry before it is not present; \<open>desc m t is\<close> is the table reached.  \<open>pte m a\<close> is the page table entry
  of an address.\<close>

fun look :: "paging \<Rightarrow> nat \<Rightarrow> nat list \<Rightarrow> u64" where
  "look m t [] = 0"
| "look m t [i] = phys m t i"
| "look m t (i # j # is) = (if flag FLAGS_PRESENT (phys m t i) then look m (table_of (phys m t i)) (j # is) else 0)"

fun desc :: "paging \<Rightarrow> nat \<Rightarrow> nat list \<Rightarrow> nat option" where
  "desc m t [] = Some t"
| "desc m t (i # is) = (if flag FLAGS_PRESENT (phys m t i) then desc m (table_of (phys m t i)) is else None)"

definition indices :: "page_address \<Rightarrow> nat list" where
  "indices x = [pml4_index x, pdpt_index x, pd_index x, pt_index x]"

definition pte :: "paging \<Rightarrow> u64 \<Rightarrow> u64" where
  "pte m a = look m (pml4 m) (indices (get_page_entry a))"

lemma get_physical_address_pte:
  "get_physical_address m a = (if flag FLAGS_PRESENT (pte m a) then page_table_to_address (pte m a) else 0)"
  by (simp add: get_physical_address_def pte_def indices_def walk_def Let_def flag_def)

lemma desc_append: "desc m t (is @ js) = (case desc m t is of None \<Rightarrow> None | Some u \<Rightarrow> desc m u js)"
  by (induction "is" arbitrary: t) auto

text \<open>Different tables of an address space lie in different pages.  The labelling \<open>L\<close> says for each page
  which table it holds, by the indices that lead to it from the root.\<close>

definition labelled :: "(nat \<Rightarrow> nat list option) \<Rightarrow> paging \<Rightarrow> bool" where
  "labelled L m \<longleftrightarrow> pages_ok m \<and> L (pml4 m) = Some [] \<and>
     (\<forall>t q. L t = Some q \<longrightarrow> t < usable_page_count m \<and> 0 < memory_bitmap m t \<and> length q \<le> 3) \<and>
     (\<forall>t q i. L t = Some q \<and> length q < 3 \<and> i < 512 \<and> flag FLAGS_PRESENT (phys m t i) \<longrightarrow>
        L (table_of (phys m t i)) = Some (q @ [i]))"

lemma labelled_child:
  "labelled L m \<Longrightarrow> L t = Some q \<Longrightarrow> length q < 3 \<Longrightarrow> i < 512 \<Longrightarrow> flag FLAGS_PRESENT (phys m t i) \<Longrightarrow>
   L (table_of (phys m t i)) = Some (q @ [i])"
  unfolding labelled_def by blast

lemma labelled_desc:
  "labelled L m \<Longrightarrow> L t = Some q \<Longrightarrow> length q + length is \<le> 3 \<Longrightarrow> \<forall>i\<in>set is. i < 512 \<Longrightarrow> desc m t is = Some u \<Longrightarrow>
   L u = Some (q @ is)"
proof (induction "is" arbitrary: t q)
  case (Cons i "is")
  then show ?case using labelled_child [of L m t q i] by (auto split: if_splits)
qed simp

lemma labelled_root_desc:
  "labelled L m \<Longrightarrow> length is \<le> 3 \<Longrightarrow> \<forall>i\<in>set is. i < 512 \<Longrightarrow> desc m (pml4 m) is = Some u \<Longrightarrow> L u = Some is"
  using labelled_desc [of L m "pml4 m" "[]" "is" u] by (simp add: labelled_def)

text \<open>\<open>extends L m m'\<close>: the tables of \<open>m\<close> are still there in \<open>m'\<close>, with the same last-level entries, and
  an upper entry that is new leads to an empty table.\<close>

definition extends :: "(nat \<Rightarrow> nat list option) \<Rightarrow> paging \<Rightarrow> paging \<Rightarrow> bool" where
  "extends L m m' \<longleftrightarrow> pml4 m' = pml4 m \<and>
     (\<forall>t q i. L t = Some q \<and> i < 512 \<longrightarrow>
       (if length q < 3 then
          if flag FLAGS_PRESENT (phys m t i)
          then flag FLAGS_PRESENT (phys m' t i) \<and> table_of (phys m' t i) = table_of (phys m t i)
          else flag FLAGS_PRESENT (phys m' t i) \<longrightarrow> (\<forall>j<512. phys m' (table_of (phys m' t i)) j = 0)
        else phys m' t i = phys m t i))"

lemma look_empty: "(\<forall>j<512. phys m t j = 0) \<Longrightarrow> \<forall>i\<in>set is. i < 512 \<Longrightarrow> look m t is = 0"
  by (cases "(m, t, is)" rule: look.cases) (auto simp: flag_def)

lemma look_extends:
  assumes "labelled L m" and "extends L m m'"
  shows "L t = Some q \<Longrightarrow> length q + length is = 4 \<Longrightarrow> \<forall>i\<in>set is. i < 512 \<Longrightarrow> look m' t is = look m t is"
proof (induction "is" arbitrary: t q)
  case (Cons i "is")
  note ext = assms(2) [unfolded extends_def, THEN conjunct2, rule_format, of t q i]
  show ?case
  proof (cases "is")
    case Nil
    then show ?thesis using ext Cons.prems by simp
  next
    case (Cons j js)
    then have q: "length q < 3" using Cons.prems(2) by simp
    show ?thesis
    proof (cases "flag FLAGS_PRESENT (phys m t i)")
      case True
      have "L (table_of (phys m t i)) = Some (q @ [i])"
        using labelled_child [OF assms(1) Cons.prems(1) q] True Cons.prems(3) by simp
      then have "look m' (table_of (phys m t i)) is = look m (table_of (phys m t i)) is"
        using Cons.IH Cons.prems by simp
      then show ?thesis using ext True q Cons.prems Cons by simp
    next
      case False
      then show ?thesis using ext q Cons.prems Cons look_empty [of m' "table_of (phys m' t i)" "is"] by auto
    qed
  qed
qed simp

lemma desc_extends:
  assumes "labelled L m" and "extends L m m'"
  shows "L t = Some q \<Longrightarrow> length q + length is \<le> 3 \<Longrightarrow> \<forall>i\<in>set is. i < 512 \<Longrightarrow> desc m t is = Some u \<Longrightarrow> desc m' t is = Some u"
proof (induction "is" arbitrary: t q)
  case (Cons i "is")
  then have "flag FLAGS_PRESENT (phys m t i)" by (auto split: if_splits)
  then show ?case
    using assms(2) [unfolded extends_def, THEN conjunct2, rule_format, of t q i] Cons.prems
      Cons.IH [OF labelled_child [OF assms(1) Cons.prems(1)]] by simp
qed simp

lemma pte_extends: "labelled L m \<Longrightarrow> extends L m m' \<Longrightarrow> pte m' a = pte m a"
  using look_extends [of L m m' "pml4 m" "[]" "indices (get_page_entry a)"]
  by (simp add: pte_def extends_def labelled_def indices_def)

lemma extends_refl: "extends L m m"
  by (simp add: extends_def)

text \<open>Calls that only take pages: the same root and the same machine, and no count goes down.\<close>

definition grows :: "paging \<Rightarrow> paging \<Rightarrow> bool" where
  "grows m m' \<longleftrightarrow> pml4_physical m' = pml4_physical m \<and> usable_page_count m' = usable_page_count m \<and>
     zero_page m' = zero_page m \<and> (\<forall>p. memory_bitmap m p \<le> memory_bitmap m' p)"

lemma grows_refl [simp]: "grows m m"
  by (simp add: grows_def)

lemma grows_trans: "grows m m1 \<Longrightarrow> grows m1 m2 \<Longrightarrow> grows m m2"
  by (auto simp: grows_def intro: order_trans)

lemma grows_pml4: "grows m m1 \<Longrightarrow> pml4 m1 = pml4 m"
  by (simp add: grows_def pml4_def)

lemma allocate_Ret:
  assumes "pages_ok m" and "allocate_physical_page m = Ret (a, m1)"
  obtains p where "a = word_of_nat (p * 4096)" "p < usable_page_count m" "p < 2 ^ 40" "page_no a = p" "memory_bitmap m p = 0"
    "m1 = m\<lparr>first_usable := p + 1, memory_bitmap := (memory_bitmap m)(p := 1), phys := (phys m)(p := (\<lambda>_. 0))\<rparr>"
    "pages_ok m1"
proof -
  obtain b m2 where g: "get_available_address m = Ret (b, m2)"
      and m1: "bind_outcome (inc_page (page_no b) m2) (\<lambda>m2. Ret (b, clear_page (page_no b) m2)) = Ret (a, m1)"
    using assms(2) by (auto simp: allocate_physical_page_def bind_outcome_eq_Ret)
  obtain p where p: "b = word_of_nat (p * 4096)" "p < usable_page_count m" "memory_bitmap m p = 0"
      "m2 = m\<lparr>first_usable := p + 1\<rparr>" "\<forall>q. first_usable m \<le> q \<and> q < p \<longrightarrow> 0 < memory_bitmap m q"
    using get_available_Ret [OF g] .
  have p40: "p < 2 ^ 40" using p(2) assms(1) by (simp add: pages_ok_def)
  have no: "page_no b = p" using page_no_word [OF p40] p(1) by simp
  have eq: "a = b" "m1 = m\<lparr>first_usable := p + 1, memory_bitmap := (memory_bitmap m)(p := 1), phys := (phys m)(p := (\<lambda>_. 0))\<rparr>"
    using m1 p(2-4) by (auto simp: no inc_page_def clear_page_def split: if_splits)
  moreover have "pages_ok m1"
    using assms(1) p(5) eq(2) by (auto simp: pages_ok_def less_Suc_eq intro: leI)
  ultimately show thesis using that p no p40 by blast
qed

lemma entry_new_table:
  assumes "p < 2 ^ 40"
  shows "table_of ((word_of_nat (p * 4096) AND PAGE_MASK) OR HIGHER_LEVEL_FLAGS) = p"
    and "flag FLAGS_PRESENT ((word_of_nat (p * 4096) AND PAGE_MASK) OR HIGHER_LEVEL_FLAGS)"
  using table_of_page [OF assms] by (simp_all add: table_of_or flag_or del: of_nat_mult)

lemma ensure_table_ok:
  assumes L: "labelled L m" and t: "L t = Some q" "length q < 3" "i < 512" and r: "ensure_table t i m = Ret (u, m1)"
  obtains L1 where "labelled L1 m1" "L \<subseteq>\<^sub>m L1" "extends L m m1" "desc m1 t [i] = Some u" "grows m m1"
proof (cases "flag FLAGS_PRESENT (phys m t i)")
  case True
  then have "table_of (phys m t i) = u" "m1 = m" using r by (auto simp: ensure_table_def Let_def)
  then show thesis using that [of L] L True by (simp add: extends_refl)
next
  case False
  have ok: "pages_ok m" using L by (simp add: labelled_def)
  obtain a m2 where a: "allocate_physical_page m = Ret (a, m2)"
      and u: "u = table_of ((a AND PAGE_MASK) OR HIGHER_LEVEL_FLAGS)"
        "m1 = set_word t i ((a AND PAGE_MASK) OR HIGHER_LEVEL_FLAGS) (clear_page (page_no a) m2)"
    using r False by (auto simp: ensure_table_def Let_def bind_outcome_eq_Ret split: if_splits)
  obtain p where p: "a = word_of_nat (p * 4096)" "p < usable_page_count m" "p < 2 ^ 40" "page_no a = p" "memory_bitmap m p = 0"
    "m2 = m\<lparr>first_usable := p + 1, memory_bitmap := (memory_bitmap m)(p := 1), phys := (phys m)(p := (\<lambda>_. 0))\<rparr>"
    "pages_ok m2" using allocate_Ret [OF ok a] .
  have new: "L p = None" using L p(5) unfolding labelled_def by (metis less_numeral_extra(3) option.exhaust)
  then have ne: "p \<noteq> t" "p \<noteq> pml4 m" using t L by (auto simp: labelled_def)
  have up: "u = p" using entry_new_table(1) [OF p(3)] u(1) p(1) by simp
  let ?e = "(a AND PAGE_MASK) OR HIGHER_LEVEL_FLAGS"
  have e: "table_of ?e = p" "flag FLAGS_PRESENT ?e" using entry_new_table [OF p(3)] p(1) by simp_all
  have ph: "phys m1 = (phys m)(p := (\<lambda>_. 0), t := (phys m t)(i := ?e))"
    using ne by (simp add: u(2) set_word_def clear_page_def p(4,6) fun_eq_iff)
  have fields: "pml4 m1 = pml4 m" "usable_page_count m1 = usable_page_count m"
    "memory_bitmap m1 = (memory_bitmap m)(p := 1)" "grows m m1" "pages_ok m1"
    using p(5,7) by (auto simp: u(2) set_word_def clear_page_def p(4,6) pml4_def grows_def pages_ok_def)
  let ?L = "L(p \<mapsto> q @ [i])"
  have "extends L m m1"
    unfolding extends_def fields(1) ph using new e ne False t(1,2) by auto
  moreover have "labelled ?L m1"
    unfolding labelled_def fields(1-3) ph
  proof (intro conjI allI impI)
    show "pages_ok m1" "?L (pml4 m) = Some []" using fields(5) ne(2) L by (auto simp: labelled_def)
  next
    fix t' q' assume "?L t' = Some q'"
    then show "t' < usable_page_count m" "0 < ((memory_bitmap m)(p := 1)) t'" "length q' \<le> 3"
      using L p(2) t(2) by (auto simp: labelled_def split: if_splits)
  next
    fix t' q' j
    let ?ph = "(phys m)(p := (\<lambda>_. 0), t := (phys m t)(i := ?e))"
    assume a: "?L t' = Some q' \<and> length q' < 3 \<and> j < 512 \<and> flag FLAGS_PRESENT (?ph t' j)"
    then have tp: "t' \<noteq> p" using ne(1) by (auto simp: flag_def split: if_splits)
    then have "L t' = Some q'" using a by simp
    then show "?L (table_of (?ph t' j)) = Some (q' @ [j])"
      using a tp t(1) e(1) new labelled_child [OF L, of t' q' j] by (auto split: if_splits)
  qed
  moreover have "L \<subseteq>\<^sub>m ?L" using new by (auto simp: map_le_def)
  moreover have "desc m1 t [i] = Some u" using ph e up by simp
  ultimately show thesis using that fields by blast
qed

lemma or_word_ok:
  assumes L: "labelled L m" and t: "L t = Some q" "length q < 3" and f: "flag FLAGS_PRESENT (phys m t i)"
  shows "labelled L (or_word t i HIGHER_LEVEL_FLAGS m)" and "extends L m (or_word t i HIGHER_LEVEL_FLAGS m)"
    and "grows m (or_word t i HIGHER_LEVEL_FLAGS m)"
proof -
  let ?m = "or_word t i HIGHER_LEVEL_FLAGS m"
  have ph: "phys ?m = (phys m)(t := (phys m t)(i := phys m t i OR HIGHER_LEVEL_FLAGS))"
    by (simp add: or_word_def set_word_def)
  have fields: "pml4 ?m = pml4 m" "usable_page_count ?m = usable_page_count m" "memory_bitmap ?m = memory_bitmap m"
    "pages_ok ?m = pages_ok m"
    by (simp_all add: or_word_def set_word_def pml4_def pages_ok_def)
  show "extends L m ?m" unfolding extends_def fields ph using t f by (auto simp: flag_or table_of_or)
  show "labelled L ?m" unfolding labelled_def fields ph
    using L f by (auto simp: labelled_def flag_or table_of_or)
  show "grows m ?m" by (simp add: grows_def or_word_def set_word_def)
qed

section \<open>The cursor\<close>

text \<open>The tables a cursor holds for the levels that are not to be looked up again are the right ones.\<close>

definition cursor_ok :: "paging \<Rightarrow> cursor \<Rightarrow> bool" where
  "cursor_ok m c \<longleftrightarrow>
     (let x = c_idx c in pdpt_index x < 512 \<and> pd_index x < 512 \<and> pt_index x < 512 \<and>
      (pml4_changed c \<longrightarrow> pdpt_changed c) \<and> (pdpt_changed c \<longrightarrow> pd_changed c) \<and>
      (\<not> pml4_changed c \<longrightarrow> desc m (pml4 m) [pml4_index x] = Some (c_pdpt c)) \<and>
      (\<not> pdpt_changed c \<longrightarrow> desc m (pml4 m) [pml4_index x, pdpt_index x] = Some (c_pd c)) \<and>
      (\<not> pd_changed c \<longrightarrow> desc m (pml4 m) [pml4_index x, pdpt_index x, pd_index x] = Some (c_pt c)))"

lemma extends_path:
  "labelled L m \<Longrightarrow> extends L m m' \<Longrightarrow> length is \<le> 3 \<Longrightarrow> \<forall>i\<in>set is. i < 512 \<Longrightarrow> desc m (pml4 m) is = Some u \<Longrightarrow>
   desc m' (pml4 m') is = Some u"
  using desc_extends [of L m m' "pml4 m" "[]"] by (simp add: labelled_def extends_def)

text \<open>One level of \<open>cursor_tables\<close>: whether looked up or kept, the table is the one below the path.\<close>

lemma level_ok:
  assumes L: "labelled L m" and "length is < 3" and idx: "\<forall>i\<in>set (is @ [i]). i < 512"
    and t: "desc m (pml4 m) is = Some t" and kept: "\<not> changed \<Longrightarrow> desc m (pml4 m) (is @ [i]) = Some old"
    and r: "(if changed then ensure_table t i m else Ret (old, m)) = Ret (u, m1)"
  obtains L1 where "labelled L1 m1" "L \<subseteq>\<^sub>m L1" "grows m m1" "\<And>a. pte m1 a = pte m a"
    "desc m1 (pml4 m1) (is @ [i]) = Some u"
    "\<And>js v. length js \<le> 3 \<Longrightarrow> \<forall>i\<in>set js. i < 512 \<Longrightarrow> desc m (pml4 m) js = Some v \<Longrightarrow> desc m1 (pml4 m1) js = Some v"
proof (cases changed)
  case True
  have lt: "L t = Some is" using labelled_root_desc [OF L _ _ t] assms(2) idx by simp
  obtain L1 where L1: "labelled L1 m1" "L \<subseteq>\<^sub>m L1" "extends L m m1" "desc m1 t [i] = Some u" "grows m m1"
    using ensure_table_ok [OF L lt assms(2), of i u m1] idx r True by auto
  have "desc m1 (pml4 m1) is = Some t"
    using extends_path [OF L L1(3) _ _ t] assms(2) idx by simp
  then have "desc m1 (pml4 m1) (is @ [i]) = Some u" using L1(4) by (simp add: desc_append)
  then show thesis using that L1 pte_extends [OF L L1(3)] extends_path [OF L L1(3)] by blast
next
  case False
  then show thesis using that [of L] L kept r by auto
qed

lemma cursor_tables_ok:
  assumes L: "labelled L m" and c: "cursor_ok m c" "pml4_index (c_idx c) < 512"
    and r: "cursor_tables c m = Ret (c1, m1)"
  obtains L1 where "labelled L1 m1" "L \<subseteq>\<^sub>m L1" "grows m m1" "\<And>a. pte m1 a = pte m a"
    "c_idx c1 = c_idx c" "cursor_ok m1 c1" "\<not> pml4_changed c1" "\<not> pdpt_changed c1" "\<not> pd_changed c1"
proof -
  let ?x = "c_idx c"
  have ix: "pdpt_index ?x < 512" "pd_index ?x < 512" "pt_index ?x < 512" using c by (simp_all add: cursor_ok_def Let_def)
  obtain pdpt ma pd mb pt where
      ra: "(if pml4_changed c then ensure_table (pml4 m) (pml4_index ?x) m else Ret (c_pdpt c, m)) = Ret (pdpt, ma)"
      and rb: "(if pdpt_changed c then ensure_table pdpt (pdpt_index ?x) ma else Ret (c_pd c, ma)) = Ret (pd, mb)"
      and rc: "(if pd_changed c then ensure_table pd (pd_index ?x) mb else Ret (c_pt c, mb)) = Ret (pt, m1)"
      and c1: "c1 = c\<lparr>pml4_changed := False, pdpt_changed := False, pd_changed := False, c_pdpt := pdpt, c_pd := pd, c_pt := pt\<rparr>"
    using r unfolding cursor_tables_def Let_def bind_outcome_eq_Ret by (auto simp del: if_split simp: bind_outcome_eq_Ret)
  have kept: "\<not> pml4_changed c \<Longrightarrow> desc m (pml4 m) [pml4_index ?x] = Some (c_pdpt c)"
    "\<not> pdpt_changed c \<Longrightarrow> desc m (pml4 m) [pml4_index ?x, pdpt_index ?x] = Some (c_pd c)"
    "\<not> pd_changed c \<Longrightarrow> desc m (pml4 m) [pml4_index ?x, pdpt_index ?x, pd_index ?x] = Some (c_pt c)"
    using c by (simp_all add: cursor_ok_def Let_def)
  obtain La where a: "labelled La ma" "L \<subseteq>\<^sub>m La" "grows m ma" "\<And>a. pte ma a = pte m a"
      "desc ma (pml4 ma) ([] @ [pml4_index ?x]) = Some pdpt"
      "\<And>js v. length js \<le> 3 \<Longrightarrow> \<forall>i\<in>set js. i < 512 \<Longrightarrow> desc m (pml4 m) js = Some v \<Longrightarrow> desc ma (pml4 ma) js = Some v"
    using level_ok [OF L, of "[]" "pml4_index ?x" "pml4 m" "pml4_changed c" "c_pdpt c" pdpt ma] ra kept(1) c(2) by auto
  obtain Lb where b: "labelled Lb mb" "La \<subseteq>\<^sub>m Lb" "grows ma mb" "\<And>a. pte mb a = pte ma a"
      "desc mb (pml4 mb) ([pml4_index ?x] @ [pdpt_index ?x]) = Some pd"
      "\<And>js v. length js \<le> 3 \<Longrightarrow> \<forall>i\<in>set js. i < 512 \<Longrightarrow> desc ma (pml4 ma) js = Some v \<Longrightarrow> desc mb (pml4 mb) js = Some v"
    using level_ok [OF a(1), of "[pml4_index ?x]" "pdpt_index ?x" pdpt "pdpt_changed c" "c_pd c" pd mb]
      rb a(5) a(6) [OF _ _ kept(2)] c(2) ix by auto
  obtain Lc where d: "labelled Lc m1" "Lb \<subseteq>\<^sub>m Lc" "grows mb m1" "\<And>a. pte m1 a = pte mb a"
      "desc m1 (pml4 m1) ([pml4_index ?x, pdpt_index ?x] @ [pd_index ?x]) = Some pt"
      "\<And>js v. length js \<le> 3 \<Longrightarrow> \<forall>i\<in>set js. i < 512 \<Longrightarrow> desc mb (pml4 mb) js = Some v \<Longrightarrow> desc m1 (pml4 m1) js = Some v"
    using level_ok [OF b(1), of "[pml4_index ?x, pdpt_index ?x]" "pd_index ?x" pd "pd_changed c" "c_pt c" pt m1]
      rc b(5) b(6) [OF _ _ a(6) [OF _ _ kept(3)]] c(2) ix by auto
  have p1: "desc m1 (pml4 m1) [pml4_index ?x] = Some pdpt"
    using d(6) [OF _ _ b(6) [OF _ _ a(5)]] c(2) by simp
  have p2: "desc m1 (pml4 m1) [pml4_index ?x, pdpt_index ?x] = Some pd"
    using d(6) [OF _ _ b(5)] c(2) ix by simp
  have "cursor_ok m1 c1" unfolding cursor_ok_def Let_def c1 using ix p1 p2 d(5) by simp
  then show thesis
    using that [OF d(1) map_le_trans [OF map_le_trans [OF a(2) b(2)] d(2)] grows_trans [OF grows_trans [OF a(3) b(3)] d(3)]]
      a(4) b(4) d(4) c1 by simp
qed

section \<open>Mapping one page\<close>

lemma look_set:
  assumes L: "labelled L m" and pt: "L pt = Some p" "length p = 3"
  shows "L t = Some q \<Longrightarrow> length q + length is = 4 \<Longrightarrow> \<forall>j\<in>set is. j < 512 \<Longrightarrow>
    (q @ is = p @ [i] \<Longrightarrow> desc m t (butlast is) = Some pt) \<Longrightarrow>
    look (set_word pt i v m) t is = (if q @ is = p @ [i] then v else look m t is)"
proof (induction "is" arbitrary: t q)
  case (Cons j js)
  show ?case
  proof (cases js)
    case Nil
    then show ?thesis using Cons.prems pt by (auto simp: set_word_def)
  next
    case (Cons k ks)
    then have q: "length q < 3" using Cons.prems(2) by simp
    then have "t \<noteq> pt" using Cons.prems(1) pt by auto
    then have e: "phys (set_word pt i v m) t j = phys m t j" by (simp add: set_word_def)
    show ?thesis
    proof (cases "flag FLAGS_PRESENT (phys m t j)")
      case True
      have "L (table_of (phys m t j)) = Some (q @ [j])"
        using labelled_child [OF L Cons.prems(1) q _ True] Cons.prems(3) by simp
      moreover have "(q @ [j]) @ js = p @ [i] \<Longrightarrow> desc m (table_of (phys m t j)) (butlast js) = Some pt"
        using Cons.prems(4) Cons True by simp
      ultimately show ?thesis
        using Cons.IH [of "table_of (phys m t j)" "q @ [j]"] Cons.prems Cons e True by simp
    next
      case False
      then show ?thesis using Cons.prems(4) Cons e by auto
    qed
  qed
next
  case Nil
  then have "length q \<le> 3" using L unfolding labelled_def by blast
  then show ?case using Nil by simp
qed

lemma desc_set:
  assumes L: "labelled L m" and pt: "L pt = Some p" "length p = 3"
  shows "L t = Some q \<Longrightarrow> length q + length is \<le> 3 \<Longrightarrow> \<forall>j\<in>set is. j < 512 \<Longrightarrow> desc (set_word pt i v m) t is = desc m t is"
proof (induction "is" arbitrary: t q)
  case (Cons j js)
  then have "t \<noteq> pt" using pt by auto
  then have e: "phys (set_word pt i v m) t j = phys m t j" by (simp add: set_word_def)
  show ?case using Cons labelled_child [OF L Cons.prems(1), of j] e by auto
qed simp

lemma labelled_set:
  assumes L: "labelled L m" and pt: "L pt = Some p" "length p = 3"
  shows "labelled L (set_word pt i v m)"
proof -
  have "pml4 (set_word pt i v m) = pml4 m" "pages_ok (set_word pt i v m) = pages_ok m"
    by (simp_all add: set_word_def pml4_def pages_ok_def)
  then show ?thesis using L pt unfolding labelled_def by (simp add: set_word_def)
qed

lemma pte_set:
  assumes L: "labelled L m" and p: "length p = 3" "\<forall>j\<in>set p. j < 512" "desc m (pml4 m) p = Some pt"
  shows "pte (set_word pt i v m) a = (if indices (get_page_entry a) = p @ [i] then v else pte m a)"
proof -
  have "L pt = Some p" using labelled_root_desc [OF L _ _ p(3)] p by simp
  moreover have "butlast (indices (get_page_entry a)) = p" if "indices (get_page_entry a) = p @ [i]" using that by simp
  moreover have "pml4 (set_word pt i v m) = pml4 m" by (simp add: set_word_def pml4_def)
  ultimately show ?thesis
    using look_set [OF L, of pt p "pml4 m" "[]" "indices (get_page_entry a)" i v] L p unfolding pte_def
    by (simp add: labelled_def indices_def)
qed

lemma look_desc: "desc m t is = Some u \<Longrightarrow> look m t (is @ [i]) = phys m u i"
proof (induction "is" arbitrary: t)
  case (Cons j js)
  then show ?case by (cases js) (auto split: if_splits)
qed simp

lemma or_path:
  assumes L: "labelled L m" and "length is < 3" "\<forall>j\<in>set (is @ [i]). j < 512"
    and "desc m (pml4 m) is = Some t" "desc m (pml4 m) (is @ [i]) = Some u"
  defines "m' \<equiv> or_word t i HIGHER_LEVEL_FLAGS m"
  shows "labelled L m'" "grows m m'" "pte m' a = pte m a" "pml4 m' = pml4 m"
    "length js \<le> 3 \<Longrightarrow> \<forall>i\<in>set js. i < 512 \<Longrightarrow> desc m (pml4 m) js = Some v \<Longrightarrow> desc m' (pml4 m) js = Some v"
proof -
  have "L t = Some is" using labelled_root_desc [OF L _ _ assms(4)] assms(2,3) by simp
  moreover have "flag FLAGS_PRESENT (phys m t i)" using assms(4,5) by (auto simp: desc_append split: if_splits)
  ultimately have o: "labelled L m'" "extends L m m'" "grows m m'"
    using or_word_ok [OF L _ assms(2), of t i] unfolding m'_def by blast+
  show "labelled L m'" "grows m m'" "pte m' a = pte m a" "pml4 m' = pml4 m"
    using o pte_extends [OF L o(2)] grows_pml4 by blast+
  then show "length js \<le> 3 \<Longrightarrow> \<forall>i\<in>set js. i < 512 \<Longrightarrow> desc m (pml4 m) js = Some v \<Longrightarrow> desc m' (pml4 m) js = Some v"
    using extends_path [OF L o(2)] by simp
qed

text \<open>Counts and the start of the search do not matter for the tree.\<close>

lemma desc_cong: "phys m' = phys m \<Longrightarrow> desc m' t is = desc m t is"
  by (induction "is" arbitrary: t) simp_all

lemma look_cong: "phys m' = phys m \<Longrightarrow> look m' t is = look m t is"
proof (induction "is" arbitrary: t)
  case (Cons i "is")
  then show ?case by (cases "is") simp_all
qed simp

lemma pte_cong: "phys m' = phys m \<Longrightarrow> pml4 m' = pml4 m \<Longrightarrow> pte m' a = pte m a"
  using look_cong [of m' m] by (simp only: pte_def)

lemma labelled_counts:
  assumes "labelled L m" "phys m' = phys m" "grows m m'" "pages_ok m'"
  shows "labelled L m'"
proof -
  have "0 < memory_bitmap m' t" if "0 < memory_bitmap m t" for t
    using that assms(3) by (auto simp: grows_def intro: less_le_trans)
  moreover have "pml4 m' = pml4 m" "usable_page_count m' = usable_page_count m"
    using assms(3) grows_pml4 by (auto simp: grows_def)
  ultimately show ?thesis using assms(1,2,4) unfolding labelled_def by simp
qed

lemma upper_flags_ok:
  assumes L1: "labelled L m" and c: "cursor_ok m c" "pml4_index (c_idx c) < 512"
    and ch: "\<not> pml4_changed c" "\<not> pdpt_changed c" "\<not> pd_changed c"
  shows "labelled L (upper_flags c m)" "grows m (upper_flags c m)" "pte (upper_flags c m) z = pte m z"
    "pml4 (upper_flags c m) = pml4 m" "cursor_ok (upper_flags c m) c"
proof -
  let ?x = "c_idx c"
  have ix: "pml4_index ?x < 512" "pdpt_index ?x < 512" "pd_index ?x < 512" "pt_index ?x < 512"
    using c by (auto simp: cursor_ok_def Let_def)
  define ma where "ma = or_word (pml4 m) (pml4_index ?x) HIGHER_LEVEL_FLAGS m"
  define mb where "mb = or_word (c_pdpt c) (pdpt_index ?x) HIGHER_LEVEL_FLAGS ma"
  define mc where "mc = or_word (c_pd c) (pd_index ?x) HIGHER_LEVEL_FLAGS mb"
  have d: "desc m (pml4 m) [pml4_index ?x] = Some (c_pdpt c)"
    "desc m (pml4 m) [pml4_index ?x, pdpt_index ?x] = Some (c_pd c)"
    "desc m (pml4 m) [pml4_index ?x, pdpt_index ?x, pd_index ?x] = Some (c_pt c)"
    using c ch by (simp_all add: cursor_ok_def Let_def)
  note A = or_path [OF L1, of "[]" "pml4_index ?x" "pml4 m" "c_pdpt c", folded ma_def]
  have a: "labelled L ma" "grows m ma" "pml4 ma = pml4 m" "\<And>b. pte ma b = pte m b"
    "desc ma (pml4 m) [pml4_index ?x] = Some (c_pdpt c)"
    "desc ma (pml4 m) [pml4_index ?x, pdpt_index ?x] = Some (c_pd c)"
    "desc ma (pml4 m) [pml4_index ?x, pdpt_index ?x, pd_index ?x] = Some (c_pt c)"
    using A(1-4) A(5) [OF _ _ _ _ _ _ d(1)] A(5) [OF _ _ _ _ _ _ d(2)] A(5) [OF _ _ _ _ _ _ d(3)] d ix by simp_all
  note B = or_path [OF a(1), of "[pml4_index ?x]" "pdpt_index ?x" "c_pdpt c" "c_pd c", folded mb_def, unfolded a(3)]
  have b: "labelled L mb" "grows ma mb" "pml4 mb = pml4 m" "\<And>b. pte mb b = pte ma b"
    "desc mb (pml4 m) [pml4_index ?x] = Some (c_pdpt c)"
    "desc mb (pml4 m) [pml4_index ?x, pdpt_index ?x] = Some (c_pd c)"
    "desc mb (pml4 m) [pml4_index ?x, pdpt_index ?x, pd_index ?x] = Some (c_pt c)"
    using B(1-4) B(5) [OF _ _ _ _ _ _ a(5)] B(5) [OF _ _ _ _ _ _ a(6)] B(5) [OF _ _ _ _ _ _ a(7)] a ix by simp_all
  note C = or_path [OF b(1), of "[pml4_index ?x, pdpt_index ?x]" "pd_index ?x" "c_pd c" "c_pt c", folded mc_def, unfolded b(3)]
  have e: "labelled L mc" "grows mb mc" "pml4 mc = pml4 m" "\<And>b. pte mc b = pte mb b"
    "desc mc (pml4 m) [pml4_index ?x] = Some (c_pdpt c)"
    "desc mc (pml4 m) [pml4_index ?x, pdpt_index ?x] = Some (c_pd c)"
    "desc mc (pml4 m) [pml4_index ?x, pdpt_index ?x, pd_index ?x] = Some (c_pt c)"
    using C(1-4) C(5) [OF _ _ _ _ _ _ b(5)] C(5) [OF _ _ _ _ _ _ b(6)] C(5) [OF _ _ _ _ _ _ b(7)] b ix by simp_all
  have m2: "upper_flags c m = mc" by (simp add: upper_flags_def Let_def mc_def mb_def ma_def)
  show "labelled L (upper_flags c m)" "grows m (upper_flags c m)" "pte (upper_flags c m) z = pte m z"
    "pml4 (upper_flags c m) = pml4 m"
    using e a b grows_trans [OF grows_trans [OF a(2) b(2)] e(2)] unfolding m2 by simp_all
  show "cursor_ok (upper_flags c m) c"
    using ix e(5-7) ch unfolding m2 cursor_ok_def Let_def e(3) by (simp del: desc.simps)
qed

text \<open>What fills the last-level entries: the interface between the loop and the three \<open>alloc\<close> functions.\<close>

locale page_source =
  fixes leaf :: "nat \<Rightarrow> paging \<Rightarrow> (u64 \<times> u64 \<times> paging) outcome"
  assumes leaf_keeps: "leaf i m = Ret (a, f, m1) \<Longrightarrow> \<exists>n. m1 = m\<lparr>first_usable := n\<rparr>"
    and leaf_pages: "leaf i m = Ret (a, f, m1) \<Longrightarrow> pages_ok m \<Longrightarrow> inc_page (page_no a) m1 = Ret m2 \<Longrightarrow> pages_ok m2"
begin

lemma alloc_step_maps:
  assumes L: "labelled L m" and c: "cursor_ok m c" and r: "alloc_step leaf i c m = Ret (c', m')"
  obtains L' a f m2 m3 where "labelled L' m'" "cursor_ok m' c'" "grows m m'" "pml4_index (c_idx c) < 512"
    "c_idx c' = c_idx (cursor_next c)" "grows m m2" "pages_ok m2" "leaf i m2 = Ret (a, f, m3)" "0 < memory_bitmap m' (page_no a)"
    "\<And>b. indices (get_page_entry b) = indices (c_idx c) \<Longrightarrow> \<not> flag FLAGS_PRESENT (pte m b)"
    "\<And>b. pte m' b = (if indices (get_page_entry b) = indices (c_idx c) then (a AND PAGE_MASK) OR f OR FLAGS_PRESENT else pte m b)"
proof -
  let ?x = "c_idx c"
  have ix: "pml4_index ?x < 512" "pdpt_index ?x < 512" "pd_index ?x < 512" "pt_index ?x < 512"
    using c r by (auto simp: cursor_ok_def Let_def alloc_step_def split: if_splits)
  obtain c1 m1 where ct: "cursor_tables c m = Ret (c1, m1)"
    using r by (auto simp: alloc_step_def bind_outcome_eq_Ret split: if_splits)
  obtain L1 where L1: "labelled L1 m1" "L \<subseteq>\<^sub>m L1" "grows m m1" "\<And>a. pte m1 a = pte m a" "c_idx c1 = ?x" "cursor_ok m1 c1"
      and ch: "\<not> pml4_changed c1" "\<not> pdpt_changed c1" "\<not> pd_changed c1"
    using cursor_tables_ok [OF L c ix(1) ct] by blast
  define m2 where "m2 = upper_flags c1 m1"
  have up: "labelled L1 m2" "grows m1 m2" "\<And>z. pte m2 z = pte m1 z" "pml4 m2 = pml4 m1" "cursor_ok m2 c1"
    using upper_flags_ok [OF L1(1,6) _ ch] ix(1) L1(5) unfolding m2_def by simp_all
  have e: "desc m2 (pml4 m1) [pml4_index ?x] = Some (c_pdpt c1)"
    "desc m2 (pml4 m1) [pml4_index ?x, pdpt_index ?x] = Some (c_pd c1)"
    "desc m2 (pml4 m1) [pml4_index ?x, pdpt_index ?x, pd_index ?x] = Some (c_pt c1)"
    using up(4,5) ch L1(5) by (simp_all add: cursor_ok_def Let_def del: desc.simps)
  let ?v = "\<lambda>a f. (a AND PAGE_MASK) OR f OR FLAGS_PRESENT"
  have r2: "(if flag FLAGS_PRESENT (phys m2 (c_pt c1) (pt_index ?x)) then Panic
      else bind_outcome (leaf i m2) (\<lambda>(a, f, m3).
        bind_outcome (inc_page (page_no a) (set_word (c_pt c1) (pt_index ?x) (?v a f) m3)) (\<lambda>m4. Ret (cursor_next c1, m4)))) = Ret (c', m')"
    using r ix(1) unfolding alloc_step_def ct bind_outcome.simps prod.case Let_def L1(5) m2_def by simp
  then obtain a f m3 where np: "\<not> flag FLAGS_PRESENT (phys m2 (c_pt c1) (pt_index ?x))" and lf: "leaf i m2 = Ret (a, f, m3)"
      and inc: "inc_page (page_no a) (set_word (c_pt c1) (pt_index ?x) (?v a f) m3) = Ret m'" and c': "c' = cursor_next c1"
    by (auto simp: bind_outcome_eq_Ret split: if_splits)
  obtain n where m3: "m3 = m2\<lparr>first_usable := n\<rparr>" using leaf_keeps [OF lf] by blast
  let ?w = "set_word (c_pt c1) (pt_index ?x) (?v a f) m2"
  let ?p = "[pml4_index ?x, pdpt_index ?x, pd_index ?x]"
  have p512: "\<forall>j\<in>set ?p. j < 512" using ix by simp
  have w: "phys m' = phys ?w" "pml4 m' = pml4 ?w" "grows m2 m'" "0 < memory_bitmap m' (page_no a)"
    using inc by (auto simp: m3 inc_page_def set_word_def pml4_def grows_def split: if_splits)
  have ok: "pages_ok m'"
  proof -
    obtain m4 where i4: "inc_page (page_no a) m3 = Ret m4"
      using inc by (auto simp: inc_page_def set_word_def split: if_splits)
    then have "pages_ok m4" using leaf_pages [OF lf _ i4] up(1) by (simp add: labelled_def)
    then show ?thesis using i4 inc by (auto simp: inc_page_def set_word_def pages_ok_def split: if_splits)
  qed
  have pt: "L1 (c_pt c1) = Some ?p" using labelled_root_desc [OF up(1) _ p512] up(4) e(3) by simp
  have Lw: "labelled L1 ?w" using labelled_set [OF up(1) pt] by simp
  have "grows ?w m'" using w(3) by (simp add: grows_def set_word_def)
  then have L': "labelled L1 m'" using labelled_counts [OF Lw w(1)] ok by blast
  have g2: "grows m m2" using grows_trans [OF L1(3) up(2)] .
  have same: "pte m2 z = pte m z" for z using up(3) L1(4) by simp
  have old: "\<not> flag FLAGS_PRESENT (pte m z)" if "indices (get_page_entry z) = indices ?x" for z
  proof -
    have "pte m2 z = look m2 (pml4 m1) (?p @ [pt_index ?x])" unfolding pte_def up(4) that by (simp only: indices_def append.simps)
    then show ?thesis using np look_desc [OF e(3), of "pt_index ?x"] same by simp
  qed
  have new: "pte m' z = (if indices (get_page_entry z) = indices ?x then ?v a f else pte m z)" for z
    using pte_set [OF up(1) _ p512, of "c_pt c1" "pt_index ?x" "?v a f" z] up(4) e(3) pte_cong [OF w(1,2), of z]
    by (simp add: same indices_def)
  have dm: "desc m' (pml4 m') js = Some v" if "length js \<le> 3" "\<forall>j\<in>set js. j < 512" "desc m2 (pml4 m1) js = Some v" for js v
  proof -
    have "pml4 m' = pml4 m1" using w(2) up(4) by (simp add: set_word_def pml4_def)
    then show ?thesis
      using desc_set [OF up(1) pt, of "pml4 m1" "[]" js "pt_index ?x" "?v a f"] that desc_cong [OF w(1)] L1(1)
      by (simp add: labelled_def)
  qed
  have "cursor_ok m' c'"
    using dm [OF _ _ e(1)] dm [OF _ _ e(2)] dm [OF _ _ e(3)] ix L1(5) ch
    unfolding c' cursor_ok_def cursor_next_def Let_def by (simp del: desc.simps)
  moreover have "c_idx c' = c_idx (cursor_next c)" unfolding c' cursor_next_def Let_def L1(5) by simp
  ultimately show thesis
    using that [OF L' _ grows_trans [OF g2 w(3)] ix(1) _ g2 _ lf w(4)] up(1) old new by (auto simp: labelled_def)
qed

end

section \<open>Mapping a region\<close>

text \<open>The number of a virtual page, as far as the tables see it, and its indices.\<close>

definition vpn :: "nat \<Rightarrow> nat" where
  "vpn a = a div 4096 mod 68719476736"

definition idx_of :: "nat \<Rightarrow> page_address" where
  "idx_of n = \<lparr>pml4_index = n div 512 div 512 div 512 mod 512, pdpt_index = n div 512 div 512 mod 512,
     pd_index = n div 512 mod 512, pt_index = n mod 512\<rparr>"

lemma get_page_entry_idx_of: "get_page_entry a = idx_of (page_no a)"
  by (simp add: get_page_entry_vpn idx_of_def Let_def div_mult2_eq [symmetric])

lemma digits512: "n mod 68719476736 =
    n mod 512 + 512 * (n div 512 mod 512 + 512 * (n div 512 div 512 mod 512 + 512 * (n div 512 div 512 div 512 mod (512 :: nat))))"
proof -
  have "n mod (512 * (512 * (512 * 512))) = 512 * (n div 512 mod (512 * (512 * 512))) + n mod 512" for n :: nat
    by (rule mod_mult2_eq)
  moreover have "n mod (512 * (512 * 512)) = 512 * (n div 512 mod (512 * 512)) + n mod 512" for n :: nat
    by (rule mod_mult2_eq)
  moreover have "n mod (512 * 512) = 512 * (n div 512 mod 512) + n mod 512" for n :: nat
    by (rule mod_mult2_eq)
  ultimately show ?thesis by simp
qed

lemma digit_eq: "d < 512 \<Longrightarrow> d' < 512 \<Longrightarrow> d + 512 * x = d' + 512 * (x' :: nat) \<longleftrightarrow> d = d' \<and> x = x'"
proof -
  assume "d < 512" "d' < 512"
  then have "(d + 512 * x) mod 512 = d" "(d' + 512 * x') mod 512 = d'" by simp_all
  then have "d = d'" if "d + 512 * x = d' + 512 * x'" using that by metis
  then show ?thesis by auto
qed

lemma indices_eq: "indices (idx_of n) = indices (idx_of k) \<longleftrightarrow> n mod 68719476736 = k mod 68719476736"
  unfolding digits512 by (simp only: digit_eq indices_def idx_of_def mod_less_divisor zero_less_numeral list.inject page_address.simps) auto

lemma carry512:
  "n mod 512 < 511 \<Longrightarrow> (n + 1) mod 512 = n mod 512 + 1 \<and> (n + 1) div 512 = n div (512 :: nat)"
  "n mod 512 = 511 \<Longrightarrow> (n + 1) mod 512 = 0 \<and> (n + 1) div 512 = n div (512 :: nat) + 1"
  by (simp_all add: mod_Suc div_Suc)

lemma digit_cases: "n mod 512 < 511 \<or> n mod 512 = (511 :: nat)"
  using mod_less_divisor [of 512 n] by linarith

lemma cursor_next_idx:
  assumes c: "c_idx c = idx_of n" and lt: "pml4_index (c_idx (cursor_next c)) < 512"
  shows "c_idx (cursor_next c) = idx_of (n + 1) \<and> (n + 1) mod 68719476736 = n mod 68719476736 + 1"
proof -
  let ?a = "n div 512" and ?b = "n div 512 div 512" and ?c = "n div 512 div 512 div 512"
  consider "n mod 512 < 511" | "n mod 512 = 511" "?a mod 512 < 511"
    | "n mod 512 = 511" "?a mod 512 = 511" "?b mod 512 < 511"
    | "n mod 512 = 511" "?a mod 512 = 511" "?b mod 512 = 511" using digit_cases by blast
  then show ?thesis
  proof cases
    case 1
    then show ?thesis using carry512(1) [of n] unfolding digits512 cursor_next_def Let_def c idx_of_def by simp
  next
    case 2
    then show ?thesis using carry512(2) [of n] carry512(1) [of ?a]
      unfolding digits512 cursor_next_def Let_def c idx_of_def by simp
  next
    case 3
    then show ?thesis using carry512(2) [of n] carry512(2) [of ?a] carry512(1) [of ?b]
      unfolding digits512 cursor_next_def Let_def c idx_of_def by simp
  next
    case 4
    then have "?c mod 512 < 511" using lt unfolding cursor_next_def Let_def c idx_of_def by simp
    then show ?thesis using 4 carry512(2) [of n] carry512(2) [of ?a] carry512(2) [of ?b] carry512(1) [of ?c]
      unfolding digits512 cursor_next_def Let_def c idx_of_def by simp
  qed
qed

context page_source begin

lemma alloc_loop_step:
  assumes "labelled L m" and "cursor_ok m c" and idx: "pml4_index (c_idx c) < 512 \<longrightarrow> c_idx c = idx_of (i div 4096)"
    and "alloc_loop leaf i e c m = Ret m'" and "i < e"
  obtains c1 m1 L1 a f m2 m3 where "alloc_loop leaf (i + 4096) e c1 m1 = Ret m'" "labelled L1 m1" "cursor_ok m1 c1"
    "pml4_index (c_idx c1) < 512 \<longrightarrow> c_idx c1 = idx_of ((i + 4096) div 4096)" "grows m m1" "grows m m2" "pages_ok m2"
    "leaf i m2 = Ret (a, f, m3)" "0 < memory_bitmap m1 (page_no a)" "i + 4096 < e \<Longrightarrow> vpn (i + 4096) = vpn i + 1"
    "\<And>b. vpn (unat b) = vpn i \<Longrightarrow> \<not> flag FLAGS_PRESENT (pte m b)"
    "\<And>b. pte m1 b = (if vpn (unat b) = vpn i then (a AND PAGE_MASK) OR f OR FLAGS_PRESENT else pte m b)"
proof -
  obtain c1 m1 where st: "alloc_step leaf i c m = Ret (c1, m1)" and rest: "alloc_loop leaf (i + 4096) e c1 m1 = Ret m'"
    using assms(4,5) alloc_loop.simps [of leaf i e c m] by (auto simp: bind_outcome_eq_Ret)
  obtain L1 a f m2 m3 where S: "labelled L1 m1" "cursor_ok m1 c1" "grows m m1" "pml4_index (c_idx c) < 512"
      "c_idx c1 = c_idx (cursor_next c)" "grows m m2" "pages_ok m2" "leaf i m2 = Ret (a, f, m3)" "0 < memory_bitmap m1 (page_no a)"
      and old: "\<And>b. indices (get_page_entry b) = indices (c_idx c) \<Longrightarrow> \<not> flag FLAGS_PRESENT (pte m b)"
      and new: "\<And>b. pte m1 b = (if indices (get_page_entry b) = indices (c_idx c) then (a AND PAGE_MASK) OR f OR FLAGS_PRESENT else pte m b)"
    using alloc_step_maps [OF assms(1,2) st] by metis
  have ci: "c_idx c = idx_of (i div 4096)" using idx S(4) by blast
  have page: "indices (get_page_entry b) = indices (c_idx c) \<longleftrightarrow> vpn (unat b) = vpn i" for b
    by (simp add: ci get_page_entry_idx_of indices_eq vpn_def page_no_def)
  have nxt: "c_idx c1 = idx_of ((i + 4096) div 4096) \<and> vpn (i + 4096) = vpn i + 1" if "pml4_index (c_idx c1) < 512"
    using cursor_next_idx [OF ci] that S(5) by (simp add: vpn_def div_add_self2)
  have "vpn (i + 4096) = vpn i + 1" if "i + 4096 < e"
    using rest that nxt alloc_loop.simps [of leaf "i + 4096" e c1 m1]
    by (auto simp: alloc_step_def bind_outcome_eq_Ret split: if_splits)
  then show thesis using that [OF rest S(1,2) _ S(3,6,7,8,9)] nxt old new page by simp
qed

lemma alloc_loop_maps:
  assumes "labelled L m" and "cursor_ok m c" and "pml4_index (c_idx c) < 512 \<longrightarrow> c_idx c = idx_of (i div 4096)"
    and "alloc_loop leaf i e c m = Ret m'"
  shows "(\<exists>L'. labelled L' m') \<and> grows m m' \<and>
    (\<forall>b. (\<forall>k. i + 4096 * k < e \<longrightarrow> vpn (unat b) \<noteq> vpn i + k) \<longrightarrow> pte m' b = pte m b) \<and>
    (\<forall>b k. i + 4096 * k < e \<and> vpn (unat b) = vpn i + k \<longrightarrow> \<not> flag FLAGS_PRESENT (pte m b) \<and>
       (\<exists>a f m2 m3. grows m m2 \<and> pages_ok m2 \<and> leaf (i + 4096 * k) m2 = Ret (a, f, m3) \<and>
          pte m' b = (a AND PAGE_MASK) OR f OR FLAGS_PRESENT))"
  using assms
proof (induction "e - i" arbitrary: L i c m rule: less_induct)
  case less
  show ?case
  proof (cases "i < e")
    case False
    then show ?thesis using less.prems alloc_loop.simps [of leaf i e c m] by auto
  next
    case True
    obtain c1 m1 L1 a f m2 m3 where rest: "alloc_loop leaf (i + 4096) e c1 m1 = Ret m'" and S: "labelled L1 m1" "cursor_ok m1 c1"
        "pml4_index (c_idx c1) < 512 \<longrightarrow> c_idx c1 = idx_of ((i + 4096) div 4096)" "grows m m1" "grows m m2" "pages_ok m2" "leaf i m2 = Ret (a, f, m3)" "0 < memory_bitmap m1 (page_no a)"
        and inside: "i + 4096 < e \<Longrightarrow> vpn (i + 4096) = vpn i + 1"
        and old: "\<And>b. vpn (unat b) = vpn i \<Longrightarrow> \<not> flag FLAGS_PRESENT (pte m b)"
        and new: "\<And>b. pte m1 b = (if vpn (unat b) = vpn i then (a AND PAGE_MASK) OR f OR FLAGS_PRESENT else pte m b)"
      by (rule alloc_loop_step [OF less.prems True]) (rule that, assumption+)
    have IH: "\<exists>L'. labelled L' m'" "grows m1 m'"
      "\<And>b. (\<And>k. i + 4096 + 4096 * k < e \<Longrightarrow> vpn (unat b) \<noteq> vpn (i + 4096) + k) \<Longrightarrow> pte m' b = pte m1 b"
      "\<And>b k. i + 4096 + 4096 * k < e \<Longrightarrow> vpn (unat b) = vpn (i + 4096) + k \<Longrightarrow> \<not> flag FLAGS_PRESENT (pte m1 b) \<and>
        (\<exists>a f m2 m3. grows m1 m2 \<and> pages_ok m2 \<and> leaf (i + 4096 + 4096 * k) m2 = Ret (a, f, m3) \<and> pte m' b = (a AND PAGE_MASK) OR f OR FLAGS_PRESENT)"
      using less.hyps [of "i + 4096" L1 m1 c1, OF _ S(1,2,3) rest] True by auto
    have first: "pte m' b = (a AND PAGE_MASK) OR f OR FLAGS_PRESENT" if "vpn (unat b) = vpn i" for b
      using IH(3) [of b] new [of b] that inside by fastforce
    have out: "pte m' b = pte m b" if "\<And>k. i + 4096 * k < e \<Longrightarrow> vpn (unat b) \<noteq> vpn i + k" for b
    proof -
      have "vpn (unat b) \<noteq> vpn i" using that [of 0] True by simp
      moreover have "vpn (unat b) \<noteq> vpn (i + 4096) + k" if "i + 4096 + 4096 * k < e" for k
        using \<open>\<And>k. i + 4096 * k < e \<Longrightarrow> vpn (unat b) \<noteq> vpn i + k\<close> [of "Suc k"] inside that by simp
      ultimately show ?thesis using IH(3) [of b] new [of b] by simp
    qed
    have maps: "\<not> flag FLAGS_PRESENT (pte m b) \<and> (\<exists>a f m2 m3. grows m m2 \<and> pages_ok m2 \<and> leaf (i + 4096 * k) m2 = Ret (a, f, m3) \<and>
        pte m' b = (a AND PAGE_MASK) OR f OR FLAGS_PRESENT)" if k: "i + 4096 * k < e" "vpn (unat b) = vpn i + k" for b k
    proof (cases k)
      case 0
      then show ?thesis using first [of b] old [of b] that S(5,6,7) by auto
    next
      case (Suc j)
      then have "i + 4096 + 4096 * j < e" "vpn (unat b) = vpn (i + 4096) + j" "vpn (unat b) \<noteq> vpn i"
        using k inside by auto
      then show ?thesis using IH(4) [of j b] new [of b] Suc grows_trans [OF S(4)] by (auto simp: add.assoc)
    qed
    show ?thesis using IH(1) grows_trans [OF S(4) IH(2)] out maps by blast
  qed
qed

end

text \<open>A source that always takes a free page.\<close>

locale fresh_source = page_source +
  assumes leaf_fresh: "pages_ok m \<Longrightarrow> leaf i m = Ret (a, f, m1) \<Longrightarrow>
    a = word_of_nat (page_no a * 4096) \<and> page_no a < usable_page_count m \<and> memory_bitmap m (page_no a) = 0 \<and> f AND NOT FLAGS_MASK = 0"
begin

lemma leaf_table:
  assumes "pages_ok m" "leaf i m = Ret (a, f, m1)"
  shows "table_of ((a AND PAGE_MASK) OR f OR FLAGS_PRESENT) = page_no a"
proof -
  have "page_no a < 2 ^ 40" using leaf_fresh [OF assms] assms(1) by (simp add: pages_ok_def)
  then have "table_of (a AND PAGE_MASK) = page_no a" using table_of_page leaf_fresh [OF assms] by metis
  moreover have "(f OR FLAGS_PRESENT) AND NOT FLAGS_MASK = 0"
    using leaf_fresh [OF assms] by (simp add: bit.conj_disj_distrib2)
  ultimately show ?thesis by (simp add: table_of_or)
qed

lemma alloc_loop_distinct:
  assumes "labelled L m" and "cursor_ok m c" and "pml4_index (c_idx c) < 512 \<longrightarrow> c_idx c = idx_of (i div 4096)"
    and "alloc_loop leaf i e c m = Ret m'"
  shows "\<forall>b b' j k. i + 4096 * j < e \<and> vpn (unat b) = vpn i + j \<and> i + 4096 * k < e \<and> vpn (unat b') = vpn i + k \<and> j < k \<longrightarrow>
    table_of (pte m' b) \<noteq> table_of (pte m' b')"
  using assms
proof (induction "e - i" arbitrary: L i c m rule: less_induct)
  case less
  show ?case
  proof (cases "i < e")
    case True
    obtain c1 m1 L1 a f m2 m3 where rest: "alloc_loop leaf (i + 4096) e c1 m1 = Ret m'" and S: "labelled L1 m1" "cursor_ok m1 c1"
        "pml4_index (c_idx c1) < 512 \<longrightarrow> c_idx c1 = idx_of ((i + 4096) div 4096)" "grows m m1" "grows m m2" "pages_ok m2" "leaf i m2 = Ret (a, f, m3)" "0 < memory_bitmap m1 (page_no a)"
        and inside: "i + 4096 < e \<Longrightarrow> vpn (i + 4096) = vpn i + 1"
        and old: "\<And>b. vpn (unat b) = vpn i \<Longrightarrow> \<not> flag FLAGS_PRESENT (pte m b)"
        and new: "\<And>b. pte m1 b = (if vpn (unat b) = vpn i then (a AND PAGE_MASK) OR f OR FLAGS_PRESENT else pte m b)"
      by (rule alloc_loop_step [OF less.prems True]) (rule that, assumption+)
    note later = alloc_loop_maps [OF S(1,2,3) rest]
    have "table_of (pte m' b) \<noteq> table_of (pte m' b')"
      if h: "i + 4096 * j < e" "vpn (unat b) = vpn i + j" "i + 4096 * k < e" "vpn (unat b') = vpn i + k" "j < k" for b b' j k
    proof (cases j)
      case 0
      have in1: "i + 4096 < e" using h(3,5) by (cases k) auto
      have "pte m' b = pte m1 b" using later h(2) 0 inside [OF in1] by (auto simp del: split_paired_All)
      then have t: "table_of (pte m' b) = page_no a" using new [of b] h(2) 0 leaf_table [OF S(6,7)] by simp
      obtain l where l: "k = Suc l" using h(5) by (cases k) auto
      then have "i + 4096 + 4096 * l < e" "vpn (unat b') = vpn (i + 4096) + l" using h(3,4) inside [OF in1] by simp_all
      then obtain a' f' m2' m3' where n: "grows m1 m2'" "pages_ok m2'" "leaf (i + 4096 + 4096 * l) m2' = Ret (a', f', m3')"
          "pte m' b' = (a' AND PAGE_MASK) OR f' OR FLAGS_PRESENT" using later by blast
      have "memory_bitmap m2' (page_no a') = 0" using leaf_fresh [OF n(2,3)] by simp
      moreover have "0 < memory_bitmap m2' (page_no a)" using S(8) n(1) by (auto simp: grows_def intro: less_le_trans)
      ultimately show ?thesis using t n(4) leaf_table [OF n(2,3)] by auto
    next
      case (Suc j')
      then obtain k' where "k = Suc k'" using h(5) by (cases k) auto
      moreover have "i + 4096 < e" using h(1) Suc by simp
      ultimately show ?thesis
        using less.hyps [of "i + 4096" L1 m1 c1, OF _ S(1,2,3) rest] True Suc h inside by (auto simp: add.assoc)
    qed
    then show ?thesis by blast
  qed simp
qed

end

lemma pages_ok_inc: "pages_ok m \<Longrightarrow> inc_page p m = Ret m1 \<Longrightarrow> pages_ok m1"
  by (auto simp: pages_ok_def inc_page_def split: if_splits)

lemma fresh_leaf_Ret:
  assumes "fresh_leaf flags i m = Ret (a, f, m1)"
  obtains p where "a = word_of_nat (p * 4096)" "p < usable_page_count m" "memory_bitmap m p = 0" "f = flags"
    "m1 = m\<lparr>first_usable := p + 1\<rparr>" "\<forall>q. first_usable m \<le> q \<and> q < p \<longrightarrow> 0 < memory_bitmap m q"
  using assms by (auto simp: fresh_leaf_def bind_outcome_eq_Ret elim!: get_available_Ret)

interpretation fresh: fresh_source "fresh_leaf (flags AND FLAGS_MASK)" for flags
proof
  fix i m a f m1 assume l: "fresh_leaf (flags AND FLAGS_MASK) i m = Ret (a, f, m1)"
  obtain p where p: "a = word_of_nat (p * 4096)" "p < usable_page_count m" "memory_bitmap m p = 0" "f = flags AND FLAGS_MASK"
    "m1 = m\<lparr>first_usable := p + 1\<rparr>" "\<forall>q. first_usable m \<le> q \<and> q < p \<longrightarrow> 0 < memory_bitmap m q"
    using fresh_leaf_Ret [OF l] .
  show "\<exists>n. m1 = m\<lparr>first_usable := n\<rparr>" using p(5) by blast
  assume ok: "pages_ok m"
  have no: "page_no a = p" using page_no_word [of p] p(1,2) ok by (simp add: pages_ok_def del: of_nat_mult)
  have below: "0 < memory_bitmap m q" if "q < p" "q < usable_page_count m" for q
    using ok p(6) that unfolding pages_ok_def by (meson leI)
  show "pages_ok m2" if "inc_page (page_no a) m1 = Ret m2" for m2
    using that ok p(5) below by (auto simp: no inc_page_def pages_ok_def less_Suc_eq split: if_splits)
  show "a = word_of_nat (page_no a * 4096) \<and> page_no a < usable_page_count m \<and> memory_bitmap m (page_no a) = 0 \<and> f AND NOT FLAGS_MASK = 0"
    unfolding no using p(1-4) by (auto simp: and.assoc)
qed

lemma first_usable_same: "\<exists>n. m = m\<lparr>first_usable := n\<rparr>"
  by (rule exI [of _ "first_usable m"]) simp

interpretation mmio: page_source "mmio_leaf vaddr paddr flags" for vaddr paddr flags
  by unfold_locales (auto simp: mmio_leaf_def intro: pages_ok_inc first_usable_same)

interpretation zero: page_source "zero_leaf flags" for flags
  by unfold_locales (auto simp: zero_leaf_def intro: pages_ok_inc first_usable_same)

text \<open>The addresses of a region: those in the pages that the loop steps through.\<close>

definition in_region :: "u64 \<Rightarrow> u64 \<Rightarrow> u64 \<Rightarrow> bool" where
  "in_region vaddr sz b \<longleftrightarrow>
     (\<exists>k. unat vaddr + 4096 * k < unat (page_align (vaddr + sz)) \<and> vpn (unat b) = vpn (unat vaddr) + k)"

lemma start_cursor_ok: "cursor_ok m (start_cursor vaddr)" "c_idx (start_cursor vaddr) = idx_of (unat vaddr div 4096)"
  by (simp_all add: cursor_ok_def start_cursor_def Let_def flip: page_no_def get_page_entry_idx_of)

text \<open>C6. \<open>alloc_region\<close> maps exactly its region: an address outside keeps its page table entry; an
  address inside had none and now has one with the requested flags that leads to a page that was
  free; different pages of the region get different physical pages.  The hypothesis says that the
  tables of the address space lie in different pages that are in use.\<close>

theorem alloc_region_maps:
  assumes "labelled L m" and "flags AND NOT FLAGS_MASK = 0" and "alloc_region vaddr sz flags m = Ret (r, m')"
  shows "r = vaddr \<and>
    (\<forall>b. \<not> in_region vaddr sz b \<longrightarrow> pte m' b = pte m b) \<and>
    (\<forall>b. in_region vaddr sz b \<longrightarrow> \<not> flag FLAGS_PRESENT (pte m b) \<and>
       (\<exists>p. p < usable_page_count m \<and> memory_bitmap m p = 0 \<and> table_of (pte m' b) = p \<and>
          pte m' b = (word_of_nat (p * 4096) AND PAGE_MASK) OR flags OR FLAGS_PRESENT)) \<and>
    (\<forall>b b'. in_region vaddr sz b \<and> in_region vaddr sz b' \<and> vpn (unat b) \<noteq> vpn (unat b') \<longrightarrow>
       table_of (pte m' b) \<noteq> table_of (pte m' b'))"
proof -
  have fl: "flags AND FLAGS_MASK = flags"
    using assms(2) bit.conj_disj_distrib [of flags FLAGS_MASK "NOT FLAGS_MASK"] by simp
  have loop: "alloc_loop (fresh_leaf (flags AND FLAGS_MASK)) (unat vaddr) (unat (page_align (vaddr + sz))) (start_cursor vaddr) m = Ret m'"
    and r: "r = vaddr" using assms(3) by (auto simp: alloc_region_def map_region_def bind_outcome_eq_Ret fl)
  have sc: "pml4_index (c_idx (start_cursor vaddr)) < 512 \<longrightarrow> c_idx (start_cursor vaddr) = idx_of (unat vaddr div 4096)"
    using start_cursor_ok(2) by blast
  note maps = fresh.alloc_loop_maps [OF assms(1) start_cursor_ok(1) sc loop]
    and dist = fresh.alloc_loop_distinct [OF assms(1) start_cursor_ok(1) sc loop]
  have "\<exists>p. p < usable_page_count m \<and> memory_bitmap m p = 0 \<and> table_of (pte m' b) = p \<and>
      pte m' b = (word_of_nat (p * 4096) AND PAGE_MASK) OR flags OR FLAGS_PRESENT" if ir: "in_region vaddr sz b" for b
  proof -
    obtain a f m2 m3 i where l: "grows m m2" "pages_ok m2" "fresh_leaf (flags AND FLAGS_MASK) i m2 = Ret (a, f, m3)"
        "pte m' b = (a AND PAGE_MASK) OR f OR FLAGS_PRESENT"
      using maps ir unfolding in_region_def by blast
    have "f = flags" using l(3) fl by (auto simp: fresh_leaf_def bind_outcome_eq_Ret)
    moreover have "memory_bitmap m (page_no a) = 0" "usable_page_count m2 = usable_page_count m"
      using fresh.leaf_fresh [OF l(2,3)] l(1) unfolding grows_def by (metis le_zero_eq)+
    ultimately show ?thesis
      using fresh.leaf_fresh [OF l(2,3)] fresh.leaf_table [OF l(2,3)] l(4) by (intro exI [of _ "page_no a"]) metis
  qed
  moreover have "table_of (pte m' b) \<noteq> table_of (pte m' b')"
    if "in_region vaddr sz b" "in_region vaddr sz b'" "vpn (unat b) \<noteq> vpn (unat b')" for b b'
    using dist that unfolding in_region_def by (metis linorder_neq_iff)
  moreover have "pte m' b = pte m b" if "\<not> in_region vaddr sz b" for b
    using maps that unfolding in_region_def by blast
  moreover have "\<not> flag FLAGS_PRESENT (pte m b)" if "in_region vaddr sz b" for b
    using maps that unfolding in_region_def by blast
  ultimately show ?thesis using r by blast
qed

definition demo_labels :: "nat \<Rightarrow> nat list option" where
  "demo_labels = [1 \<mapsto> [], 2 \<mapsto> [0], 3 \<mapsto> [0, 0], 4 \<mapsto> [0, 0, 0]]"

lemma demo_labelled: "labelled demo_labels demo_paging"
  by (auto simp: labelled_def demo_labels_def demo_paging_def pages_ok_def pml4_def page_no_def flag_def FLAGS_PRESENT_def
      table_of_def page_table_to_address_def FLAGS_MASK_def split: if_splits)

theorem alloc_region_maps_witness:
  "\<exists>m'. alloc_region 0x2000 0x1000 6 demo_paging = Ret (0x2000, m') \<and> pte m' 0x2000 = 0x6007 \<and>
     pte m' 0x1000 = 0x5007 \<and> pte demo_paging 0x2000 = 0"
proof -
  let ?n = "(phys demo_paging)(4 := (phys demo_paging 4)(2 := 0x6007))"
  have idx: "c_idx (start_cursor 0x2000) = idx_of 2" using start_cursor_ok(2) [of "0x2000"] by simp
  have st: "\<exists>c. alloc_step (fresh_leaf 6) 0x2000 (start_cursor 0x2000) demo_paging =
      Ret (c, demo_paging\<lparr>first_usable := 7, memory_bitmap := (memory_bitmap demo_paging)(6 := 1), phys := ?n\<rparr>)"
    by (simp add: alloc_step_def cursor_tables_def idx idx_of_def start_cursor_def ensure_table_def upper_flags_def
      or_word_def set_word_def fresh_leaf_def get_available_address_def find_free.simps inc_page_def demo_paging_def
      paging_eval HIGHER_LEVEL_FLAGS_def fun_upd_idem cursor_next_def)
  let ?m = "demo_paging\<lparr>first_usable := 7, memory_bitmap := (memory_bitmap demo_paging)(6 := 1), phys := ?n\<rparr>"
  have r: "alloc_region 0x2000 0x1000 6 demo_paging = Ret (0x2000, ?m)"
    using st by (auto simp: alloc_region_def map_region_def page_align_def alloc_loop.simps)
  have "pte ?m 0x2000 = 0x6007" "pte demo_paging 0x2000 = 0" "pte demo_paging 0x1000 = 0x5007"
    by (simp_all add: pte_def indices_def paging_eval demo_paging_def)
  moreover have "\<not> in_region 0x2000 0x1000 0x1000" by (simp add: in_region_def vpn_def)
  ultimately show ?thesis using alloc_region_maps [OF demo_labelled _ r] r by (auto simp: FLAGS_MASK_def)
qed

section \<open>No page is lost\<close>

text \<open>\<open>post r Q\<close>: when the call returns, its result satisfies \<open>Q\<close>.\<close>

definition post :: "'a outcome \<Rightarrow> ('a \<Rightarrow> bool) \<Rightarrow> bool" where
  "post r Q \<longleftrightarrow> (\<forall>x. r = Ret x \<longrightarrow> Q x)"

lemma post_values [simp]: "post (Ret x) Q = Q x" "post Fault Q" "post Panic Q" "post Blocks Q"
  by (simp_all add: post_def)

lemma post_bind: "post r P \<Longrightarrow> (\<And>x. P x \<Longrightarrow> post (f x) Q) \<Longrightarrow> post (bind_outcome r f) Q"
  by (auto simp: post_def bind_outcome_eq_Ret)

lemma post_self: "post r (\<lambda>x. r = Ret x)"
  by (simp add: post_def)

lemma postD: "post r Q \<Longrightarrow> r = Ret x \<Longrightarrow> Q x"
  by (simp add: post_def)

lemma pages_ok_set_word [simp]: "pages_ok (set_word p i v m) = pages_ok m"
  by (simp add: pages_ok_def set_word_def)

lemma pages_ok_clear [simp]: "pages_ok (clear_page p m) = pages_ok m"
  by (simp add: pages_ok_def clear_page_def)

lemma pages_ok_or_word [simp]: "pages_ok (or_word p i v m) = pages_ok m" "pages_ok (upper_flags c m) = pages_ok m"
  by (simp_all add: or_word_def upper_flags_def Let_def)

lemma post_inc: "pages_ok m \<Longrightarrow> post (inc_page p m) pages_ok"
  by (auto simp: post_def intro: pages_ok_inc)

lemma post_dec: "pages_ok m \<Longrightarrow> post (dec_page p m) pages_ok"
  by (auto simp: post_def dec_page_def pages_ok_def Let_def split: if_splits)

lemma post_allocate: "pages_ok m \<Longrightarrow> post (allocate_physical_page m) (\<lambda>(a, m1). pages_ok m1)"
proof -
  assume ok: "pages_ok m"
  have "pages_ok m1" if "allocate_physical_page m = Ret (a, m1)" for a m1
    using ok that by (rule allocate_Ret)
  then show ?thesis by (auto simp: post_def)
qed

lemma post_ensure: "pages_ok m \<Longrightarrow> post (ensure_table t i m) (\<lambda>(u, m1). pages_ok m1)"
  by (auto simp: ensure_table_def Let_def intro!: post_bind [OF post_allocate])

lemma post_tables: "pages_ok m \<Longrightarrow> post (cursor_tables c m) (\<lambda>(c1, m1). pages_ok m1)"
  unfolding cursor_tables_def Let_def
  by (rule post_bind [of _ "\<lambda>(u, m1). pages_ok m1"], simp add: post_ensure, clarify,
      rule post_bind [of _ "\<lambda>(u, m1). pages_ok m1"], simp add: post_ensure, clarify,
      rule post_bind [of _ "\<lambda>(u, m1). pages_ok m1"], simp add: post_ensure, clarify, simp)

context page_source begin

lemma post_alloc_step: "pages_ok m \<Longrightarrow> post (alloc_step leaf i c m) (\<lambda>(c1, m1). pages_ok m1)"
proof -
  have *: "post (inc_page (page_no a) (set_word t k v m3)) pages_ok"
    if "leaf i m2 = Ret (a, f, m3)" "pages_ok m2" for m2 a f m3 t k v
    using leaf_pages [OF that] by (auto simp: post_def inc_page_def set_word_def pages_ok_def split: if_splits)
  assume "pages_ok m"
  then show ?thesis unfolding alloc_step_def
    by (auto simp: Let_def intro!: post_bind [OF post_tables]) (auto simp: post_def bind_outcome_eq_Ret dest!: postD [OF *])
qed

lemma post_alloc_loop: "pages_ok m \<Longrightarrow> post (alloc_loop leaf i e c m) pages_ok"
proof (induction "e - i" arbitrary: i c m rule: less_induct)
  case less
  then show ?case
    by (subst alloc_loop.simps) (auto intro!: post_bind [OF post_alloc_step])
qed

lemma post_map_region: "pages_ok m \<Longrightarrow> post (map_region leaf vaddr sz m) (\<lambda>(r, m1). pages_ok m1)"
  unfolding map_region_def by (auto intro!: post_bind [OF post_alloc_loop])

end

lemma post_each: "(\<And>i m. pages_ok m \<Longrightarrow> post (f i m) pages_ok) \<Longrightarrow> pages_ok m \<Longrightarrow> post (each is f m) pages_ok"
  by (induction "is" arbitrary: m) (auto intro: post_bind)

lemma post_clone_pt: "pages_ok m \<Longrightarrow> post (clone_pt s d m) pages_ok"
  unfolding clone_pt_def by (rule post_each) (auto simp: Let_def intro!: post_bind [OF post_inc])

lemma post_clone_table:
  assumes child: "\<And>s d m. pages_ok m \<Longrightarrow> post (child s d m) pages_ok" and "pages_ok m"
  shows "post (clone_table child is s d m) pages_ok"
  unfolding clone_table_def
proof (rule post_each)
  fix i m assume ok: "pages_ok m"
  show "post (let e = phys m s i in if flag FLAGS_PRESENT e then
       bind_outcome (allocate_physical_page m) (\<lambda>(a, m1).
       bind_outcome (child (table_of e) (page_no a) m1) (\<lambda>m2.
         Ret (set_word d i ((a AND PAGE_MASK) OR (e AND HIGHER_LEVEL_FLAGS)) m2)))
     else Ret m) pages_ok"
    using ok by (auto simp: Let_def intro!: post_bind [OF post_allocate] post_bind [OF child])
qed (use assms in auto)

lemma post_clone: "pages_ok m \<Longrightarrow> post (clone_page_tables a m) (\<lambda>(r, m1). pages_ok m1)"
proof -
  assume ok: "pages_ok m"
  have user: "post (clone_table (clone_table (clone_table clone_pt [0..<512]) [0..<512]) [0..<256] s d m) pages_ok"
    if "pages_ok m" for s d m
    by (rule post_clone_table [OF post_clone_table [OF post_clone_table [OF post_clone_pt]] that])
  have kernel: "post (each [256..<512] (\<lambda>i m. Ret (set_word d i (phys m s i) m)) m) pages_ok" if "pages_ok m" for s d m
    using that by (intro post_each) auto
  show ?thesis unfolding clone_page_tables_def
    using ok by (auto simp del: upt_rec_numeral intro!: post_bind [OF post_allocate] post_bind [OF user] post_bind [OF kernel])
qed

lemma post_free_pt: "pages_ok m \<Longrightarrow> post (free_pt t m) pages_ok"
  unfolding free_pt_def by (rule post_each) (auto simp: Let_def intro!: post_dec)

lemma post_free_table:
  "(\<And>t m. pages_ok m \<Longrightarrow> post (child t m) pages_ok) \<Longrightarrow> pages_ok m \<Longrightarrow> post (free_table child is t m) pages_ok"
  unfolding free_table_def by (rule post_each) (auto simp: Let_def intro: post_bind [of _ pages_ok] post_dec)

lemma post_free_tables: "pages_ok m \<Longrightarrow> post (free_page_tables a m) pages_ok"
  unfolding free_page_tables_def
  by (rule post_bind [of _ pages_ok]) (auto intro: post_free_table post_free_pt post_dec)

lemma post_release: "pages_ok m \<Longrightarrow> post (release_empty c t i m) pages_ok"
  unfolding release_empty_def by (auto intro!: post_bind [OF post_dec])

lemma post_free_page: "pages_ok m \<Longrightarrow> post (free_page a m) (\<lambda>(r, m1). pages_ok m1)"
  unfolding free_page_def Let_def
  by (auto split: option.split intro!: post_bind [OF post_dec] post_bind [OF post_release])

lemma post_free_loop: "pages_ok m \<Longrightarrow> post (free_loop i e m) pages_ok"
proof (induction i e m rule: free_loop.induct)
  case (1 i e m)
  then show ?case by (subst free_loop.simps) (auto intro!: post_bind [OF post_free_page])
qed

lemma post_cow: "pages_ok m \<Longrightarrow> post (cow_handler a m) (\<lambda>(r, m1). pages_ok m1)"
proof -
  assume ok: "pages_ok m"
  have split: "pages_ok (m1\<lparr>memory_bitmap := (memory_bitmap m1)(q := memory_bitmap m1 q - Suc 0, page_no b := Suc 0), phys := f\<rparr>)"
    if h: "get_available_address m = Ret (b, m1)" "memory_bitmap m q > 1" for b m1 q f
  proof -
    obtain p where p: "b = word_of_nat (p * 4096)" "p < usable_page_count m" "m1 = m\<lparr>first_usable := p + 1\<rparr>"
        "\<forall>q. first_usable m \<le> q \<and> q < p \<longrightarrow> 0 < memory_bitmap m q"
      using get_available_Ret [OF h(1)] by metis
    have "page_no b = p" using page_no_word [of p] p(1,2) ok by (simp add: pages_ok_def del: of_nat_mult)
    moreover have "0 < memory_bitmap m r" if "r < p" "r < usable_page_count m" for r
      using ok p(4) that unfolding pages_ok_def by (meson leI)
    ultimately show ?thesis using ok p(3) h(2) by (auto simp: pages_ok_def set_word_def less_Suc_eq)
  qed
  show ?thesis
    unfolding cow_handler_def Let_def using ok
    by (auto split: option.split simp del: fun_upd_apply intro!: post_bind [OF post_self] split)
qed

lemma post_validate_page: "pages_ok m \<Longrightarrow> post (validate_page w a m) (\<lambda>(r, m1). pages_ok m1)"
  unfolding validate_page_def Let_def by (auto split: option.split intro!: post_bind [OF post_cow])

lemma post_validate_loop: "pages_ok m \<Longrightarrow> post (validate_loop w i e m) (\<lambda>(r, m1). pages_ok m1)"
proof (induction w i e m rule: validate_loop.induct)
  case (1 w i e m)
  then show ?case by (subst validate_loop.simps) (auto intro!: post_bind [OF post_validate_page])
qed

lemma post_validate: "pages_ok m \<Longrightarrow> post (validate_user_pointer p sz w m) (\<lambda>(r, m1). pages_ok m1)"
  unfolding validate_user_pointer_def by (auto intro: post_validate_loop)

lemma post_mark: "usable_page_count m = n \<Longrightarrow> first_usable m = f \<Longrightarrow> post (mark ps v m) (\<lambda>m1. usable_page_count m1 = n \<and> first_usable m1 = f)"
  by (auto simp: mark_def post_def)

lemma post_mark_all:
  "usable_page_count m = n \<Longrightarrow> first_usable m = f \<Longrightarrow>
   post (foldl (\<lambda>r e. bind_outcome r (\<lambda>m. if usable e then mark (g e) 0 m else Ret m)) (Ret m) es)
     (\<lambda>m1. usable_page_count m1 = n \<and> first_usable m1 = f)"
proof (induction es rule: rev_induct)
  case (snoc e es)
  then show ?case by (auto intro!: post_bind [OF snoc.IH] post_mark)
qed simp

lemma post_init:
  assumes "unat (highest_usable es) \<le> 2 ^ 52" and "first_usable m = 0"
  shows "post (init_paging cr3 (Some es) m) pages_ok"
proof -
  let ?n = "unat (highest_usable es) div 4096"
  have last: "post (bind_outcome (get_available_address m3) (\<lambda>(z, m4).
      mark [page_no z] 1 (clear_page (page_no z) (m4\<lparr>zero_page := z\<rparr>)))) pages_ok"
    if m3: "usable_page_count m3 = ?n \<and> first_usable m3 = 0" for m3
  proof (rule post_bind [OF post_self], clarify)
    fix z m4 assume g: "get_available_address m3 = Ret (z, m4)"
    obtain p where p: "z = word_of_nat (p * 4096)" "p < usable_page_count m3" "m4 = m3\<lparr>first_usable := p + 1\<rparr>"
        "\<forall>q. first_usable m3 \<le> q \<and> q < p \<longrightarrow> 0 < memory_bitmap m3 q" using get_available_Ret [OF g] by metis
    have n: "?n \<le> 2 ^ 40" using assms(1) by simp
    then have "page_no z = p" using page_no_word [of p] p(1,2) m3 by (simp del: of_nat_mult)
    then show "post (mark [page_no z] 1 (clear_page (page_no z) (m4\<lparr>zero_page := z\<rparr>))) pages_ok"
      using p m3 n by (auto simp: post_def mark_def clear_page_def pages_ok_def less_Suc_eq split: if_splits)
  qed
  have body: "post (if bp = 0 then Panic
      else bind_outcome (foldl (\<lambda>r e. bind_outcome r (\<lambda>m. if usable e then mark (g e) 0 m else Ret m)) (Ret m1) es) (\<lambda>m2.
        bind_outcome (mark ps 1 m2) (\<lambda>m3. bind_outcome (get_available_address m3) (\<lambda>(z, m4).
          mark [page_no z] 1 (clear_page (page_no z) (m4\<lparr>zero_page := z\<rparr>)))))) pages_ok"
    if "usable_page_count m1 = ?n" "first_usable m1 = 0" for bp g m1 ps
    using post_bind [OF post_mark_all [OF that, of g es] post_bind [OF post_mark [of _ ?n 0] last]] by (cases "bp = 0") simp_all
  show ?thesis
  proof (cases "cr3 = 0")
    case False
    show ?thesis unfolding init_paging_def Let_def option.case if_not_P [OF False] by (rule body) (simp_all add: assms)
  qed (simp add: init_paging_def)
qed

text \<open>Every call into the paging code, from any task.\<close>

inductive paging_step :: "paging \<Rightarrow> paging \<Rightarrow> bool" where
  "alloc_region a sz f m = Ret (r, m1) \<Longrightarrow> f AND NOT FLAGS_MASK = 0 \<Longrightarrow> paging_step m m1"
| "alloc_mmio_region a pa sz f m = Ret (r, m1) \<Longrightarrow> paging_step m m1"
| "alloc_zero_region a sz f m = Ret (r, m1) \<Longrightarrow> paging_step m m1"
| "allocate_physical_page m = Ret (a, m1) \<Longrightarrow> paging_step m m1"
| "free_page a m = Ret (z, m1) \<Longrightarrow> paging_step m m1"
| "free_region a sz m = Ret m1 \<Longrightarrow> paging_step m m1"
| "clone_page_tables a m = Ret (b, m1) \<Longrightarrow> paging_step m m1"
| "free_page_tables a m = Ret m1 \<Longrightarrow> paging_step m m1"
| "cow_handler a m = Ret (b', m1) \<Longrightarrow> paging_step m m1"
| "validate_user_pointer a sz w m = Ret (z, m1) \<Longrightarrow> paging_step m m1"
| "paging_step m (change_pml4 a m)"

lemma paging_step_ok: "paging_step m m1 \<Longrightarrow> pages_ok m \<Longrightarrow> pages_ok m1"
proof (induction rule: paging_step.induct)
  case (1 a sz f m r m1)
  have "f AND FLAGS_MASK = f" using 1(2) bit.conj_disj_distrib [of f FLAGS_MASK "NOT FLAGS_MASK"] by simp
  then show ?case using 1 fresh.post_map_region [of m f a sz] by (auto simp: alloc_region_def post_def)
next
  case (2 a pa sz f m r m1)
  then show ?case using mmio.post_map_region [of m a pa f a sz] by (auto simp: alloc_mmio_region_def post_def)
next
  case (3 a sz f m r m1)
  then show ?case using zero.post_map_region [of m f a sz] by (auto simp: alloc_zero_region_def post_def)
next
  case (4 m a m1)
  then show ?case using postD [OF post_allocate, of m "(a, m1)"] by simp
next
  case (5 a m z m1)
  then show ?case using postD [OF post_free_page, of m a "(z, m1)"] by simp
next
  case (6 a sz m m1)
  then show ?case using postD [OF post_free_loop, of m] by (simp add: free_region_def)
next
  case (7 a m b m1)
  then show ?case using postD [OF post_clone, of m a "(b, m1)"] by simp
next
  case (8 a m m1)
  then show ?case using postD [OF post_free_tables, of m a m1] by simp
next
  case (9 a m b' m1)
  then show ?case using postD [OF post_cow, of m a "(b', m1)"] by simp
next
  case (10 a sz w m z m1)
  then show ?case using postD [OF post_validate, of m a sz w "(z, m1)"] by simp
next
  case (11 m a)
  then show ?case by (simp add: change_pml4_def pages_ok_def)
qed

text \<open>C4. The page allocator loses no page: after \<open>init_paging\<close> and any sequence of calls into the paging
  code, \<open>get_available_address\<close> panics only when every page of the machine is in use, and otherwise
  returns the address of a page that is not.\<close>

theorem page_allocator_complete:
  assumes "init_paging cr3 (Some es) m0 = Ret m" and "unat (highest_usable es) \<le> 2 ^ 52" and "first_usable m0 = 0"
    and "paging_step\<^sup>*\<^sup>* m m1"
  shows "(get_available_address m1 = Panic \<longleftrightarrow> (\<forall>p<usable_page_count m1. 0 < memory_bitmap m1 p)) \<and>
    (get_available_address m1 \<noteq> Panic \<longrightarrow> (\<exists>a m2. get_available_address m1 = Ret (a, m2) \<and>
       page_no a < usable_page_count m1 \<and> memory_bitmap m1 (page_no a) = 0))"
proof -
  have "pages_ok m" using postD [OF post_init assms(1)] assms(2,3) by blast
  with assms(4) have ok: "pages_ok m1" by (induction rule: rtranclp_induct) (auto dest: paging_step_ok)
  have "find_free m1 (first_usable m1) = None \<longleftrightarrow> (\<forall>p<usable_page_count m1. 0 < memory_bitmap m1 p)"
    using ok unfolding find_free_None pages_ok_def by (metis not_le)
  moreover have "page_no (word_of_nat (p * 4096)) = p" if "p < usable_page_count m1" for p
    using page_no_word [of p] ok that by (simp add: pages_ok_def del: of_nat_mult)
  ultimately show ?thesis
    using find_free_Some [of m1 "first_usable m1"] by (auto simp: get_available_address_def split: option.split simp del: of_nat_mult)
qed

theorem page_allocator_complete_witness:
  "\<exists>m. init_paging 0x1000 (Some [\<lparr>base = 0x1000, len = 0x3000, usable = True\<rparr>]) (demo_paging\<lparr>first_usable := 0\<rparr>) = Ret m \<and>
     memory_bitmap m 3 = 0 \<and> get_available_address m \<noteq> Panic"
proof -
  let ?es = "[\<lparr>base = 0x1000, len = 0x3000, usable = True\<rparr>]"
  let ?m0 = "demo_paging\<lparr>first_usable := 0\<rparr>"
  have h: "highest_usable ?es = 0x4000" by (simp add: highest_usable_def)
  have "\<exists>m. init_paging 0x1000 (Some ?es) ?m0 = Ret m \<and> memory_bitmap m 3 = 0 \<and> usable_page_count m = 4"
    by (simp add: init_paging_def h Let_def bitmap_place_def mark_def get_available_address_def find_free.simps clear_page_def
      page_no_def)
  then obtain m where m: "init_paging 0x1000 (Some ?es) ?m0 = Ret m" "memory_bitmap m 3 = 0" "usable_page_count m = 4" by blast
  have "get_available_address m \<noteq> Panic"
    using page_allocator_complete [OF m(1) _ _ rtranclp.rtrancl_refl] m(2,3) by (auto simp: h intro!: exI [of _ 3])
  then show ?thesis using m by blast
qed

end
