(* ===== verification/Pipe.thy ===== *)
theory Pipe
  imports Prelude
begin

text \<open>
  The kernel pipe, \<open>kernel/usermode/pipe.c\<close> and \<open>pipe.h\<close>: a ring of 8184 bytes with
  16-bit head indices and reference counts.  A reader's \<open>memcpy\<close> into the caller's buffer is
  the byte list in the result.  Where \<open>pipe_write\<close> yields the processor, what the other tasks
  do to the pipe before it runs again is an explicit event: a flag saying whether a signal became
  deliverable and the pipe's transformation.  The result \<open>None\<close> means that the call is still
  blocked when the given events are used up.
\<close>

definition PIPE_SIZE :: nat where "PIPE_SIZE = 8184"

record pipe =
  read_head :: u16
  write_head :: u16
  reader_count :: u16
  writer_count :: u16
  buffer :: "byte list"

definition create_pipe :: pipe where
  "create_pipe = \<lparr>read_head = 0, write_head = 0, reader_count = 1, writer_count = 1,
     buffer = replicate PIPE_SIZE 0\<rparr>"

text \<open>The second component says whether \<open>kfree\<close> was called.\<close>

definition remove_pipe_reader :: "'a pipe_scheme \<Rightarrow> 'a pipe_scheme \<times> bool" where
  "remove_pipe_reader p =
     (let q = p\<lparr>reader_count := reader_count p - 1\<rparr>
      in (q, reader_count q = 0 \<and> writer_count q = 0))"

definition remove_pipe_writer :: "'a pipe_scheme \<Rightarrow> 'a pipe_scheme \<times> bool" where
  "remove_pipe_writer p =
     (let q = p\<lparr>writer_count := writer_count p - 1\<rparr>
      in (q, reader_count q = 0 \<and> writer_count q = 0))"

text \<open>\<open>pipe_read\<close>: the returned value, the bytes stored in the caller's buffer, the new pipe.\<close>

definition pipe_read :: "'a pipe_scheme \<Rightarrow> nat \<Rightarrow> int \<times> byte list \<times> 'a pipe_scheme" where
  "pipe_read p len =
     (let r = unat (read_head p); w = unat (write_head p) in
      if w \<ge> r then
        if w = r then
          (if writer_count p = 0 then (0, [], p) else (- EAGAIN, [], p))
        else
          (let max_bytes = w - r; n = (if len > max_bytes then max_bytes else len)
           in (int n, read_at (buffer p) r n, p\<lparr>read_head := read_head p + of_nat n\<rparr>))
      else
        (let max_bytes = (PIPE_SIZE - r + w) mod PIPE_SIZE;
             n = (if len > max_bytes then max_bytes else len);
             first_part_length = (if n < PIPE_SIZE - r then n else PIPE_SIZE - r);
             d1 = read_at (buffer p) r first_part_length;
             p1 = p\<lparr>read_head := of_nat ((r + first_part_length) mod PIPE_SIZE)\<rparr>
         in if first_part_length = n then (int n, d1, p1)
            else (int n, d1 @ read_at (buffer p) 0 (n - first_part_length),
                  p1\<lparr>read_head :=
                    of_nat ((unat (read_head p1) + n - first_part_length) mod PIPE_SIZE)\<rparr>)))"

text \<open>One pass of the copying part of the loop of \<open>pipe_write\<close>: the free space, and the copy
  of a chunk in at most two pieces.  The heads stay below \<open>PIPE_SIZE\<close> (see \<open>pipe_inv\<close>), so
  the \<open>int\<close> expression of the source is never negative.\<close>

definition pipe_available :: "'a pipe_scheme \<Rightarrow> nat" where
  "pipe_available p =
     (unat (read_head p) + PIPE_SIZE - (unat (write_head p) + 1)) mod PIPE_SIZE"

definition pipe_put_chunk :: "'a pipe_scheme \<Rightarrow> byte list \<Rightarrow> 'a pipe_scheme" where
  "pipe_put_chunk p chunk =
     (let w = unat (write_head p);
          first = (if PIPE_SIZE - w > length chunk then length chunk else PIPE_SIZE - w);
          b1 = write_at (buffer p) w (take first chunk);
          b2 = (if length chunk > first then write_at b1 0 (drop first chunk) else b1)
      in p\<lparr>buffer := b2, write_head := of_nat ((w + length chunk) mod PIPE_SIZE)\<rparr>)"

type_synonym 'a pipe_event = "bool \<times> ('a pipe_scheme \<Rightarrow> 'a pipe_scheme)"

function pipe_write_loop ::
    "'a pipe_event list \<Rightarrow> 'a pipe_scheme \<Rightarrow> byte list \<Rightarrow> nat \<Rightarrow> bool \<Rightarrow> (int \<times> 'a pipe_scheme) option" where
  "pipe_write_loop evs p src written blocking =
     (if written < length src then
        if reader_count p = 0 then
          Some (if written > 0 then int written else - EPIPE, p)
        else if pipe_available p = 0 then
          (if \<not> blocking then Some (if written > 0 then int written else - EAGAIN, p)
           else (case evs of
               [] \<Rightarrow> None
             | (sig, env) # evs' \<Rightarrow>
                 if sig then Some (- EINTR, p)
                 else pipe_write_loop evs' (env p) src written blocking))
        else
          (let chunk = (if length src - written > pipe_available p then pipe_available p
                        else length src - written)
           in pipe_write_loop evs (pipe_put_chunk p (read_at src written chunk)) src
                (written + chunk) blocking)
      else Some (int written, p))"
  by pat_completeness auto
termination
  by (relation "measure (\<lambda>(evs, p, src, written, blocking). length evs + (length src - written))")
     auto

declare pipe_write_loop.simps [simp del]

definition pipe_write ::
    "'a pipe_event list \<Rightarrow> 'a pipe_scheme \<Rightarrow> byte list \<Rightarrow> bool \<Rightarrow> (int \<times> 'a pipe_scheme) option" where
  "pipe_write evs p src blocking =
     (if length src = 0 then Some (0, p)
      else if reader_count p = 0 then Some (- EPIPE, p)
      else pipe_write_loop evs p src 0 blocking)"

section \<open>Invariant and abstraction\<close>

definition pipe_inv :: "'a pipe_scheme \<Rightarrow> bool" where
  "pipe_inv p \<longleftrightarrow> length (buffer p) = PIPE_SIZE \<and>
     unat (read_head p) < PIPE_SIZE \<and> unat (write_head p) < PIPE_SIZE"

definition pipe_contents :: "'a pipe_scheme \<Rightarrow> byte list" where
  "pipe_contents p = ring_list (buffer p) (unat (read_head p)) (unat (write_head p))"

lemma unat_of_nat_u16 [simp]: "n < 65536 \<Longrightarrow> unat (of_nat n :: u16) = n"
  by (simp add: unat_of_nat take_bit_nat_eq_self_iff)

lemma pipe_idx [simp]: "unat (of_nat (n mod PIPE_SIZE) :: u16) = n mod PIPE_SIZE"
proof -
  have "n mod PIPE_SIZE < 65536" by (rule less_trans [of _ PIPE_SIZE]) (simp_all add: PIPE_SIZE_def)
  then show ?thesis by simp
qed

lemma pipe_inv_create [simp]: "pipe_inv create_pipe"
  by (simp add: pipe_inv_def create_pipe_def PIPE_SIZE_def)

lemma pipe_contents_create [simp]: "pipe_contents create_pipe = []"
  by (simp add: pipe_contents_def create_pipe_def ring_list_def ring_len_def)

lemma length_pipe_contents:
  "pipe_inv p \<Longrightarrow> length (pipe_contents p) = ring_len PIPE_SIZE (unat (read_head p)) (unat (write_head p))"
  by (simp add: pipe_contents_def pipe_inv_def)

lemma pipe_contents_bound: "pipe_inv p \<Longrightarrow> length (pipe_contents p) < PIPE_SIZE"
  by (simp add: length_pipe_contents pipe_inv_def ring_len_less)

lemma pipe_contents_Nil: "pipe_inv p \<Longrightarrow> pipe_contents p = [] \<longleftrightarrow> read_head p = write_head p"
  by (metis length_0_conv length_pipe_contents pipe_inv_def ring_len_0 word_unat_eq_iff)

lemma pipe_available_eq:
  "pipe_inv p \<Longrightarrow> pipe_available p = PIPE_SIZE - 1 - length (pipe_contents p)"
  unfolding pipe_available_def
  by (simp add: length_pipe_contents pipe_inv_def)
     (auto simp: ring_len_def mod_if)

lemma pipe_put_chunk_spec:
  assumes "pipe_inv p" and "length chunk \<le> pipe_available p"
  shows "pipe_inv (pipe_put_chunk p chunk)"
    and "pipe_contents (pipe_put_chunk p chunk) = pipe_contents p @ chunk"
    and "reader_count (pipe_put_chunk p chunk) = reader_count p"
proof -
  let ?w = "unat (write_head p)"
  have len: "length (buffer p) = PIPE_SIZE" and w: "?w < PIPE_SIZE"
    and r: "unat (read_head p) < PIPE_SIZE"
    using assms by (simp_all add: pipe_inv_def)
  have fits: "ring_len PIPE_SIZE (unat (read_head p)) ?w + length chunk < PIPE_SIZE"
    using assms pipe_contents_bound [OF assms(1)]
    by (simp add: pipe_available_eq length_pipe_contents)
  have put: "pipe_put_chunk p chunk =
      p\<lparr>buffer := ring_write (buffer p) ?w chunk,
        write_head := of_nat ((?w + length chunk) mod PIPE_SIZE)\<rparr>"
    using len by (simp add: pipe_put_chunk_def ring_write_def Let_def min_def)
  show "pipe_inv (pipe_put_chunk p chunk)"
    using len w r fits by (simp add: put pipe_inv_def PIPE_SIZE_def)
  show "pipe_contents (pipe_put_chunk p chunk) = pipe_contents p @ chunk"
    using len w r fits ring_list_write [of "unat (read_head p)" "buffer p" ?w chunk]
    by (simp add: put pipe_contents_def)
  show "reader_count (pipe_put_chunk p chunk) = reader_count p"
    by (simp add: put)
qed


text \<open>Moving the read index forward by \<open>n\<close> bytes drops \<open>n\<close> bytes of the contents.\<close>

lemma pipe_advance_read:
  assumes "pipe_inv p" and "n \<le> length (pipe_contents p)"
    and "buffer q = buffer p" "write_head q = write_head p"
    and "unat (read_head q) = (unat (read_head p) + n) mod PIPE_SIZE"
  shows "pipe_inv q" and "pipe_contents q = drop n (pipe_contents p)"
  using assms ring_list_drop [of "unat (read_head p)" "buffer p" "unat (write_head p)" n]
  by (simp_all add: length_pipe_contents pipe_inv_def pipe_contents_def PIPE_SIZE_def)

lemma pipe_read_straight:
  assumes inv: "pipe_inv p" and ord: "unat (read_head p) < unat (write_head p)"
    and n: "n = min len (length (pipe_contents p))"
  shows "pipe_read p len = (int n, take n (pipe_contents p), p\<lparr>read_head := read_head p + of_nat n\<rparr>)"
    and "unat (read_head p + of_nat n) = (unat (read_head p) + n) mod PIPE_SIZE"
proof -
  let ?r = "unat (read_head p)" and ?w = "unat (write_head p)"
  have len: "length (pipe_contents p) = ?w - ?r"
    using inv ord by (simp add: length_pipe_contents ring_len_def)
  have n': "n = (if len > ?w - ?r then ?w - ?r else len)"
    by (simp add: n len min_def)
  have "n \<le> ?w - ?r"
    by (simp add: n len)
  then have "read_at (buffer p) ?r n = take n (pipe_contents p)"
    using inv ord ring_list_take_straight [of ?r ?w "buffer p" n]
    by (simp add: pipe_contents_def pipe_inv_def)
  then show "pipe_read p len = (int n, take n (pipe_contents p), p\<lparr>read_head := read_head p + of_nat n\<rparr>)"
    using ord unfolding pipe_read_def Let_def n' [symmetric] by simp
  have "?r + n < PIPE_SIZE"
    using inv ord \<open>n \<le> ?w - ?r\<close> by (auto simp: pipe_inv_def)
  then show "unat (read_head p + of_nat n) = (?r + n) mod PIPE_SIZE"
    by (simp add: unat_add_lem [THEN iffD1] PIPE_SIZE_def)
qed

lemma pipe_wrap_index:
  assumes "r < PIPE_SIZE" and "f = (if n < PIPE_SIZE - r then n else PIPE_SIZE - r)"
  shows "((r + f) mod PIPE_SIZE + n - f) mod PIPE_SIZE = (r + n) mod PIPE_SIZE"
proof (cases "f = n")
  case False
  then have f: "f = PIPE_SIZE - r" "f \<le> n" using assms by (auto split: if_splits)
  then have "(r + f) mod PIPE_SIZE = 0" using assms by simp
  moreover have "(n - f) mod PIPE_SIZE = (n - f + PIPE_SIZE) mod PIPE_SIZE" by simp
  moreover have "n - f + PIPE_SIZE = r + n" using f assms by simp
  ultimately show ?thesis by simp
qed simp

lemma pipe_read_wrap:
  assumes inv: "pipe_inv p" and ord: "unat (write_head p) < unat (read_head p)"
    and n: "n = min len (length (pipe_contents p))"
  shows "\<exists>h. pipe_read p len = (int n, take n (pipe_contents p), p\<lparr>read_head := h\<rparr>) \<and>
    unat h = (unat (read_head p) + n) mod PIPE_SIZE"
proof -
  let ?r = "unat (read_head p)" and ?w = "unat (write_head p)"
  define f where "f = (if n < PIPE_SIZE - ?r then n else PIPE_SIZE - ?r)"
  have heads: "?r < PIPE_SIZE" "?w < PIPE_SIZE" "length (buffer p) = PIPE_SIZE"
    using inv by (simp_all add: pipe_inv_def)
  have max: "(PIPE_SIZE - ?r + ?w) mod PIPE_SIZE = length (pipe_contents p)"
    using inv heads ord by (simp add: length_pipe_contents ring_len_def)
  have n': "n = (if len > length (pipe_contents p) then length (pipe_contents p) else len)"
    by (simp add: n min_def)
  have data: "take n (pipe_contents p) = read_at (buffer p) ?r f @ read_at (buffer p) 0 (n - f)"
    using inv heads ring_list_take_wrap [of ?r "buffer p" ?w n] length_pipe_contents [OF inv] n
    by (simp add: pipe_contents_def f_def min_def)
  have rd: "pipe_read p len =
     (let p1 = p\<lparr>read_head := of_nat ((?r + f) mod PIPE_SIZE)\<rparr>
      in if f = n then (int n, read_at (buffer p) ?r f, p1)
         else (int n, take n (pipe_contents p), p1\<lparr>read_head :=
                  of_nat ((unat (read_head p1) + n - f) mod PIPE_SIZE)\<rparr>))"
    using ord unfolding pipe_read_def Let_def max n' [symmetric] f_def [symmetric] data by simp
  show ?thesis
  proof (cases "f = n")
    case True
    then have "take n (pipe_contents p) = read_at (buffer p) ?r f"
      using data by (simp add: read_at_def)
    with True rd show ?thesis
      by (auto intro!: exI [of _ "of_nat ((?r + n) mod PIPE_SIZE)"])
  next
    case False
    with rd pipe_wrap_index [OF heads(1) f_def] show ?thesis
      by (auto simp: Let_def intro!: exI [of _ "of_nat ((?r + n) mod PIPE_SIZE)"])
  qed
qed

lemma pipe_read_nonempty:
  assumes inv: "pipe_inv p" and ne: "pipe_contents p \<noteq> []"
  shows "\<exists>h. pipe_read p len = (int (min len (length (pipe_contents p))),
      take len (pipe_contents p), p\<lparr>read_head := h\<rparr>)
    \<and> pipe_inv (p\<lparr>read_head := h\<rparr>) \<and> pipe_contents (p\<lparr>read_head := h\<rparr>) = drop len (pipe_contents p)"
proof -
  define n where "n = min len (length (pipe_contents p))"
  have "\<exists>h. pipe_read p len = (int n, take n (pipe_contents p), p\<lparr>read_head := h\<rparr>) \<and>
      unat h = (unat (read_head p) + n) mod PIPE_SIZE"
  proof (cases "unat (read_head p) < unat (write_head p)")
    case True
    with pipe_read_straight [OF inv this n_def] show ?thesis by blast
  next
    case False
    with inv ne have "unat (write_head p) < unat (read_head p)"
      by (simp add: pipe_contents_Nil word_unat_eq_iff)
    then show ?thesis by (rule pipe_read_wrap [OF inv _ n_def])
  qed
  then obtain h where h: "pipe_read p len = (int n, take n (pipe_contents p), p\<lparr>read_head := h\<rparr>)"
      "unat h = (unat (read_head p) + n) mod PIPE_SIZE"
    by blast
  have "take n (pipe_contents p) = take len (pipe_contents p)"
    "drop n (pipe_contents p) = drop len (pipe_contents p)"
    by (simp_all add: n_def min_def)
  with h pipe_advance_read [OF inv, of n "p\<lparr>read_head := h\<rparr>"] show ?thesis
    by (auto simp: n_def)
qed

lemma pipe_read_empty:
  assumes "pipe_inv p" and "pipe_contents p = []"
  shows "pipe_read p len = (if writer_count p = 0 then 0 else - EAGAIN, [], p)"
  using assms by (simp add: pipe_read_def pipe_contents_Nil)

section \<open>Writing\<close>

text \<open>A pass that finds free space stores a chunk and goes on; with the ring full a non-blocking
  writer stops and reports what it has written.\<close>

lemma pipe_write_loop_chunk:
  assumes inv: "pipe_inv p" and "reader_count p \<noteq> 0" and "written < length src"
    and "pipe_available p \<noteq> 0"
    and k: "k = min (length src - written) (pipe_available p)"
  shows "\<exists>q. pipe_write_loop evs p src written b = pipe_write_loop evs q src (written + k) b \<and>
    pipe_inv q \<and> reader_count q = reader_count p \<and>
    pipe_contents q = pipe_contents p @ read_at src written k"
proof -
  let ?q = "pipe_put_chunk p (read_at src written k)"
  have "length (read_at src written k) \<le> pipe_available p"
    by (simp add: read_at_def k)
  note spec = pipe_put_chunk_spec [OF inv this]
  have "pipe_write_loop evs p src written b = pipe_write_loop evs ?q src (written + k) b"
    using assms by (subst pipe_write_loop.simps) (simp add: Let_def min_def)
  with spec show ?thesis by blast
qed

lemma pipe_write_loop_done [simp]: "pipe_write_loop evs p src (length src) b = Some (int (length src), p)"
  by (subst pipe_write_loop.simps) simp

lemma pipe_available_after:
  assumes "pipe_inv p" "pipe_inv q" "pipe_contents q = pipe_contents p @ xs"
    and "length xs = pipe_available p"
  shows "pipe_available q = 0"
  using assms pipe_contents_bound [OF assms(1)] by (simp add: pipe_available_eq)

lemma pipe_write_nonblocking_room:
  assumes inv: "pipe_inv p" and rd: "reader_count p \<noteq> 0" and ne: "src \<noteq> []"
    and room: "pipe_available p \<noteq> 0"
  shows "\<exists>q. pipe_write evs p src False = Some (int (min (length src) (pipe_available p)), q) \<and>
    pipe_inv q \<and> reader_count q = reader_count p \<and>
    pipe_contents q = pipe_contents p @ take (min (length src) (pipe_available p)) src"
proof -
  define k where "k = min (length src) (pipe_available p)"
  obtain q where q: "pipe_write_loop evs p src 0 False = pipe_write_loop evs q src k False"
      "pipe_inv q" "reader_count q = reader_count p" "pipe_contents q = pipe_contents p @ take k src"
    using pipe_write_loop_chunk [OF inv rd _ room, of 0 src k evs False] ne
    by (auto simp: k_def read_at_def)
  have "k > 0" using ne room by (simp add: k_def)
  have "pipe_write_loop evs q src k False = Some (int k, q)"
  proof (cases "k = length src")
    case False
    then have "pipe_available q = 0"
      using pipe_available_after [OF inv q(2) q(4)] by (simp add: k_def min_def split: if_splits)
    moreover have "k < length src"
      using False by (simp add: k_def min_def split: if_splits)
    ultimately show ?thesis
      using q(3) rd \<open>k > 0\<close> by (subst pipe_write_loop.simps) simp
  qed simp
  with q ne rd show ?thesis by (simp add: pipe_write_def k_def [symmetric])
qed

lemma pipe_write_nonblocking_full:
  assumes "reader_count p \<noteq> 0" "src \<noteq> []" "pipe_available p = 0"
  shows "pipe_write evs p src False = Some (- EAGAIN, p)"
  using assms by (simp add: pipe_write_def) (subst pipe_write_loop.simps, simp)

section \<open>The pipe as a byte channel\<close>

text \<open>The two ends as a \<open>read\<close> or \<open>write\<close> system call on a non-blocking descriptor sees them: a
  negative result moves no byte.\<close>

definition pipe_rd :: "'a pipe_scheme \<Rightarrow> nat \<Rightarrow> byte list \<times> 'a pipe_scheme" where
  "pipe_rd p n = (case pipe_read p n of (_, d, q) \<Rightarrow> (d, q))"

definition pipe_wr :: "'a pipe_scheme \<Rightarrow> byte list \<Rightarrow> nat \<times> 'a pipe_scheme" where
  "pipe_wr p xs = (case pipe_write [] p xs False of Some (res, q) \<Rightarrow> (nat res, q) | None \<Rightarrow> (0, p))"

lemma pipe_rd_spec:
  assumes "pipe_inv p" and "pipe_rd p n = (d, q)"
  shows "pipe_inv q \<and> d = take n (pipe_contents p) \<and> pipe_contents q = drop n (pipe_contents p)"
proof (cases "pipe_contents p = []")
  case True
  with assms pipe_read_empty [OF assms(1) True, of n] show ?thesis
    by (auto simp: pipe_rd_def split: if_splits)
next
  case False
  with assms pipe_read_nonempty [OF assms(1) False, of n] show ?thesis
    by (auto simp: pipe_rd_def)
qed

lemma pipe_wr_spec:
  assumes inv: "pipe_inv p" and wr: "pipe_wr p xs = (k, q)"
  shows "pipe_inv q \<and> k \<le> length xs \<and> pipe_contents q = pipe_contents p @ take k xs"
proof (cases "xs = [] \<or> reader_count p = 0 \<or> pipe_available p = 0")
  case True
  then have "k = 0 \<and> q = p"
    using wr pipe_write_nonblocking_full [of p xs "[]"]
    by (auto simp: pipe_wr_def pipe_write_def errno_simps split: if_splits)
  with inv show ?thesis by simp
next
  case False
  then have "reader_count p \<noteq> 0" "xs \<noteq> []" "pipe_available p \<noteq> 0" by auto
  from pipe_write_nonblocking_room [OF inv this, of "[]"] wr show ?thesis
    by (auto simp: pipe_wr_def)
qed

interpretation pipe_chan: byte_channel pipe_inv pipe_contents "PIPE_SIZE - 1" pipe_rd pipe_wr
proof unfold_locales
  fix s assume "pipe_inv s"
  then show "length (pipe_contents s) \<le> PIPE_SIZE - 1"
    using pipe_contents_bound [of s] by simp
qed (rule pipe_rd_spec pipe_wr_spec; assumption)+

text \<open>A run of non-blocking calls, as the contract of a byte channel gives it.\<close>

lemma pipe_nonblocking_stream:
  "chan_run pipe_rd pipe_wr create_pipe ops = (got, put, q) \<Longrightarrow> got @ pipe_contents q = put"
  using pipe_chan.run_stream [of create_pipe ops got put q] by simp

section \<open>Histories of a pipe\<close>

text \<open>A pipe with a log of what \<open>pipe_read\<close> has handed out.  While a writer sleeps other tasks read from
  the pipe or close its reading end; the stream of a pipe is what was delivered and what is still in it.\<close>

record logged_pipe = pipe +
  delivered :: "byte list"

datatype pipe_call = PipeRead nat | PipeCloseReader

fun other_task :: "pipe_call \<Rightarrow> logged_pipe \<Rightarrow> logged_pipe" where
  "other_task (PipeRead n) p = (case pipe_read p n of (_, d, q) \<Rightarrow> q\<lparr>delivered := delivered q @ d\<rparr>)"
| "other_task PipeCloseReader p = (if reader_count p = 0 then p else fst (remove_pipe_reader p))"

definition sleeps :: "(bool \<times> pipe_call list) list \<Rightarrow> (bool \<times> (logged_pipe \<Rightarrow> logged_pipe)) list" where
  "sleeps evs = map (\<lambda>(sig, cs). (sig, fold other_task cs)) evs"

definition stream :: "logged_pipe \<Rightarrow> byte list" where
  "stream p = delivered p @ pipe_contents p"

datatype pipe_op = PipeTask pipe_call | PipeWrite "byte list" bool "(bool \<times> pipe_call list) list"

text \<open>A run gives the writes with their results; it is \<open>None\<close> when a write is still asleep at its end.\<close>

fun pipe_run :: "logged_pipe \<Rightarrow> pipe_op list \<Rightarrow> ((byte list \<times> int) list \<times> logged_pipe) option" where
  "pipe_run p [] = Some ([], p)"
| "pipe_run p (PipeTask c # ops) = pipe_run (other_task c p) ops"
| "pipe_run p (PipeWrite src blocking evs # ops) =
     (case pipe_write (sleeps evs) p src blocking of
        None \<Rightarrow> None
      | Some (r, q) \<Rightarrow> map_option (\<lambda>(rs, t). ((src, r) # rs, t)) (pipe_run q ops))"

definition new_pipe :: logged_pipe where
  "new_pipe = \<lparr>read_head = 0, write_head = 0, reader_count = 1, writer_count = 1,
     buffer = replicate PIPE_SIZE 0, delivered = []\<rparr>"

text \<open>What a write with a given result has stored.\<close>

definition stored :: "byte list \<times> int \<Rightarrow> byte list \<Rightarrow> bool" where
  "stored w ys \<longleftrightarrow> (case w of (src, r) \<Rightarrow>
     if r \<ge> 0 then nat r \<le> length src \<and> ys = take (nat r) src
     else if r = - EINTR then (\<exists>k. ys = take k src)
     else (r = - EPIPE \<or> r = - EAGAIN) \<and> ys = [])"

lemma pipe_contents_log [simp]:
  "pipe_contents (p\<lparr>delivered := d\<rparr>) = pipe_contents p" "pipe_inv (p\<lparr>delivered := d\<rparr>) = pipe_inv p"
  "pipe_contents (p\<lparr>reader_count := n\<rparr>) = pipe_contents p" "pipe_inv (p\<lparr>reader_count := n\<rparr>) = pipe_inv p"
  by (simp_all add: pipe_contents_def pipe_inv_def)

lemma pipe_put_chunk_log [simp]: "delivered (pipe_put_chunk p chunk) = delivered p"
  by (simp add: pipe_put_chunk_def Let_def)

lemma other_task_keeps:
  assumes "pipe_inv p"
  shows "pipe_inv (other_task c p) \<and> stream (other_task c p) = stream p"
proof (cases c)
  case (PipeRead n)
  show ?thesis
  proof (cases "pipe_contents p = []")
    case True
    then show ?thesis using assms PipeRead pipe_read_empty [OF assms True, of n] by (simp add: stream_def)
  next
    case False
    then show ?thesis using PipeRead pipe_read_nonempty [OF assms False, of n] by (auto simp: stream_def)
  qed
next
  case PipeCloseReader
  then show ?thesis using assms by (simp add: remove_pipe_reader_def Let_def stream_def)
qed

lemma other_tasks_keep:
  "pipe_inv p \<Longrightarrow> pipe_inv (fold other_task cs p) \<and> stream (fold other_task cs p) = stream p"
  by (induction cs arbitrary: p) (auto simp: other_task_keeps)

text \<open>How far a write gets, whatever happens while it sleeps.\<close>

lemma pipe_write_loop_stream:
  assumes "pipe_inv p" "written \<le> length src" "pipe_write_loop (sleeps evs) p src written b = Some (r, q)"
  shows "pipe_inv q \<and> (\<exists>k. written \<le> k \<and> k \<le> length src \<and> stream q = stream p @ read_at src written (k - written) \<and>
    (if r \<ge> 0 then r = int k else r = - EINTR \<or> (r = - EPIPE \<or> r = - EAGAIN) \<and> k = 0))"
  using assms
proof (induction "length evs + (length src - written)" arbitrary: evs p written rule: less_induct)
  case less
  consider (finished) "written = length src" | (closed) "written < length src" "reader_count p = 0"
    | (full) "written < length src" "reader_count p \<noteq> 0" "pipe_available p = 0"
    | (room) "written < length src" "reader_count p \<noteq> 0" "pipe_available p \<noteq> 0"
    using less.prems by linarith
  then show ?case
  proof cases
    case finished
    then show ?thesis using less.prems by (auto simp: read_at_def)
  next
    case closed
    then have "q = p" "r = (if written > 0 then int written else - EPIPE)"
      using less.prems(3) by (simp_all add: pipe_write_loop.simps [of _ p])
    then show ?thesis using less.prems
      by (cases "written = 0") (auto simp: read_at_def errno_simps intro!: exI [of _ written])
  next
    case full
    show ?thesis
    proof (cases "b \<and> (\<exists>cs evs'. evs = (False, cs) # evs')")
      case True
      then obtain cs evs' where evs: "evs = (False, cs) # evs'" and b by blast
      note keep = other_tasks_keep [OF less.prems(1), of cs]
      have "pipe_write_loop (sleeps evs') (fold other_task cs p) src written b = Some (r, q)"
        using less.prems(3) full \<open>b\<close> by (simp add: evs sleeps_def pipe_write_loop.simps [of _ p])
      from less.hyps [OF _ _ less.prems(2) this] show ?thesis using keep evs by auto
    next
      case False
      then have "q = p" "r = - EINTR \<or> r = (if written > 0 then int written else - EAGAIN)"
        using less.prems(3) full
        by (auto simp: sleeps_def pipe_write_loop.simps [of _ p] split: list.splits if_splits prod.splits)
      then show ?thesis using less.prems
        by (cases "written = 0") (auto simp: read_at_def errno_simps intro!: exI [of _ written])
    qed
  next
    case room
    define c where "c = min (length src - written) (pipe_available p)"
    define p1 where "p1 = pipe_put_chunk p (read_at src written c)"
    have "length (read_at src written c) \<le> pipe_available p" by (simp add: read_at_def c_def)
    note put = pipe_put_chunk_spec [OF less.prems(1) this, folded p1_def]
    have c: "0 < c" "written + c \<le> length src" using room by (auto simp: c_def)
    have "pipe_write_loop (sleeps evs) p1 src (written + c) b = Some (r, q)"
      using less.prems(3) room
      by (simp add: pipe_write_loop.simps [of _ p] Let_def p1_def c_def min_def not_less split: if_splits)
    moreover have "length evs + (length src - (written + c)) < length evs + (length src - written)" using c by simp
    ultimately obtain k where k: "pipe_inv q" "written + c \<le> k" "k \<le> length src" "stream q = stream p1 @ read_at src (written + c) (k - (written + c))"
        "if r \<ge> 0 then r = int k else r = - EINTR \<or> (r = - EPIPE \<or> r = - EAGAIN) \<and> k = 0"
      using less.hyps [OF _ put(1) c(2)] by blast
    have "read_at src written c @ read_at src (written + c) (k - (written + c)) = read_at src written (k - written)"
      using k(2) take_add [of c "k - (written + c)" "drop written src"] by (simp add: read_at_def add.commute)
    then have "stream q = stream p @ read_at src written (k - written)"
      using k(4) put(2) by (simp add: stream_def p1_def [symmetric]) (simp add: p1_def)
    then show ?thesis using k c by (intro conjI exI [of _ k]) auto
  qed
qed

lemma pipe_write_stored:
  assumes "pipe_inv p" "pipe_write (sleeps evs) p src b = Some (r, q)"
  shows "pipe_inv q \<and> (\<exists>ys. stored (src, r) ys \<and> stream q = stream p @ ys)"
proof (cases "src = [] \<or> reader_count p = 0")
  case True
  then show ?thesis using assms by (auto simp: pipe_write_def stored_def errno_simps split: if_splits)
next
  case False
  then have "pipe_write_loop (sleeps evs) p src 0 b = Some (r, q)" using assms(2) by (simp add: pipe_write_def)
  from pipe_write_loop_stream [OF assms(1) _ this]
  obtain k where "pipe_inv q" "k \<le> length src" "stream q = stream p @ take k src"
      "if r \<ge> 0 then r = int k else r = - EINTR \<or> (r = - EPIPE \<or> r = - EAGAIN) \<and> k = 0"
    by (auto simp: read_at_def)
  then show ?thesis by (intro conjI exI [of _ "take k src"]) (auto simp: stored_def errno_simps split: if_splits)
qed

lemma pipe_run_stream:
  assumes "pipe_inv p" "pipe_run p ops = Some (rs, q)"
  shows "pipe_inv q \<and> (\<exists>yss. list_all2 stored rs yss \<and> stream q = stream p @ concat yss)"
  using assms
proof (induction p ops arbitrary: rs rule: pipe_run.induct)
  case (1 p)
  then show ?case by simp
next
  case (2 p c ops)
  then show ?case using other_task_keeps [of p c] by simp
next
  case (3 p src b evs ops)
  obtain r t rs' where w: "pipe_write (sleeps evs) p src b = Some (r, t)"
      and rest: "pipe_run t ops = Some (rs', q)" "rs = (src, r) # rs'"
    using "3.prems"(2) by (auto split: option.splits)
  from pipe_write_stored [OF "3.prems"(1) w] obtain ys where ys: "pipe_inv t" "stored (src, r) ys" "stream t = stream p @ ys" by blast
  from "3.IH" [OF w _ ys(1) rest(1)] obtain yss where "pipe_inv q" "list_all2 stored rs' yss" "stream q = stream t @ concat yss" by auto
  then show ?case using ys rest by (intro conjI exI [of _ "ys # yss"]) auto
qed

section \<open>A blocking writer\<close>

text \<open>What the writer relies on while it sleeps: the readers that run take at least one byte each.\<close>

fun takes_bytes :: "pipe_call \<Rightarrow> bool" where
  "takes_bytes (PipeRead n) = (n > 0)"
| "takes_bytes PipeCloseReader = False"

lemma reader_drains:
  assumes "pipe_inv p" "takes_bytes c"
  shows "reader_count (other_task c p) = reader_count p"
    and "pipe_available p \<le> pipe_available (other_task c p)"
    and "pipe_available p = 0 \<Longrightarrow> 0 < pipe_available (other_task c p)"
proof -
  obtain n where c: "c = PipeRead n" "n > 0" using assms(2) by (cases c) auto
  note inv' = other_task_keeps [OF assms(1), of c, THEN conjunct1]
  have *: "reader_count (other_task c p) = reader_count p \<and> pipe_contents (other_task c p) = drop n (pipe_contents p)"
  proof (cases "pipe_contents p = []")
    case True
    then show ?thesis using c pipe_read_empty [OF assms(1) True, of n] by simp
  next
    case False
    then show ?thesis using c pipe_read_nonempty [OF assms(1) False, of n] by auto
  qed
  then show "reader_count (other_task c p) = reader_count p" by blast
  show "pipe_available p \<le> pipe_available (other_task c p)"
    using * by (simp add: pipe_available_eq assms(1) inv')
  show "0 < pipe_available (other_task c p)" if "pipe_available p = 0"
    using * that c(2) pipe_contents_bound [OF assms(1)] by (simp add: pipe_available_eq assms(1) inv' PIPE_SIZE_def)
qed

lemma readers_drain:
  assumes "pipe_inv p" "list_all takes_bytes cs"
  shows "reader_count (fold other_task cs p) = reader_count p \<and> pipe_available p \<le> pipe_available (fold other_task cs p)"
  using assms
proof (induction cs arbitrary: p)
  case (Cons c cs)
  have c: "takes_bytes c" "list_all takes_bytes cs" using Cons.prems(2) by simp_all
  note one = reader_drains(1,2) [OF Cons.prems(1) c(1)]
  have "pipe_inv (other_task c p)" using other_task_keeps [OF Cons.prems(1), of c] by blast
  from Cons.IH [OF this c(2)] one show ?case by (auto intro: le_trans)
qed simp

lemma sleep_drains:
  assumes "pipe_inv p" "list_all takes_bytes cs" "cs \<noteq> []" "pipe_available p = 0"
  shows "reader_count (fold other_task cs p) = reader_count p \<and> 0 < pipe_available (fold other_task cs p)"
proof -
  obtain c cs' where cs: "cs = c # cs'" using assms(3) by (cases cs) auto
  then have "0 < pipe_available (other_task c p)" "reader_count (other_task c p) = reader_count p"
    using reader_drains [OF assms(1), of c] assms by auto
  then show ?thesis
    using readers_drain [of "other_task c p" cs'] other_task_keeps [OF assms(1), of c] assms(2) cs by auto
qed

lemma pipe_write_loop_blocking:
  assumes "pipe_inv p" "reader_count p \<noteq> 0" "written \<le> length src"
    and "\<forall>(sig, cs) \<in> set evs. \<not> sig \<and> cs \<noteq> [] \<and> list_all takes_bytes cs"
    and "length src - written \<le> length evs + pipe_available p"
  shows "\<exists>q. pipe_write_loop (sleeps evs) p src written True = Some (int (length src), q)"
  using assms
proof (induction "length evs + (length src - written)" arbitrary: evs p written rule: less_induct)
  case less
  consider (finished) "written = length src" | (full) "written < length src" "pipe_available p = 0"
    | (room) "written < length src" "pipe_available p \<noteq> 0"
    using less.prems by linarith
  then show ?case
  proof cases
    case finished
    then show ?thesis by simp
  next
    case full
    then obtain cs evs' where evs: "evs = (False, cs) # evs'" "cs \<noteq> []" "list_all takes_bytes cs"
      using less.prems by (cases evs) auto
    note dr = sleep_drains [OF less.prems(1) evs(3,2) full(2)] and keep = other_tasks_keep [OF less.prems(1), of cs]
    have "\<exists>q. pipe_write_loop (sleeps evs') (fold other_task cs p) src written True = Some (int (length src), q)"
      by (rule less.hyps) (use less.prems evs dr keep full in auto)
    then show ?thesis using full less.prems(2) by (simp add: evs sleeps_def pipe_write_loop.simps [of _ p])
  next
    case room
    define k where "k = min (length src - written) (pipe_available p)"
    from pipe_write_loop_chunk [OF less.prems(1,2) room k_def, of "sleeps evs" True]
    obtain q where q: "pipe_write_loop (sleeps evs) p src written True = pipe_write_loop (sleeps evs) q src (written + k) True"
      "pipe_inv q" "reader_count q = reader_count p" by blast
    have k: "k > 0" "written + k \<le> length src" using room by (simp_all add: k_def)
    have "\<exists>r. pipe_write_loop (sleeps evs) q src (written + k) True = Some (int (length src), r)"
      by (rule less.hyps) (use less.prems q k in \<open>auto simp: k_def\<close>)
    then show ?thesis using q by simp
  qed
qed

lemma new_pipe_inv [simp]: "pipe_inv new_pipe" "pipe_contents new_pipe = []" "delivered new_pipe = []" "reader_count new_pipe = 1"
  by (simp_all add: new_pipe_def pipe_inv_def pipe_contents_def ring_list_def ring_len_def PIPE_SIZE_def)

section \<open>Properties\<close>

text \<open>C8. Whatever is done to a new pipe (reads, writes that block or not with reads, closing of readers and signals
  while they sleep), the bytes handed to the readers followed by the bytes still in the ring are what the
  writes stored, in order: exactly the number of bytes it reported for a write that returned a
  count, none for one that failed with \<open>-EPIPE\<close> or \<open>-EAGAIN\<close>, and some unreported prefix for one that a signal
  interrupted.  The ring never holds more than \<open>PIPE_SIZE - 1\<close> bytes and its indices stay in range.\<close>

theorem pipe_stream:
  "case pipe_run new_pipe ops of
     None \<Rightarrow> True
   | Some (rs, q) \<Rightarrow> pipe_inv q \<and> length (pipe_contents q) \<le> PIPE_SIZE - 1 \<and>
       (\<exists>yss. list_all2 stored rs yss \<and> delivered q @ pipe_contents q = concat yss)"
proof (cases "pipe_run new_pipe ops")
  case (Some a)
  then obtain rs q where run: "pipe_run new_pipe ops = Some (rs, q)" by (cases a) auto
  from pipe_run_stream [OF new_pipe_inv(1) run] pipe_contents_bound [of q] show ?thesis
    by (auto simp: run stream_def)
qed simp

text \<open>\<open>pipe_read\<close> on every branch: an empty pipe returns 0 when no writer is left and
  \<open>-EAGAIN\<close> otherwise, without touching the pipe; otherwise the call returns the number of bytes
  delivered, which are the oldest ones, and removes exactly those.\<close>

theorem pipe_read_correct:
  assumes "pipe_inv p"
  shows "if pipe_contents p = []
    then pipe_read p len = (if writer_count p = 0 then 0 else - EAGAIN, [], p)
    else \<exists>q. pipe_read p len =
        (int (min len (length (pipe_contents p))), take len (pipe_contents p), q) \<and>
      pipe_inv q \<and> pipe_contents q = drop len (pipe_contents p) \<and>
      reader_count q = reader_count p \<and> writer_count q = writer_count p"
  using pipe_read_empty [OF assms, of len] pipe_read_nonempty [OF assms, of len] by fastforce

theorem pipe_read_correct_witness:
  "\<exists>p q :: pipe. pipe_inv p \<and> pipe_contents p = [7, 8] \<and> pipe_read p 1 = (1, [7], q) \<and> pipe_contents q = [8]"
proof -
  have "pipe_available create_pipe = PIPE_SIZE - 1"
    by (simp add: pipe_available_eq)
  then obtain p :: pipe where p: "pipe_inv p" "pipe_contents p = [7, 8]"
    using pipe_write_nonblocking_room [of create_pipe "[7, 8]" "[]"]
    by (auto simp: PIPE_SIZE_def create_pipe_def pipe_inv_create [unfolded create_pipe_def PIPE_SIZE_def]
        pipe_contents_create [unfolded create_pipe_def PIPE_SIZE_def])
  with pipe_read_correct [OF p(1), of 1] show ?thesis by auto
qed

text \<open>C21. A blocking \<open>pipe_write\<close> finishes: if no signal arrives and every time the writer sleeps at least one
  reader runs, each of which takes a byte, then as many wake-ups as there are bytes beyond the free space
  are enough for the call to return the full length, and the stream of the pipe (what the readers got,
  followed by what is still in the ring) has grown by exactly the written bytes.\<close>

theorem pipe_write_blocking_completes:
  assumes "pipe_inv p" "reader_count p \<noteq> 0"
    and "\<forall>(sig, cs) \<in> set evs. \<not> sig \<and> cs \<noteq> [] \<and> list_all takes_bytes cs"
    and "length src \<le> length evs + pipe_available p"
  shows "\<exists>q. pipe_write (sleeps evs) p src True = Some (int (length src), q) \<and> pipe_inv q \<and>
    delivered q @ pipe_contents q = delivered p @ pipe_contents p @ src"
proof -
  have "\<exists>q. pipe_write (sleeps evs) p src True = Some (int (length src), q)"
    using assms pipe_write_loop_blocking [OF assms(1,2) _ assms(3), of 0 src] by (auto simp: pipe_write_def)
  then obtain q where q: "pipe_write (sleeps evs) p src True = Some (int (length src), q)" ..
  with pipe_write_stored [OF assms(1) q] show ?thesis by (auto simp: stored_def stream_def)
qed

text \<open>A write of two bytes more than the ring holds, with a reader that takes one byte at a time.\<close>

theorem pipe_write_blocking_completes_witness:
  "\<exists>q. pipe_write (sleeps (replicate 2 (False, [PipeRead 1]))) new_pipe (replicate 8185 7) True = Some (8185, q) \<and>
    delivered q @ pipe_contents q = replicate 8185 7"
proof -
  have "pipe_available new_pipe = 8183" by (simp add: pipe_available_eq PIPE_SIZE_def)
  then show ?thesis
    using pipe_write_blocking_completes [of new_pipe "replicate 2 (False, [PipeRead 1])" "replicate 8185 7"] by auto
qed

end
