(* ===== verification/Paths.thy ===== *)
theory Paths
  imports Prelude
begin

text \<open>
  The path arithmetic of \<open>kernel/vfs.c\<close>: \<open>make_absolute\<close>, \<open>resolve_path\<close> and \<open>split_path\<close>.
  A path is a string without its terminating null character; the array \<open>out\<close> with its length
  \<open>len\<close> is the list of the characters stored so far, of which the source keeps the rest of the
  array undefined.  A store behind the end of an array of \<open>MAX_PATH\<close> characters is a \<open>Fault\<close>.
\<close>

definition MAX_PATH :: nat where
  "MAX_PATH = 4096"

abbreviation slash :: char where
  "slash \<equiv> CHR ''/''"

abbreviation dot :: char where
  "dot \<equiv> CHR ''.''"

definition make_absolute :: "string \<Rightarrow> string \<Rightarrow> string outcome" where
  "make_absolute wd path =
     (if path \<noteq> [] \<and> hd path = slash then Ret (take (MAX_PATH - 1) path)
      else let dir = take (MAX_PATH - 1) wd;
               base = (if dir = [] \<or> last dir \<noteq> slash then dir @ [slash] else dir)
           in if length base \<ge> MAX_PATH then Fault
              else Ret (base @ take (MAX_PATH - 1 - length base) path))"

text \<open>The loops of \<open>resolve_path\<close>: removing the last component of the output, and copying one
  component of the input.\<close>

function strip_component :: "string \<Rightarrow> string" where
  "strip_component out =
     (if length out > 1 \<and> last out \<noteq> slash then strip_component (butlast out) else out)"
  by pat_completeness auto
termination by (relation "measure length") auto

declare strip_component.simps [simp del]

definition remove_last_component :: "string \<Rightarrow> string" where
  "remove_last_component out =
     (if length out > 1
      then strip_component (if last out = slash then butlast out else out) else out)"

fun copy_component :: "string \<Rightarrow> string \<Rightarrow> string \<times> string" where
  "copy_component out [] = (out, [])"
| "copy_component out (c # path) =
     (if c \<noteq> slash \<and> length out < MAX_PATH - 1 then copy_component (out @ [c]) path
      else (out, c # path))"

definition skip_slashes :: "string \<Rightarrow> string" where
  "skip_slashes path = dropWhile (\<lambda>c. c = slash) path"

definition at_dot :: "string \<Rightarrow> bool" where
  "at_dot path \<longleftrightarrow> path \<noteq> [] \<and> hd path = dot \<and> (tl path = [] \<or> hd (tl path) = slash)"

definition at_dot_dot :: "string \<Rightarrow> bool" where
  "at_dot_dot path \<longleftrightarrow> path \<noteq> [] \<and> hd path = dot \<and> at_dot (tl path)"

lemma skip_slashes_length: "length (skip_slashes path) \<le> length path"
  by (simp add: skip_slashes_def length_dropWhile_le)

lemma copy_component_length: "length (snd (copy_component out path)) \<le> length path"
  by (induction out path rule: copy_component.induct) auto

lemma copy_component_grows: "length out \<le> length (fst (copy_component out path))"
  by (induction out path rule: copy_component.induct) auto

lemma copy_component_progress:
  "path \<noteq> [] \<Longrightarrow> length out < MAX_PATH - 1 \<Longrightarrow>
   length (skip_slashes (snd (copy_component out path))) < length path"
  using copy_component_length [of "out @ [hd path]" "tl path"]
  by (cases path) (auto simp: skip_slashes_def intro: le_less_trans [OF length_dropWhile_le] le_imp_less_Suc)

function resolve_loop :: "string \<Rightarrow> string \<Rightarrow> string" where
  "resolve_loop path out =
     (if path = [] \<or> length out \<ge> MAX_PATH - 1 then out
      else if at_dot path then resolve_loop (tl path) out
      else if at_dot_dot path then
        (let path1 = drop 2 path
         in resolve_loop (if path1 \<noteq> [] \<and> hd path1 = slash then tl path1 else path1)
              (remove_last_component out))
      else let out1 = (if last out \<noteq> slash then out @ [slash] else out) in
           case copy_component out1 path of (out2, path1) \<Rightarrow>
             resolve_loop (skip_slashes path1) out2)"
  by pat_completeness auto
termination
proof (relation "measures [\<lambda>(path, out). length path, \<lambda>(path, out). MAX_PATH - length out]", goal_cases)
  case (4 path out out1 out2 path1)
  then have path: "path \<noteq> []" "length out < MAX_PATH - 1" and out1: "out2 = fst (copy_component out1 path)"
      "path1 = snd (copy_component out1 path)"
    by (auto simp: prod_eq_iff split: if_splits)
  have le: "length (skip_slashes path1) \<le> length path"
    using copy_component_length [of out1 path] skip_slashes_length [of path1] out1(2) by simp
  show ?case
  proof (cases "length out1 < MAX_PATH - 1")
    case True
    then show ?thesis using copy_component_progress [OF path(1) True] out1(2) by simp
  next
    case False
    then have "length out < length out1" using path(2) by simp
    then have "length out < length out2" using copy_component_grows [of out1 path] out1(1) by simp
    then show ?thesis using le path(2) by auto
  qed
qed (auto simp: at_dot_def at_dot_dot_def)

declare resolve_loop.simps [simp del]

definition resolve_path :: "string \<Rightarrow> string" where
  "resolve_path path = (if path = [] then [slash] else resolve_loop (skip_slashes path) [slash])"

text \<open>\<open>split_path\<close>: the position of the last slash decides.\<close>

fun find_slash :: "string \<Rightarrow> nat \<Rightarrow> nat option \<Rightarrow> nat option" where
  "find_slash [] i found = found"
| "find_slash (c # path) i found = find_slash path (i + 1) (if c = slash then Some i else found)"

definition split_path :: "string \<Rightarrow> int + string \<times> string" where
  "split_path path =
     (if length path \<ge> MAX_PATH then Inl (- ENAMETOOLONG)
      else case find_slash path 0 None of
        None \<Rightarrow> Inr ([], path)
      | Some s \<Rightarrow> Inr (take (if s = 0 then 1 else s) path, drop (s + 1) path))"

section \<open>Normal forms\<close>

text \<open>The components of a path, and what they mean: a dot stays, two dots go to the parent (the
  parent of the root is the root), a name descends.\<close>

function components :: "string \<Rightarrow> string list" where
  "components path =
     (let p = skip_slashes path
      in if p = [] then [] else takeWhile (\<lambda>c. c \<noteq> slash) p # components (dropWhile (\<lambda>c. c \<noteq> slash) p))"
  by pat_completeness auto
termination
proof (relation "measure length", goal_cases)
  case (2 path p)
  then have "hd p \<noteq> slash" using hd_dropWhile [of "\<lambda>c. c = slash" path] by (simp add: skip_slashes_def)
  then have "length (dropWhile (\<lambda>c. c \<noteq> slash) p) < length p"
    using 2(2) by (cases p) (auto intro: le_imp_less_Suc length_dropWhile_le)
  then show ?case using skip_slashes_length [of path] 2(1) by simp
qed simp

declare components.simps [simp del]

definition norm_step :: "string list \<Rightarrow> string \<Rightarrow> string list" where
  "norm_step dir c = (if c = [dot] then dir else if c = [dot, dot] then butlast dir else dir @ [c])"

lemma norm_step_simps [simp]:
  "norm_step dir [dot] = dir" "norm_step dir [dot, dot] = butlast dir"
  by (simp_all add: norm_step_def)

definition normal_form :: "string list \<Rightarrow> string list" where
  "normal_form cs = foldl norm_step [] cs"

definition render :: "string list \<Rightarrow> string" where
  "render cs = concat (map (\<lambda>c. slash # c) cs)"

definition proper :: "string \<Rightarrow> bool" where
  "proper c \<longleftrightarrow> c \<noteq> [] \<and> slash \<notin> set c"

text \<open>\<open>out\<close> spells the list of names \<open>cs\<close>, with or without a slash at the end.\<close>

definition spells :: "string \<Rightarrow> string list \<Rightarrow> bool" where
  "spells out cs \<longleftrightarrow> (\<forall>c\<in>set cs. proper c) \<and> (out = render cs @ [slash] \<or> cs \<noteq> [] \<and> out = render cs)"

lemma components_Nil [simp]: "components [] = []"
  by (subst components.simps) (simp add: skip_slashes_def)

lemma components_slash [simp]: "components (slash # path) = components path"
  by (subst (1 2) components.simps) (simp add: skip_slashes_def)

lemma components_skip [simp]: "components (skip_slashes path) = components path"
  by (subst (1 2) components.simps) (simp add: skip_slashes_def)

lemma components_name:
  assumes "c \<noteq> []" "slash \<notin> set c" "rest = [] \<or> hd rest = slash"
  shows "components (c @ rest) = c # components rest"
proof -
  have "skip_slashes (c @ rest) = c @ rest"
    using assms by (cases c) (auto simp: skip_slashes_def)
  moreover have "takeWhile (\<lambda>x. x \<noteq> slash) (c @ rest) = c" "dropWhile (\<lambda>x. x \<noteq> slash) (c @ rest) = rest"
    using assms by (cases rest; auto simp: takeWhile_append dropWhile_append)+
  ultimately show ?thesis using assms(1) by (subst components.simps) (simp add: Let_def)
qed

lemma render_simps [simp]: "render [] = []" "render (cs @ [c]) = render cs @ slash # c"
  by (simp_all add: render_def)

lemma last_render: "cs \<noteq> [] \<Longrightarrow> \<forall>c\<in>set cs. proper c \<Longrightarrow> last (render cs) \<noteq> slash"
  by (cases cs rule: rev_cases) (auto simp: proper_def dest: last_in_set)

lemma spells_last: "spells out cs \<Longrightarrow> out \<noteq> [] \<and> (last out = slash \<longleftrightarrow> out = render cs @ [slash])"
  using last_render [of cs] by (cases cs rule: rev_cases) (auto simp: spells_def)

lemma components_render:
  "\<forall>c\<in>set cs. proper c \<Longrightarrow> rest = [] \<or> hd rest = slash \<Longrightarrow>
   components (render cs @ rest) = cs @ components rest"
proof (induction cs arbitrary: rest rule: rev_induct)
  case (snoc c cs)
  then have "components (render cs @ slash # c @ rest) = cs @ components (slash # c @ rest)" by simp
  then show ?case using snoc.prems components_name [of c rest] by (simp add: proper_def)
qed simp

lemma spells_components: "spells out cs \<Longrightarrow> components out = cs"
  using components_render [of cs "[]"] components_render [of cs "[slash]"]
  by (auto simp: spells_def)

lemma strip_component_name:
  "slash \<notin> set c \<Longrightarrow> strip_component (p @ slash # c) = p @ [slash]"
proof (induction c rule: rev_induct)
  case Nil
  then show ?case by (subst strip_component.simps) simp
next
  case (snoc x c)
  then show ?case by (subst strip_component.simps) (auto simp: butlast_append)
qed

lemma remove_last_spells:
  assumes "spells out cs"
  shows "spells (remove_last_component out) (butlast cs)"
    and "last (remove_last_component out) = slash" "length (remove_last_component out) \<le> length out"
proof -
  have "spells (remove_last_component out) (butlast cs) \<and> last (remove_last_component out) = slash \<and>
      length (remove_last_component out) \<le> length out"
  proof (cases cs rule: rev_cases)
    case Nil
    then show ?thesis using assms by (simp add: spells_def remove_last_component_def)
  next
    case (snoc ds c)
    then have c: "slash \<notin> set c" "c \<noteq> []" "\<forall>d\<in>set ds. proper d"
      using assms by (auto simp: spells_def proper_def)
    have "(if last out = slash then butlast out else out) = render ds @ slash # c"
      using spells_last [OF assms] assms snoc by (auto simp: spells_def butlast_append)
    moreover have "length out > 1" using assms snoc c(2) by (cases c) (auto simp: spells_def)
    ultimately have "remove_last_component out = render ds @ [slash]"
      using strip_component_name [OF c(1)] by (simp add: remove_last_component_def)
    then show ?thesis using snoc c assms by (auto simp: spells_def)
  qed
  then show "spells (remove_last_component out) (butlast cs)"
    and "last (remove_last_component out) = slash" "length (remove_last_component out) \<le> length out"
    by auto
qed

lemma copy_component_all:
  "length out + length (takeWhile (\<lambda>c. c \<noteq> slash) path) \<le> MAX_PATH - 1 \<Longrightarrow>
   copy_component out path = (out @ takeWhile (\<lambda>c. c \<noteq> slash) path, dropWhile (\<lambda>c. c \<noteq> slash) path)"
  by (induction out path rule: copy_component.induct) auto


text \<open>The loop keeps a spelling of the normal form of what it has consumed, and never runs into the
  end of the output array: what is written is never longer than what was read.\<close>

definition fits :: "string \<Rightarrow> string \<Rightarrow> bool" where
  "fits path out \<longleftrightarrow> (path = [] \<or>
     length out + (if last out = slash then 0 else 1) + length path \<le> MAX_PATH - 1)"

definition loop_inv :: "string list \<Rightarrow> string \<Rightarrow> string \<Rightarrow> bool" where
  "loop_inv cs path out \<longleftrightarrow> spells out cs \<and> fits path out \<and> length out \<le> MAX_PATH - 1"

lemma step_dot:
  assumes "loop_inv cs path out" "at_dot path"
  shows "loop_inv cs (tl path) out \<and> foldl norm_step cs (components path) = foldl norm_step cs (components (tl path))"
proof -
  obtain rest where path: "path = dot # rest" and tl: "rest = [] \<or> hd rest = slash"
    using assms(2) by (cases path) (auto simp: at_dot_def)
  then have "components path = [dot] # components rest" using components_name [of "[dot]" rest] by simp
  then show ?thesis using assms(1) path by (auto simp: loop_inv_def fits_def)
qed

lemma step_dots:
  assumes inv: "loop_inv cs path out" and "at_dot_dot path" and "rest = drop 2 path"
    and rest1: "rest1 = (if rest \<noteq> [] \<and> hd rest = slash then tl rest else rest)"
  shows "loop_inv (butlast cs) rest1 (remove_last_component out) \<and>
    foldl norm_step cs (components path) = foldl norm_step (butlast cs) (components rest1)"
proof -
  have path: "path = [dot, dot] @ rest" and tl: "rest = [] \<or> hd rest = slash"
    using assms(2,3) by (cases path; cases "tl path"; auto simp: at_dot_def at_dot_dot_def)+
  have "components path = [dot, dot] # components rest"
    using components_name [of "[dot, dot]" rest] tl path by simp
  moreover have "components rest = components rest1" using tl rest1 by (cases rest) auto
  moreover have "fits rest1 (remove_last_component out)"
    using inv remove_last_spells(2,3) [of out cs] path by (auto simp: loop_inv_def fits_def rest1)
  ultimately show ?thesis
    using inv remove_last_spells [of out cs] by (simp add: loop_inv_def)
qed

lemma step_name:
  assumes inv: "loop_inv cs path out" and path: "path \<noteq> []" and special: "\<not> at_dot path" "\<not> at_dot_dot path"
    and o1: "out1 = (if last out \<noteq> slash then out @ [slash] else out)"
    and copy: "copy_component out1 path = (out2, rest)"
  shows "\<exists>cs2. loop_inv cs2 (skip_slashes rest) out2 \<and>
    foldl norm_step cs (components path) = foldl norm_step cs2 (components (skip_slashes rest))"
proof -
  define name where "name = takeWhile (\<lambda>c. c \<noteq> slash) path"
  have bound: "length out1 + length path \<le> MAX_PATH - 1"
    using inv path by (auto simp: loop_inv_def fits_def o1)
  then have "length out1 + length name \<le> MAX_PATH - 1"
    using length_takeWhile_le [of "\<lambda>c. c \<noteq> slash" path] unfolding name_def by linarith
  then have out2: "out2 = out1 @ name" and rest: "rest = dropWhile (\<lambda>c. c \<noteq> slash) path"
    using copy_component_all [of out1 path] copy by (simp_all add: name_def)
  have split: "path = name @ rest" "slash \<notin> set name" "rest = [] \<or> hd rest = slash"
    using hd_dropWhile [of "\<lambda>c. c \<noteq> slash" path] by (auto simp: name_def rest dest: set_takeWhileD)
  have special: "name \<noteq> [dot]" "name \<noteq> [dot, dot]"
    using special split by (auto simp: at_dot_def at_dot_dot_def)
  define cs2 where "cs2 = (if name = [] then cs else norm_step cs name)"
  have "spells out cs" using inv by (simp add: loop_inv_def)
  then have "out1 = render cs @ [slash]" "\<forall>c\<in>set cs. proper c"
    using spells_last [of out cs] by (auto simp: o1 spells_def)
  then have "spells out2 cs2"
    using special split(2) by (auto simp: spells_def norm_step_def proper_def out2 cs2_def)
  moreover have "foldl norm_step cs (components path) = foldl norm_step cs2 (components (skip_slashes rest))"
    using components_name [of name rest] split by (cases "name = []") (auto simp: cs2_def)
  moreover have "fits (skip_slashes rest) out2"
  proof (cases "skip_slashes rest = []")
    case False
    then have "length (skip_slashes rest) < length rest"
      using split(3) skip_slashes_length [of "tl rest"] by (cases rest) (auto simp: skip_slashes_def)
    then show ?thesis using bound split(1) by (auto simp: fits_def out2)
  qed (simp add: fits_def)
  ultimately show ?thesis using bound split(1) by (auto simp: loop_inv_def out2)
qed

lemma resolve_loop_spells:
  "loop_inv cs path out \<Longrightarrow> loop_inv (foldl norm_step cs (components path)) [] (resolve_loop path out)"
proof (induction path out arbitrary: cs rule: resolve_loop.induct)
  case (1 path out)
  show ?case
  proof (cases "path = []")
    case True
    then show ?thesis using "1.prems" by (simp add: resolve_loop.simps)
  next
    case path: False
    then have room: "\<not> (path = [] \<or> length out \<ge> MAX_PATH - 1)"
      using "1.prems" by (cases path) (auto simp: loop_inv_def fits_def split: if_splits)
    note unfold = resolve_loop.simps [of path out]
    consider (dot) "at_dot path" | (dots) "\<not> at_dot path" "at_dot_dot path"
      | (name) "\<not> at_dot path" "\<not> at_dot_dot path" by blast
    then show ?thesis
    proof cases
      case dot
      then show ?thesis using "1.IH"(1) [OF room dot] step_dot [OF "1.prems" dot] room unfold by auto
    next
      case dots
      note step = step_dots [OF "1.prems" dots(2) refl refl]
      show ?thesis
        using "1.IH"(2) [OF room dots refl conjunct1 [OF step]] step room dots unfold by (simp add: Let_def)
    next
      case name
      obtain out2 rest where copy: "copy_component (if last out \<noteq> slash then out @ [slash] else out) path = (out2, rest)"
        by (cases "copy_component (if last out \<noteq> slash then out @ [slash] else out) path")
      from step_name [OF "1.prems" path name refl copy] obtain cs2 where
        step: "loop_inv cs2 (skip_slashes rest) out2"
          "foldl norm_step cs (components path) = foldl norm_step cs2 (components (skip_slashes rest))" by blast
      show ?thesis
        using "1.IH"(3) [OF room name refl copy [symmetric] step(1)] step(2) room name unfold copy
        by (simp add: Let_def)
    qed
  qed
qed

lemma resolve_path_spells:
  assumes "path \<noteq> []" "hd path = slash" "length path \<le> MAX_PATH - 1"
  shows "spells (resolve_path path) (normal_form (components path))" and "length (resolve_path path) \<le> MAX_PATH - 1"
proof -
  obtain p where p: "path = slash # p" using assms by (cases path) auto
  have "loop_inv [] (skip_slashes path) [slash]"
    using assms(3) skip_slashes_length [of p]
    by (auto simp: loop_inv_def spells_def fits_def p skip_slashes_def)
  from resolve_loop_spells [OF this] have inv: "loop_inv (normal_form (components path)) [] (resolve_path path)"
    using assms(1) by (simp add: resolve_path_def normal_form_def)
  then show "spells (resolve_path path) (normal_form (components path))" "length (resolve_path path) \<le> MAX_PATH - 1"
    by (simp_all add: loop_inv_def)
qed

lemma resolve_path_components:
  assumes "path \<noteq> [] \<and> hd path = slash \<and> length path \<le> MAX_PATH - 1"
  shows "components (resolve_path path) = normal_form (components path)"
  using resolve_path_spells(1) [of path] assms by (intro spells_components) simp

lemma make_absolute_absolute:
  assumes "make_absolute dir path = Ret p" and "dir = [] \<or> hd dir = slash"
  shows "p \<noteq> [] \<and> hd p = slash \<and> length p \<le> MAX_PATH - 1"
  using assms by (auto simp: make_absolute_def MAX_PATH_def Let_def hd_append split: if_splits)

text \<open>C32. \<open>resolve_path\<close> computes the normal form of every absolute path that fits into a path
  array: its result spells exactly the names that remain when the components are interpreted from left
  to right (a dot stays, two dots remove the last name and stay at the root, a name is appended), each
  preceded by one slash, possibly with one slash at the end, and it fits into the array as well.\<close>

theorem resolve_path_normal:
  assumes "path \<noteq> []" "hd path = slash" "length path \<le> MAX_PATH - 1"
  shows "resolve_path path \<in> {render (normal_form (components path)),
      render (normal_form (components path)) @ [slash]} \<and>
    components (resolve_path path) = normal_form (components path) \<and>
    length (resolve_path path) \<le> MAX_PATH - 1"
  using resolve_path_spells [OF assms] resolve_path_components [of path] assms by (auto simp: spells_def)

theorem resolve_path_normal_witness:
  "components (resolve_path ''/usr/./bin//../lib/'') = [''usr'', ''lib'']"
proof -
  have "components ''/usr/./bin//../lib/'' = [''usr'', ''.'', ''bin'', ''..'', ''lib'']"
    by (simp add: components.simps skip_slashes_def)
  then show ?thesis
    using resolve_path_normal [of "''/usr/./bin//../lib/''"]
    by (simp add: normal_form_def norm_step_def MAX_PATH_def)
qed

end
