(* ===== verification/Vfs.thy ===== *)
theory Vfs
  imports Devfs Paths
begin

text \<open>
  The virtual file system of \<open>kernel/vfs.c\<close> and \<open>vfs.h\<close>.  A file system driver is the record of
  its function pointers, over a driver state of any type \<open>'w\<close>; a pointer that the source tests
  before the call is an option.  Mount points live in a store indexed by their address, 0 for the
  null pointer, and are linked by \<open>parent\<close>, \<open>next\<close> and \<open>children\<close>; an access through a null or
  freed pointer is a \<open>Fault\<close>.  File handles are the drivers' 64-bit values.  The working
  directory of the current task is part of the state.
\<close>

record 'w filesystem =
  fs_name :: string
  fs_requires_backing :: bool
  fs_check :: "(block_device \<Rightarrow> 'w \<Rightarrow> (int \<times> 'w) outcome) option"
  fs_mount :: "block_device \<Rightarrow> u32 \<Rightarrow> 'w \<Rightarrow> (nat \<times> 'w) outcome"
  fs_unmount :: "(nat \<Rightarrow> 'w \<Rightarrow> (int \<times> 'w) outcome) option"
  fs_select :: "nat \<Rightarrow> 'w \<Rightarrow> 'w"
  fs_get_root :: "'w \<Rightarrow> nat outcome"
  fs_lookup :: "string \<Rightarrow> nat \<Rightarrow> 'w \<Rightarrow> ((int + nat) \<times> 'w) outcome"
  fs_open :: "(nat \<Rightarrow> 'w \<Rightarrow> (int \<times> 'w) outcome) option"
  fs_close :: "(nat \<Rightarrow> 'w \<Rightarrow> (int \<times> 'w) outcome) option"
  fs_readdir :: "(nat \<Rightarrow> int \<Rightarrow> 'w \<Rightarrow> ((int \<times> (string \<times> u32) option) \<times> 'w) outcome) option"
  fs_read :: "(nat \<Rightarrow> u64 \<Rightarrow> u64 \<Rightarrow> 'w \<Rightarrow> (int \<times> byte list \<times> 'w) outcome) option"
  fs_write :: "(nat \<Rightarrow> byte list \<Rightarrow> u64 \<Rightarrow> u64 \<Rightarrow> 'w \<Rightarrow> (int \<times> 'w) outcome) option"
  fs_stat :: "(nat \<Rightarrow> 'w \<Rightarrow> ((int \<times> stat_t) \<times> 'w) outcome) option"
  fs_mknod :: "(string \<Rightarrow> u32 \<Rightarrow> u64 \<Rightarrow> 'w \<Rightarrow> (int \<times> 'w) outcome) option"
  fs_create_file :: "(string \<Rightarrow> 'w \<Rightarrow> (int \<times> 'w) outcome) option"
  fs_create_directory :: "(string \<Rightarrow> 'w \<Rightarrow> (int \<times> 'w) outcome) option"
  fs_remove :: "(string \<Rightarrow> 'w \<Rightarrow> (int \<times> 'w) outcome) option"
  fs_rename :: "(string \<Rightarrow> string \<Rightarrow> 'w \<Rightarrow> (int \<times> 'w) outcome) option"
  fs_link :: "(nat \<Rightarrow> string \<Rightarrow> 'w \<Rightarrow> (int \<times> 'w) outcome) option"
  fs_truncate :: "(nat \<Rightarrow> u64 \<Rightarrow> 'w \<Rightarrow> (int \<times> 'w) outcome) option"

record mountpoint =
  mp_handle :: nat
  mp_type :: nat
  mp_refcount :: int
  mp_fs_data :: nat
  mp_parent :: nat
  mp_next :: nat
  mp_children :: nat

record 'w vfs =
  filesystems :: "'w filesystem list"
  vfs_root :: nat
  mounts :: "nat \<Rightarrow> mountpoint option"
  next_mount :: nat
  wd :: string
  world :: 'w

record file_handle =
  fh_mountpoint :: nat
  fh_handle :: nat

definition register_filesystem :: "'w vfs \<Rightarrow> 'w filesystem \<Rightarrow> int \<times> 'w vfs" where
  "register_filesystem v fs =
     (if length (filesystems v) \<ge> 24 then (- ENOSPC, v)
      else (0, v\<lparr>filesystems := filesystems v @ [fs]\<rparr>))"

text \<open>Reading and writing through a pointer to a mount point, and the driver of a mount point; an
  array element without a driver has null function pointers.\<close>

definition mp_deref :: "'w vfs \<Rightarrow> nat \<Rightarrow> mountpoint outcome" where
  "mp_deref v p = (if p = 0 then Fault else case mounts v p of None \<Rightarrow> Fault | Some m \<Rightarrow> Ret m)"

definition mp_upd :: "'w vfs \<Rightarrow> nat \<Rightarrow> (mountpoint \<Rightarrow> mountpoint) \<Rightarrow> 'w vfs outcome" where
  "mp_upd v p f = bind_outcome (mp_deref v p) (\<lambda>m. Ret (v\<lparr>mounts := (mounts v)(p \<mapsto> f m)\<rparr>))"

definition mp_filesystem :: "'w vfs \<Rightarrow> mountpoint \<Rightarrow> 'w filesystem outcome" where
  "mp_filesystem v m = (if mp_type m < length (filesystems v) then Ret (filesystems v ! mp_type m) else Fault)"

text \<open>\<open>fs = &filesystems[mount->type]; fs->select(mount->fs_data);\<close>\<close>

definition select_mount :: "'w vfs \<Rightarrow> nat \<Rightarrow> ('w filesystem \<times> 'w vfs) outcome" where
  "select_mount v p =
     bind_outcome (mp_deref v p) (\<lambda>m.
     bind_outcome (mp_filesystem v m) (\<lambda>fs.
       Ret (fs, v\<lparr>world := fs_select fs (mp_fs_data m) (world v)\<rparr>)))"

text \<open>A call of a driver operation.\<close>

definition on_world :: "'w vfs \<Rightarrow> ('a \<times> 'w) outcome \<Rightarrow> ('a \<times> 'w vfs) outcome" where
  "on_world v r = bind_outcome r (\<lambda>(x, w). Ret (x, v\<lparr>world := w\<rparr>))"

section \<open>From paths to handles\<close>

text \<open>The loop over the mount points below the current one; it stops at the end of the list or when it
  comes back to its head.  The fuel is one more than the number of addresses handed out.\<close>

fun find_child :: "'w vfs \<Rightarrow> nat \<Rightarrow> nat \<Rightarrow> nat \<Rightarrow> nat \<Rightarrow> nat option outcome" where
  "find_child v 0 hd0 m h = Blocks"
| "find_child v (Suc n) hd0 m h =
     bind_outcome (mp_deref v m) (\<lambda>mp.
       if mp_handle mp = h then Ret (Some m)
       else if mp_next mp \<noteq> 0 \<and> mp_next mp \<noteq> hd0 then find_child v n hd0 (mp_next mp) h
       else Ret None)"

definition child_mount :: "'w vfs \<Rightarrow> nat \<Rightarrow> nat \<Rightarrow> nat option outcome" where
  "child_mount v current h =
     bind_outcome (mp_deref v current) (\<lambda>c.
       if mp_children c = 0 then Ret None
       else find_child v (Suc (next_mount v)) (mp_children c) (mp_children c) h)"

text \<open>The component loop of \<open>find_mountpoint\<close>.  On success the result is the mount point, the handle
  and what remained of the path behind the last mount point crossed; \<open>Inl\<close> is the driver's error.\<close>

function mount_walk ::
  "'w vfs \<Rightarrow> nat \<Rightarrow> nat \<Rightarrow> string \<Rightarrow> string \<Rightarrow> ((int + nat \<times> nat \<times> string) \<times> 'w vfs) outcome" where
  "mount_walk v current h remaining path =
     (if path = [] then Ret (Inr (current, h, remaining), v)
      else case scan_component 256 path of (sub, rest) \<Rightarrow>
        if sub = [] then mount_walk v current h remaining (tl path)
        else if length sub \<ge> 256 then Fault
        else bind_outcome (mp_deref v current) (\<lambda>m.
             bind_outcome (mp_filesystem v m) (\<lambda>fs.
             bind_outcome (on_world v (fs_lookup fs sub h (world v))) (\<lambda>(res, v1).
               case res of
                 Inl e \<Rightarrow> Ret (Inl e, v1)
               | Inr nxt \<Rightarrow>
                   bind_outcome (child_mount v1 current nxt) (\<lambda>c. case c of
                     None \<Rightarrow> mount_walk v1 current nxt remaining rest
                   | Some m1 \<Rightarrow>
                       bind_outcome (select_mount v1 m1) (\<lambda>(fs1, v2).
                       bind_outcome (fs_get_root fs1 (world v2)) (\<lambda>r.
                         mount_walk v2 m1 r rest rest)))))))"
  by pat_completeness auto
termination
  by (relation "measure (\<lambda>(v, current, h, remaining, path). length path)") (auto dest: scan_component_shorter)

declare mount_walk.simps [simp del]

definition find_mountpoint :: "'w vfs \<Rightarrow> string \<Rightarrow> ((int + nat \<times> nat \<times> string) \<times> 'w vfs) outcome" where
  "find_mountpoint v path =
     bind_outcome (make_absolute (wd v) path) (\<lambda>absolute_path.
     let resolved_path = resolve_path absolute_path in
     bind_outcome (select_mount v (vfs_root v)) (\<lambda>(fs, v1).
     bind_outcome (fs_get_root fs (world v1)) (\<lambda>r.
       mount_walk v1 (vfs_root v) r resolved_path (skip_slashes resolved_path))))"

definition lookup :: "'w vfs \<Rightarrow> string \<Rightarrow> ((int + file_handle) \<times> 'w vfs) outcome" where
  "lookup v path =
     bind_outcome (find_mountpoint v path) (\<lambda>(r, v1). case r of
       Inl e \<Rightarrow> Ret (Inl e, v1)
     | Inr (m, h, _) \<Rightarrow> Ret (Inr \<lparr>fh_mountpoint = m, fh_handle = h\<rparr>, v1))"

function device_walk :: "devfs \<Rightarrow> nat \<Rightarrow> string \<Rightarrow> (int + nat) outcome" where
  "device_walk d h path =
     (if path = [] then Ret (Inr h)
      else case scan_component 256 path of (sub, rest) \<Rightarrow>
        if sub = [] then device_walk d h (tl path)
        else if length sub \<ge> 256 then Fault
        else bind_outcome (devfs_lookup d sub h) (\<lambda>r. case r of
               Inl e \<Rightarrow> Ret (Inl e)
             | Inr nxt \<Rightarrow> device_walk d nxt rest))"
  by pat_completeness auto
termination
  by (relation "measure (\<lambda>(d, h, path). length path)") (auto dest: scan_component_shorter)

declare device_walk.simps [simp del]

definition lookup_device :: "devfs \<Rightarrow> string \<Rightarrow> string \<Rightarrow> (int + nat) outcome" where
  "lookup_device d cwd path =
     bind_outcome (make_absolute cwd path) (\<lambda>absolute_path.
       device_walk d (devfs_get_root d) (skip_slashes (resolve_path absolute_path)))"

section \<open>File status\<close>

definition S_IFREG :: u32 where [flag_simps]: "S_IFREG = 32768"
definition S_IFDIR :: u32 where [flag_simps]: "S_IFDIR = 16384"
definition S_IFBLK :: u32 where [flag_simps]: "S_IFBLK = 24576"
definition S_IFCHR :: u32 where [flag_simps]: "S_IFCHR = 8192"

definition set_mode :: "stat_t \<Rightarrow> stat_t" where
  "set_mode st =
     (if st_type st = DT_FILE then st\<lparr>st_mode := S_IFREG OR 511\<rparr>
      else if st_type st = DT_DIR then st\<lparr>st_mode := S_IFDIR OR 511\<rparr>
      else if st_type st = DT_BLOCK then st\<lparr>st_mode := S_IFBLK OR 511\<rparr>
      else if st_type st = DT_CHAR then st\<lparr>st_mode := S_IFCHR OR 511\<rparr>
      else st)"

definition stat_handle :: "'w vfs \<Rightarrow> file_handle \<Rightarrow> ((int \<times> stat_t) \<times> 'w vfs) outcome" where
  "stat_handle v f =
     bind_outcome (select_mount v (fh_mountpoint f)) (\<lambda>(fs, v1).
       case fs_stat fs of
         None \<Rightarrow> Ret ((- ENOSYS, zero_stat), v1)
       | Some op \<Rightarrow>
           bind_outcome (on_world v1 (op (fh_handle f) (world v1))) (\<lambda>((res, st), v2).
             if res < 0 then Ret ((res, st), v2) else Ret ((res, set_mode st), v2)))"

definition stat :: "'w vfs \<Rightarrow> string \<Rightarrow> ((int \<times> stat_t) \<times> 'w vfs) outcome" where
  "stat v path =
     bind_outcome (find_mountpoint v path) (\<lambda>(r, v1). case r of
       Inl e \<Rightarrow> Ret ((e, zero_stat), v1)
     | Inr (m, h, _) \<Rightarrow> stat_handle v1 \<lparr>fh_mountpoint = m, fh_handle = h\<rparr>)"

section \<open>Mounting\<close>

fun find_type :: "'w filesystem list \<Rightarrow> nat \<Rightarrow> string \<Rightarrow> nat option" where
  "find_type [] i ty = None"
| "find_type (fs # fss) i ty = (if fs_name fs = ty then Some i else find_type fss (i + 1) ty)"

fun probe :: "'w filesystem list \<Rightarrow> nat \<Rightarrow> block_device \<Rightarrow> 'w vfs \<Rightarrow> (nat option \<times> 'w vfs) outcome" where
  "probe [] i dev v = Ret (None, v)"
| "probe (fs # fss) i dev v =
     (case (fs_requires_backing fs, fs_check fs) of
        (True, Some chk) \<Rightarrow>
          bind_outcome (on_world v (chk dev (world v))) (\<lambda>(res, v1).
            if res \<noteq> 0 then Ret (Some i, v1) else probe fss (i + 1) dev v1)
      | _ \<Rightarrow> probe fss (i + 1) dev v)"

text \<open>The block device a path names.\<close>

definition stat_block :: "'w vfs \<Rightarrow> string option \<Rightarrow> ((int + block_device) \<times> 'w vfs) outcome" where
  "stat_block v source =
     (case source of
        None \<Rightarrow> Ret (Inl (- EINVAL), v)
      | Some path \<Rightarrow>
          bind_outcome (stat v path) (\<lambda>((res, st), v1).
            if res < 0 then Ret (Inl res, v1)
            else if st_type st \<noteq> DT_BLOCK then Ret (Inl (- ENOTBLK), v1)
            else Ret (Inr (no_device\<lparr>bdev_major := major (st_rdev st), bdev_minor := minor (st_rdev st)\<rparr>), v1)))"

definition choose_filesystem ::
  "'w vfs \<Rightarrow> string option \<Rightarrow> string option \<Rightarrow> ((int + nat \<times> block_device) \<times> 'w vfs) outcome" where
  "choose_filesystem v source ty =
     (case ty of
        Some t \<Rightarrow>
          (case find_type (filesystems v) 0 t of
             None \<Rightarrow> Ret (Inl (- ENOSYS), v)
           | Some i \<Rightarrow>
               if fs_requires_backing (filesystems v ! i) then
                 bind_outcome (stat_block v source) (\<lambda>(r, v1). case r of
                   Inl e \<Rightarrow> Ret (Inl e, v1) | Inr dev \<Rightarrow> Ret (Inr (i, dev), v1))
               else Ret (Inr (i, no_device), v))
      | None \<Rightarrow>
          bind_outcome (stat_block v source) (\<lambda>(r, v1). case r of
            Inl e \<Rightarrow> Ret (Inl e, v1)
          | Inr dev \<Rightarrow>
              bind_outcome (probe (filesystems v1) 0 dev v1) (\<lambda>(i, v2). case i of
                None \<Rightarrow> Ret (Inl (- ENOSYS), v2) | Some i \<Rightarrow> Ret (Inr (i, dev), v2))))"

definition mount_filesystem ::
  "'w vfs \<Rightarrow> string option \<Rightarrow> string \<Rightarrow> string option \<Rightarrow> u32 \<Rightarrow> (int \<times> 'w vfs) outcome" where
  "mount_filesystem v source target ty flags =
     (if filesystems v = [] then Ret (- ENOENT, v)
      else bind_outcome (choose_filesystem v source ty) (\<lambda>(c, v1). case c of
        Inl e \<Rightarrow> Ret (e, v1)
      | Inr (fs_index, dev) \<Rightarrow>
          bind_outcome (find_mountpoint v1 target) (\<lambda>(r, v2). case r of
            Inl e \<Rightarrow> Ret (e, v2)
          | Inr (m, h, _) \<Rightarrow>
              bind_outcome (select_mount v2 m) (\<lambda>(fs, v3).
              bind_outcome (fs_get_root fs (world v3)) (\<lambda>root_h.
              if h = root_h then Ret (- EBUSY, v3)
              else
              bind_outcome (on_world v3 (fs_mount (filesystems v3 ! fs_index) dev flags (world v3))) (\<lambda>(data, v4).
              if data = 0 then Ret (- EIO, v4\<lparr>next_mount := next_mount v4 + 1\<rparr>)
              else
              bind_outcome (mp_deref v4 m) (\<lambda>mp.
              let new_mount = next_mount v4;
                  v5 = v4\<lparr>next_mount := new_mount + 1,
                    mounts := (mounts v4)(new_mount \<mapsto> \<lparr>mp_handle = h, mp_type = fs_index, mp_refcount = 0,
                      mp_fs_data = data, mp_parent = m, mp_next = mp_children mp, mp_children = 0\<rparr>)\<rparr> in
              bind_outcome (mp_upd v5 m (\<lambda>q. q\<lparr>mp_children := new_mount\<rparr>)) (\<lambda>v6.
                Ret (0, v6)))))))))"

definition mount_root_filesystem :: "'w vfs \<Rightarrow> devfs \<Rightarrow> string option \<Rightarrow> u32 \<Rightarrow> (int \<times> 'w vfs) outcome" where
  "mount_root_filesystem v d device flags =
     (if filesystems v = [] then Ret (- ENOENT, v)
      else case device of
        None \<Rightarrow> Ret (- EINVAL, v)
      | Some path \<Rightarrow>
          bind_outcome (lookup_device d (wd v) path) (\<lambda>r. case r of
            Inl e \<Rightarrow> Ret (e, v)
          | Inr h \<Rightarrow>
              bind_outcome (devfs_stat d h) (\<lambda>(res, st).
              if res < 0 then Ret (res, v)
              else if st_type st \<noteq> DT_BLOCK then Ret (- ENOTBLK, v)
              else
              let dev = no_device\<lparr>bdev_major := major (st_rdev st), bdev_minor := minor (st_rdev st)\<rparr> in
              bind_outcome (probe (filesystems v) 0 dev v) (\<lambda>(i, v1). case i of
                None \<Rightarrow> Ret (- ENOSYS, v1)
              | Some fs_index \<Rightarrow>
                  bind_outcome (on_world v1 (fs_mount (filesystems v1 ! fs_index) dev flags (world v1))) (\<lambda>(data, v2).
                  let p = next_mount v2 in
                  Ret (0, v2\<lparr>next_mount := p + 1, vfs_root := p,
                    mounts := (mounts v2)(p \<mapsto> \<lparr>mp_handle = 0, mp_type = fs_index, mp_refcount = 0,
                      mp_fs_data = data, mp_parent = 0, mp_next = 0, mp_children = 0\<rparr>)\<rparr>))))))"

text \<open>Unlinking a mount point from the list of its parent.\<close>

fun unlink_sibling :: "'w vfs \<Rightarrow> nat \<Rightarrow> nat \<Rightarrow> nat \<Rightarrow> nat \<Rightarrow> 'w vfs outcome" where
  "unlink_sibling v 0 sibling m nxt = Blocks"
| "unlink_sibling v (Suc n) sibling m nxt =
     (if sibling = 0 then Ret v
      else bind_outcome (mp_deref v sibling) (\<lambda>s.
        if mp_next s = m then mp_upd v sibling (\<lambda>q. q\<lparr>mp_next := nxt\<rparr>)
        else unlink_sibling v n (mp_next s) m nxt))"

definition unmount_filesystem :: "'w vfs \<Rightarrow> string \<Rightarrow> (int \<times> 'w vfs) outcome" where
  "unmount_filesystem v path =
     bind_outcome (lookup v path) (\<lambda>(r, v1). case r of
       Inl e \<Rightarrow> Ret (e, v1)
     | Inr f \<Rightarrow>
         let m = fh_mountpoint f in
         if m = vfs_root v1 then Ret (- EINVAL, v1)
         else bind_outcome (mp_deref v1 m) (\<lambda>mp.
         if mp_refcount mp > 0 \<or> mp_children mp \<noteq> 0 then Ret (- EBUSY, v1)
         else bind_outcome (mp_deref v1 (mp_parent mp)) (\<lambda>par.
         bind_outcome (if mp_children par = m then mp_upd v1 (mp_parent mp) (\<lambda>q. q\<lparr>mp_children := mp_next mp\<rparr>)
                       else unlink_sibling v1 (Suc (next_mount v1)) (mp_children par) m (mp_next mp)) (\<lambda>v2.
         bind_outcome (mp_filesystem v2 mp) (\<lambda>fs.
         bind_outcome (case fs_unmount fs of
             None \<Rightarrow> Ret (0, v2)
           | Some op \<Rightarrow> on_world v2 (op (mp_fs_data mp) (world v2))) (\<lambda>(res, v3).
         if res < 0 then Ret (res, v3)
         else Ret (0, v3\<lparr>mounts := (mounts v3)(m := None)\<rparr>)))))))"

section \<open>Open files\<close>

text \<open>The common part of \<open>open\<close>, \<open>clone_file_handle\<close> and \<open>close\<close>: the driver's operation, if it
  has one, and the count of the mount point.\<close>

definition count_file ::
  "'w vfs \<Rightarrow> file_handle \<Rightarrow> ('w filesystem \<Rightarrow> (nat \<Rightarrow> 'w \<Rightarrow> (int \<times> 'w) outcome) option) \<Rightarrow> int \<Rightarrow>
     (int \<times> 'w vfs) outcome" where
  "count_file v f oper change =
     bind_outcome (select_mount v (fh_mountpoint f)) (\<lambda>(fs, v1).
     bind_outcome (case oper fs of None \<Rightarrow> Ret (0, v1) | Some op \<Rightarrow> on_world v1 (op (fh_handle f) (world v1))) (\<lambda>(res, v2).
       if res < 0 then Ret (res, v2)
       else bind_outcome (mp_upd v2 (fh_mountpoint f) (\<lambda>q. q\<lparr>mp_refcount := mp_refcount q + change\<rparr>)) (\<lambda>v3.
         Ret (0, v3))))"

definition clone_file_handle :: "'w vfs \<Rightarrow> file_handle \<Rightarrow> (int \<times> 'w vfs) outcome" where
  "clone_file_handle v f = count_file v f fs_open 1"

definition vfs_open :: "'w vfs \<Rightarrow> string \<Rightarrow> ((int + file_handle) \<times> 'w vfs) outcome" where
  "vfs_open v path =
     bind_outcome (lookup v path) (\<lambda>(r, v1). case r of
       Inl e \<Rightarrow> Ret (Inl e, v1)
     | Inr f \<Rightarrow> bind_outcome (count_file v1 f fs_open 1) (\<lambda>(res, v2).
         if res < 0 then Ret (Inl res, v2) else Ret (Inr f, v2)))"

definition vfs_close :: "'w vfs \<Rightarrow> file_handle \<Rightarrow> (int \<times> 'w vfs) outcome" where
  "vfs_close v f = count_file v f fs_close (-1)"

text \<open>The file status the other operations ask for: \<open>!fs->stat || fs->stat(handle, &st) < 0\<close>.\<close>

definition stat_type_of :: "'w filesystem \<Rightarrow> 'w vfs \<Rightarrow> nat \<Rightarrow> (u32 option \<times> 'w vfs) outcome" where
  "stat_type_of fs v h =
     (case fs_stat fs of
        None \<Rightarrow> Ret (None, v)
      | Some op \<Rightarrow> bind_outcome (on_world v (op h (world v))) (\<lambda>((res, st), v1).
          Ret (if res < 0 then None else Some (st_type st), v1)))"

definition vfs_readdir :: "'w vfs \<Rightarrow> file_handle \<Rightarrow> int \<Rightarrow> ((int \<times> (string \<times> u32) option) \<times> 'w vfs) outcome" where
  "vfs_readdir v f index =
     bind_outcome (select_mount v (fh_mountpoint f)) (\<lambda>(fs, v1). case fs_readdir fs of
       None \<Rightarrow> Ret ((- ENOSYS, None), v1)
     | Some op \<Rightarrow>
         bind_outcome (stat_type_of fs v1 (fh_handle f)) (\<lambda>(ty, v2).
           if ty = None then Ret ((- ENOENT, None), v2)
           else if ty \<noteq> Some DT_DIR then Ret ((- ENOTDIR, None), v2)
           else if index = 0 then Ret ((1, Some (''.'', DT_DIR)), v2)
           else if index = 1 then Ret ((1, Some (''..'', DT_DIR)), v2)
           else on_world v2 (op (fh_handle f) (index - 2) (world v2))))"

definition read_file :: "'w vfs \<Rightarrow> file_handle \<Rightarrow> u64 \<Rightarrow> u64 \<Rightarrow> (int \<times> byte list \<times> 'w vfs) outcome" where
  "read_file v f off sz =
     bind_outcome (select_mount v (fh_mountpoint f)) (\<lambda>(fs, v1). case fs_read fs of
       None \<Rightarrow> Ret (- EINVAL, [], v1)
     | Some op \<Rightarrow>
         bind_outcome (stat_type_of fs v1 (fh_handle f)) (\<lambda>(ty, v2).
           if ty = None then Ret (- ENOENT, [], v2)
           else if ty = Some DT_DIR then Ret (- EISDIR, [], v2)
           else bind_outcome (op (fh_handle f) off sz (world v2)) (\<lambda>(res, bs, w).
             Ret (res, bs, v2\<lparr>world := w\<rparr>))))"

text \<open>\<open>write_file\<close> tests the pointer \<open>read\<close>, then calls \<open>write\<close>.\<close>

definition write_file :: "'w vfs \<Rightarrow> file_handle \<Rightarrow> byte list \<Rightarrow> u64 \<Rightarrow> u64 \<Rightarrow> (int \<times> 'w vfs) outcome" where
  "write_file v f buf off sz =
     bind_outcome (select_mount v (fh_mountpoint f)) (\<lambda>(fs, v1). case fs_read fs of
       None \<Rightarrow> Ret (- EINVAL, v1)
     | Some _ \<Rightarrow>
         bind_outcome (stat_type_of fs v1 (fh_handle f)) (\<lambda>(ty, v2).
           if ty = None then Ret (- ENOENT, v2)
           else if ty = Some DT_DIR then Ret (- EISDIR, v2)
           else case fs_write fs of
             None \<Rightarrow> Fault
           | Some op \<Rightarrow> on_world v2 (op (fh_handle f) buf off sz (world v2))))"

definition truncate :: "'w vfs \<Rightarrow> file_handle \<Rightarrow> u64 \<Rightarrow> (int \<times> 'w vfs) outcome" where
  "truncate v f new_size =
     bind_outcome (select_mount v (fh_mountpoint f)) (\<lambda>(fs, v1). case fs_truncate fs of
       None \<Rightarrow> Ret (- ENOSYS, v1)
     | Some op \<Rightarrow> on_world v1 (op (fh_handle f) new_size (world v1)))"

definition ioctl :: "'w blk \<Rightarrow> 'w chr \<Rightarrow> 'w vfs \<Rightarrow> file_handle \<Rightarrow> u64 \<Rightarrow> u64 \<Rightarrow> (int \<times> 'w vfs) outcome" where
  "ioctl bt ct v f request arg =
     bind_outcome (stat_handle v f) (\<lambda>((res, st), v1).
       if res < 0 then Ret (res, v1)
       else if st_type st = DT_BLOCK then
         on_world v1 (block_ioctl bt (no_device\<lparr>bdev_major := major (st_rdev st),
           bdev_minor := minor (st_rdev st)\<rparr>) request arg (world v1))
       else if st_type st = DT_CHAR then
         on_world v1 (char_ioctl ct \<lparr>cdev_major = major (st_rdev st), cdev_minor = minor (st_rdev st)\<rparr>
           request arg (world v1))
       else Ret (- ENOTTY, v1))"

section \<open>Names\<close>

definition remove_file :: "'w vfs \<Rightarrow> string \<Rightarrow> (int \<times> 'w vfs) outcome" where
  "remove_file v path =
     bind_outcome (find_mountpoint v path) (\<lambda>(r, v1). case r of
       Inl e \<Rightarrow> Ret (e, v1)
     | Inr (m, h, remaining) \<Rightarrow>
         if remaining = [] then Ret (- EBUSY, v1)
         else bind_outcome (select_mount v1 m) (\<lambda>(fs, v2).
         case fs_stat fs of
           None \<Rightarrow> Fault
         | Some st_op \<Rightarrow>
             bind_outcome (on_world v2 (st_op h (world v2))) (\<lambda>((res, st), v3).
             if res < 0 then Ret (res, v3)
             else bind_outcome
               (if st_type st = DT_DIR then (case fs_readdir fs of
                    None \<Rightarrow> Fault
                  | Some rd \<Rightarrow> bind_outcome (on_world v3 (rd h 0 (world v3))) (\<lambda>((n, _), v4). Ret (n \<noteq> 0, v4)))
                else Ret (False, v3)) (\<lambda>(full, v4).
               if full then Ret (- ENOTEMPTY, v4)
               else case fs_remove fs of
                 None \<Rightarrow> Ret (- ENOSYS, v4)
               | Some op \<Rightarrow> on_world v4 (op remaining (world v4))))))"

definition rename_file :: "'w vfs \<Rightarrow> string \<Rightarrow> string \<Rightarrow> (int \<times> 'w vfs) outcome" where
  "rename_file v old_path new_path =
     bind_outcome (find_mountpoint v old_path) (\<lambda>(r1, v1).
     bind_outcome (find_mountpoint v1 new_path) (\<lambda>(r2, v2).
       case r1 of
         Inl e \<Rightarrow> Ret (e, v2)
       | Inr (m1, _, rem1) \<Rightarrow> (case r2 of
           Inl e \<Rightarrow> Ret (e, v2)
         | Inr (m2, _, rem2) \<Rightarrow>
             if rem1 = [] then Ret (- EBUSY, v2)
             else if m1 \<noteq> m2 then Ret (- EXDEV, v2)
             else bind_outcome (select_mount v2 m1) (\<lambda>(fs, v3).
               case fs_rename fs of
                 None \<Rightarrow> Ret (- ENOSYS, v3)
               | Some op \<Rightarrow> on_world v3 (op rem1 rem2 (world v3))))))"

text \<open>The path handed to the driver's creating operations: the remaining path of the directory, a slash
  and the file name.  \<open>strncpy\<close> stores no terminator when the name does not fit, and its length
  argument wraps around when the directory alone fills the array; both are a \<open>Fault\<close>.\<close>

definition join_path :: "string \<Rightarrow> string \<Rightarrow> string outcome" where
  "join_path dir filename =
     (if length dir + length filename + 2 < MAX_PATH then Ret (dir @ [slash] @ filename) else Fault)"

definition create_entry ::
  "'w vfs \<Rightarrow> string \<Rightarrow> ('w filesystem \<Rightarrow> (string \<Rightarrow> 'w \<Rightarrow> (int \<times> 'w) outcome) option) \<Rightarrow> (int \<times> 'w vfs) outcome" where
  "create_entry v path oper =
     (case split_path path of
        Inl e \<Rightarrow> Ret (e, v)
      | Inr (dirname, filename) \<Rightarrow>
          bind_outcome (find_mountpoint v dirname) (\<lambda>(r, v1). case r of
            Inl e \<Rightarrow> Ret (e, v1)
          | Inr (m, _, remaining) \<Rightarrow>
              bind_outcome (join_path remaining filename) (\<lambda>full_path.
              bind_outcome (select_mount v1 m) (\<lambda>(fs, v2). case oper fs of
                None \<Rightarrow> Ret (- ENOSYS, v2)
              | Some op \<Rightarrow> on_world v2 (op full_path (world v2))))))"

definition create_file :: "'w vfs \<Rightarrow> string \<Rightarrow> (int \<times> 'w vfs) outcome" where
  "create_file v path = create_entry v path fs_create_file"

definition create_directory :: "'w vfs \<Rightarrow> string \<Rightarrow> (int \<times> 'w vfs) outcome" where
  "create_directory v path = create_entry v path fs_create_directory"

definition mknod :: "'w vfs \<Rightarrow> string \<Rightarrow> u32 \<Rightarrow> u64 \<Rightarrow> (int \<times> 'w vfs) outcome" where
  "mknod v path ty dev =
     create_entry v path (\<lambda>fs. map_option (\<lambda>op p w. op p ty dev w) (fs_mknod fs))"

text \<open>\<open>link\<close> ignores the result of \<open>split_path\<close>; when that fails its arrays are not filled and are
  used as they are, here a \<open>Fault\<close>.\<close>

definition link :: "'w vfs \<Rightarrow> string \<Rightarrow> string \<Rightarrow> (int \<times> 'w vfs) outcome" where
  "link v file path =
     bind_outcome (find_mountpoint v file) (\<lambda>(r, v1). case r of
       Inl e \<Rightarrow> Ret (e, v1)
     | Inr (m, h, _) \<Rightarrow>
         (case split_path path of
            Inl _ \<Rightarrow> Fault
          | Inr (dirname, filename) \<Rightarrow>
              bind_outcome (find_mountpoint v1 dirname) (\<lambda>(r2, v2). case r2 of
                Inl e \<Rightarrow> Ret (e, v2)
              | Inr (m2, _, remaining) \<Rightarrow>
                  if m \<noteq> m2 then Ret (- EXDEV, v2)
                  else bind_outcome (join_path remaining filename) (\<lambda>link_path.
                  bind_outcome (select_mount v2 m) (\<lambda>(fs, v3). case fs_link fs of
                    None \<Rightarrow> Ret (- ENOSYS, v3)
                  | Some op \<Rightarrow> on_world v3 (op h link_path (world v3)))))))"

definition getcwd :: "'w vfs \<Rightarrow> nat \<Rightarrow> string outcome" where
  "getcwd v len = (if len = 0 then Fault else Ret (take (len - 1) (wd v)))"

definition chdir :: "'w vfs \<Rightarrow> string \<Rightarrow> (int \<times> 'w vfs) outcome" where
  "chdir v path =
     bind_outcome (make_absolute (wd v) path) (\<lambda>absolute_path.
     let resolved_path = resolve_path absolute_path in
     bind_outcome (stat v resolved_path) (\<lambda>((res, st), v1).
       if res < 0 then Ret (res, v1)
       else if st_type st \<noteq> DT_DIR then Ret (- ENOTDIR, v1)
       else Ret (0, v1\<lparr>wd := take (MAX_PATH - 1) resolved_path\<rparr>)))"

section \<open>Path lookup on component lists\<close>

text \<open>The reference definition of path lookup: it walks along a list of names, without strings,
  slashes or remaining paths.\<close>

fun walk_names :: "'w vfs \<Rightarrow> nat \<Rightarrow> nat \<Rightarrow> string list \<Rightarrow> ((int + nat \<times> nat) \<times> 'w vfs) outcome" where
  "walk_names v current h [] = Ret (Inr (current, h), v)"
| "walk_names v current h (c # cs) =
     (if length c \<ge> 256 then Fault
      else bind_outcome (mp_deref v current) (\<lambda>m.
           bind_outcome (mp_filesystem v m) (\<lambda>fs.
           bind_outcome (on_world v (fs_lookup fs c h (world v))) (\<lambda>(res, v1).
             case res of
               Inl e \<Rightarrow> Ret (Inl e, v1)
             | Inr nxt \<Rightarrow>
                 bind_outcome (child_mount v1 current nxt) (\<lambda>ch. case ch of
                   None \<Rightarrow> walk_names v1 current nxt cs
                 | Some m1 \<Rightarrow>
                     bind_outcome (select_mount v1 m1) (\<lambda>(fs1, v2).
                     bind_outcome (fs_get_root fs1 (world v2)) (\<lambda>r.
                       walk_names v2 m1 r cs)))))))"

definition forget_remaining ::
  "((int + nat \<times> nat \<times> string) \<times> 'w vfs) outcome \<Rightarrow> ((int + nat \<times> nat) \<times> 'w vfs) outcome" where
  "forget_remaining x = bind_outcome x (\<lambda>(r, v). case r of
     Inl e \<Rightarrow> Ret (Inl e, v) | Inr (m, h, _) \<Rightarrow> Ret (Inr (m, h), v))"

lemma forget_simps [simp]:
  "forget_remaining Fault = Fault" "forget_remaining Blocks = Blocks" "forget_remaining Panic = Panic"
  "forget_remaining (Ret (Inl e, v)) = Ret (Inl e, v)"
  "forget_remaining (Ret (Inr (m, h, rem), v)) = Ret (Inr (m, h), v)"
  by (simp_all add: forget_remaining_def)

lemma forget_bind: "forget_remaining (bind_outcome x f) = bind_outcome x (\<lambda>y. forget_remaining (f y))"
  by (cases x) simp_all

lemma forget_bind_cong:
  "(\<And>y. x = Ret y \<Longrightarrow> forget_remaining (f y) = g y) \<Longrightarrow> forget_remaining (bind_outcome x f) = bind_outcome x g"
  by (cases x) simp_all

lemma scan_component_take:
  "scan_component n path = (let s = take n (takeWhile (\<lambda>c. c \<noteq> slash) path) in (s, drop (length s) path))"
  by (induction n path rule: scan_component.induct) (auto simp: Let_def)

lemma components_unfold:
  assumes "path \<noteq> []" "hd path \<noteq> slash"
  shows "components path = takeWhile (\<lambda>c. c \<noteq> slash) path # components (dropWhile (\<lambda>c. c \<noteq> slash) path)"
  using assms by (subst components.simps) (cases path; simp add: skip_slashes_def)

lemma mount_walk_names:
  "forget_remaining (mount_walk v current h remaining path) = walk_names v current h (components path)"
proof (induction v current h remaining path rule: mount_walk.induct)
  case (1 v current h remaining path)
  define name where "name = takeWhile (\<lambda>c. c \<noteq> slash) path"
  define rest where "rest = dropWhile (\<lambda>c. c \<noteq> slash) path"
  consider (empty) "path = []" | (sep) "path \<noteq> []" "hd path = slash"
    | (long) "path \<noteq> []" "hd path \<noteq> slash" "length name \<ge> 256"
    | (name) "path \<noteq> []" "hd path \<noteq> slash" "length name < 256" by linarith
  then show ?case
  proof cases
    case empty
    then show ?thesis by (simp add: mount_walk.simps)
  next
    case sep
    then have "scan_component 256 path = ([], path)" by (cases path) (simp_all add: scan_component_take)
    moreover have "components path = components (tl path)" using sep by (cases path) simp_all
    ultimately show ?thesis using 1(1) [OF sep(1) sym] sep
      by (subst mount_walk.simps) simp
  next
    case long
    then have "length (fst (scan_component 256 path)) = 256"
      by (simp add: scan_component_take name_def)
    then show ?thesis using long
      by (subst mount_walk.simps) (auto simp: components_unfold name_def split: prod.split)
  next
    case name
    have "take 256 name = name" using name(3) by simp
    then have scan: "scan_component 256 path = (name, rest)"
      using dropWhile_eq_drop [of "\<lambda>c. c \<noteq> slash" path] by (simp add: scan_component_take name_def rest_def Let_def)
    have nonempty: "name \<noteq> []" using name by (cases path) (auto simp: name_def)
    have short: "\<not> 256 \<le> length name" using name(3) by simp
    note IH = 1(2) [OF name(1) scan [symmetric] nonempty short refl]
      1(3) [OF name(1) scan [symmetric] nonempty short refl]
    have "components path = name # components rest"
      using components_unfold [OF name(1,2)] by (simp add: name_def rest_def)
    then show ?thesis using name(1) nonempty short
      by (subst mount_walk.simps)
        (auto simp: scan IH intro!: forget_bind_cong split: sum.split option.split prod.split)
  qed
qed


lemma find_mountpoint_names:
  assumes "make_absolute (wd v) path = Ret p" and wd: "wd v = [] \<or> hd (wd v) = slash"
  shows "forget_remaining (find_mountpoint v path) =
    bind_outcome (select_mount v (vfs_root v)) (\<lambda>(fs, v1).
    bind_outcome (fs_get_root fs (world v1)) (\<lambda>r.
      walk_names v1 (vfs_root v) r (normal_form (components p))))"
proof -
  have "components (skip_slashes (resolve_path p)) = normal_form (components p)"
    using resolve_path_components [OF make_absolute_absolute [OF assms]] by simp
  then show ?thesis
    by (auto simp: find_mountpoint_def assms(1) Let_def mount_walk_names intro!: forget_bind_cong)
qed

section \<open>Open files and mount points\<close>

text \<open>Operations that leave the mount points alone.  The rules below follow the structure of the
  definitions: every step of an operation keeps the table.\<close>

definition kept :: "'w vfs \<Rightarrow> 'w vfs \<Rightarrow> bool" where
  "kept v v1 \<longleftrightarrow> mounts v1 = mounts v \<and> next_mount v1 = next_mount v \<and> filesystems v1 = filesystems v"

definition keeps :: "'w vfs \<Rightarrow> ('a \<times> 'w vfs) outcome \<Rightarrow> bool" where
  "keeps v r \<longleftrightarrow> (\<forall>x v1. r = Ret (x, v1) \<longrightarrow> kept v v1)"

named_theorems keeps_intros

lemma kept_refl [simp]: "kept v v"
  by (simp add: kept_def)

lemma kept_fields [simp]: "kept v (v1\<lparr>world := w\<rparr>) \<longleftrightarrow> kept v v1" "kept v (v1\<lparr>wd := d\<rparr>) \<longleftrightarrow> kept v v1"
  by (simp_all add: kept_def)

lemma keeps_values [keeps_intros]:
  "keeps v Fault" "keeps v Blocks" "keeps v Panic" "kept v v1 \<Longrightarrow> keeps v (Ret (x, v1))"
  by (simp_all add: keeps_def)

lemma keeps_bind [keeps_intros]:
  "keeps v m \<Longrightarrow> (\<And>x v1. kept v v1 \<Longrightarrow> keeps v (f (x, v1))) \<Longrightarrow> keeps v (bind_outcome m f)"
  by (cases m) (auto simp: keeps_def)

lemma keeps_query:
  "(\<And>x. keeps v (f x)) \<Longrightarrow> keeps v (bind_outcome m f)"
  by (cases m) (auto simp: keeps_def)

lemmas keeps_queries [keeps_intros] =
  keeps_query [of v f "mp_deref v1 p" for v f v1 p] keeps_query [of v f "mp_filesystem v1 m" for v f v1 m]
  keeps_query [of v f "fs_get_root fs w" for v f fs w] keeps_query [of v f "make_absolute d p" for v f d p]
  keeps_query [of v f "join_path d p" for v f d p] keeps_query [of v f "child_mount v1 p h" for v f v1 p h]

lemma keeps_on_world [keeps_intros]: "kept v v1 \<Longrightarrow> keeps v (on_world v1 r)"
  by (cases r) (auto simp: keeps_def on_world_def kept_def)

lemma keeps_select [keeps_intros]: "kept v v1 \<Longrightarrow> keeps v (select_mount v1 p)"
  by (auto simp: select_mount_def keeps_def kept_def bind_outcome_eq_Ret)

lemma keeps_walk [keeps_intros]: "kept v0 v \<Longrightarrow> keeps v0 (mount_walk v current h remaining path)"
proof (induction v current h remaining path rule: mount_walk.induct)
  case (1 v current h remaining path)
  then show ?case
    by (subst mount_walk.simps)
      (auto split: prod.split sum.split option.split intro!: keeps_intros)
qed

lemma keeps_find [keeps_intros]: "kept v0 v \<Longrightarrow> keeps v0 (find_mountpoint v path)"
  by (auto simp: find_mountpoint_def Let_def intro!: keeps_intros)

lemma keeps_lookup [keeps_intros]: "kept v0 v \<Longrightarrow> keeps v0 (lookup v path)"
  by (auto simp: lookup_def split: sum.split intro!: keeps_intros)

lemma keeps_stat_handle [keeps_intros]: "kept v0 v \<Longrightarrow> keeps v0 (stat_handle v f)"
  by (auto simp: stat_handle_def split: option.split intro!: keeps_intros)

lemma keeps_stat [keeps_intros]: "kept v0 v \<Longrightarrow> keeps v0 (stat v path)"
  by (auto simp: stat_def split: sum.split intro!: keeps_intros)

lemma keeps_stat_type [keeps_intros]: "kept v0 v \<Longrightarrow> keeps v0 (stat_type_of fs v h)"
  by (auto simp: stat_type_of_def split: option.split intro!: keeps_intros)

lemma keeps_readdir [keeps_intros]: "kept v0 v \<Longrightarrow> keeps v0 (vfs_readdir v f i)"
  by (auto simp: vfs_readdir_def split: option.split intro!: keeps_intros)

lemma keeps_write [keeps_intros]: "kept v0 v \<Longrightarrow> keeps v0 (write_file v f buf off sz)"
  by (auto simp: write_file_def split: option.split intro!: keeps_intros)

lemma keeps_truncate [keeps_intros]: "kept v0 v \<Longrightarrow> keeps v0 (truncate v f n)"
  by (auto simp: truncate_def split: option.split intro!: keeps_intros)

lemma keeps_ioctl [keeps_intros]: "kept v0 v \<Longrightarrow> keeps v0 (ioctl bt ct v f request arg)"
  by (auto simp: ioctl_def intro!: keeps_intros)

lemma keeps_remove [keeps_intros]: "kept v0 v \<Longrightarrow> keeps v0 (remove_file v path)"
  by (auto simp: remove_file_def split: sum.split option.split intro!: keeps_intros)

lemma keeps_rename [keeps_intros]: "kept v0 v \<Longrightarrow> keeps v0 (rename_file v old new)"
  by (auto simp: rename_file_def split: sum.split option.split intro!: keeps_intros)

lemma keeps_create [keeps_intros]: "kept v0 v \<Longrightarrow> keeps v0 (create_entry v path oper)"
  by (auto simp: create_entry_def split: sum.split option.split intro!: keeps_intros)

lemma keeps_link [keeps_intros]: "kept v0 v \<Longrightarrow> keeps v0 (link v file path)"
  by (auto simp: link_def split: sum.split option.split intro!: keeps_intros)

lemma keeps_chdir [keeps_intros]: "kept v0 v \<Longrightarrow> keeps v0 (chdir v path)"
  by (auto simp: chdir_def Let_def intro!: keeps_intros)

lemma keeps_probe [keeps_intros]: "kept v0 v \<Longrightarrow> keeps v0 (probe fss i dev v)"
  by (induction fss i dev v rule: probe.induct)
    (auto split: option.split bool.split intro!: keeps_intros)

lemma keeps_stat_block [keeps_intros]: "kept v0 v \<Longrightarrow> keeps v0 (stat_block v source)"
  by (auto simp: stat_block_def split: option.split intro!: keeps_intros)

lemma keeps_choose [keeps_intros]: "kept v0 v \<Longrightarrow> keeps v0 (choose_filesystem v source ty)"
  by (auto simp: choose_filesystem_def split: option.split sum.split intro!: keeps_intros)

lemma keeps_read: "read_file v f off sz = Ret (r, bs, v1) \<Longrightarrow> kept v v1"
  using keeps_select [of v v] keeps_stat_type
  by (fastforce simp: read_file_def keeps_def bind_outcome_eq_Ret split: option.splits if_splits)

lemma keepsD: "keeps v r \<Longrightarrow> r = Ret (x, v1) \<Longrightarrow> kept v v1"
  by (simp add: keeps_def)

definition open_at :: "file_handle list \<Rightarrow> nat \<Rightarrow> int" where
  "open_at fs p = int (length (filter (\<lambda>f. fh_mountpoint f = p) fs))"

definition counts_ok :: "'w vfs \<Rightarrow> file_handle list \<Rightarrow> bool" where
  "counts_ok v fs \<longleftrightarrow> (\<forall>p m. mounts v p = Some m \<longrightarrow> mp_refcount m = open_at fs p \<and> p < next_mount v) \<and>
     (\<forall>f\<in>set fs. mounts v (fh_mountpoint f) \<noteq> None)"

lemma open_at_simps [simp]:
  "open_at [] p = 0" "open_at (f # fs) p = (if fh_mountpoint f = p then 1 else 0) + open_at fs p"
  "0 \<le> open_at fs p"
  by (simp_all add: open_at_def)

lemma open_at_remove1: "f \<in> set fs \<Longrightarrow> open_at (remove1 f fs) p = open_at fs p - (if fh_mountpoint f = p then 1 else 0)"
  by (induction fs) auto

lemma open_at_pos: "f \<in> set fs \<Longrightarrow> 0 < open_at fs (fh_mountpoint f)"
  by (auto simp: open_at_def filter_empty_conv)

lemma open_at_none: "counts_ok v fs \<Longrightarrow> mounts v p = None \<Longrightarrow> open_at fs p = 0"
  by (auto simp: counts_ok_def open_at_def filter_empty_conv)

lemma counts_kept: "kept v v1 \<Longrightarrow> counts_ok v fs \<Longrightarrow> counts_ok v1 fs"
  by (simp add: kept_def counts_ok_def)

text \<open>A change of one mount point that leaves its count alone.\<close>

lemma counts_upd:
  assumes "counts_ok v fs" "mp_upd v p g = Ret v1" "\<And>m. mp_refcount (g m) = mp_refcount m"
  shows "counts_ok v1 fs \<and> next_mount v1 = next_mount v \<and> (\<forall>q. mounts v1 q = None \<longleftrightarrow> mounts v q = None)"
  using assms
  by (auto simp: mp_upd_def mp_deref_def bind_outcome_eq_Ret counts_ok_def split: option.splits if_splits)

lemma count_file_effect:
  assumes "count_file v f oper change = Ret (r, v1)"
  shows "r < 0 \<and> kept v v1 \<or> r = 0 \<and> (\<exists>m. mounts v (fh_mountpoint f) = Some m \<and> next_mount v1 = next_mount v \<and>
    mounts v1 = (mounts v)(fh_mountpoint f \<mapsto> m\<lparr>mp_refcount := mp_refcount m + change\<rparr>))"
proof -
  obtain fs v2 where sel: "select_mount v (fh_mountpoint f) = Ret (fs, v2)"
    using assms by (auto simp: count_file_def bind_outcome_eq_Ret)
  obtain res v3 where op: "(case oper fs of None \<Rightarrow> Ret (0, v2) | Some op \<Rightarrow> on_world v2 (op (fh_handle f) (world v2))) =
      Ret (res, v3)"
    using assms sel by (auto simp: count_file_def bind_outcome_eq_Ret)
  have k: "kept v v2" using keepsD [OF keeps_select sel] by simp
  have "keeps v (case oper fs of None \<Rightarrow> Ret (0, v2) | Some op \<Rightarrow> on_world v2 (op (fh_handle f) (world v2)))"
    using k by (auto split: option.split intro!: keeps_intros)
  then have "kept v v3" using op by (rule keepsD)
  then show ?thesis using assms sel op
    by (auto simp: count_file_def bind_outcome_eq_Ret mp_upd_def mp_deref_def kept_def split: if_splits option.splits)
qed

lemma count_up: "counts_ok v fs \<Longrightarrow> count_file v f oper 1 = Ret (r, v1) \<Longrightarrow>
    if r < 0 then counts_ok v1 fs else counts_ok v1 (f # fs)"
  using count_file_effect [of v f oper 1 r v1] counts_kept [of v v1 fs]
  by (auto simp: counts_ok_def split: if_splits)

lemma count_down: "counts_ok v fs \<Longrightarrow> f \<in> set fs \<Longrightarrow> count_file v f oper (-1) = Ret (r, v1) \<Longrightarrow>
    if r < 0 then counts_ok v1 fs else counts_ok v1 (remove1 f fs)"
  using count_file_effect [of v f oper "-1" r v1] counts_kept [of v v1 fs]
  by (auto simp: counts_ok_def open_at_remove1 dest: subsetD [OF set_remove1_subset] split: if_splits)

lemma counts_unlink:
  "counts_ok v fs \<Longrightarrow> unlink_sibling v n sibling m nxt = Ret v1 \<Longrightarrow>
   counts_ok v1 fs \<and> next_mount v1 = next_mount v \<and> (\<forall>q. mounts v1 q = None \<longleftrightarrow> mounts v q = None)"
  by (induction v n sibling m nxt rule: unlink_sibling.induct)
    (auto simp: bind_outcome_eq_Ret counts_upd split: if_splits dest: counts_upd)


lemma counts_add_mount:
  assumes "counts_ok v fs" "mp_refcount m = 0" "v1 = v\<lparr>next_mount := next_mount v + 1, mounts := (mounts v)(next_mount v \<mapsto> m)\<rparr>"
  shows "counts_ok v1 fs"
proof -
  have new: "mounts v (next_mount v) = None"
    using assms(1) by (cases "mounts v (next_mount v)") (auto simp: counts_ok_def)
  then show ?thesis using assms open_at_none [OF assms(1) new]
    by (auto simp: counts_ok_def less_SucI)
qed

text \<open>The counts after an operation, by the same kind of rules.\<close>

definition counted :: "file_handle list \<Rightarrow> ('a \<times> 'w vfs) outcome \<Rightarrow> bool" where
  "counted fs r \<longleftrightarrow> (\<forall>x v1. r = Ret (x, v1) \<longrightarrow> counts_ok v1 fs)"

lemma counted_values: "counts_ok v fs \<Longrightarrow> counted fs (Ret (x, v))" "counted fs Fault" "counted fs Blocks" "counted fs Panic"
  by (simp_all add: counted_def)

lemma counted_keeps: "counts_ok v fs \<Longrightarrow> keeps v r \<Longrightarrow> counted fs r"
  by (auto simp: counted_def keeps_def intro: counts_kept)

lemma counted_bind:
  "counted fs m \<Longrightarrow> (\<And>x v1. counts_ok v1 fs \<Longrightarrow> counted fs (f (x, v1))) \<Longrightarrow> counted fs (bind_outcome m f)"
  by (cases m) (auto simp: counted_def)

lemma counted_query: "(\<And>x. m = Ret x \<Longrightarrow> counted fs (f x)) \<Longrightarrow> counted fs (bind_outcome m f)"
  by (cases m) (auto simp: counted_def)

lemmas counted_intros = counted_values counted_bind counted_query [of "mp_deref v1 p" fs f for v1 p fs f]
  counted_query [of "mp_filesystem v1 p" fs f for v1 p fs f] counted_query [of "fs_get_root d w" fs f for d w fs f]
  counted_keeps [OF _ keeps_choose [OF kept_refl]] counted_keeps [OF _ keeps_find [OF kept_refl]]
  counted_keeps [OF _ keeps_lookup [OF kept_refl]]
  counted_keeps [OF _ keeps_select [OF kept_refl]] counted_keeps [OF _ keeps_on_world [OF kept_refl]]

lemma counted_upd:
  "counts_ok v fs \<Longrightarrow> (\<And>m. mp_refcount (g m) = mp_refcount m) \<Longrightarrow> counted fs (bind_outcome (mp_upd v p g) (\<lambda>v1. Ret (x, v1)))"
  using counts_upd [of v fs p g] by (cases "mp_upd v p g") (auto simp: counted_def)

lemma counts_skip_address: "counts_ok v fs \<Longrightarrow> counts_ok (v\<lparr>next_mount := Suc (next_mount v)\<rparr>) fs"
  by (auto simp: counts_ok_def less_SucI)

lemma counted_new_mount:
  assumes "counts_ok v fs" and "mp_refcount (m (next_mount v)) = 0"
  shows "counted fs (let new_mount = next_mount v in
    bind_outcome (mp_upd (v\<lparr>next_mount := Suc new_mount, mounts := (mounts v)(new_mount \<mapsto> m new_mount)\<rparr>) p
      (mp_children_update (\<lambda>_. new_mount))) (\<lambda>v6. Ret (0, v6)))"
  unfolding Let_def by (intro counted_upd counts_add_mount [OF assms]) simp_all

lemma mount_counts: "counts_ok v fs \<Longrightarrow> counted fs (mount_filesystem v source target ty flags)"
  unfolding mount_filesystem_def
  by (auto split: sum.split intro!: counted_intros counted_new_mount counts_skip_address)

lemma counts_free:
  "counts_ok v fs \<Longrightarrow> open_at fs p \<le> 0 \<Longrightarrow> counts_ok (v\<lparr>mounts := (mounts v)(p := None)\<rparr>) fs"
  using open_at_pos [of _ fs] by (fastforce simp: counts_ok_def)

lemma counts_idle: "counts_ok v fs \<Longrightarrow> mp_deref v p = Ret m \<Longrightarrow> \<not> 0 < mp_refcount m \<Longrightarrow> open_at fs p \<le> 0"
  by (auto simp: counts_ok_def mp_deref_def split: if_splits option.splits)

lemma counted_unlink:
  assumes "counts_ok v fs" and "\<And>v1. counts_ok v1 fs \<Longrightarrow> counted fs (f v1)"
  shows "counted fs (bind_outcome (if c then mp_upd v p (mp_children_update (\<lambda>_. n))
    else unlink_sibling v k s m n) f)"
proof (intro counted_query assms(2))
  fix v1 assume "(if c then mp_upd v p (mp_children_update (\<lambda>_. n)) else unlink_sibling v k s m n) = Ret v1"
  then show "counts_ok v1 fs"
    using counts_upd [OF assms(1), of p "mp_children_update (\<lambda>_. n)" v1] counts_unlink [OF assms(1), of k s m n v1]
    by (cases c) simp_all
qed

lemma unmount_counts: "counts_ok v fs \<Longrightarrow> counted fs (unmount_filesystem v path)"
  unfolding unmount_filesystem_def Let_def
  by (auto split: sum.split option.split
    intro!: counted_intros counted_unlink counts_free)
    (rule counts_idle, assumption, assumption, assumption)

text \<open>What tasks do with files, as steps on the state and the list of file handles that are open: a
  handle that was opened or cloned is in the list once for each time, until it is closed.\<close>

inductive file_step :: "'w vfs \<times> file_handle list \<Rightarrow> 'w vfs \<times> file_handle list \<Rightarrow> bool" where
  opened: "vfs_open v path = Ret (Inr f, v1) \<Longrightarrow> file_step (v, fs) (v1, f # fs)"
| not_opened: "vfs_open v path = Ret (Inl e, v1) \<Longrightarrow> file_step (v, fs) (v1, fs)"
| cloned: "f \<in> set fs \<Longrightarrow> clone_file_handle v f = Ret (r, v1) \<Longrightarrow> file_step (v, fs) (v1, if r < 0 then fs else f # fs)"
| closed: "f \<in> set fs \<Longrightarrow> vfs_close v f = Ret (r, v1) \<Longrightarrow> file_step (v, fs) (v1, if r < 0 then fs else remove1 f fs)"
| mounted: "mount_filesystem v source target ty flags = Ret (r, v1) \<Longrightarrow> file_step (v, fs) (v1, fs)"
| unmounted: "unmount_filesystem v path = Ret (r, v1) \<Longrightarrow> file_step (v, fs) (v1, fs)"
| read: "f \<in> set fs \<Longrightarrow> read_file v f off sz = Ret (r, bs, v1) \<Longrightarrow> file_step (v, fs) (v1, fs)"
| written: "f \<in> set fs \<Longrightarrow> write_file v f buf off sz = Ret (r, v1) \<Longrightarrow> file_step (v, fs) (v1, fs)"
| truncated: "f \<in> set fs \<Longrightarrow> truncate v f n = Ret (r, v1) \<Longrightarrow> file_step (v, fs) (v1, fs)"
| listed: "f \<in> set fs \<Longrightarrow> vfs_readdir v f i = Ret (r, v1) \<Longrightarrow> file_step (v, fs) (v1, fs)"
| created: "create_entry v path oper = Ret (r, v1) \<Longrightarrow> file_step (v, fs) (v1, fs)"
| removed: "remove_file v path = Ret (r, v1) \<Longrightarrow> file_step (v, fs) (v1, fs)"
| renamed: "rename_file v old new = Ret (r, v1) \<Longrightarrow> file_step (v, fs) (v1, fs)"
| linked: "link v file path = Ret (r, v1) \<Longrightarrow> file_step (v, fs) (v1, fs)"
| status: "stat v path = Ret (r, v1) \<Longrightarrow> file_step (v, fs) (v1, fs)"
| moved: "chdir v path = Ret (r, v1) \<Longrightarrow> file_step (v, fs) (v1, fs)"

lemma open_counts:
  assumes ok: "counts_ok v fs" and res: "vfs_open v path = Ret (x, v1)"
  shows "counts_ok v1 (case x of Inl _ \<Rightarrow> fs | Inr f \<Rightarrow> f # fs)"
proof -
  obtain y v2 where look: "lookup v path = Ret (y, v2)"
    using res by (auto simp: vfs_open_def bind_outcome_eq_Ret)
  have ok2: "counts_ok v2 fs" using counts_kept [OF keepsD [OF keeps_lookup [OF kept_refl] look] ok] .
  show ?thesis
  proof (cases y)
    case (Inl e)
    then show ?thesis using res look ok2 by (auto simp: vfs_open_def)
  next
    case (Inr f)
    then obtain r where "count_file v2 f fs_open 1 = Ret (r, v1)" "x = (if r < 0 then Inl r else Inr f)"
      using res look by (auto simp: vfs_open_def bind_outcome_eq_Ret split: if_splits)
    then show ?thesis using count_up [OF ok2, of f fs_open r v1] by (simp split: if_splits)
  qed
qed

lemma counts_step: "file_step s s1 \<Longrightarrow> counts_ok (fst s) (snd s) \<Longrightarrow> counts_ok (fst s1) (snd s1)"
proof (induction rule: file_step.induct)
  case (opened v path f v1 fs)
  then show ?case using open_counts [of v fs path "Inr f" v1] by simp
next
  case (not_opened v path e v1 fs)
  then show ?case using open_counts [of v fs path "Inl e" v1] by simp
next
  case (cloned f fs v r v1)
  then show ?case using count_up [of v fs f fs_open r v1] by (simp add: clone_file_handle_def split: if_splits)
next
  case (closed f fs v r v1)
  then show ?case using count_down [of v fs f fs_close r v1] by (simp add: vfs_close_def split: if_splits)
next
  case (mounted v source target ty flags r v1 fs)
  then show ?case using mount_counts [of v fs] by (simp add: counted_def)
next
  case (unmounted v path r v1 fs)
  then show ?case using unmount_counts [of v fs] by (simp add: counted_def)
next
  case (read f fs v off sz r bs v1)
  then show ?case using keeps_read counts_kept by fastforce
qed (auto intro: counts_kept keepsD [OF keeps_write [OF kept_refl]] keepsD [OF keeps_truncate [OF kept_refl]]
  keepsD [OF keeps_readdir [OF kept_refl]] keepsD [OF keeps_create [OF kept_refl]] keepsD [OF keeps_remove [OF kept_refl]]
  keepsD [OF keeps_rename [OF kept_refl]] keepsD [OF keeps_link [OF kept_refl]] keepsD [OF keeps_stat [OF kept_refl]]
  keepsD [OF keeps_chdir [OF kept_refl]])

end
