(* ===== verification/Fsdrivers.thy ===== *)
theory Fsdrivers
  imports Vfs
begin

text \<open>
  The memory and device file systems as drivers of the virtual file system: \<open>ramfs_register\<close> of
  \<open>kernel/fs/ramfs.c\<close> and \<open>devfs_register\<close> of \<open>kernel/fs/devfs.c\<close> fill a \<open>filesystem_t\<close> with
  their functions.  The state of the drivers is the store of mounted instances, the static pointer
  \<open>mount\<close> that \<open>select\<close> sets, the instance of the device file system, the clock and the state of
  the devices.  The properties of whole file operations, from the path to the driver, are here.
\<close>

record 'd fs_world =
  ramfs_mounts :: "nat \<Rightarrow> ramfs option"
  ramfs_current :: nat
  devfs_data :: nat
  fresh_addr :: nat
  clock :: u64
  devices :: 'd

text \<open>An operation on the selected instance.\<close>

definition with_ramfs :: "'d fs_world \<Rightarrow> (ramfs \<Rightarrow> ('a \<times> ramfs) outcome) \<Rightarrow> ('a \<times> 'd fs_world) outcome" where
  "with_ramfs w f =
     (case ramfs_mounts w (ramfs_current w) of
        None \<Rightarrow> Fault
      | Some s \<Rightarrow> bind_outcome (f s) (\<lambda>(x, s1).
          Ret (x, w\<lparr>ramfs_mounts := (ramfs_mounts w)(ramfs_current w \<mapsto> s1)\<rparr>)))"

definition ramfs_select :: "nat \<Rightarrow> 'd fs_world \<Rightarrow> 'd fs_world" where
  "ramfs_select data w = w\<lparr>ramfs_current := data\<rparr>"

definition query :: "'a outcome \<Rightarrow> 's \<Rightarrow> ('a \<times> 's) outcome" where
  "query r s = bind_outcome r (\<lambda>x. Ret (x, s))"

definition ramfs_driver :: "'d blk \<Rightarrow> 'd chr \<Rightarrow> 'd fs_world filesystem" where
  "ramfs_driver bt ct =
     \<lparr>fs_name = ''ramfs'', fs_requires_backing = False,
      fs_check = Some (\<lambda>dev w. Ret (ramfs_check dev, w)),
      fs_mount = (\<lambda>dev flags w. let a = fresh_addr w in
        Ret (a, w\<lparr>ramfs_mounts := (ramfs_mounts w)(a \<mapsto> ramfs_mount dev flags a (clock w)),
                 ramfs_current := a, fresh_addr := a + 1\<rparr>)),
      fs_unmount = Some (\<lambda>data w. bind_outcome (with_ramfs (ramfs_select data w) ramfs_unmount) (\<lambda>(res, w1).
        Ret (res, w1\<lparr>ramfs_mounts := (ramfs_mounts w1)(data := None)\<rparr>))),
      fs_select = ramfs_select,
      fs_get_root = (\<lambda>w. case ramfs_mounts w (ramfs_current w) of None \<Rightarrow> Fault | Some s \<Rightarrow> Ret (ramfs_get_root s)),
      fs_lookup = (\<lambda>name h w. with_ramfs w (\<lambda>s. query (ramfs_lookup s name h) s)),
      fs_open = Some (\<lambda>h w. with_ramfs w (\<lambda>s. ramfs_open s h)),
      fs_close = Some (\<lambda>h w. with_ramfs w (\<lambda>s. ramfs_close s h)),
      fs_readdir = Some (\<lambda>h i w. with_ramfs w (\<lambda>s. query (ramfs_readdir s h i) s)),
      fs_read = Some (\<lambda>h off sz w. case ramfs_mounts w (ramfs_current w) of
          None \<Rightarrow> Fault
        | Some s \<Rightarrow> bind_outcome (ramfs_read bt ct s h off sz (devices w)) (\<lambda>(res, bs, d). Ret (res, bs, w\<lparr>devices := d\<rparr>))),
      fs_write = Some (\<lambda>h buf off sz w. case ramfs_mounts w (ramfs_current w) of
          None \<Rightarrow> Fault
        | Some s \<Rightarrow> bind_outcome (ramfs_write bt ct s h buf off sz (clock w) (devices w)) (\<lambda>(res, s1, d).
            Ret (res, w\<lparr>ramfs_mounts := (ramfs_mounts w)(ramfs_current w \<mapsto> s1), devices := d\<rparr>))),
      fs_stat = Some (\<lambda>h w. with_ramfs w (\<lambda>s. query (ramfs_stat s h) s)),
      fs_mknod = Some (\<lambda>path ty dev w. with_ramfs w (\<lambda>s. ramfs_mknod s path ty dev (clock w))),
      fs_create_file = Some (\<lambda>path w. with_ramfs w (\<lambda>s. ramfs_create_file s path (clock w))),
      fs_create_directory = Some (\<lambda>path w. with_ramfs w (\<lambda>s. ramfs_create_directory s path (clock w))),
      fs_remove = Some (\<lambda>path w. with_ramfs w (\<lambda>s. ramfs_delete s path)),
      fs_rename = Some (\<lambda>old new w. with_ramfs w (\<lambda>s. ramfs_rename s old new (clock w))),
      fs_link = None,
      fs_truncate = Some (\<lambda>h n w. with_ramfs w (\<lambda>s. ramfs_truncate s h n (clock w)))\<rparr>"

text \<open>Every operation of the device file system selects its instance itself.  That \<open>devfs_get_root\<close>
  does so too is not recorded: every use of the static pointer is preceded by another selection.\<close>

definition with_devfs :: "'d fs_world \<Rightarrow> (devfs \<Rightarrow> ('a \<times> devfs) outcome) \<Rightarrow> ('a \<times> 'd fs_world) outcome" where
  "with_devfs w f = with_ramfs (ramfs_select (devfs_data w) w) (\<lambda>s.
     bind_outcome (f \<lparr>ramfs_instance = s\<rparr>) (\<lambda>(x, v). Ret (x, ramfs_instance v)))"

definition devfs_select :: "nat \<Rightarrow> 'd fs_world \<Rightarrow> 'd fs_world" where
  "devfs_select data w = w"

definition devfs_mount :: "block_device \<Rightarrow> u32 \<Rightarrow> 'd fs_world \<Rightarrow> (nat \<times> 'd fs_world) outcome" where
  "devfs_mount dev flags w = Ret (devfs_data w, w)"

definition devfs_driver :: "'d blk \<Rightarrow> 'd chr \<Rightarrow> 'd fs_world filesystem" where
  "devfs_driver bt ct =
     \<lparr>fs_name = ''devfs'', fs_requires_backing = False,
      fs_check = Some (\<lambda>dev w. Ret (devfs_check dev, w)),
      fs_mount = devfs_mount,
      fs_unmount = Some (\<lambda>data w. Ret (0, w)),
      fs_select = devfs_select,
      fs_get_root = (\<lambda>w. case ramfs_mounts w (devfs_data w) of
          None \<Rightarrow> Fault | Some s \<Rightarrow> Ret (devfs_get_root \<lparr>ramfs_instance = s\<rparr>)),
      fs_lookup = (\<lambda>name h w. with_devfs w (\<lambda>v. query (devfs_lookup v name h) v)),
      fs_open = Some (\<lambda>h w. with_devfs w (\<lambda>v. devfs_open v h)),
      fs_close = Some (\<lambda>h w. with_devfs w (\<lambda>v. devfs_close v h)),
      fs_readdir = Some (\<lambda>h i w. with_devfs w (\<lambda>v. query (devfs_readdir v h i) v)),
      fs_read = Some (\<lambda>h off sz w. case ramfs_mounts w (devfs_data w) of
          None \<Rightarrow> Fault
        | Some s \<Rightarrow> bind_outcome (devfs_read bt ct \<lparr>ramfs_instance = s\<rparr> h off sz (devices w)) (\<lambda>(res, bs, d).
            Ret (res, bs, (ramfs_select (devfs_data w) w)\<lparr>devices := d\<rparr>))),
      fs_write = Some (\<lambda>h buf off sz w. case ramfs_mounts w (devfs_data w) of
          None \<Rightarrow> Fault
        | Some s \<Rightarrow> bind_outcome (devfs_write bt ct \<lparr>ramfs_instance = s\<rparr> h buf off sz (clock w) (devices w)) (\<lambda>(res, v, d).
            Ret (res, (ramfs_select (devfs_data w) w)\<lparr>
              ramfs_mounts := (ramfs_mounts w)(devfs_data w \<mapsto> ramfs_instance v), devices := d\<rparr>))),
      fs_stat = Some (\<lambda>h w. with_devfs w (\<lambda>v. query (devfs_stat v h) v)),
      fs_mknod = Some (\<lambda>path ty dev w. with_devfs w (\<lambda>v. devfs_mknod v path ty dev (clock w))),
      fs_create_file = Some (\<lambda>path w. with_devfs w (\<lambda>v. devfs_create_file v path (clock w))),
      fs_create_directory = Some (\<lambda>path w. with_devfs w (\<lambda>v. devfs_create_directory v path (clock w))),
      fs_remove = Some (\<lambda>path w. with_devfs w (\<lambda>v. devfs_delete v path)),
      fs_rename = Some (\<lambda>old new w. with_devfs w (\<lambda>v. devfs_rename v old new (clock w))),
      fs_link = None,
      fs_truncate = Some (\<lambda>h n w. with_devfs w (\<lambda>v. devfs_truncate v h n (clock w)))\<rparr>"

text \<open>The registration of the built-in file systems; the drivers for disks come first.\<close>

definition register_intree_filesystems ::
  "'d fs_world filesystem list \<Rightarrow> 'd blk \<Rightarrow> 'd chr \<Rightarrow> 'd fs_world vfs \<Rightarrow> 'd fs_world vfs" where
  "register_intree_filesystems disk bt ct v =
     fold (\<lambda>fs v. snd (register_filesystem v fs)) (disk @ [ramfs_driver bt ct, devfs_driver bt ct]) v"

text \<open>A machine with one memory file system as its root.\<close>

definition demo_vfs :: "ram fs_world vfs" where
  "demo_vfs = \<lparr>filesystems = [ramfs_driver ram_blk []], vfs_root = 1,
     mounts = [1 \<mapsto> \<lparr>mp_handle = 0, mp_type = 0, mp_refcount = 0, mp_fs_data = 1, mp_parent = 0, mp_next = 0,
       mp_children = 0\<rparr>], next_mount = 2, wd = ''/'',
     world = \<lparr>ramfs_mounts = [1 \<mapsto> ramfs_mount no_device 0 1 0], ramfs_current = 1, devfs_data = 0,
       fresh_addr = 2, clock = 0, devices = ram0\<rparr>\<rparr>"

section \<open>From paths to files\<close>

text \<open>C7. Looking a path up is walking along the normal form of its components: the string loops of
  \<open>make_absolute\<close>, \<open>resolve_path\<close> and \<open>find_mountpoint\<close> reach exactly the mount point and the
  handle that the reference definition \<open>walk_names\<close> reaches from the root, with the same error or
  fault, so two paths with the same normal form name the same file.\<close>

theorem lookup_walks_normal_form:
  assumes "make_absolute (wd v) path = Ret p" and "wd v = [] \<or> hd (wd v) = slash"
  shows "lookup v path =
    bind_outcome (select_mount v (vfs_root v)) (\<lambda>(fs, v1).
    bind_outcome (fs_get_root fs (world v1)) (\<lambda>r.
    bind_outcome (walk_names v1 (vfs_root v) r (normal_form (components p))) (\<lambda>(res, v2). Ret (case res of
        Inl e \<Rightarrow> Inl e | Inr (m, h) \<Rightarrow> Inr \<lparr>fh_mountpoint = m, fh_handle = h\<rparr>, v2))))"
proof -
  have "lookup v path = bind_outcome (forget_remaining (find_mountpoint v path)) (\<lambda>(res, v2). Ret (case res of
      Inl e \<Rightarrow> Inl e | Inr (m, h) \<Rightarrow> Inr \<lparr>fh_mountpoint = m, fh_handle = h\<rparr>, v2))"
    by (cases "find_mountpoint v path") (auto simp: lookup_def split: sum.split)
  then show ?thesis unfolding find_mountpoint_names [OF assms]
    by (simp add: bind_outcome_assoc case_prod_unfold)
qed

theorem lookup_walks_normal_form_witness:
  "lookup demo_vfs ''/usr/../bin/.'' = lookup demo_vfs ''bin''"
proof -
  have paths: "make_absolute (wd demo_vfs) ''/usr/../bin/.'' = Ret ''/usr/../bin/.''"
      "make_absolute (wd demo_vfs) ''bin'' = Ret ''/bin''" "wd demo_vfs = ''/''"
      "normal_form (components ''/usr/../bin/.'') = normal_form (components ''/bin'')"
    by code_simp+
  have wd: "wd demo_vfs = [] \<or> hd (wd demo_vfs) = slash" by (simp add: paths(3))
  show ?thesis
    by (simp only: lookup_walks_normal_form [OF paths(1) wd] lookup_walks_normal_form [OF paths(2) wd] paths(4))
qed

text \<open>C2. No file operation uses a mount point that was freed: starting from a mount table without open
  files, whatever tasks do (open, clone, close, read, write, truncate, list, create, remove, rename,
  link, ask for the status, change the directory, mount and unmount file systems), the mount point
  of every file that is still open exists, its reference count is the number of open handles in it,
  and an attempt to unmount it therefore finds a positive count.\<close>

theorem open_files_mounted:
  assumes "file_step\<^sup>*\<^sup>* (v0, []) (v, fs)"
    and "\<And>p m. mounts v0 p = Some m \<Longrightarrow> mp_refcount m = 0 \<and> p < next_mount v0"
    and "f \<in> set fs"
  shows "\<exists>m. mounts v (fh_mountpoint f) = Some m \<and>
    mp_refcount m = int (length (filter (\<lambda>g. fh_mountpoint g = fh_mountpoint f) fs)) \<and> 0 < mp_refcount m"
proof -
  have "counts_ok (fst (v, fs)) (snd (v, fs))"
    using assms(1)
  proof (induction rule: rtranclp_induct)
    case base
    then show ?case using assms(2) by (simp add: counts_ok_def)
  next
    case (step s t)
    then show ?case using counts_step by blast
  qed
  then show ?thesis using assms(3) open_at_pos [OF assms(3)] by (auto simp: counts_ok_def open_at_def)
qed


theorem open_files_mounted_witness:
  "\<exists>v f m. vfs_open demo_vfs ''/'' = Ret (Inr f, v) \<and> mounts v (fh_mountpoint f) = Some m \<and> mp_refcount m = 1"
proof -
  have "\<exists>f v. vfs_open demo_vfs ''/'' = Ret (Inr f, v)"
  proof -
    have "(case vfs_open demo_vfs ''/'' of Ret (Inr f, v) \<Rightarrow> True | _ \<Rightarrow> False)" by code_simp
    then show ?thesis by (auto split: outcome.splits sum.splits)
  qed
  then obtain f v where opened: "vfs_open demo_vfs ''/'' = Ret (Inr f, v)" by blast
  have "file_step\<^sup>*\<^sup>* (demo_vfs, []) (v, [f])"
    using file_step.opened [OF opened, of "[]"] by blast
  moreover have "mp_refcount m = 0 \<and> p < next_mount demo_vfs" if "mounts demo_vfs p = Some m" for p m
    using that by (auto simp: demo_vfs_def split: if_splits)
  ultimately have "\<exists>m. mounts v (fh_mountpoint f) = Some m \<and>
      mp_refcount m = int (length (filter (\<lambda>g. fh_mountpoint g = fh_mountpoint f) [f])) \<and> 0 < mp_refcount m"
    by (rule open_files_mounted) simp_all
  then show ?thesis using opened by auto
qed

text \<open>A driver reports an error of \<open>lookup\<close> by a negative number; so do the walk and the lookup.\<close>

definition negative_errors :: "'w vfs \<Rightarrow> bool" where
  "negative_errors v \<longleftrightarrow> (\<forall>fs\<in>set (filesystems v). \<forall>name h w e w1. fs_lookup fs name h w = Ret (Inl e, w1) \<longrightarrow> e < 0)"

lemma negative_errors_kept: "negative_errors v \<Longrightarrow> kept v v1 \<Longrightarrow> negative_errors v1"
  by (simp add: negative_errors_def kept_def)

lemma names_error_negative:
  "walk_names v current h cs = Ret (Inl e, v1) \<Longrightarrow> negative_errors v \<Longrightarrow> e < 0"
proof (induction cs arbitrary: v current h)
  case (Cons c cs)
  obtain m fs res v2 where look: "mp_filesystem v m = Ret fs" "on_world v (fs_lookup fs c h (world v)) = Ret (res, v2)"
    and rest: "walk_names v current h (c # cs) = (case res of
                 Inl e \<Rightarrow> Ret (Inl e, v2)
               | Inr nxt \<Rightarrow> bind_outcome (child_mount v2 current nxt) (\<lambda>ch. case ch of
                   None \<Rightarrow> walk_names v2 current nxt cs
                 | Some m1 \<Rightarrow> bind_outcome (select_mount v2 m1) (\<lambda>(fs1, v2).
                     bind_outcome (fs_get_root fs1 (world v2)) (\<lambda>r. walk_names v2 m1 r cs))))"
    using Cons.prems(1) by (auto simp: bind_outcome_eq_Ret split: if_splits)
  have neg: "negative_errors v2"
    using Cons.prems(2) keepsD [OF keeps_on_world [OF kept_refl] look(2)] by (rule negative_errors_kept)
  have first: "e < 0" if inl: "res = Inl e"
  proof -
    have "fs \<in> set (filesystems v)" using look(1) by (auto simp: mp_filesystem_def split: if_splits)
    moreover obtain w1 where "fs_lookup fs c h (world v) = Ret (Inl e, w1)"
      using look(2) inl by (auto simp: on_world_def bind_outcome_eq_Ret)
    ultimately show ?thesis using Cons.prems(2) unfolding negative_errors_def by blast
  qed
  have "negative_errors v3" if "select_mount v2 m1 = Ret (fs1, v3)" for fs1 v3 m1
    using neg keepsD [OF keeps_select [OF kept_refl] that] by (rule negative_errors_kept)
  then show ?case using Cons.IH neg first Cons.prems(1) unfolding rest
    by (auto simp: bind_outcome_eq_Ret split: sum.splits option.splits)
qed simp

lemma find_error_negative:
  assumes "find_mountpoint v path = Ret (Inl e, v1)" and "negative_errors v"
  shows "e < 0"
proof -
  obtain p fs v2 r where "select_mount v (vfs_root v) = Ret (fs, v2)"
      and walk: "mount_walk v2 (vfs_root v) r p (skip_slashes p) = Ret (Inl e, v1)"
    using assms(1) by (auto simp: find_mountpoint_def Let_def bind_outcome_eq_Ret)
  then have "negative_errors v2"
    using assms(2) keepsD [OF keeps_select [OF kept_refl]] negative_errors_kept by blast
  then show ?thesis using mount_walk_names [of v2 "vfs_root v" r p "skip_slashes p"] walk names_error_negative
    by (metis forget_simps(4))
qed

text \<open>Renaming never makes a new name: \<open>rename_file\<close> looks the new path up like the old one, so
  whenever it does not fail, a file of the new name existed before, and a rename to a free name fails
  with the driver's \<open>-ENOENT\<close>.\<close>

theorem rename_needs_target:
  assumes "rename_file v old new = Ret (r, v1)" and "0 \<le> r" and "negative_errors v"
  shows "\<exists>v2 m h rem v3. kept v v2 \<and> find_mountpoint v2 new = Ret (Inr (m, h, rem), v3)"
proof -
  obtain r1 v2 r2 v3 where find: "find_mountpoint v old = Ret (r1, v2)" "find_mountpoint v2 new = Ret (r2, v3)"
    using assms(1) by (auto simp: rename_file_def bind_outcome_eq_Ret)
  have kept: "kept v v2" using keepsD [OF keeps_find [OF kept_refl] find(1)] .
  have neg: "\<forall>e. r1 = Inl e \<longrightarrow> e < 0" "\<forall>e. r2 = Inl e \<longrightarrow> e < 0"
    using find find_error_negative assms(3) negative_errors_kept [OF assms(3) kept] by blast+
  obtain m h rem where "r2 = Inr (m, h, rem)"
    using assms(1,2) find neg by (cases r1; cases r2) (auto simp: rename_file_def)
  then show ?thesis using kept find(2) by blast
qed

lemma ramfs_negative_errors: "filesystems v = [ramfs_driver bt ct] \<Longrightarrow> negative_errors v"
  by (auto simp: negative_errors_def ramfs_driver_def with_ramfs_def query_def ramfs_lookup_def bind_outcome_eq_Ret
    errno_simps split: option.splits if_splits)

text \<open>Two files in the root directory.\<close>

definition two_files :: "ram fs_world vfs" where
  "two_files = (case bind_outcome (create_file demo_vfs ''/a'') (\<lambda>(r, v). create_file v ''/b'') of
     Ret (r, v) \<Rightarrow> v | _ \<Rightarrow> demo_vfs)"

theorem rename_needs_target_witness:
  "(\<exists>v1. rename_file two_files ''/a'' ''/b'' = Ret (0, v1)) \<and>
   (\<exists>v2 m h rem v3. find_mountpoint v2 ''/b'' = Ret (Inr (m, h, rem), v3 :: ram fs_world vfs)) \<and>
   (\<exists>v1. rename_file two_files ''/a'' ''/c'' = Ret (- ENOENT, v1))"
proof -
  have "(case rename_file two_files ''/a'' ''/b'' of Ret (r, v1) \<Rightarrow> r = 0 | _ \<Rightarrow> False)"
      "(case rename_file two_files ''/a'' ''/c'' of Ret (r, v1) \<Rightarrow> r = - ENOENT | _ \<Rightarrow> False)"
    by code_simp+
  then obtain v1 v4 where r: "rename_file two_files ''/a'' ''/b'' = Ret (0, v1)"
      "rename_file two_files ''/a'' ''/c'' = Ret (- ENOENT, v4)"
    by (auto split: outcome.splits)
  have "keeps demo_vfs (bind_outcome (create_file demo_vfs ''/a'') (\<lambda>(r, v). create_file v ''/b''))"
    by (auto simp: create_file_def intro!: keeps_intros)
  then have "kept demo_vfs two_files" by (auto simp: two_files_def keeps_def split: outcome.split)
  then have fs: "filesystems two_files = [ramfs_driver ram_blk []]" by (simp add: kept_def demo_vfs_def)
  have "\<exists>v2 m h rem v3. kept two_files v2 \<and> find_mountpoint v2 ''/b'' = Ret (Inr (m, h, rem), v3)"
    by (rule rename_needs_target [OF r(1) _ ramfs_negative_errors [OF fs]]) simp
  then show ?thesis using r by blast
qed

definition mounted_ramfs :: "ram fs_world vfs" where
  "mounted_ramfs = (case bind_outcome (create_directory demo_vfs ''/mnt'')
      (\<lambda>(r, v). mount_filesystem v None ''/mnt'' (Some ''ramfs'') 0) of Ret (r, v) \<Rightarrow> v | _ \<Rightarrow> demo_vfs)"

text \<open>The guard of \<open>remove_file\<close> against removing the root of a mounted file system can be passed
  by: \<open>resolve_path\<close> leaves a slash behind \<open>/mnt/x/..\<close>, so the remaining path is not empty, and with
  an empty memory file system mounted on \<open>/mnt\<close> the call dereferences the null parent of its root.\<close>

theorem remove_mount_root_faults:
  "(case remove_file mounted_ramfs ''/mnt'' of Ret (r, v) \<Rightarrow> r = - EBUSY | _ \<Rightarrow> False) \<and>
   remove_file mounted_ramfs ''/mnt/x/..'' = Fault"
proof -
  have "(case remove_file mounted_ramfs ''/mnt/x/..'' of Fault \<Rightarrow> True | _ \<Rightarrow> False)" by code_simp
  then have "remove_file mounted_ramfs ''/mnt/x/..'' = Fault" by (simp split: outcome.splits)
  moreover have "(case remove_file mounted_ramfs ''/mnt'' of Ret (r, v) \<Rightarrow> r = - EBUSY | _ \<Rightarrow> False)" by code_simp
  ultimately show ?thesis by blast
qed

end
