(* ===== verification/Netbytes.thy ===== *)
theory Netbytes
  imports Prelude
begin

text \<open>
  Byte order and the Internet checksum: \<open>htons\<close>, \<open>ntohs\<close>, \<open>htonl\<close>, \<open>ntohl\<close> of
  \<open>kernel/net/ethernet.c\<close>, and the 16-bit one's complement sum that \<open>ip.c\<close>, \<open>icmp.c\<close>
  and \<open>udp.c\<close> each compute with a 32-bit accumulator and a folding loop.  A packet is the memory
  behind a \<open>uint8_t*\<close>, a function from offsets to bytes: the code computes lengths from packet
  fields, so what lies behind the end of a frame can be read.  The machine is little endian:
  \<open>u16_at\<close> is the load of a \<open>uint16_t\<close> and \<open>poke16\<close> the store of one.
\<close>

named_theorems net_simps

type_synonym mem = "nat \<Rightarrow> byte"

section \<open>Byte order\<close>

definition htons :: "u16 \<Rightarrow> u16" where
  "htons val = drop_bit 8 val OR push_bit 8 val"

definition ntohs :: "u16 \<Rightarrow> u16" where
  "ntohs val = drop_bit 8 val OR push_bit 8 val"

definition htonl :: "u32 \<Rightarrow> u32" where
  "htonl val = (drop_bit 24 val AND 0x000000FF) OR (drop_bit 8 val AND 0x0000FF00) OR
     (push_bit 8 val AND 0x00FF0000) OR (push_bit 24 val AND 0xFF000000)"

definition ntohl :: "u32 \<Rightarrow> u32" where
  "ntohl val = (drop_bit 24 val AND 0x000000FF) OR (drop_bit 8 val AND 0x0000FF00) OR
     (push_bit 8 val AND 0x00FF0000) OR (push_bit 24 val AND 0xFF000000)"

section \<open>Packet memory\<close>

definition le16 :: "byte \<Rightarrow> byte \<Rightarrow> u16" where
  "le16 b0 b1 = ucast b0 OR push_bit 8 (ucast b1)"

definition u16_at :: "mem \<Rightarrow> nat \<Rightarrow> u16" where
  "u16_at m i = le16 (m i) (m (i + 1))"

definition poke16 :: "mem \<Rightarrow> nat \<Rightarrow> u16 \<Rightarrow> mem" where
  "poke16 m i w = m(i := ucast w, i + 1 := ucast (drop_bit 8 w))"

definition bytes_at :: "mem \<Rightarrow> nat \<Rightarrow> nat \<Rightarrow> byte list" where
  "bytes_at m off n = map (\<lambda>i. m (off + i)) [0..<n]"

definition poke :: "mem \<Rightarrow> nat \<Rightarrow> byte list \<Rightarrow> mem" where
  "poke m off bs = (\<lambda>i. if off \<le> i \<and> i < off + length bs then bs ! (i - off) else m i)"

definition shift_mem :: "mem \<Rightarrow> nat \<Rightarrow> mem" where
  "shift_mem m off = (\<lambda>i. m (off + i))"

section \<open>The checksum\<close>

text \<open>The loop that adds the first \<open>n\<close> words of a buffer, each in host order.\<close>

primrec word_sum :: "mem \<Rightarrow> nat \<Rightarrow> u32" where
  "word_sum m 0 = 0"
| "word_sum m (Suc n) = word_sum m n + ucast (ntohs (u16_at m (2 * n)))"

lemma unat_low16: "unat ((s :: u32) AND 0xFFFF) = unat s mod 65536"
proof -
  have "s AND 0xFFFF = take_bit 16 s" by (simp add: take_bit_eq_mask mask_eq_exp_minus_1)
  then show ?thesis by (simp add: unsigned_take_bit_eq take_bit_eq_mod unat_mod)
qed

lemma unat_high16: "unat (drop_bit 16 (s :: u32)) = unat s div 65536"
  by (simp add: drop_bit_eq_div unat_div)

lemma fold16_step:
  "unat ((s AND 0xFFFF) + drop_bit 16 (s :: u32)) = unat s mod 65536 + unat s div 65536"
proof -
  have "unat s < 2 ^ 32" using unsigned_less [of s, where 'a = nat] by simp
  then have "unat (s AND 0xFFFF) + unat (drop_bit 16 s) < 2 ^ 32"
    by (simp add: unat_low16 unat_high16)
  then show ?thesis
    using unat_add_lem [of "s AND 0xFFFF" "drop_bit 16 s"] by (simp add: unat_low16 unat_high16)
qed

function fold16 :: "u32 \<Rightarrow> u32" where
  "fold16 s = (if drop_bit 16 s \<noteq> 0 then fold16 ((s AND 0xFFFF) + drop_bit 16 s) else s)"
  by pat_completeness auto
termination
proof (relation "measure unat", goal_cases)
  case (2 s)
  then have "0 < unat s div 65536"
    using unat_high16 [of s] by (metis gr0I unat_eq_zero)
  then have "unat s mod 65536 + unat s div 65536 < unat s"
    using div_mult_mod_eq [of "unat s" 65536] by linarith
  then show ?case by (simp add: fold16_step)
qed simp

declare fold16.simps [simp del]

lemma fold_mod: "0 < (n::nat) \<Longrightarrow> (n - 1) mod 65535 = (n mod 65536 + n div 65536 - 1) mod 65535"
proof -
  assume "0 < n"
  have e: "n = n div 65536 * 65536 + n mod 65536" by simp
  have p: "0 < n mod 65536 + n div 65536" using \<open>0 < n\<close> e by (metis add.commute add_is_0 mult_is_0 neq0_conv)
  have "n - 1 = n div 65536 * 65535 + (n mod 65536 + n div 65536 - 1)"
    using e p by linarith
  then show ?thesis by (metis mod_mult_self3)
qed

lemma unat_fold16: "unat (fold16 s) = (if s = 0 then 0 else (unat s - 1) mod 65535 + 1)"
proof (induction s rule: fold16.induct)
  case (1 s)
  show ?case
  proof (cases "drop_bit 16 s = 0")
    case True
    then have "unat s < 65536" using unat_high16 [of s] by (simp add: div_eq_0_iff)
    then have "s \<noteq> 0 \<Longrightarrow> unat s = (unat s - 1) mod 65535 + 1"
      by (subst mod_less) (auto simp: unat_gt_0)
    then show ?thesis by (subst fold16.simps) (simp add: True)
  next
    case False
    let ?t = "(s AND 0xFFFF) + drop_bit 16 s"
    have nz: "s \<noteq> 0" using False by auto
    have pos: "0 < unat s" using nz by (simp add: unat_gt_0)
    have "?t \<noteq> 0"
      using False fold16_step [of s] unat_high16 [of s] by (metis add_is_0 unat_0 unat_eq_zero)
    then show ?thesis
      using 1 [OF False] fold_mod [OF pos] nz False fold16_step [of s]
      by (subst fold16.simps) simp
  qed
qed

text \<open>\<open>htons(~sum)\<close> after the folding loop; the complement of the 32-bit sum is truncated to the
  \<open>uint16_t\<close> argument of \<open>htons\<close>.\<close>

definition checksum16 :: "u32 \<Rightarrow> u16" where
  "checksum16 s = htons (ucast (NOT (fold16 s)))"

section \<open>Lemmas\<close>

lemma bit_byte [simp]: "8 \<le> n \<Longrightarrow> \<not> bit (a :: byte) n"
  using bit_imp_le_length [of a n] by auto

lemma unat_ucast_16_32 [simp]: "unat (ucast (w :: u16) :: u32) = unat w"
  using unsigned_less [of w, where 'a = nat] by (simp add: unsigned_ucast_eq take_bit_eq_mod)

lemma unat_ucast_8_16 [simp]: "unat (ucast (w :: byte) :: u16) = unat w"
  using unsigned_less [of w, where 'a = nat] by (simp add: unsigned_ucast_eq take_bit_eq_mod)

lemma unat_ucast_32_16: "unat (ucast (w :: u32) :: u16) = unat w mod 65536"
  by (simp add: unsigned_ucast_eq take_bit_eq_mod)

lemma ucast_not_32_16: "(ucast (NOT (w :: u32)) :: u16) = NOT (ucast w)"
  by (auto intro!: bit_word_eqI simp: bit_simps)

lemma htons_ntohs [simp]: "htons (ntohs w) = w" "ntohs (htons w) = w" "htons (htons w) = w"
  unfolding htons_def ntohs_def by (auto intro!: bit_word_eqI simp: bit_simps)

lemma ntohs_zeros [simp]: "ntohs 0 = 0" "ntohs 0xFFFF = 0xFFFF"
  by (simp_all add: ntohs_def)

lemma ntohs_inj [simp]: "ntohs a = ntohs b \<longleftrightarrow> a = b"
  by (metis htons_ntohs(1))

lemma htons_inj [simp]: "htons a = htons b \<longleftrightarrow> a = b"
  by (metis htons_ntohs(2))

lemma le16_split [simp]: "le16 (ucast w) (ucast (drop_bit 8 w)) = w"
  unfolding le16_def by (auto intro!: bit_word_eqI simp: bit_simps)

lemma u16_at_poke16 [simp]: "u16_at (poke16 m i w) i = w"
  by (simp add: u16_at_def poke16_def)

lemma u16_at_poke16_other [simp]:
  "i + 1 < j \<or> j + 1 < i \<Longrightarrow> u16_at (poke16 m i w) j = u16_at m j"
  by (auto simp: u16_at_def poke16_def)

lemma poke16_poke16 [simp]: "poke16 (poke16 m i v) i w = poke16 m i w"
  by (auto simp: poke16_def)

lemma ucast_le16: "ucast (le16 a b) = a" "ucast (drop_bit 8 (le16 a b)) = b"
  unfolding le16_def by (auto intro!: bit_word_eqI simp: bit_simps)

lemma poke16_u16_at [simp]: "poke16 m i (u16_at m i) = m"
  by (rule ext) (simp add: poke16_def u16_at_def ucast_le16)

lemma unat_ntohs: "unat (ntohs (le16 a b)) = 256 * unat a + unat b"
proof -
  have d: "ntohs (le16 a b) = push_bit 8 (ucast a) OR ucast b"
    unfolding ntohs_def le16_def
    by (auto intro!: bit_word_eqI simp: bit_simps)
  have "push_bit 8 (ucast a) AND (ucast b :: u16) = 0"
    by (auto intro!: bit_word_eqI simp: bit_simps)
  then have "ntohs (le16 a b) = push_bit 8 (ucast a) + ucast b"
    by (simp add: d disjunctive_add_eq_or)
  moreover have "unat (push_bit 8 (ucast a :: u16)) = 256 * unat a"
    using unsigned_less [of a, where 'a = nat]
    by (simp add: push_bit_eq_mult unat_word_ariths mod_less)
  ultimately show ?thesis
    using unsigned_less [of a, where 'a = nat] unsigned_less [of b, where 'a = nat]
    by (simp add: unat_word_ariths mod_less)
qed


lemma fold16_less: "unat (fold16 s) < 65536"
  by (simp add: unat_fold16)

lemma checksum16_eq_iff: "checksum16 s = checksum16 t \<longleftrightarrow> fold16 s = fold16 t"
proof
  assume "checksum16 s = checksum16 t"
  then have "NOT (ucast (fold16 s) :: u16) = NOT (ucast (fold16 t))"
    by (simp add: checksum16_def ucast_not_32_16)
  then have "unat (ucast (fold16 s) :: u16) = unat (ucast (fold16 t) :: u16)" by simp
  then have "unat (fold16 s) = unat (fold16 t)"
    using fold16_less [of s] fold16_less [of t] by (simp add: unat_ucast_32_16)
  then show "fold16 s = fold16 t" by (simp add: word_unat_eq_iff)
qed (simp add: checksum16_def)

lemma unat_word_sum:
  "n \<le> 65536 \<Longrightarrow> unat (word_sum m n) = (\<Sum>i<n. unat (ntohs (u16_at m (2 * i))))"
proof (induction n)
  case (Suc n)
  let ?S = "\<lambda>n. \<Sum>i<n. unat (ntohs (u16_at m (2 * i)))"
  have le: "unat (ntohs (u16_at m j)) \<le> 65535" for j
    using unsigned_less [of "ntohs (u16_at m j)", where 'a = nat] by simp
  have "?S n \<le> n * 65535"
    using sum_bounded_above [of "{..<n}" "\<lambda>i. unat (ntohs (u16_at m (2 * i)))" 65535] le by simp
  also have "\<dots> \<le> 65535 * 65535" using Suc.prems by simp
  finally have "unat (word_sum m n) + unat (ntohs (u16_at m (2 * n))) < 2 ^ 32"
    using Suc le [of "2 * n"] by simp
  then show ?case
    using Suc unat_add_lem [of "word_sum m n" "ucast (ntohs (u16_at m (2 * n)))"] by simp
qed simp

lemma sum_mod_change:
  fixes a b r :: nat
  assumes "(if r + a = 0 then 0 else (r + a - 1) mod 65535 + 1) =
           (if r + b = 0 then 0 else (r + b - 1) mod 65535 + 1)"
    and "a \<le> 65535" and "b \<le> 65535"
  shows "a = b \<or> (a = 0 \<and> b = 65535) \<or> (a = 65535 \<and> b = 0)"
proof (cases "r + a = 0 \<or> r + b = 0")
  case True
  then show ?thesis using assms by (auto split: if_splits)
next
  case False
  then have "(r + a - 1) mod 65535 = (r + b - 1) mod 65535"
    using assms(1) by (simp only: de_Morgan_disj if_False add_right_cancel)
  then have "int ((r + a - 1) mod 65535) = int ((r + b - 1) mod 65535)" by (rule arg_cong)
  then have "int (r + a - 1) mod 65535 = int (r + b - 1) mod 65535"
    by (simp only: of_nat_mod of_nat_numeral)
  then have "65535 dvd (int (r + a - 1) - int (r + b - 1))" by (simp add: mod_eq_dvd_iff)
  moreover have "int (r + a - 1) - int (r + b - 1) = int a - int b" using False by linarith
  ultimately have "65535 dvd (int a - int b)" by simp
  then obtain q where "int a - int b = 65535 * q" by (rule dvdE)
  moreover have "int a \<le> 65535" "int b \<le> 65535" using assms(2,3) by linarith+
  ultimately have "q \<le> 1" and "-1 \<le> q" by linarith+
  then consider "q = 0" | "q = 1" | "q = -1" by linarith
  then show ?thesis
    using \<open>int a - int b = 65535 * q\<close> assms(2,3) by cases linarith+
qed

text \<open>A change of one word changes the checksum, unless it exchanges the two representations of
  zero.\<close>

lemma checksum_word_change:
  assumes n: "n \<le> 65536" and k: "k < n"
    and same: "\<And>i. i < n \<Longrightarrow> i \<noteq> k \<Longrightarrow> u16_at m' (2 * i) = u16_at m (2 * i)"
    and diff: "u16_at m' (2 * k) \<noteq> u16_at m (2 * k)"
    and zeros: "{u16_at m (2 * k), u16_at m' (2 * k)} \<noteq> {0, 0xFFFF}"
  shows "checksum16 (word_sum m n) \<noteq> checksum16 (word_sum m' n)"
proof
  let ?v = "\<lambda>m i. unat (ntohs (u16_at m (2 * i)))"
  assume "checksum16 (word_sum m n) = checksum16 (word_sum m' n)"
  then have "fold16 (word_sum m n) = fold16 (word_sum m' n)" by (simp add: checksum16_eq_iff)
  then have f: "unat (fold16 (word_sum m n)) = unat (fold16 (word_sum m' n))" by simp
  have le: "?v x k \<le> 65535" for x
    using unsigned_less [of "ntohs (u16_at x (2 * k))", where 'a = nat] by simp
  have split: "(\<Sum>i<n. ?v x i) = (\<Sum>i\<in>{..<n} - {k}. ?v x i) + ?v x k" for x
    using k by (simp add: sum.remove [of "{..<n}" k])
  have "(\<Sum>i\<in>{..<n} - {k}. ?v m' i) = (\<Sum>i\<in>{..<n} - {k}. ?v m i)"
    using same by (intro sum.cong) auto
  then have "unat (word_sum m' n) = (\<Sum>i\<in>{..<n} - {k}. ?v m i) + ?v m' k"
    and "unat (word_sum m n) = (\<Sum>i\<in>{..<n} - {k}. ?v m i) + ?v m k"
    using split [of m] split [of m'] by (simp_all add: unat_word_sum n)
  then have "?v m k = ?v m' k \<or> (?v m k = 0 \<and> ?v m' k = 65535) \<or> (?v m k = 65535 \<and> ?v m' k = 0)"
    using f by (intro sum_mod_change [of "\<Sum>i\<in>{..<n} - {k}. ?v m i"])
      (simp_all only: unat_fold16 flip: unat_eq_zero, simp_all add: le)
  moreover have "?v x k = 0 \<longleftrightarrow> u16_at x (2 * k) = 0" for x
    using ntohs_inj [of "u16_at x (2 * k)" 0] by (simp add: unat_eq_zero)
  moreover have "?v x k = 65535 \<longleftrightarrow> u16_at x (2 * k) = 0xFFFF" for x
    using ntohs_inj [of "u16_at x (2 * k)" "0xFFFF"] by (simp add: word_unat_eq_iff)
  ultimately show False using diff zeros by (auto simp: insert_commute simp flip: word_unat_eq_iff)
qed

end
