(* ===== verification/Netif.thy ===== *)
theory Netif
  imports Netbytes Devfs
begin

text \<open>
  The network state and the interface layer of \<open>kernel/drivers/net.c\<close>.  The globals of the network
  code (\<open>drivers/net.c\<close>, \<open>net/arp.c\<close>, \<open>net/ip.c\<close>, \<open>net/icmp.c\<close>, \<open>net/udp.c\<close>) form one
  record.  Calls of a driver's \<open>send_packet\<close> are recorded in \<open>sent\<close> with the driver, the card
  and the frame; what \<open>read_packet\<close> returns is an argument of \<open>frame_received\<close>.  The arrays
  \<open>fragment_storage\<close> and \<open>udp_packet_buffer\<close> are memory, because the code computes addresses
  inside them from packet fields.  \<open>junk_ip\<close> and \<open>junk_mac\<close> are the bytes an uninitialised local
  array happens to hold, which the code reads when an interface index is invalid;
  \<open>live_bufs\<close> counts packet buffers that were allocated and not freed.
\<close>

record net_if =
  if_mac :: "byte list"
  if_driver :: u32
  if_driver_local_index :: u32
  if_ip :: "byte list"
  if_subnet :: "byte list"

record net_driver =
  nd_send_packet :: bool
  nd_read_packet :: bool
  nd_get_mac_address :: "(u32 \<Rightarrow> byte list option) option"

record route =
  dest_ips :: "byte list"
  gateway :: "byte list"
  netmask :: "byte list"
  route_card :: u32

record net =
  net_interfaces :: "net_if list"
  net_drivers :: "net_driver list"
  net_driver_index :: u32
  arp_cache :: "(byte list \<times> byte list) list"
  waiting_for_reply :: bool
  routes :: "route list"
  broadcast_card :: u32
  identification :: u16
  ids :: "u32 list"
  fragment_storage :: mem
  icmp_error_packet :: "mem option"
  pinging :: int
  icmp_identifier :: u16
  udp_packet_buffer :: mem
  udp_ports_open :: "u16 \<Rightarrow> bool"
  sent :: "(u32 \<times> u32 \<times> byte list) list"
  live_bufs :: nat
  junk_ip :: "byte list"
  junk_mac :: "byte list"

text \<open>An interface index is an \<open>int\<close>; a card number above \<open>INT_MAX\<close> is a negative index.\<close>

definition if_valid :: "net \<Rightarrow> u32 \<Rightarrow> bool" where
  "if_valid n i \<longleftrightarrow> 0 \<le> sint i \<and> sint i < int (length (net_interfaces n))"

fun find_interface :: "net_if list \<Rightarrow> u32 \<Rightarrow> u32 \<Rightarrow> int \<Rightarrow> int" where
  "find_interface [] driver loc i = - ENODEV"
| "find_interface (f # fs) driver loc i =
     (if if_driver f = driver \<and> if_driver_local_index f = loc then i
      else find_interface fs driver loc (i + 1))"

definition get_global_if_index :: "net \<Rightarrow> u32 \<Rightarrow> u32 \<Rightarrow> int" where
  "get_global_if_index n driver loc = find_interface (net_interfaces n) driver loc 0"

definition net_get_interface_count :: "net \<Rightarrow> int" where
  "net_get_interface_count n = int (length (net_interfaces n))"

definition configure_network_interface_static :: "net \<Rightarrow> u32 \<Rightarrow> byte list \<Rightarrow> byte list \<Rightarrow> int \<times> net" where
  "configure_network_interface_static n i ip subnet =
     (if \<not> if_valid n i then (- ENODEV, n)
      else (0, n\<lparr>net_interfaces := (net_interfaces n)[unat i :=
             (net_interfaces n ! unat i)\<lparr>if_ip := ip, if_subnet := subnet\<rparr>]\<rparr>))"

definition send_packet :: "net \<Rightarrow> u32 \<Rightarrow> byte list \<Rightarrow> int \<times> net" where
  "send_packet n i data =
     (if \<not> if_valid n i then (- ENODEV, n)
      else let iface = net_interfaces n ! unat i in
        if unat (if_driver iface) \<ge> length (net_drivers n) then (- ENODEV, n)
        else if \<not> nd_send_packet (net_drivers n ! unat (if_driver iface)) then (- ENOSYS, n)
        else (0, n\<lparr>sent := sent n @ [(if_driver iface, if_driver_local_index iface, data)]\<rparr>))"

text \<open>\<open>rx\<close> is what the driver's \<open>read_packet\<close> returns for a card: a length or an error, and the frame.\<close>

definition receive_packet :: "net \<Rightarrow> u32 \<Rightarrow> (u32 \<Rightarrow> u32 \<Rightarrow> int \<times> mem) \<Rightarrow> int \<times> mem" where
  "receive_packet n i rx =
     (if \<not> if_valid n i then (- ENODEV, (\<lambda>_. 0))
      else let iface = net_interfaces n ! unat i in
        if unat (if_driver iface) \<ge> length (net_drivers n) then (- ENODEV, (\<lambda>_. 0))
        else if \<not> nd_read_packet (net_drivers n ! unat (if_driver iface)) then (- ENOSYS, (\<lambda>_. 0))
        else rx (if_driver iface) (if_driver_local_index iface))"

definition does_exist :: "net \<Rightarrow> u32 \<Rightarrow> bool" where
  "does_exist n i = if_valid n i"

text \<open>The getters fill a local array of the caller and leave it alone on an invalid index; the
  second component is the array afterwards.\<close>

definition get_ip :: "net \<Rightarrow> u32 \<Rightarrow> int \<times> byte list" where
  "get_ip n i = (if \<not> if_valid n i then (- ENODEV, junk_ip n) else (0, if_ip (net_interfaces n ! unat i)))"

definition get_subnet :: "net \<Rightarrow> u32 \<Rightarrow> int \<times> byte list" where
  "get_subnet n i = (if \<not> if_valid n i then (- ENODEV, junk_ip n) else (0, if_subnet (net_interfaces n ! unat i)))"

definition get_mac :: "net \<Rightarrow> u32 \<Rightarrow> int \<times> byte list" where
  "get_mac n i = (if \<not> if_valid n i then (- ENODEV, junk_mac n) else (0, if_mac (net_interfaces n ! unat i)))"

definition register_net_driver :: "net \<Rightarrow> net_driver \<Rightarrow> int \<times> net" where
  "register_net_driver n d =
     (if length (net_drivers n) \<ge> 10 then (- ENOSPC, n)
      else (int (length (net_drivers n)), n\<lparr>net_drivers := net_drivers n @ [d]\<rparr>))"

text \<open>The count is below 10 here, so the name has one digit.\<close>

definition if_name :: "nat \<Rightarrow> string" where
  "if_name i = ''net/eth'' @ (if i < 10 then [char_of (48 + i)]
     else if i < 100 then [char_of (48 + i div 10), char_of (48 + i mod 10)] else [])"

definition register_net_interface :: "net \<Rightarrow> devfs \<Rightarrow> u32 \<Rightarrow> u32 \<Rightarrow> u64 \<Rightarrow> (int \<times> net \<times> devfs) outcome" where
  "register_net_interface n v driver loc now =
     (let k = length (net_interfaces n) in
      if k \<ge> 10 then Ret (- ENOSPC, n, v)
      else if sint driver < 0 \<or> unat driver \<ge> length (net_drivers n) then Ret (- ENODEV, n, v)
      else
        bind_outcome (devfs_create_directory v ''net'' now) (\<lambda>(r1, v1).
        bind_outcome (devfs_mknod v1 (if_name k) DT_CHAR (makedev (net_driver_index n) (word_of_nat k)) now) (\<lambda>(r2, v2).
          let mac = (case nd_get_mac_address (net_drivers n ! unat driver) of
                None \<Rightarrow> replicate 6 0
              | Some f \<Rightarrow> (case f loc of None \<Rightarrow> replicate 6 0 | Some m \<Rightarrow> take 6 m))
          in Ret (int k, n\<lparr>net_interfaces := net_interfaces n @
               [\<lparr>if_mac = mac, if_driver = driver, if_driver_local_index = loc,
                 if_ip = replicate 4 0, if_subnet = replicate 4 0\<rparr>]\<rparr>, v2))))"

text \<open>The two requests of \<open>kernel/uapi/ioctl.h\<close>; the user's structure is the record passed in, and
  \<open>ok\<close> is the result of \<open>validate_user_pointer\<close>.\<close>

record if_info =
  info_mac :: "byte list"
  info_ip :: "byte list"
  info_subnet :: "byte list"

datatype if_request = IF_GET_INFO | IF_CONFIGURE | IF_OTHER

definition net_ioctl :: "net \<Rightarrow> u32 \<Rightarrow> if_request \<Rightarrow> int \<Rightarrow> if_info \<Rightarrow> int \<times> if_info \<times> net" where
  "net_ioctl n i request ok info =
     (if \<not> if_valid n i then (- ENODEV, info, n)
      else case request of
        IF_GET_INFO \<Rightarrow>
          if ok < 0 then (ok, info, n)
          else (0, \<lparr>info_mac = if_mac (net_interfaces n ! unat i), info_ip = if_ip (net_interfaces n ! unat i),
                    info_subnet = if_subnet (net_interfaces n ! unat i)\<rparr>, n)
      | IF_CONFIGURE \<Rightarrow>
          if ok < 0 then (ok, info, n)
          else (0, info, n\<lparr>net_interfaces := (net_interfaces n)[unat i :=
                 (net_interfaces n ! unat i)\<lparr>if_ip := info_ip info, if_subnet := info_subnet info\<rparr>]\<rparr>)
      | IF_OTHER \<Rightarrow> (- ENOTTY, info, n))"

section \<open>Ethernet\<close>

definition BROADCAST_MAC :: "byte list" where
  "BROADCAST_MAC = replicate 6 0xff"

text \<open>The frame comes from \<open>kmalloc\<close>, so the padding up to the minimum size is zero.  The result of
  \<open>send_packet\<close> is not looked at.\<close>

definition send_ethernet :: "net \<Rightarrow> byte list \<Rightarrow> byte list \<Rightarrow> u16 \<Rightarrow> byte list \<Rightarrow> u32 \<Rightarrow> int \<times> net" where
  "send_ethernet n src_mac dst_mac ethertype payload ifc =
     (let frame_length = (if 14 + length payload < 60 then 60 else 14 + length payload) in
      if length payload > 1792 then (- EMSGSIZE, n)
      else let frame = dst_mac @ src_mac @ [ucast (drop_bit 8 ethertype AND 0xFF), ucast (ethertype AND 0xFF)] @
                 payload @ replicate (frame_length - 14 - length payload) 0
           in (0, snd (send_packet n ifc frame)))"

section \<open>ARP\<close>

definition ARP_CACHE_SIZE :: nat where "ARP_CACHE_SIZE = 1024"

text \<open>The packed structure \<open>arp_packet_t\<close>.\<close>

definition le16_bytes :: "u16 \<Rightarrow> byte list" where
  "le16_bytes w = [ucast w, ucast (drop_bit 8 w)]"

definition arp_packet :: "u16 \<Rightarrow> byte list \<Rightarrow> byte list \<Rightarrow> byte list \<Rightarrow> byte list \<Rightarrow> byte list" where
  "arp_packet opcode sender_mac sender_ip target_mac target_ip =
     le16_bytes (htons 1) @ le16_bytes (htons 0x0800) @ [6, 4] @ le16_bytes (htons opcode) @
     sender_mac @ sender_ip @ target_mac @ target_ip"

text \<open>The first free slot of the cache takes the sender; a full cache drops it.\<close>

fun arp_insert :: "(byte list \<times> byte list) list \<Rightarrow> byte list \<Rightarrow> byte list \<Rightarrow> (byte list \<times> byte list) list" where
  "arp_insert [] ip mac = []"
| "arp_insert ((i, m) # c) ip mac =
     (if i = [0, 0, 0, 0] then (ip, mac) # c else (i, m) # arp_insert c ip mac)"

definition arp_find :: "(byte list \<times> byte list) list \<Rightarrow> byte list \<Rightarrow> byte list option" where
  "arp_find c ip = map_option snd (List.find (\<lambda>e. fst e = ip) c)"

definition arp_reply :: "net \<Rightarrow> mem \<Rightarrow> u32 \<Rightarrow> net" where
  "arp_reply n request ifc =
     (let ip = snd (get_ip n ifc); our_mac = snd (get_mac n ifc);
          opcode = ntohs (u16_at request 6);
          sender_mac = bytes_at request 8 6; sender_ip = bytes_at request 14 4; target_ip = bytes_at request 24 4;
          n1 = (if waiting_for_reply n \<and> opcode = 2 \<and> ip = target_ip
                then n\<lparr>arp_cache := arp_insert (arp_cache n) sender_ip sender_mac, waiting_for_reply := False\<rparr>
                else n)
      in if opcode \<noteq> 1 then n1
         else if target_ip \<noteq> ip then n1
         else snd (send_ethernet n1 our_mac sender_mac 0x0806
                (arp_packet 2 our_mac target_ip sender_mac sender_ip) ifc))"

text \<open>
  The waiting loops yield to other tasks and to interrupts.  A poll says how one iteration finds
  the world: whether the time limit has passed, whether a signal is pending, and what other code
  does to the network state during the yield.  A call gets a list of polls and returns those it did
  not use; with none left it \<open>Blocks\<close>.
\<close>

type_synonym poll = "bool \<times> bool \<times> (net \<Rightarrow> net)"

fun arp_wait :: "poll list \<Rightarrow> net \<Rightarrow> (bool \<times> poll list \<times> net) outcome" where
  "arp_wait [] n = (if \<not> waiting_for_reply n then Ret (False, [], n) else Blocks)"
| "arp_wait ((timeout, signal, others) # ps) n =
     (if \<not> waiting_for_reply n then Ret (False, (timeout, signal, others) # ps, n)
      else if timeout then Ret (False, ps, n)
      else if signal then Ret (True, ps, n\<lparr>waiting_for_reply := False\<rparr>)
      else arp_wait ps (others n))"

text \<open>The loop over the three tries; \<open>Some e\<close> is an early return with the error \<open>e\<close>.\<close>

primrec arp_tries :: "nat \<Rightarrow> byte list \<Rightarrow> byte list \<Rightarrow> u32 \<Rightarrow> poll list \<Rightarrow> net \<Rightarrow> (int option \<times> poll list \<times> net) outcome" where
  "arp_tries 0 mac frame ifc ps n = Ret (None, ps, n)"
| "arp_tries (Suc k) mac frame ifc ps n =
     (case send_ethernet n mac BROADCAST_MAC 0x0806 frame ifc of (res, n1) \<Rightarrow>
        if res < 0 then Ret (Some res, ps, n1)
        else bind_outcome (arp_wait ps n1) (\<lambda>(interrupted, ps1, n2).
          if interrupted then Ret (Some (- EINTR), ps1, n2)
          else if \<not> waiting_for_reply n2 then Ret (None, ps1, n2)
          else arp_tries k mac frame ifc ps1 n2))"

text \<open>The second component is \<open>target_mac_buffer\<close> afterwards; \<open>buf\<close> is what it held before.\<close>

definition arp_request ::
  "byte list \<Rightarrow> byte list \<Rightarrow> u32 \<Rightarrow> poll list \<Rightarrow> net \<Rightarrow> (int \<times> byte list \<times> poll list \<times> net) outcome" where
  "arp_request target_ip buf ifc ps n =
     (case arp_find (arp_cache n) target_ip of
        Some mac \<Rightarrow> Ret (0, mac, ps, n)
      | None \<Rightarrow>
          (let our_mac = snd (get_mac n ifc); ip = snd (get_ip n ifc);
               padded_frame = arp_packet 1 our_mac ip (replicate 6 0) target_ip @ replicate (46 - 28) 0
           in bind_outcome (arp_tries 3 our_mac padded_frame ifc ps (n\<lparr>waiting_for_reply := True\<rparr>)) (\<lambda>(e, ps1, n1).
              case e of
                Some err \<Rightarrow> Ret (err, buf, ps1, n1)
              | None \<Rightarrow>
                  if waiting_for_reply n1 then Ret (- EHOSTUNREACH, buf, ps1, n1\<lparr>waiting_for_reply := False\<rparr>)
                  else (case arp_find (arp_cache n1) target_ip of
                      Some mac \<Rightarrow> Ret (0, mac, ps1, n1)
                    | None \<Rightarrow> Ret (-1, replicate 6 0, ps1, n1)))))"

end
