(* ===== verification/Ipnet.thy ===== *)
theory Ipnet
  imports Netif
begin

text \<open>
  IPv4, ICMP and UDP: \<open>kernel/net/ip.c\<close>, \<open>icmp.c\<close>, \<open>udp.c\<close>, \<open>socket.c\<close> and the
  dispatch \<open>frame_received\<close> of \<open>ethernet.c\<close>.  A received packet is memory; a payload to be sent
  is memory and a length, which is an \<open>int\<close> in the source and can be negative.  A \<open>memcpy\<close> with a
  negative length, or one that leaves the array it writes to, is a \<open>Fault\<close>.  Functions that
  may wait take and return the list of polls of the previous theory.
\<close>

section \<open>Routing\<close>

lemma and_dec_less: "x \<noteq> 0 \<Longrightarrow> unat ((x :: u64) AND (x - 1)) < unat x"
proof -
  assume "x \<noteq> 0"
  have "x AND (x - 1) \<le> x - 1" by (rule word_and_le1)
  moreover have pos: "0 < unat x" using \<open>x \<noteq> 0\<close> by (simp add: unat_gt_0)
  then have "1 \<le> x" by (simp add: word_le_nat_alt)
  then have "unat (x - 1) = unat x - 1" by (simp add: unat_sub)
  ultimately show ?thesis using pos by (simp add: word_le_nat_alt)
qed

function popcount :: "u64 \<Rightarrow> nat" where
  "popcount x = (if x \<noteq> 0 then popcount (x AND (x - 1)) + 1 else 0)"
  by pat_completeness auto
termination by (relation "measure unat") (auto simp: and_dec_less)

declare popcount.simps [simp del]

definition route_matches :: "byte list \<Rightarrow> route \<Rightarrow> bool" where
  "route_matches dst r = list_all (\<lambda>j. dst ! j AND netmask r ! j = dest_ips r ! j AND netmask r ! j) [0..<4]"

definition prefix_len :: "route \<Rightarrow> int" where
  "prefix_len r = sum_list (map (\<lambda>j. int (popcount (ucast (netmask r ! j)))) [0..<4])"

text \<open>The loop over the routing table with \<open>best_route\<close> and \<open>best_prefix\<close>.\<close>

fun route_loop :: "byte list \<Rightarrow> route list \<Rightarrow> nat \<Rightarrow> nat option \<Rightarrow> int \<Rightarrow> nat option" where
  "route_loop dst [] i best best_prefix = best"
| "route_loop dst (r # rs) i best best_prefix =
     (if route_matches dst r \<and> prefix_len r > best_prefix
      then route_loop dst rs (i + 1) (Some i) (prefix_len r)
      else route_loop dst rs (i + 1) best best_prefix)"

definition best_route :: "net \<Rightarrow> byte list \<Rightarrow> nat option" where
  "best_route n dst = route_loop dst (routes n) 0 None (-1)"

definition get_source_ip_for :: "net \<Rightarrow> byte list \<Rightarrow> byte list" where
  "get_source_ip_for n dst =
     (case best_route n dst of None \<Rightarrow> [0, 0, 0, 0] | Some i \<Rightarrow> snd (get_ip n (route_card (routes n ! i))))"

text \<open>\<open>rdev\<close> is the device number that \<open>stat\<close> reports for the interface name.\<close>

definition add_route :: "net \<Rightarrow> byte list \<Rightarrow> byte list \<Rightarrow> byte list \<Rightarrow> u64 \<Rightarrow> net" where
  "add_route n dst gw nmask rdev =
     (if length (routes n) \<ge> 16 then n
      else if major rdev \<noteq> net_driver_index n then n
      else n\<lparr>routes := routes n @ [\<lparr>dest_ips = dst, gateway = gw, netmask = nmask, route_card = minor rdev\<rparr>]\<rparr>)"

fun remove_first :: "byte list \<Rightarrow> byte list \<Rightarrow> route list \<Rightarrow> route list" where
  "remove_first dst nmask [] = []"
| "remove_first dst nmask (r # rs) =
     (if dest_ips r = dst \<and> netmask r = nmask then rs else r # remove_first dst nmask rs)"

definition remove_route :: "net \<Rightarrow> byte list \<Rightarrow> byte list \<Rightarrow> net" where
  "remove_route n dst nmask = n\<lparr>routes := remove_first dst nmask (routes n)\<rparr>"

section \<open>The IP header\<close>

definition IPV4_HEADER_LEN :: nat where "IPV4_HEADER_LEN = 20"
definition IP_FLAG_DF :: u16 where "IP_FLAG_DF = 0x4000"
definition IP_FLAG_MF :: u16 where "IP_FLAG_MF = 0x2000"
definition IP_FRAGMENT_OFFSET_MASK :: u16 where "IP_FRAGMENT_OFFSET_MASK = 0x1FFF"
definition IP_BROADCAST_ADDR :: "byte list" where "IP_BROADCAST_ADDR = [0xff, 0xff, 0xff, 0xff]"

text \<open>The 16-bit fields hold network byte order, as in the C structure.\<close>

record ipv4_header =
  version_ihl :: byte
  tos :: byte
  total_length :: u16
  ip_identification :: u16
  flags_fragment_offset :: u16
  ttl :: byte
  protocol :: byte
  header_checksum :: u16
  src_ip :: "byte list"
  dst_ip :: "byte list"

definition header_bytes :: "ipv4_header \<Rightarrow> byte list" where
  "header_bytes h = [version_ihl h, tos h] @ le16_bytes (total_length h) @ le16_bytes (ip_identification h) @
     le16_bytes (flags_fragment_offset h) @ [ttl h, protocol h] @ le16_bytes (header_checksum h) @ src_ip h @ dst_ip h"

definition mem_of :: "byte list \<Rightarrow> mem" where
  "mem_of xs = (\<lambda>i. if i < length xs then xs ! i else 0)"

text \<open>Clearing the checksum field, summing the header words and storing the result.\<close>

definition fill_checksum :: "ipv4_header \<Rightarrow> ipv4_header" where
  "fill_checksum h =
     (let h0 = h\<lparr>header_checksum := 0\<rparr>
      in h0\<lparr>header_checksum := checksum16 (word_sum (mem_of (header_bytes h0)) (IPV4_HEADER_LEN div 2))\<rparr>)"

section \<open>Sending\<close>

text \<open>
  The fragmentation loop.  Its counter is a \<open>uint16_t\<close> and is compared with an \<open>int\<close>, so it can
  wrap; the fuel bounds the number of fragments.  The buffer of a fragment is never freed.
\<close>

fun send_fragments ::
  "nat \<Rightarrow> ipv4_header \<Rightarrow> mem \<Rightarrow> int \<Rightarrow> byte list \<Rightarrow> u32 \<Rightarrow> u16 \<Rightarrow> net \<Rightarrow> (int \<times> net) outcome" where
  "send_fragments 0 h payload len mac ifc i n = Blocks"
| "send_fragments (Suc k) h payload len mac ifc i n =
     (if int (unat i) \<ge> len then Ret (0, n)
      else let fragment_size = (if len - int (unat i) > 1480 then 1480 else len - int (unat i));
               h1 = fill_checksum (h\<lparr>total_length := htons (word_of_int (20 + fragment_size)),
                      flags_fragment_offset := htons (i div 8 OR
                        (if int (unat i) + fragment_size < len then IP_FLAG_MF else 0))\<rparr>);
               packet = header_bytes h1 @ bytes_at payload (unat i) (nat fragment_size)
           in (case send_ethernet (n\<lparr>live_bufs := live_bufs n + 1\<rparr>) (snd (get_mac n ifc)) mac 0x0800 packet ifc of
                 (res, n1) \<Rightarrow>
                   if res < 0 then Ret (res, n1)
                   else send_fragments k h payload len mac ifc (i + 1480) n1))"

definition MAX_FRAGMENTS :: nat where "MAX_FRAGMENTS = 46"

definition ip_send ::
  "byte list \<Rightarrow> byte \<Rightarrow> mem \<Rightarrow> int \<Rightarrow> poll list \<Rightarrow> net \<Rightarrow> (int \<times> poll list \<times> net) outcome" where
  "ip_send dst proto payload len ps n =
     (let best = best_route n dst; bcast = (dst = IP_BROADCAST_ADDR);
          ifc = (if bcast then broadcast_card n
                 else case best of None \<Rightarrow> 0 | Some i \<Rightarrow> route_card (routes n ! i))
      in if \<not> bcast \<and> best = None then Ret (- EHOSTUNREACH, ps, n)
         else
         let ip = snd (get_ip n ifc);
             router_ip = (case best of None \<Rightarrow> [] | Some i \<Rightarrow> gateway (routes n ! i));
             same_subnet = (bcast \<or> router_ip = [0, 0, 0, 0])
         in bind_outcome
              (if bcast then Ret (0, BROADCAST_MAC, ps, n)
               else if \<not> same_subnet then arp_request router_ip BROADCAST_MAC ifc ps n
               else arp_request dst BROADCAST_MAC ifc ps n) (\<lambda>(res, dst_mac, ps1, n1).
            if res < 0 then Ret (res, ps1, n1)
            else
            let h = fill_checksum \<lparr>version_ihl = 0x45, tos = 0,
                      total_length = htons (word_of_int (20 + len)), ip_identification = htons (identification n1),
                      flags_fragment_offset = htons IP_FLAG_DF, ttl = 128, protocol = proto,
                      header_checksum = 0, src_ip = ip, dst_ip = dst\<rparr>;
                n2 = n1\<lparr>identification := identification n1 + 1\<rparr>
            in if len > 1500
               then bind_outcome (send_fragments MAX_FRAGMENTS h payload len dst_mac ifc 0 n2) (\<lambda>(r, n3). Ret (r, ps1, n3))
               else if len < 0 then Fault
               else (case send_ethernet n2 (snd (get_mac n2 ifc)) dst_mac 0x0800
                         (header_bytes h @ bytes_at payload 0 (nat len)) ifc of
                       (r, n3) \<Rightarrow> Ret (r, ps1, n3))))"

section \<open>ICMP\<close>

text \<open>The checksum loop over pairs of bytes; an odd last byte is padded with zero.\<close>

primrec icmp_sum :: "mem \<Rightarrow> int \<Rightarrow> nat \<Rightarrow> u32" where
  "icmp_sum data len 0 = 0"
| "icmp_sum data len (Suc k) = icmp_sum data len k +
     ucast ((push_bit 8 (ucast (data (2 * k))) :: u16) OR
       (if int (2 * k + 1) < len then ucast (data (2 * k + 1)) else 0))"

definition icmp_checksum :: "mem \<Rightarrow> int \<Rightarrow> u16" where
  "icmp_checksum data len = checksum16 (icmp_sum data len (nat ((len + 1) div 2)))"

definition icmp_send ::
  "byte list \<Rightarrow> byte \<Rightarrow> byte \<Rightarrow> u16 \<Rightarrow> mem \<Rightarrow> int \<Rightarrow> poll list \<Rightarrow> net \<Rightarrow> (int \<times> poll list \<times> net) outcome" where
  "icmp_send dest ty code seqno data data_len ps n =
     (if data_len < 0 then Fault
      else let packet_len = 8 + data_len;
               body = mem_of ([ty, code, 0, 0] @ le16_bytes (htons (icmp_identifier n)) @ le16_bytes (htons seqno) @
                        bytes_at data 0 (nat data_len));
               packet = poke16 body 2 (icmp_checksum body packet_len)
           in ip_send dest 1 packet packet_len ps (n\<lparr>icmp_identifier := icmp_identifier n + 1\<rparr>))"

definition send_unreachable ::
  "byte list \<Rightarrow> byte \<Rightarrow> mem \<Rightarrow> int \<Rightarrow> poll list \<Rightarrow> net \<Rightarrow> (int \<times> poll list \<times> net) outcome" where
  "send_unreachable dest code original len ps n = icmp_send dest 3 code 0 original len ps n"

definition icmp_received ::
  "mem \<Rightarrow> byte list \<Rightarrow> int \<Rightarrow> poll list \<Rightarrow> net \<Rightarrow> (poll list \<times> net) outcome" where
  "icmp_received packet sender len ps n =
     (let received_checksum = u16_at packet 2; cleared = poke16 packet 2 0 in
      if received_checksum \<noteq> icmp_checksum cleared len then Ret (ps, n)
      else let ty = packet 0 in
        if ty = 8 then
          (let reply = cleared(0 := 0); reply' = poke16 reply 2 (icmp_checksum reply len)
           in bind_outcome (ip_send sender 1 reply' len ps n) (\<lambda>(r, ps1, n1). Ret (ps1, n1)))
        else if ty = 0 then Ret (ps, n\<lparr>pinging := 0\<rparr>)
        else if ty = 3 then Ret (ps, if pinging n \<noteq> 0 then n\<lparr>pinging := -1\<rparr> else n)
        else Ret (ps, n))"

text \<open>The two waiting loops of \<open>ping\<close>: until no other ping is under way, and until an answer.\<close>

fun ping_turn :: "poll list \<Rightarrow> net \<Rightarrow> (bool \<times> poll list \<times> net) outcome" where
  "ping_turn [] n = (if pinging n = 0 then Ret (False, [], n) else Blocks)"
| "ping_turn ((timeout, signal, others) # ps) n =
     (if pinging n = 0 then Ret (False, (timeout, signal, others) # ps, n)
      else if signal then Ret (True, ps, n)
      else ping_turn ps (others n))"

fun ping_wait :: "poll list \<Rightarrow> net \<Rightarrow> (bool \<times> poll list \<times> net) outcome" where
  "ping_wait [] n = (if pinging n \<noteq> 1 then Ret (False, [], n) else Blocks)"
| "ping_wait ((timeout, signal, others) # ps) n =
     (if pinging n \<noteq> 1 then Ret (False, (timeout, signal, others) # ps, n)
      else if timeout then Ret (False, ps, n)
      else if signal then Ret (True, ps, n\<lparr>pinging := 0\<rparr>)
      else ping_wait ps (others n))"

text \<open>\<open>elapsed\<close> is the time the clock shows since the request, as the \<open>uint16_t\<close> the code keeps.\<close>

definition ping :: "byte list \<Rightarrow> u16 \<Rightarrow> poll list \<Rightarrow> net \<Rightarrow> (int \<times> poll list \<times> net) outcome" where
  "ping dest elapsed ps n =
     bind_outcome (ping_turn ps n) (\<lambda>(interrupted, ps1, n1).
       if interrupted then Ret (- EINTR, ps1, n1)
       else bind_outcome (icmp_send dest 8 0 0 (\<lambda>_. 0x61) 56 ps1 (n1\<lparr>pinging := 1\<rparr>)) (\<lambda>(r, ps2, n2).
         bind_outcome (ping_wait ps2 n2) (\<lambda>(interrupted, ps3, n3).
           if interrupted then Ret (- EINTR, ps3, n3)
           else if pinging n3 = 0 then Ret (int (unat elapsed), ps3, n3)
           else if pinging n3 < 0 then Ret (- EHOSTUNREACH, ps3, n3\<lparr>pinging := 0\<rparr>)
           else Ret (- ETIMEDOUT, ps3, n3\<lparr>pinging := 0\<rparr>))))"

section \<open>UDP\<close>

definition UDP_MAX_DATA_SIZE :: int where "UDP_MAX_DATA_SIZE = 1472"
definition UDP_BUFFER_SIZE :: nat where "UDP_BUFFER_SIZE = 1024"
definition UDP_ROW :: nat where "UDP_ROW = 1484"

definition udp_checksum :: "byte list \<Rightarrow> byte list \<Rightarrow> mem \<Rightarrow> int \<Rightarrow> u16" where
  "udp_checksum src dst packet len =
     (let pseudo_header = src @ dst @ [0, 17] @ le16_bytes (htons (word_of_int len))
      in checksum16 (word_sum (mem_of pseudo_header) 6 + word_sum packet (nat ((len + 1) div 2))))"

text \<open>The packet \<open>udp_send\<close> builds in a zeroed buffer.\<close>

definition udp_body :: "u16 \<Rightarrow> u16 \<Rightarrow> mem \<Rightarrow> int \<Rightarrow> mem" where
  "udp_body src_port dest_port data data_len =
     mem_of (le16_bytes (htons src_port) @ le16_bytes (htons dest_port) @
       le16_bytes (htons (word_of_int (8 + data_len))) @ [0, 0] @ bytes_at data 0 (nat data_len))"

definition udp_packet :: "byte list \<Rightarrow> byte list \<Rightarrow> u16 \<Rightarrow> u16 \<Rightarrow> mem \<Rightarrow> int \<Rightarrow> mem" where
  "udp_packet ip dest src_port dest_port data data_len =
     (let body = udp_body src_port dest_port data data_len
      in poke16 body 6 (udp_checksum ip dest body (8 + data_len)))"

definition udp_send ::
  "byte list \<Rightarrow> u16 \<Rightarrow> u16 \<Rightarrow> mem \<Rightarrow> int \<Rightarrow> poll list \<Rightarrow> net \<Rightarrow> (int \<times> poll list \<times> net) outcome" where
  "udp_send dest src_port dest_port data data_len ps n =
     (let ip = get_source_ip_for n dest in
      if data_len > UDP_MAX_DATA_SIZE then Ret (- EMSGSIZE, ps, n)
      else if data_len < 0 then Fault
      else ip_send dest 17 (udp_packet ip dest src_port dest_port data data_len) (8 + data_len) ps n)"

definition ip_send_dest_unreachable ::
  "byte list \<Rightarrow> byte \<Rightarrow> poll list \<Rightarrow> net \<Rightarrow> (poll list \<times> net) outcome" where
  "ip_send_dest_unreachable dest code ps n =
     (case icmp_error_packet n of
        None \<Rightarrow> Ret (ps, n)
      | Some pkt \<Rightarrow>
          bind_outcome (send_unreachable dest code pkt (int (unat (ntohs (u16_at pkt 2)))) ps n)
            (\<lambda>(r, ps1, n1). Ret (ps1, n1)))"

text \<open>The rows of \<open>udp_packet_buffer\<close>: four bytes of sender address, then the UDP packet; a length
  field of zero marks a free row.\<close>

definition row_length :: "net \<Rightarrow> nat \<Rightarrow> u16" where
  "row_length n i = u16_at (udp_packet_buffer n) (i * UDP_ROW + 4 + 4)"

definition free_row :: "net \<Rightarrow> nat option" where
  "free_row n = List.find (\<lambda>i. row_length n i = 0) [0..<UDP_BUFFER_SIZE]"

text \<open>\<open>alias\<close> is the offset of the packet in the frame that \<open>icmp_error_packet\<close> points to, when it lies
  there and not in the reassembly storage: clearing the checksum field then also changes the
  frame.\<close>

definition udp_received ::
  "mem \<Rightarrow> nat option \<Rightarrow> byte list \<Rightarrow> byte list \<Rightarrow> int \<Rightarrow> poll list \<Rightarrow> net \<Rightarrow> (poll list \<times> net) outcome" where
  "udp_received packet alias sender dest len ps n =
     (if len < 8 then Ret (ps, n)
      else if int (unat (ntohs (u16_at packet 4))) \<noteq> len then Ret (ps, n)
      else
      let received_checksum = u16_at packet 6; cleared = poke16 packet 6 0;
          n1 = (case (alias, icmp_error_packet n) of
                  (Some off, Some pkt) \<Rightarrow> n\<lparr>icmp_error_packet := Some (poke16 pkt (off + 6) 0)\<rparr>
                | _ \<Rightarrow> n)
      in if received_checksum \<noteq> udp_checksum sender dest cleared len then Ret (ps, n1)
         else if udp_ports_open n (ntohs (u16_at packet 2)) then
           (case free_row n of
              None \<Rightarrow> Ret (ps, n1)
            | Some i \<Rightarrow>
                if i * UDP_ROW + 4 + nat len > UDP_BUFFER_SIZE * UDP_ROW then Fault
                else Ret (ps, n1\<lparr>udp_packet_buffer :=
                       poke (poke (udp_packet_buffer n) (i * UDP_ROW) (take 4 sender))
                         (i * UDP_ROW + 4) (bytes_at cleared 0 (nat len))\<rparr>))
         else ip_send_dest_unreachable sender 3 ps n1)"

record sockaddr_in =
  sa_type :: byte
  sa_ip :: "byte list"
  sa_port :: u16

definition row_for_port :: "net \<Rightarrow> u16 \<Rightarrow> nat option" where
  "row_for_port n port =
     List.find (\<lambda>i. row_length n i \<noteq> 0 \<and> ntohs (u16_at (udp_packet_buffer n) (i * UDP_ROW + 4 + 2)) = port)
       [0..<UDP_BUFFER_SIZE]"

definition udp_get_packet ::
  "u16 \<Rightarrow> u64 \<Rightarrow> int \<Rightarrow> sockaddr_in \<Rightarrow> net \<Rightarrow> int \<times> byte list \<times> sockaddr_in \<times> net" where
  "udp_get_packet port len peek sender n =
     (case row_for_port n port of
        None \<Rightarrow> (- EAGAIN, [], sender, n)
      | Some i \<Rightarrow>
          (let buf = i * UDP_ROW; m = udp_packet_buffer n;
               sz0 = ucast (ntohs (row_length n i)) - 8; sz = (if sz0 > len then len else sz0)
           in (sint sz, bytes_at m (buf + 12) (unat sz),
               sender\<lparr>sa_type := 1, sa_ip := bytes_at m buf 4, sa_port := ntohs (u16_at m (buf + 4))\<rparr>,
               if peek = 0 then n\<lparr>udp_packet_buffer := poke16 m (buf + 8) 0\<rparr> else n)))"

definition udp_open :: "u16 \<Rightarrow> net \<Rightarrow> int \<times> net" where
  "udp_open port n =
     (if udp_ports_open n port then (- EBUSY, n)
      else (0, n\<lparr>udp_ports_open := (udp_ports_open n)(port := True)\<rparr>))"

definition udp_close :: "u16 \<Rightarrow> net \<Rightarrow> net" where
  "udp_close port n = n\<lparr>udp_ports_open := (udp_ports_open n)(port := False)\<rparr>"

section \<open>Receiving\<close>

text \<open>The slot of the reassembly storage a fragment goes to: the first that is free or has its
  identification.\<close>

definition fragment_slot :: "net \<Rightarrow> u32 \<Rightarrow> nat option" where
  "fragment_slot n ident = List.find (\<lambda>i. ids n ! i = ident \<or> ids n ! i = 0) [0..<12]"

definition FRAGMENT_ROW :: nat where "FRAGMENT_ROW = 0xFFFF"

definition header_words :: "mem \<Rightarrow> nat" where
  "header_words frame = unat (frame 0 AND 0x0F) * 2"

text \<open>The dispatch on the protocol; \<open>alias\<close> as for \<open>udp_received\<close>.\<close>

definition ip_deliver ::
  "mem \<Rightarrow> mem \<Rightarrow> nat option \<Rightarrow> int \<Rightarrow> poll list \<Rightarrow> net \<Rightarrow> (poll list \<times> net) outcome" where
  "ip_deliver frame payload alias len ps n =
     (let src = bytes_at frame 12 4; dst = bytes_at frame 16 4;
          total = int (unat (ntohs (u16_at frame 2))); proto = frame 9;
          n1 = n\<lparr>icmp_error_packet := Some frame\<rparr>
      in if proto = 1 then icmp_received payload src len ps n1
         else if proto = 17 then udp_received payload alias src dst len ps n1
         else bind_outcome (send_unreachable src 2 frame (if total > 20 + 64 then 20 + 64 else total) ps n1)
                (\<lambda>(r, ps1, n2). Ret (ps1, n2)))"

text \<open>When the checksum does not match, the source leaves the checksum field of the card's receive buffer cleared;
  no code looks at that buffer again before the card has put another frame there, so the state does not show it.\<close>

definition ip_received :: "mem \<Rightarrow> u32 \<Rightarrow> poll list \<Rightarrow> net \<Rightarrow> (poll list \<times> net) outcome" where
  "ip_received frame ifc ps n =
     (let ip = snd (get_ip n ifc); dst = bytes_at frame 16 4 in
      if drop_bit 4 (frame 0) \<noteq> 4 \<or> frame 0 AND 0x0F < 5 then Ret (ps, n)
      else if dst \<noteq> ip \<and> dst \<noteq> IP_BROADCAST_ADDR then Ret (ps, n)
      else if u16_at frame 10 \<noteq> checksum16 (word_sum (poke16 frame 10 0) (header_words frame)) then Ret (ps, n)
      else
      let header_length = unat (frame 0 AND 0x0F) * 4;
          payload_length = int (unat (ntohs (u16_at frame 2))) - int header_length;
          payload = shift_mem frame header_length;
          flags_offset = ntohs (u16_at frame 6);
          ident = ucast (ntohs (u16_at frame 4))
      in if flags_offset AND IP_FLAG_DF \<noteq> 0 then ip_deliver frame payload (Some header_length) payload_length ps n
         else case fragment_slot n ident of
             None \<Rightarrow> ip_deliver frame payload (Some header_length) payload_length ps n
           | Some i \<Rightarrow>
               let off = i * FRAGMENT_ROW + unat (flags_offset AND IP_FRAGMENT_OFFSET_MASK) * 8 in
               if payload_length < 0 \<or> off + nat payload_length > 12 * FRAGMENT_ROW then Fault
               else let n1 = n\<lparr>fragment_storage := poke (fragment_storage n) off (bytes_at payload 0 (nat payload_length))\<rparr>
                    in if flags_offset AND IP_FLAG_MF = 0
                       then let n2 = n1\<lparr>ids := (ids n)[i := 0]\<rparr>
                            in ip_deliver frame (shift_mem (fragment_storage n2) (i * FRAGMENT_ROW)) None payload_length ps n2
                       else Ret (ps, n1\<lparr>ids := (ids n)[i := ident]\<rparr>))"

definition frame_received :: "u32 \<Rightarrow> (u32 \<Rightarrow> u32 \<Rightarrow> int \<times> mem) \<Rightarrow> poll list \<Rightarrow> net \<Rightarrow> (poll list \<times> net) outcome" where
  "frame_received ifc rx ps n =
     (case receive_packet n ifc rx of (frame_length, frame) \<Rightarrow>
        if frame_length > 0 then
          (let ethertype = (push_bit 8 (ucast (frame 12)) OR ucast (frame 13) :: u16) in
           if ethertype = 0x0800 then ip_received (shift_mem frame 14) ifc ps n
           else if ethertype = 0x0806 then Ret (ps, arp_reply n (shift_mem frame 14) ifc)
           else Ret (ps, n))
        else Ret (ps, n))"

section \<open>Sockets\<close>

definition AF_INET :: int where "AF_INET = 1"
definition SOCK_DGRAM :: int where "SOCK_DGRAM = 1"
definition IPPROTO_UDP :: int where "IPPROTO_UDP = 1"
definition MSG_PEEK :: int where "MSG_PEEK = 1"

record socket_t =
  so_domain :: byte
  so_type :: byte
  so_protocol :: byte
  bind_addr :: sockaddr_in

definition no_addr :: sockaddr_in where
  "no_addr = \<lparr>sa_type = 0, sa_ip = [0, 0, 0, 0], sa_port = 0\<rparr>"

definition is_udp :: "socket_t \<Rightarrow> bool" where
  "is_udp so \<longleftrightarrow> uint (so_domain so) = AF_INET \<and> uint (so_type so) = SOCK_DGRAM \<and> uint (so_protocol so) = IPPROTO_UDP"

definition socket :: "int \<Rightarrow> int \<Rightarrow> int \<Rightarrow> int + socket_t" where
  "socket domain ty proto =
     (if domain \<noteq> AF_INET then Inl (- EINVAL)
      else if ty \<noteq> SOCK_DGRAM then Inl (- EINVAL)
      else if proto \<noteq> IPPROTO_UDP then Inl (- EINVAL)
      else Inr \<lparr>so_domain = word_of_int domain, so_type = word_of_int ty, so_protocol = word_of_int proto,
                bind_addr = no_addr\<rparr>)"

definition unbind :: "socket_t \<Rightarrow> net \<Rightarrow> int \<times> net" where
  "unbind so n =
     (if \<not> is_udp so then (- EINVAL, n)
      else (0, if sa_type (bind_addr so) \<noteq> 0 then udp_close (sa_port (bind_addr so)) n else n))"

text \<open>The result of \<open>udp_open\<close> is not looked at.\<close>

definition sock_bind :: "socket_t \<Rightarrow> sockaddr_in option \<Rightarrow> net \<Rightarrow> int \<times> socket_t \<times> net" where
  "sock_bind so addr n =
     (if \<not> is_udp so then (- EINVAL, so, n)
      else case addr of
        None \<Rightarrow> (- EINVAL, so, n)
      | Some a \<Rightarrow>
          let n1 = (if sa_type (bind_addr so) \<noteq> 0 then snd (unbind so n) else n)
          in (0, so\<lparr>bind_addr := a\<rparr>, snd (udp_open (sa_port a) n1)))"

text \<open>The search for a free port from 40000 on; \<open>k\<close> ports remain before 65535.\<close>

fun find_port :: "nat \<Rightarrow> u16 \<Rightarrow> socket_t \<Rightarrow> net \<Rightarrow> socket_t \<times> net" where
  "find_port 0 i so n = (so, n)"
| "find_port (Suc k) i so n =
     (case udp_open i n of (res, n1) \<Rightarrow>
        if res < 0 then find_port k (i + 1) so n1
        else (so\<lparr>bind_addr := \<lparr>sa_type = 1, sa_ip = [0, 0, 0, 0], sa_port = i\<rparr>\<rparr>, n1))"

definition auto_bind :: "socket_t \<Rightarrow> net \<Rightarrow> socket_t \<times> net" where
  "auto_bind so n = (if sa_type (bind_addr so) = 0 then find_port (65535 - 40000) 40000 so n else (so, n))"

definition recvfrom ::
  "socket_t \<Rightarrow> u64 \<Rightarrow> int \<Rightarrow> sockaddr_in \<Rightarrow> net \<Rightarrow> int \<times> byte list \<times> sockaddr_in \<times> socket_t \<times> net" where
  "recvfrom so len flags addr n =
     (if \<not> is_udp so then (- EINVAL, [], addr, so, n)
      else case auto_bind so n of (so1, n1) \<Rightarrow>
        case udp_get_packet (sa_port (bind_addr so1)) len (flags OR MSG_PEEK) addr n1 of
          (r, bs, addr1, n2) \<Rightarrow> (r, bs, addr1, so1, n2))"

definition sendto ::
  "socket_t \<Rightarrow> mem \<Rightarrow> u64 \<Rightarrow> int \<Rightarrow> sockaddr_in \<Rightarrow> poll list \<Rightarrow> net \<Rightarrow> (int \<times> socket_t \<times> poll list \<times> net) outcome" where
  "sendto so buffer len flags addr ps n =
     (if \<not> is_udp so then Ret (- EINVAL, so, ps, n)
      else case auto_bind so n of (so1, n1) \<Rightarrow>
        bind_outcome (udp_send (sa_ip addr) (sa_port (bind_addr so1)) (sa_port addr) buffer
            (sint (ucast len :: u32)) ps n1)
          (\<lambda>(r, ps1, n2). Ret (r, so1, ps1, n2)))"

definition socket_close :: "socket_t \<Rightarrow> net \<Rightarrow> int \<times> net" where
  "socket_close so n =
     (if \<not> is_udp so then (- EINVAL, n)
      else (0, if sa_type (bind_addr so) \<noteq> 0 then udp_close (sa_port (bind_addr so)) n else n))"

section \<open>Routing: the longest prefix wins\<close>

lemma prefix_len_nonneg: "0 \<le> prefix_len r"
  unfolding prefix_len_def by (rule sum_list_nonneg) auto

definition best_so_far :: "byte list \<Rightarrow> route list \<Rightarrow> nat \<Rightarrow> nat option \<Rightarrow> int \<Rightarrow> bool" where
  "best_so_far dst rs k best p \<longleftrightarrow>
     (case best of
        None \<Rightarrow> p = -1 \<and> (\<forall>j<k. \<not> route_matches dst (rs ! j))
      | Some i \<Rightarrow> i < k \<and> route_matches dst (rs ! i) \<and> p = prefix_len (rs ! i) \<and>
          (\<forall>j<k. route_matches dst (rs ! j) \<longrightarrow>
             prefix_len (rs ! j) \<le> p \<and> (j < i \<longrightarrow> prefix_len (rs ! j) < p)))"

lemma route_loop_best:
  "best_so_far dst rs k best p \<Longrightarrow> k \<le> length rs \<Longrightarrow>
   \<exists>q. best_so_far dst rs (length rs) (route_loop dst (drop k rs) k best p) q"
proof (induction "length rs - k" arbitrary: k best p)
  case 0
  then show ?case by (auto intro!: exI [of _ p])
next
  case (Suc m)
  then have k: "k < length rs" by simp
  then have d: "drop k rs = rs ! k # drop (k + 1) rs" by (simp add: Cons_nth_drop_Suc)
  show ?case
  proof (cases "route_matches dst (rs ! k) \<and> prefix_len (rs ! k) > p")
    case True
    then have "best_so_far dst rs (k + 1) (Some k) (prefix_len (rs ! k))"
      using Suc.prems(1) by (auto simp: best_so_far_def less_Suc_eq split: option.splits)
    then show ?thesis using Suc.hyps(1) [of "k + 1"] Suc.hyps(2) k d True by simp
  next
    case False
    then have "best_so_far dst rs (k + 1) best p"
      using Suc.prems(1) prefix_len_nonneg [of "rs ! k"]
      by (auto simp: best_so_far_def less_Suc_eq split: option.splits)
    then show ?thesis using Suc.hyps(1) [of "k + 1"] Suc.hyps(2) k d False by auto
  qed
qed

text \<open>C29. Routing chooses the longest matching prefix: \<open>best_route\<close> finds a route exactly when one
  matches, the one it finds matches the destination, no matching route has more network bits, and
  among those with as many it is the first of the table.\<close>

theorem best_route_longest:
  "case best_route n dst of
     None \<Rightarrow> \<forall>j<length (routes n). \<not> route_matches dst (routes n ! j)
   | Some i \<Rightarrow> i < length (routes n) \<and> route_matches dst (routes n ! i) \<and>
       (\<forall>j<length (routes n). route_matches dst (routes n ! j) \<longrightarrow>
          prefix_len (routes n ! j) \<le> prefix_len (routes n ! i) \<and>
          (j < i \<longrightarrow> prefix_len (routes n ! j) < prefix_len (routes n ! i)))"
proof -
  have "best_so_far dst (routes n) 0 None (-1)" by (simp add: best_so_far_def)
  from route_loop_best [OF this] obtain q where
    "best_so_far dst (routes n) (length (routes n)) (best_route n dst) q"
    by (auto simp: best_route_def)
  then show ?thesis by (auto simp: best_so_far_def split: option.splits)
qed

text \<open>A network state with one interface, 10.0.0.2 on driver 0, a default route through 10.0.0.1 and a
  route to 10.0.0.0/24.\<close>

definition demo_net :: net where
  "demo_net = \<lparr>net_interfaces = [\<lparr>if_mac = [2, 0, 0, 0, 0, 2], if_driver = 0, if_driver_local_index = 0,
       if_ip = [10, 0, 0, 2], if_subnet = [255, 255, 255, 0]\<rparr>],
     net_drivers = [\<lparr>nd_send_packet = True, nd_read_packet = True, nd_get_mac_address = None\<rparr>],
     net_driver_index = 3, arp_cache = [([10, 0, 0, 7], [2, 0, 0, 0, 0, 7])], waiting_for_reply = False,
     routes = [\<lparr>dest_ips = [0, 0, 0, 0], gateway = [10, 0, 0, 1], netmask = [0, 0, 0, 0], route_card = 0\<rparr>,
       \<lparr>dest_ips = [10, 0, 0, 0], gateway = [0, 0, 0, 0], netmask = [255, 255, 255, 0], route_card = 0\<rparr>],
     broadcast_card = 0, identification = 1, ids = replicate 12 0, fragment_storage = (\<lambda>_. 0),
     icmp_error_packet = None, pinging = 0, icmp_identifier = 1, udp_packet_buffer = (\<lambda>_. 0),
     udp_ports_open = (\<lambda>p. p = 7), sent = [], live_bufs = 0, junk_ip = [0, 0, 0, 0], junk_mac = replicate 6 0\<rparr>"

lemma demo_best: "best_route demo_net [10, 0, 0, 7] = Some 1"
  by code_simp

lemma demo_default_matches: "route_matches [10, 0, 0, 7] (routes demo_net ! 0) \<and> length (routes demo_net) = 2"
  by code_simp

theorem best_route_longest_witness:
  "best_route demo_net [10, 0, 0, 7] = Some 1 \<and> route_matches [10, 0, 0, 7] (routes demo_net ! 1) \<and>
   route_matches [10, 0, 0, 7] (routes demo_net ! 0) \<and>
   prefix_len (routes demo_net ! 0) < prefix_len (routes demo_net ! 1)"
proof -
  have best: "route_matches [10, 0, 0, 7] (routes demo_net ! 1) \<and>
    (\<forall>j<length (routes demo_net). route_matches [10, 0, 0, 7] (routes demo_net ! j) \<longrightarrow>
       prefix_len (routes demo_net ! j) \<le> prefix_len (routes demo_net ! 1) \<and>
       (j < 1 \<longrightarrow> prefix_len (routes demo_net ! j) < prefix_len (routes demo_net ! 1)))"
    using best_route_longest [of demo_net "[10, 0, 0, 7]"] unfolding demo_best option.case by blast
  have "(0::nat) < 2" by simp
  then show ?thesis using best demo_default_matches demo_best by (metis less_one)
qed

section \<open>The header checksum\<close>

lemma header_words_le: "header_words frame \<le> 30"
proof -
  have "frame 0 AND 0x0F \<le> (0x0F :: byte)" by (rule word_and_le1)
  then have "unat (frame 0 AND 0x0F) \<le> 15" by (simp add: word_le_nat_alt)
  then show ?thesis by (simp add: header_words_def)
qed

text \<open>C30. An IP header that is damaged in one 16-bit word is rejected: when \<open>frame\<close> carries a correct
  header checksum and \<open>frame'\<close> has the same first byte (version and header length) and differs from it in one word of the
  header, other than by exchanging the two representations of zero, 0 and 0xFFFF, which the checksum
  cannot tell apart, \<open>ip_received\<close> drops \<open>frame'\<close> and nothing changes.\<close>

theorem ip_received_drops_damaged:
  assumes valid: "u16_at frame 10 = checksum16 (word_sum (poke16 frame 10 0) (header_words frame))"
    and k: "k < header_words frame" and ihl: "frame' 0 = frame 0"
    and same: "\<And>i. i \<noteq> 2 * k \<Longrightarrow> i \<noteq> 2 * k + 1 \<Longrightarrow> frame' i = frame i"
    and diff: "u16_at frame' (2 * k) \<noteq> u16_at frame (2 * k)"
    and zeros: "{u16_at frame (2 * k), u16_at frame' (2 * k)} \<noteq> {0, 0xFFFF}"
  shows "ip_received frame' ifc ps n = Ret (ps, n)"
proof -
  have hw: "header_words frame' = header_words frame" by (simp add: header_words_def ihl)
  have other: "u16_at frame' (2 * i) = u16_at frame (2 * i)" if "i \<noteq> k" for i
  proof -
    have "2 * i \<noteq> 2 * k" "2 * i \<noteq> 2 * k + 1" "2 * i + 1 \<noteq> 2 * k" "2 * i + 1 \<noteq> 2 * k + 1"
      using that by presburger+
    then show ?thesis using same by (simp add: u16_at_def)
  qed
  have "u16_at frame' 10 \<noteq> checksum16 (word_sum (poke16 frame' 10 0) (header_words frame'))"
  proof (cases "k = 5")
    case True
    then have "poke16 frame' 10 0 = poke16 frame 10 0"
      using same by (auto simp: poke16_def fun_eq_iff)
    then show ?thesis using diff True valid hw by simp
  next
    case False
    have p: "u16_at (poke16 m 10 0) (2 * i) = (if i = 5 then 0 else u16_at m (2 * i))" for m i
    proof (cases "i = 5")
      case False
      then have "10 + 1 < 2 * i \<or> 2 * i + 1 < 10" by linarith
      then show ?thesis using False by simp
    qed (use u16_at_poke16 [of m 10 0] in simp)
    have "checksum16 (word_sum (poke16 frame 10 0) (header_words frame)) \<noteq>
        checksum16 (word_sum (poke16 frame' 10 0) (header_words frame))"
      using header_words_le [of frame] k False other diff zeros
      by (intro checksum_word_change [where k = k]) (auto simp: p)
    moreover have "u16_at frame' 10 = u16_at frame 10" using other [of 5] False by simp
    ultimately show ?thesis using valid hw by simp
  qed
  then show ?thesis by (simp add: ip_received_def Let_def)
qed

section \<open>What is sent is accepted\<close>

lemma word_sum_cong: "(\<And>i. i < 2 * n \<Longrightarrow> m i = m' i) \<Longrightarrow> word_sum m n = word_sum m' n"
  by (induction n) (simp_all add: u16_at_def)

definition header_front :: "ipv4_header \<Rightarrow> byte list" where
  "header_front h = [version_ihl h, tos h] @ le16_bytes (total_length h) @ le16_bytes (ip_identification h) @
     le16_bytes (flags_fragment_offset h) @ [ttl h, protocol h]"

lemma header_bytes_split:
  "header_bytes h = header_front h @ le16_bytes (header_checksum h) @ src_ip h @ dst_ip h"
  "length (header_front h) = 10"
  by (simp_all add: header_bytes_def header_front_def le16_bytes_def)

lemma length_header: "length (src_ip h) = 4 \<Longrightarrow> length (dst_ip h) = 4 \<Longrightarrow> length (header_bytes h) = 20"
  by (simp add: header_bytes_split le16_bytes_def)

lemma mem_of_append: "i < length xs \<Longrightarrow> mem_of (xs @ ys) i = mem_of xs i"
  by (simp add: mem_of_def nth_append)

lemma u16_at_le16_bytes: "u16_at (mem_of (xs @ le16_bytes w @ ys)) (length xs) = w"
  by (simp add: u16_at_def mem_of_def nth_append le16_bytes_def)

lemma fill_checksum_valid:
  fixes h pl
  defines "frame \<equiv> mem_of (header_bytes (fill_checksum h) @ pl)"
  assumes "length (src_ip h) = 4" and "length (dst_ip h) = 4"
  shows "u16_at frame 10 = checksum16 (word_sum (poke16 frame 10 0) 10)"
proof -
  let ?h0 = "h\<lparr>header_checksum := 0\<rparr>" and ?F = "header_front h"
  let ?c = "checksum16 (word_sum (mem_of (header_bytes ?h0)) 10)"
  have F: "header_front ?h0 = ?F" "header_front (fill_checksum h) = ?F" "length ?F = 10"
    by (simp_all add: header_front_def fill_checksum_def Let_def le16_bytes_def)
  have s: "src_ip (fill_checksum h) = src_ip h" "dst_ip (fill_checksum h) = dst_ip h"
    "header_checksum (fill_checksum h) = ?c"
    by (simp_all add: fill_checksum_def Let_def IPV4_HEADER_LEN_def)
  have fr: "frame = mem_of (?F @ le16_bytes ?c @ src_ip h @ dst_ip h @ pl)"
    by (simp add: frame_def header_bytes_split s F)
  have h0: "mem_of (header_bytes ?h0) = mem_of (?F @ [0, 0] @ src_ip h @ dst_ip h)"
    by (simp add: header_bytes_split F le16_bytes_def)
  have "u16_at frame 10 = ?c"
    using u16_at_le16_bytes [of ?F ?c "src_ip h @ dst_ip h @ pl"] F(3) by (simp add: fr)
  moreover have "word_sum (poke16 frame 10 0) 10 = word_sum (mem_of (header_bytes ?h0)) 10"
    unfolding h0 fr using F(3) assms(2,3)
    by (intro word_sum_cong) (auto simp: poke16_def mem_of_def nth_append le16_bytes_def nth_Cons')
  ultimately show ?thesis by simp
qed

lemma front_bytes:
  "i < 10 \<Longrightarrow> mem_of (header_bytes h @ pl) i = header_front h ! i"
  by (simp add: mem_of_def nth_append header_bytes_split)

lemma bytes_at_mem_of: "off + n \<le> length xs \<Longrightarrow> bytes_at (mem_of xs) off n = read_at xs off n"
  by (intro nth_equalityI) (simp_all add: bytes_at_def mem_of_def)

text \<open>A header with the fields that \<open>ip_send\<close> fills in is accepted at its destination, with padding or without.\<close>

lemma built_packet_accepted:
  fixes h pl pad
  defines "frame \<equiv> mem_of (header_bytes (fill_checksum h) @ pl @ pad)"
  assumes "version_ihl h = 0x45" and "length (src_ip h) = 4" and "length (dst_ip h) = 4"
    and "total_length h = htons (word_of_nat (20 + length pl))" and "20 + length pl < 2 ^ 16"
    and "flags_fragment_offset h = htons IP_FLAG_DF"
    and "dst_ip h = snd (get_ip n ifc)"
  shows "ip_received frame ifc ps n =
    ip_deliver frame (shift_mem frame 20) (Some 20) (int (length pl)) ps n \<and>
    bytes_at (shift_mem frame 20) 0 (length pl) = pl \<and> frame 9 = protocol h \<and>
    bytes_at frame 12 4 = src_ip h \<and> bytes_at frame 16 4 = dst_ip h"
proof -
  let ?h = "fill_checksum h"
  have eqs: "version_ihl ?h = 0x45" "src_ip ?h = src_ip h" "dst_ip ?h = dst_ip h" "protocol ?h = protocol h"
    "total_length ?h = total_length h" "flags_fragment_offset ?h = flags_fragment_offset h"
    by (simp_all add: fill_checksum_def Let_def assms(2))
  have len: "length (header_bytes ?h) = 20" using assms(3,4) eqs by (intro length_header) simp_all
  have b: "frame 0 = 0x45" "frame 2 = ucast (total_length h)" "frame 3 = ucast (drop_bit 8 (total_length h))"
    "frame 6 = ucast (flags_fragment_offset h)" "frame 7 = ucast (drop_bit 8 (flags_fragment_offset h))" "frame 9 = protocol h"
    by (simp_all add: frame_def front_bytes header_front_def eqs le16_bytes_def)
  have tl: "u16_at frame 2 = total_length h" "u16_at frame 6 = flags_fragment_offset h"
    using b by (simp_all add: u16_at_def)
  have at: "bytes_at frame k j = read_at (header_bytes ?h @ pl @ pad) k j" if "k + j \<le> 20 + length pl" for k j
    unfolding frame_def using len that by (intro bytes_at_mem_of) simp
  have addr: "bytes_at frame 12 4 = src_ip h" "bytes_at frame 16 4 = dst_ip h"
    using assms(3,4) eqs by (simp_all add: at read_at_def header_bytes_split le16_bytes_def)
  have hw: "header_words frame = 10" by (simp add: header_words_def b)
  have ck: "u16_at frame 10 = checksum16 (word_sum (poke16 frame 10 0) 10)"
    unfolding frame_def by (rule fill_checksum_valid [OF assms(3,4)])
  have tlen: "unat (ntohs (total_length h)) = 20 + length pl"
  proof -
    have "unat (word_of_nat (20 + length pl) :: u16) = 20 + length pl"
      using assms(6) by (simp only: unat_of_nat) simp
    then show ?thesis by (simp only: assms(5) htons_ntohs)
  qed
  have "bytes_at (shift_mem frame 20) 0 (length pl) = bytes_at frame 20 (length pl)"
    by (simp add: bytes_at_def shift_mem_def)
  then have pl: "bytes_at (shift_mem frame 20) 0 (length pl) = pl" using len by (simp add: at read_at_def)
  have "ntohs (u16_at frame 6) AND IP_FLAG_DF \<noteq> 0" by (simp add: tl assms(7) IP_FLAG_DF_def)
  then show ?thesis
    using b addr assms(8) ck hw tl(1) tlen pl by (simp add: ip_received_def Let_def)
qed

text \<open>The next hop of a destination: the gateway of its route, or the destination itself in its own network.\<close>

definition next_hop :: "net \<Rightarrow> byte list \<Rightarrow> nat \<Rightarrow> byte list" where
  "next_hop n dst r = (if gateway (routes n ! r) = [0, 0, 0, 0] then dst else gateway (routes n ! r))"

text \<open>An interface that can send: it exists and its driver has a send function.\<close>

definition can_send :: "net \<Rightarrow> u32 \<Rightarrow> bool" where
  "can_send n ifc \<longleftrightarrow> if_valid n ifc \<and> unat (if_driver (net_interfaces n ! unat ifc)) < length (net_drivers n) \<and>
     nd_send_packet (net_drivers n ! unat (if_driver (net_interfaces n ! unat ifc)))"

lemma send_ethernet_frame:
  assumes "can_send n ifc" and "length payload \<le> 1792"
  shows "send_ethernet n src dst ty payload ifc = (0, n\<lparr>sent := sent n @ [(if_driver (net_interfaces n ! unat ifc),
    if_driver_local_index (net_interfaces n ! unat ifc), dst @ src @ [ucast (drop_bit 8 ty AND 0xFF), ucast (ty AND 0xFF)] @
      payload @ replicate (46 - length payload) 0)]\<rparr>)"
  using assms by (auto simp: send_ethernet_def send_packet_def can_send_def Let_def)

text \<open>The frame that \<open>ip_send\<close> hands to the card for a payload that fits into one packet.\<close>

lemma ip_send_frame:
  fixes n n1 :: net and dst mac :: "byte list" and r :: nat and ifc :: u32 and len :: int and proto :: byte
    and payload :: mem and ps ps1 :: "poll list"
  assumes "best_route n dst = Some r" and "dst \<noteq> IP_BROADCAST_ADDR" and ifc: "ifc = route_card (routes n ! r)"
    and "arp_request (next_hop n dst r) BROADCAST_MAC ifc ps n = Ret (0, mac, ps1, n1)"
    and "can_send n1 ifc" and "0 \<le> len" and "len \<le> 1500"
  defines "h \<equiv> fill_checksum \<lparr>version_ihl = 0x45, tos = 0, total_length = htons (word_of_int (20 + len)),
    ip_identification = htons (identification n1), flags_fragment_offset = htons IP_FLAG_DF, ttl = 128,
    protocol = proto, header_checksum = 0, src_ip = snd (get_ip n ifc), dst_ip = dst\<rparr>"
  defines "packet \<equiv> header_bytes h @ bytes_at payload 0 (nat len)"
  assumes "length packet = 20 + nat len"
  shows "ip_send dst proto payload len ps n = Ret (0, ps1, n1\<lparr>identification := identification n1 + 1,
    sent := sent n1 @ [(if_driver (net_interfaces n1 ! unat ifc), if_driver_local_index (net_interfaces n1 ! unat ifc),
      mac @ snd (get_mac n1 ifc) @ [0x08, 0x00] @ packet @ replicate (46 - length packet) 0)]\<rparr>)"
proof -
  let ?n2 = "n1\<lparr>identification := identification n1 + 1\<rparr>"
  have n2: "can_send ?n2 ifc" "snd (get_mac ?n2 ifc) = snd (get_mac n1 ifc)"
    using assms(5) by (simp_all add: can_send_def if_valid_def get_mac_def)
  have len: "length packet \<le> 1792" using assms(6,7,10) by simp
  have "ip_send dst proto payload len ps n = (case send_ethernet ?n2 (snd (get_mac n1 ifc)) mac 0x0800 packet ifc of
      (res, n3) \<Rightarrow> Ret (res, ps1, n3))"
    unfolding ip_send_def Let_def assms(1) option.case ifc [symmetric] packet_def h_def
    using assms(2,4,6,7) n2(2) by (cases "gateway (routes n ! r) = [0, 0, 0, 0]") (simp_all add: next_hop_def)
  then show ?thesis unfolding send_ethernet_frame [OF n2(1) len] by simp
qed

lemma shift_header:
  "length mac = 6 \<Longrightarrow> length src = 6 \<Longrightarrow> shift_mem (mem_of (mac @ src @ [a, b] @ xs)) 14 = mem_of xs"
  by (auto simp: fun_eq_iff shift_mem_def mem_of_def nth_append nth_Cons')

text \<open>C31. What \<open>ip_send\<close> sends is received: for a destination with a route whose next hop ARP resolves,
  over an interface that can send, a payload of at most 1500 bytes leaves in one frame addressed to the next hop.
  Whoever has the destination address and reads that frame from its card accepts it: \<open>frame_received\<close>
  passes exactly that payload, with its length, the protocol and the addresses, to the protocol.\<close>

theorem sent_packet_accepted:
  assumes "best_route n dst = Some r" and "dst \<noteq> IP_BROADCAST_ADDR" and "ifc = route_card (routes n ! r)"
    and "arp_request (next_hop n dst r) BROADCAST_MAC ifc ps n = Ret (0, mac, ps1, n1)"
    and "can_send n1 ifc" and "0 \<le> len" and "len \<le> 1500"
    and "length dst = 4" and "length (snd (get_ip n ifc)) = 4" and "length mac = 6" and "length (snd (get_mac n1 ifc)) = 6"
  shows "\<exists>card loc frame n2. ip_send dst proto payload len ps n = Ret (0, ps1, n2) \<and>
    sent n2 = sent n1 @ [(card, loc, frame)] \<and> take 6 frame = mac \<and>
    (\<forall>m j rx k qs. dst = snd (get_ip m j) \<longrightarrow> 0 < k \<longrightarrow> receive_packet m j rx = (k, mem_of frame) \<longrightarrow>
      (\<exists>pkt. frame_received j rx qs m = ip_deliver pkt (shift_mem pkt 20) (Some 20) len qs m \<and>
        bytes_at (shift_mem pkt 20) 0 (nat len) = bytes_at payload 0 (nat len) \<and> pkt 9 = proto \<and>
        bytes_at pkt 12 4 = snd (get_ip n ifc) \<and> bytes_at pkt 16 4 = dst))"
proof -
  define h0 where "h0 = \<lparr>version_ihl = 0x45, tos = 0, total_length = htons (word_of_int (20 + len)),
    ip_identification = htons (identification n1), flags_fragment_offset = htons IP_FLAG_DF, ttl = 128,
    protocol = proto, header_checksum = 0, src_ip = snd (get_ip n ifc), dst_ip = dst\<rparr>"
  define pl where "pl = bytes_at payload 0 (nat len)"
  define pad where "pad = replicate (46 - length (header_bytes (fill_checksum h0) @ pl)) (0 :: byte)"
  define frame where "frame = mac @ snd (get_mac n1 ifc) @ [0x08, 0x00] @ (header_bytes (fill_checksum h0) @ pl) @ pad"
  have pl: "length pl = nat len" by (simp add: pl_def bytes_at_def)
  have "length (header_bytes (fill_checksum h0)) = 20"
    using assms(8,9) by (intro length_header) (simp_all add: h0_def fill_checksum_def Let_def)
  then have len: "length (header_bytes (fill_checksum h0) @ pl) = 20 + nat len" by (simp add: pl)
  have send: "ip_send dst proto payload len ps n = Ret (0, ps1, n1\<lparr>identification := identification n1 + 1,
    sent := sent n1 @ [(if_driver (net_interfaces n1 ! unat ifc), if_driver_local_index (net_interfaces n1 ! unat ifc), frame)]\<rparr>)"
    unfolding frame_def pad_def pl_def h0_def by (rule ip_send_frame [OF assms(1-7)]) (use len in \<open>simp add: h0_def pl_def\<close>)
  have hd: "take 6 frame = mac" "mem_of frame 12 = 0x08" "mem_of frame 13 = 0x00"
    using assms(10,11) by (simp_all add: frame_def mem_of_def nth_append)
  have "frame_received j rx qs m = ip_deliver pkt (shift_mem pkt 20) (Some 20) len qs m \<and>
        bytes_at (shift_mem pkt 20) 0 (nat len) = pl \<and> pkt 9 = proto \<and>
        bytes_at pkt 12 4 = snd (get_ip n ifc) \<and> bytes_at pkt 16 4 = dst"
    if "dst = snd (get_ip m j)" "0 < k" "receive_packet m j rx = (k, mem_of frame)"
      "pkt = mem_of (header_bytes (fill_checksum h0) @ pl @ pad)" for m j rx k qs pkt
  proof -
    have "shift_mem (mem_of frame) 14 = pkt"
      unfolding frame_def that(4) using assms(10,11) shift_header [of mac "snd (get_mac n1 ifc)" "0x08" "0x00"] by simp
    then have "frame_received j rx qs m = ip_received pkt j qs m"
      using that(2,3) hd by (simp add: frame_received_def)
    then show ?thesis
      using built_packet_accepted [of h0 pl m j pad qs] assms(6-9) that(1,4) pl
      by (simp add: h0_def nat_less_iff)
  qed
  then show ?thesis using send hd(1) unfolding pl_def by auto
qed

text \<open>A header as \<open>ip_send\<close> fills it, from 10.0.0.7 to 10.0.0.2 with two bytes of payload.\<close>

definition demo_header :: ipv4_header where
  "demo_header = \<lparr>version_ihl = 0x45, tos = 0, total_length = htons 22, ip_identification = htons 1,
     flags_fragment_offset = htons IP_FLAG_DF, ttl = 128, protocol = 17, header_checksum = 0,
     src_ip = [10, 0, 0, 7], dst_ip = [10, 0, 0, 2]\<rparr>"

definition demo_frame :: mem where
  "demo_frame = mem_of (header_bytes (fill_checksum demo_header) @ [5, 6])"

lemma demo_frame_valid: "u16_at demo_frame 10 = checksum16 (word_sum (poke16 demo_frame 10 0) 10)"
  unfolding demo_frame_def by (rule fill_checksum_valid) (simp_all add: demo_header_def)

lemma demo_frame_bytes: "demo_frame 0 = 0x45" "u16_at demo_frame 8 = 0x1180"
  by (simp_all add: demo_frame_def front_bytes header_front_def demo_header_def fill_checksum_def Let_def
    le16_bytes_def u16_at_def le16_def push_bit_eq_mult)

lemma demo_header_words: "header_words demo_frame = 10"
  by (simp add: header_words_def demo_frame_bytes)

theorem ip_received_drops_damaged_witness:
  "ip_received (poke16 demo_frame 8 0x1181) 0 [] demo_net = Ret ([], demo_net)"
  by (rule ip_received_drops_damaged [of demo_frame 4])
    (simp_all add: demo_frame_valid demo_header_words demo_frame_bytes u16_at_poke16 doubleton_eq_iff,
     simp_all add: poke16_def demo_frame_bytes)

lemma demo_send_ready:
  "best_route demo_net [10, 0, 0, 7] = Some 1" "[10, 0, 0, 7] \<noteq> IP_BROADCAST_ADDR" "0 = route_card (routes demo_net ! 1)"
  "arp_request (next_hop demo_net [10, 0, 0, 7] 1) BROADCAST_MAC 0 [] demo_net = Ret (0, [2, 0, 0, 0, 0, 7], [], demo_net)"
  "can_send demo_net 0"
  by (simp_all add: demo_best IP_BROADCAST_ADDR_def next_hop_def arp_request_def arp_find_def can_send_def if_valid_def)
    (simp_all add: demo_net_def)

text \<open>10.0.0.2 sends two bytes to 10.0.0.7, which has them delivered.\<close>

theorem sent_packet_accepted_witness:
  "\<exists>card loc frame n2. ip_send [10, 0, 0, 7] 17 (mem_of [5, 6]) 2 [] demo_net = Ret (0, [], n2) \<and>
    sent n2 = [(card, loc, frame)] \<and>
    (let m = demo_net\<lparr>net_interfaces := [(net_interfaces demo_net ! 0)\<lparr>if_ip := [10, 0, 0, 7]\<rparr>]\<rparr> in
     \<exists>pkt. frame_received 0 (\<lambda>_ _. (60, mem_of frame)) [] m = ip_deliver pkt (shift_mem pkt 20) (Some 20) 2 [] m \<and>
       bytes_at (shift_mem pkt 20) 0 2 = [5, 6] \<and> pkt 9 = 17 \<and> bytes_at pkt 12 4 = [10, 0, 0, 2])"
proof -
  define m where "m = demo_net\<lparr>net_interfaces := [(net_interfaces demo_net ! 0)\<lparr>if_ip := [10, 0, 0, 7]\<rparr>]\<rparr>"
  have a: "length [10, 0, 0, 7 :: byte] = 4" "length (snd (get_ip demo_net 0)) = 4" "length [2, 0, 0, 0, 0, 7 :: byte] = 6"
      "length (snd (get_mac demo_net 0)) = 6" "snd (get_ip demo_net 0) = [10, 0, 0, 2]" "sent demo_net = []"
    by (simp_all add: get_ip_def get_mac_def if_valid_def demo_net_def)
  have m: "[10, 0, 0, 7] = snd (get_ip m 0)" "receive_packet m 0 (\<lambda>_ _. (60, f)) = (60, f)" for f
    by (simp_all add: m_def get_ip_def receive_packet_def if_valid_def demo_net_def)
  have b: "bytes_at (mem_of [5, 6]) 0 2 = [5, 6]" by (simp add: bytes_at_def mem_of_def numeral_2_eq_2)
  obtain card loc frame n2 where s: "ip_send [10, 0, 0, 7] 17 (mem_of [5, 6]) 2 [] demo_net = Ret (0, [], n2)"
      "sent n2 = [(card, loc, frame)]"
    and acc: "\<And>m j rx k qs. [10, 0, 0, 7] = snd (get_ip m j) \<Longrightarrow> 0 < k \<Longrightarrow> receive_packet m j rx = (k, mem_of frame) \<Longrightarrow>
      \<exists>pkt. frame_received j rx qs m = ip_deliver pkt (shift_mem pkt 20) (Some 20) 2 qs m \<and>
        bytes_at (shift_mem pkt 20) 0 (nat 2) = bytes_at (mem_of [5, 6]) 0 (nat 2) \<and> pkt 9 = 17 \<and>
        bytes_at pkt 12 4 = snd (get_ip demo_net 0) \<and> bytes_at pkt 16 4 = [10, 0, 0, 7]"
    using sent_packet_accepted [OF demo_send_ready _ _ a(1-4), of 2 17 "mem_of [5, 6]"] unfolding a(6) by auto
  obtain pkt where "frame_received 0 (\<lambda>_ _. (60, mem_of frame)) [] m = ip_deliver pkt (shift_mem pkt 20) (Some 20) 2 [] m"
      "bytes_at (shift_mem pkt 20) 0 2 = [5, 6]" "pkt 9 = 17" "bytes_at pkt 12 4 = [10, 0, 0, 2]"
    using acc [OF m(1) _ m(2), of "[]"] a(5) b by auto
  then show ?thesis using s unfolding Let_def m_def by blast
qed


end
