(* ===== verification/Fd.thy ===== *)
theory Fd
  imports Pipe Fsdrivers Ipnet
begin

text \<open>
  File descriptors, \<open>kernel/usermode/fd.c\<close> and \<open>fd.h\<close>: the system-wide table of file descriptions
  and the descriptor tables of the tasks that point into it.  A pointer to a description is its index;
  pipes and sockets are behind pointers into stores of their own.  Where a call yields the processor
  the other tasks' work is an event: whether a signal has become deliverable, and the new state.
\<close>

definition MAX_FDS :: nat where "MAX_FDS = 1024"
definition MAX_FILES :: nat where "MAX_FILES = 4096"

definition O_RDONLY :: u32 where [flag_simps]: "O_RDONLY = 0"
definition O_WRONLY :: u32 where [flag_simps]: "O_WRONLY = 1"
definition O_RDWR :: u32 where [flag_simps]: "O_RDWR = 2"
definition O_CREAT :: u32 where [flag_simps]: "O_CREAT = 4"
definition O_NONBLOCK :: u32 where [flag_simps]: "O_NONBLOCK = 8"
definition O_DIRECTORY :: u32 where [flag_simps]: "O_DIRECTORY = 0x10"
definition O_APPEND :: u32 where [flag_simps]: "O_APPEND = 0x20"
definition O_CLOEXEC :: u32 where [flag_simps]: "O_CLOEXEC = 0x40"
definition O_EXCL :: u32 where [flag_simps]: "O_EXCL = 0x80"
definition O_TRUNC :: u32 where [flag_simps]: "O_TRUNC = 0x100"
definition O_ACCESS :: u32 where [flag_simps]: "O_ACCESS = 3"
definition FCNTL_MUTABLE :: u32 where [flag_simps]: "FCNTL_MUTABLE = O_APPEND OR O_NONBLOCK"

definition SIGPIPE :: nat where "SIGPIPE = 13"

datatype fd_type = FD_TYPE_FILE | FD_TYPE_DIR | FD_TYPE_SOCKET | FD_TYPE_PIPE

record file_description =
  d_file_handle :: file_handle
  d_socket :: nat
  d_pipe :: nat
  d_type :: fd_type
  d_offset :: u64
  d_flags :: u32
  d_refcount :: int

record fd_entry =
  fde_fd :: "nat option"
  fde_flags :: u32

record 'w fds =
  file_descriptions :: "file_description list"
  fd_table :: "fd_entry list"
  other_tables :: "fd_entry list list"
  pipes :: "nat \<Rightarrow> pipe option"
  next_pipe :: nat
  sockets :: "nat \<Rightarrow> socket_t option"
  next_socket :: nat
  fd_net :: net
  fd_vfs :: "'w vfs"
  raised :: "nat list"

type_synonym 'w fd_event = "bool \<times> ('w fds \<Rightarrow> 'w fds)"

section \<open>Table access\<close>

text \<open>The test that opens every operation: \<open>fd < 0 || fd >= MAX_FDS || fd_table[fd].fd == NULL\<close>.\<close>

definition get_fd :: "'w fds \<Rightarrow> int \<Rightarrow> nat option" where
  "get_fd s fd = (if fd < 0 \<or> fd \<ge> int MAX_FDS then None else fde_fd (fd_table s ! nat fd))"

definition desc :: "'w fds \<Rightarrow> nat \<Rightarrow> file_description" where
  "desc s i = file_descriptions s ! i"

definition upd_desc :: "nat \<Rightarrow> (file_description \<Rightarrow> file_description) \<Rightarrow> 'w fds \<Rightarrow> 'w fds" where
  "upd_desc i f s = s\<lparr>file_descriptions := (file_descriptions s)[i := f (desc s i)]\<rparr>"

definition set_entry :: "nat \<Rightarrow> fd_entry \<Rightarrow> 'w fds \<Rightarrow> 'w fds" where
  "set_entry n e s = s\<lparr>fd_table := (fd_table s)[n := e]\<rparr>"

definition no_entry :: fd_entry where
  "no_entry = \<lparr>fde_fd = None, fde_flags = 0\<rparr>"

text \<open>The loops that look for a free descriptor and for a free description.\<close>

fun free_fd :: "fd_entry list \<Rightarrow> nat \<Rightarrow> nat option" where
  "free_fd [] i = None"
| "free_fd (e # es) i = (if fde_fd e = None then Some i else free_fd es (i + 1))"

fun free_file :: "file_description list \<Rightarrow> nat \<Rightarrow> nat option" where
  "free_file [] i = None"
| "free_file (d # ds) i = (if d_refcount d = 0 then Some i else free_file ds (i + 1))"

section \<open>Opening and closing\<close>

text \<open>The part of \<open>fd_open\<close> behind the checks of the path: \<open>st\<close> is the status found for it, all zero
  when the file was just created.\<close>

definition fd_install :: "'w fds \<Rightarrow> string \<Rightarrow> u32 \<Rightarrow> stat_t \<Rightarrow> (int \<times> 'w fds) outcome" where
  "fd_install s path flags st =
     (case free_fd (fd_table s) 0 of
        None \<Rightarrow> Ret (- EMFILE, s)
      | Some fd_index \<Rightarrow> (case free_file (file_descriptions s) 0 of
          None \<Rightarrow> Ret (- ENFILE, s)
        | Some i \<Rightarrow>
            bind_outcome (vfs_open (fd_vfs s) path) (\<lambda>(r, v1). case r of
              Inl e \<Rightarrow> Ret (e, s\<lparr>fd_vfs := v1\<rparr>)
            | Inr fh \<Rightarrow>
                bind_outcome (if flags AND O_TRUNC \<noteq> 0 \<and> st_type st = DT_FILE then Vfs.truncate v1 fh 0 else Ret (0, v1))
                (\<lambda>(res, v2).
                  if res < 0 then
                    Ret (res, upd_desc i (\<lambda>d. d\<lparr>d_file_handle := \<lparr>fh_mountpoint = 0, fh_handle = 0\<rparr>\<rparr>) (s\<lparr>fd_vfs := v2\<rparr>))
                  else Ret (int fd_index,
                    set_entry fd_index \<lparr>fde_fd = Some i, fde_flags = flags AND O_CLOEXEC\<rparr>
                      (upd_desc i (\<lambda>d. d\<lparr>d_file_handle := fh,
                          d_type := (if st_type st = DT_DIR then FD_TYPE_DIR else FD_TYPE_FILE),
                          d_offset := 0, d_flags := flags AND NOT O_CLOEXEC, d_refcount := 1\<rparr>)
                        (s\<lparr>fd_vfs := v2\<rparr>)))))))"

definition fd_open :: "'w fds \<Rightarrow> string \<Rightarrow> u16 \<Rightarrow> (int \<times> 'w fds) outcome" where
  "fd_open s path flags16 =
     (let flags = ucast flags16 :: u32 in
      if flags AND O_WRONLY \<noteq> 0 \<and> flags AND O_RDWR \<noteq> 0 then Ret (- EINVAL, s)
      else bind_outcome (stat (fd_vfs s) path) (\<lambda>((res, st), v1).
        if res < 0 then
          if flags AND O_CREAT \<noteq> 0 then
            bind_outcome (create_file v1 path) (\<lambda>(res2, v2).
              if res2 < 0 then Ret (res2, s\<lparr>fd_vfs := v2\<rparr>)
              else if flags AND O_DIRECTORY \<noteq> 0 \<and> st_type st \<noteq> DT_DIR then Ret (- ENOTDIR, s\<lparr>fd_vfs := v2\<rparr>)
              else fd_install (s\<lparr>fd_vfs := v2\<rparr>) path flags st)
          else Ret (res, s\<lparr>fd_vfs := v1\<rparr>)
        else if flags AND O_EXCL \<noteq> 0 then Ret (- EEXIST, s\<lparr>fd_vfs := v1\<rparr>)
        else if flags AND O_DIRECTORY \<noteq> 0 \<and> st_type st \<noteq> DT_DIR then Ret (- ENOTDIR, s\<lparr>fd_vfs := v1\<rparr>)
        else fd_install (s\<lparr>fd_vfs := v1\<rparr>) path flags st))"

definition close_file_description :: "'w fds \<Rightarrow> nat \<Rightarrow> (int \<times> 'w fds) outcome" where
  "close_file_description s i =
     bind_outcome
       (case d_type (desc s i) of
          FD_TYPE_SOCKET \<Rightarrow> (case sockets s (d_socket (desc s i)) of
              None \<Rightarrow> Fault
            | Some so \<Rightarrow> (case socket_close so (fd_net s) of (res, n) \<Rightarrow>
                Ret (res, s\<lparr>fd_net := n, sockets := (sockets s)(d_socket (desc s i) :=
                  if res < 0 then Some so else None)\<rparr>)))
        | FD_TYPE_PIPE \<Rightarrow> (case pipes s (d_pipe (desc s i)) of
              None \<Rightarrow> Fault
            | Some p \<Rightarrow> (case (if d_flags (desc s i) AND O_ACCESS = O_RDONLY then remove_pipe_reader p
                              else remove_pipe_writer p) of (p1, freed) \<Rightarrow>
                Ret (0, s\<lparr>pipes := (pipes s)(d_pipe (desc s i) := if freed then None else Some p1)\<rparr>)))
        | _ \<Rightarrow> bind_outcome (vfs_close (fd_vfs s) (d_file_handle (desc s i))) (\<lambda>(res, v). Ret (res, s\<lparr>fd_vfs := v\<rparr>)))
       (\<lambda>(res, s1). if res < 0 then Ret (res, s1)
          else Ret (0, upd_desc i (\<lambda>d. d\<lparr>d_offset := 0\<rparr>) s1))"

definition fd_close :: "'w fds \<Rightarrow> int \<Rightarrow> (int \<times> 'w fds) outcome" where
  "fd_close s fd =
     (case get_fd s fd of
        None \<Rightarrow> Ret (- EBADF, s)
      | Some i \<Rightarrow>
          let s1 = upd_desc i (\<lambda>d. d\<lparr>d_refcount := d_refcount d - 1\<rparr>) s in
          bind_outcome (if d_refcount (desc s1 i) = 0 then close_file_description s1 i else Ret (0, s1)) (\<lambda>(res, s2).
            if res < 0 then Ret (res, s2) else Ret (0, set_entry (nat fd) no_entry s2)))"

section \<open>Position\<close>

datatype whence = SEEK_SET | SEEK_CUR | SEEK_END | SEEK_other

text \<open>The offset is unsigned, so the test \<open>offset < 0\<close> at the end of \<open>seek\<close> never holds.\<close>

definition seek :: "'w fds \<Rightarrow> int \<Rightarrow> u64 \<Rightarrow> whence \<Rightarrow> (int \<times> 'w fds) outcome" where
  "seek s fd off ty =
     (case get_fd s fd of
        None \<Rightarrow> Ret (- EBADF, s)
      | Some i \<Rightarrow>
          let finish = (\<lambda>new s. Ret (sint new, upd_desc i (\<lambda>d. d\<lparr>d_offset := new\<rparr>) s)) in
          case ty of
            SEEK_SET \<Rightarrow> finish off s
          | SEEK_CUR \<Rightarrow> finish (d_offset (desc s i) + off) s
          | SEEK_END \<Rightarrow> bind_outcome (stat_handle (fd_vfs s) (d_file_handle (desc s i))) (\<lambda>((res, st), v).
              let s1 = s\<lparr>fd_vfs := v\<rparr> in
              if res < 0 then Ret (res, s1) else finish (st_size st + off) s1)
          | SEEK_other \<Rightarrow> Ret (- EINVAL, s))"

definition tell :: "'w fds \<Rightarrow> int \<Rightarrow> int" where
  "tell s fd = (case get_fd s fd of None \<Rightarrow> - EBADF | Some i \<Rightarrow> sint (d_offset (desc s i)))"

section \<open>Reading and writing\<close>

text \<open>One attempt to read, from the file or from the pipe.\<close>

definition read_once :: "'w fds \<Rightarrow> nat \<Rightarrow> u64 \<Rightarrow> (int \<times> byte list \<times> 'w fds) outcome" where
  "read_once s i sz =
     (if d_type (desc s i) = FD_TYPE_PIPE then
        (case pipes s (d_pipe (desc s i)) of
           None \<Rightarrow> Fault
         | Some p \<Rightarrow> (case pipe_read p (unat sz) of (res, bs, p1) \<Rightarrow>
             Ret (res, bs, s\<lparr>pipes := (pipes s)(d_pipe (desc s i) \<mapsto> p1)\<rparr>)))
      else bind_outcome (read_file (fd_vfs s) (d_file_handle (desc s i)) (d_offset (desc s i)) sz)
        (\<lambda>(res, bs, v). Ret (res, bs, s\<lparr>fd_vfs := v\<rparr>)))"

fun read_loop :: "'w fd_event list \<Rightarrow> 'w fds \<Rightarrow> nat \<Rightarrow> u64 \<Rightarrow> (int \<times> byte list \<times> 'w fds) outcome" where
  "read_loop evs s i sz =
     bind_outcome (read_once s i sz) (\<lambda>(res, bs, s1).
       if d_flags (desc s1 i) AND O_NONBLOCK \<noteq> 0 \<or> res \<noteq> - EAGAIN then Ret (res, bs, s1)
       else case evs of
         [] \<Rightarrow> Blocks
       | (sig, ev) # evs1 \<Rightarrow> if sig then Ret (- EINTR, [], s1) else read_loop evs1 (ev s1) i sz)"

declare read_loop.simps [simp del]

definition fd_read :: "'w fd_event list \<Rightarrow> 'w fds \<Rightarrow> int \<Rightarrow> u64 \<Rightarrow> (int \<times> byte list \<times> 'w fds) outcome" where
  "fd_read evs s fd sz =
     (case get_fd s fd of
        None \<Rightarrow> Ret (- EBADF, [], s)
      | Some i \<Rightarrow>
          if d_flags (desc s i) AND O_ACCESS = O_WRONLY then Ret (- EBADF, [], s)
          else if d_type (desc s i) = FD_TYPE_DIR then Ret (- EISDIR, [], s)
          else if d_type (desc s i) = FD_TYPE_SOCKET then Ret (- ENOSYS, [], s)
          else let ty = d_type (desc s i) in
          bind_outcome (read_loop evs s i sz) (\<lambda>(res, bs, s1).
            Ret (res, bs, if ty = FD_TYPE_FILE \<and> res > 0
              then upd_desc i (\<lambda>d. d\<lparr>d_offset := d_offset d + word_of_int res\<rparr>) s1 else s1)))"

text \<open>\<open>write\<close> hands \<open>flags & O_NONBLOCK\<close> to \<open>pipe_write\<close> as its argument \<open>blocking\<close>.\<close>

definition fd_write :: "unit pipe_event list \<Rightarrow> 'w fds \<Rightarrow> int \<Rightarrow> byte list \<Rightarrow> (int \<times> 'w fds) outcome" where
  "fd_write evs s fd buf =
     (case get_fd s fd of
        None \<Rightarrow> Ret (- EBADF, s)
      | Some i \<Rightarrow>
          if d_flags (desc s i) AND O_ACCESS = O_RDONLY then Ret (- EBADF, s)
          else if d_type (desc s i) = FD_TYPE_DIR then Ret (- EISDIR, s)
          else if d_type (desc s i) = FD_TYPE_SOCKET then Ret (- ENOSYS, s)
          else if d_type (desc s i) = FD_TYPE_FILE then
            bind_outcome (if d_flags (desc s i) AND O_APPEND \<noteq> 0 then seek s fd 0 SEEK_END else Ret (0, s)) (\<lambda>(r, s1).
            bind_outcome (write_file (fd_vfs s1) (d_file_handle (desc s1 i)) buf (d_offset (desc s1 i))
                (word_of_nat (length buf))) (\<lambda>(res, v).
              let s2 = s1\<lparr>fd_vfs := v\<rparr> in
              Ret (res, if res > 0 then upd_desc i (\<lambda>d. d\<lparr>d_offset := d_offset d + word_of_int res\<rparr>) s2 else s2)))
          else (case pipes s (d_pipe (desc s i)) of
              None \<Rightarrow> Fault
            | Some p \<Rightarrow> (case pipe_write evs p buf (d_flags (desc s i) AND O_NONBLOCK \<noteq> 0) of
                None \<Rightarrow> Blocks
              | Some (res, p1) \<Rightarrow>
                  Ret (res, s\<lparr>pipes := (pipes s)(d_pipe (desc s i) \<mapsto> p1),
                    raised := (if res = - EPIPE then raised s @ [SIGPIPE] else raised s)\<rparr>))))"

definition fd_readdir :: "'w fds \<Rightarrow> int \<Rightarrow> ((int \<times> (string \<times> u32) option) \<times> 'w fds) outcome" where
  "fd_readdir s fd =
     (case get_fd s fd of
        None \<Rightarrow> Ret ((- EBADF, None), s)
      | Some i \<Rightarrow>
          if d_type (desc s i) \<noteq> FD_TYPE_DIR then Ret ((- ENOTDIR, None), s)
          else bind_outcome (vfs_readdir (fd_vfs s) (d_file_handle (desc s i)) (sint (ucast (d_offset (desc s i)) :: u32)))
            (\<lambda>((res, e), v). let s1 = s\<lparr>fd_vfs := v\<rparr> in
              Ret ((res, e), if res > 0 then upd_desc i (\<lambda>d. d\<lparr>d_offset := d_offset d + word_of_int res\<rparr>) s1 else s1)))"

definition fd_ioctl :: "'w blk \<Rightarrow> 'w chr \<Rightarrow> 'w fds \<Rightarrow> int \<Rightarrow> u64 \<Rightarrow> u64 \<Rightarrow> (int \<times> 'w fds) outcome" where
  "fd_ioctl bt ct s fd request arg =
     (case get_fd s fd of
        None \<Rightarrow> Ret (- EBADF, s)
      | Some i \<Rightarrow>
          if d_type (desc s i) = FD_TYPE_DIR then Ret (- EISDIR, s)
          else if d_type (desc s i) \<noteq> FD_TYPE_FILE then Ret (- EINVAL, s)
          else bind_outcome (ioctl bt ct (fd_vfs s) (d_file_handle (desc s i)) request arg) (\<lambda>(res, v).
            Ret (res, s\<lparr>fd_vfs := v\<rparr>)))"

definition fstat :: "'w fds \<Rightarrow> int \<Rightarrow> ((int \<times> stat_t) \<times> 'w fds) outcome" where
  "fstat s fd =
     (case get_fd s fd of
        None \<Rightarrow> Ret ((- EBADF, zero_stat), s)
      | Some i \<Rightarrow>
          if d_type (desc s i) \<noteq> FD_TYPE_FILE \<and> d_type (desc s i) \<noteq> FD_TYPE_DIR then Ret ((- EINVAL, zero_stat), s)
          else bind_outcome (stat_handle (fd_vfs s) (d_file_handle (desc s i))) (\<lambda>(r, v). Ret (r, s\<lparr>fd_vfs := v\<rparr>)))"

definition ftruncate :: "'w fds \<Rightarrow> int \<Rightarrow> u64 \<Rightarrow> (int \<times> 'w fds) outcome" where
  "ftruncate s fd new_size =
     (case get_fd s fd of
        None \<Rightarrow> Ret (- EBADF, s)
      | Some i \<Rightarrow>
          if d_type (desc s i) \<noteq> FD_TYPE_FILE then Ret (- EINVAL, s)
          else bind_outcome (Vfs.truncate (fd_vfs s) (d_file_handle (desc s i)) new_size) (\<lambda>(r, v). Ret (r, s\<lparr>fd_vfs := v\<rparr>)))"

section \<open>Duplicating\<close>

definition dup :: "'w fds \<Rightarrow> int \<Rightarrow> int \<Rightarrow> u32 \<Rightarrow> int \<times> 'w fds" where
  "dup s fd minfd flags =
     (case get_fd s fd of
        None \<Rightarrow> (- EBADF, s)
      | Some i \<Rightarrow>
          if minfd < 0 \<or> minfd \<ge> int MAX_FDS then (- EINVAL, s)
          else (case free_fd (drop (nat minfd) (fd_table s)) (nat minfd) of
              None \<Rightarrow> (- EMFILE, s)
            | Some k \<Rightarrow> (int k, upd_desc i (\<lambda>d. d\<lparr>d_refcount := d_refcount d + 1\<rparr>)
                (set_entry k \<lparr>fde_fd = Some i, fde_flags = flags\<rparr> s))))"

datatype fcntl_cmd = F_GETFD | F_SETFD | F_GETFL | F_SETFL | F_DUPFD | F_DUPFD_CLOEXEC | F_other

definition fcntl :: "'w fds \<Rightarrow> int \<Rightarrow> fcntl_cmd \<Rightarrow> u32 \<Rightarrow> int \<times> 'w fds" where
  "fcntl s fd cmd flags =
     (case get_fd s fd of
        None \<Rightarrow> (- EBADF, s)
      | Some i \<Rightarrow> (case cmd of
            F_GETFD \<Rightarrow> (sint (fde_flags (fd_table s ! nat fd)), s)
          | F_SETFD \<Rightarrow> (0, set_entry (nat fd) \<lparr>fde_fd = Some i, fde_flags = flags\<rparr> s)
          | F_GETFL \<Rightarrow> (sint (d_flags (desc s i)), s)
          | F_SETFL \<Rightarrow> (0, upd_desc i (\<lambda>d. d\<lparr>d_flags := (d_flags d AND NOT FCNTL_MUTABLE) OR (flags AND FCNTL_MUTABLE)\<rparr>) s)
          | F_DUPFD \<Rightarrow> dup s fd (sint flags) 0
          | F_DUPFD_CLOEXEC \<Rightarrow> dup s fd (sint flags) O_CLOEXEC
          | F_other \<Rightarrow> (- EINVAL, s)))"

text \<open>\<open>dup2\<close> ignores the result of \<open>fd_close\<close>.\<close>

definition dup2 :: "'w fds \<Rightarrow> int \<Rightarrow> int \<Rightarrow> (int \<times> 'w fds) outcome" where
  "dup2 s fd new_fd =
     (case get_fd s fd of
        None \<Rightarrow> Ret (- EBADF, s)
      | Some i \<Rightarrow>
          if new_fd < 0 \<or> new_fd \<ge> int MAX_FDS then Ret (- EBADF, s)
          else if fd = new_fd then Ret (new_fd, s)
          else bind_outcome (fd_close s new_fd) (\<lambda>(r, s1).
            Ret (new_fd, upd_desc i (\<lambda>d. d\<lparr>d_refcount := d_refcount d + 1\<rparr>)
              (set_entry (nat new_fd) \<lparr>fde_fd = Some i, fde_flags = 0\<rparr> s1))))"

section \<open>Pipes and sockets\<close>

definition fd_pipe :: "'w fds \<Rightarrow> (int \<times> (nat \<times> nat) option) \<times> 'w fds" where
  "fd_pipe s =
     (case free_fd (fd_table s) 0 of
        None \<Rightarrow> ((- EMFILE, None), s)
      | Some a \<Rightarrow> (case free_fd (drop (a + 1) (fd_table s)) (a + 1) of
          None \<Rightarrow> ((- EMFILE, None), s)
        | Some b \<Rightarrow> (case free_file (file_descriptions s) 0 of
            None \<Rightarrow> ((- ENFILE, None), s)
          | Some i \<Rightarrow> (case free_file (drop (i + 1) (file_descriptions s)) (i + 1) of
              None \<Rightarrow> ((- ENFILE, None), s)
            | Some j \<Rightarrow>
                let p = next_pipe s;
                    s1 = s\<lparr>pipes := (pipes s)(p \<mapsto> create_pipe), next_pipe := p + 1\<rparr>;
                    s2 = upd_desc i (\<lambda>d. d\<lparr>d_pipe := p, d_flags := O_RDONLY, d_refcount := 1, d_type := FD_TYPE_PIPE\<rparr>) s1;
                    s3 = upd_desc j (\<lambda>d. d\<lparr>d_pipe := p, d_flags := O_WRONLY, d_refcount := 1, d_type := FD_TYPE_PIPE\<rparr>) s2
                in ((0, Some (a, b)), set_entry b \<lparr>fde_fd = Some j, fde_flags = 0\<rparr>
                     (set_entry a \<lparr>fde_fd = Some i, fde_flags = 0\<rparr> s3))))))"

definition fd_socket :: "'w fds \<Rightarrow> int \<Rightarrow> int \<Rightarrow> int \<Rightarrow> int \<times> 'w fds" where
  "fd_socket s domain ty proto =
     (case free_fd (fd_table s) 0 of
        None \<Rightarrow> (- EMFILE, s)
      | Some a \<Rightarrow> (case free_file (file_descriptions s) 0 of
          None \<Rightarrow> (- ENFILE, s)
        | Some i \<Rightarrow> (case socket domain ty proto of
            Inl e \<Rightarrow> (e, s)
          | Inr so \<Rightarrow>
              let k = next_socket s;
                  s1 = s\<lparr>sockets := (sockets s)(k \<mapsto> so), next_socket := k + 1\<rparr>
              in (int a, set_entry a \<lparr>fde_fd = Some i, fde_flags = 0\<rparr>
                   (upd_desc i (\<lambda>d. d\<lparr>d_socket := k, d_type := FD_TYPE_SOCKET, d_offset := 0, d_flags := 0,
                      d_refcount := 1\<rparr>) s1)))))"

text \<open>The socket behind a descriptor; the pointer of a socket description is never null.\<close>

definition with_socket :: "'w fds \<Rightarrow> int \<Rightarrow> 'a \<Rightarrow> 'a \<Rightarrow> (nat \<Rightarrow> nat \<Rightarrow> socket_t \<Rightarrow> ('a \<times> 'w fds) outcome) \<Rightarrow> ('a \<times> 'w fds) outcome" where
  "with_socket s fd bad inval f =
     (case get_fd s fd of
        None \<Rightarrow> Ret (bad, s)
      | Some i \<Rightarrow>
          if d_type (desc s i) \<noteq> FD_TYPE_SOCKET then Ret (inval, s)
          else (case sockets s (d_socket (desc s i)) of None \<Rightarrow> Fault | Some so \<Rightarrow> f i (d_socket (desc s i)) so))"

definition fd_bind :: "'w fds \<Rightarrow> int \<Rightarrow> sockaddr_in option \<Rightarrow> (int \<times> 'w fds) outcome" where
  "fd_bind s fd addr = with_socket s fd (- EBADF) (- EINVAL) (\<lambda>i k so.
     case sock_bind so addr (fd_net s) of (res, so1, n) \<Rightarrow>
       Ret (res, s\<lparr>fd_net := n, sockets := (sockets s)(k \<mapsto> so1)\<rparr>))"

definition fd_unbind :: "'w fds \<Rightarrow> int \<Rightarrow> (int \<times> 'w fds) outcome" where
  "fd_unbind s fd = with_socket s fd (- EBADF) (- EINVAL) (\<lambda>i k so.
     case unbind so (fd_net s) of (res, n) \<Rightarrow> Ret (res, s\<lparr>fd_net := n\<rparr>))"

fun recv_loop :: "'w fd_event list \<Rightarrow> 'w fds \<Rightarrow> nat \<Rightarrow> nat \<Rightarrow> u64 \<Rightarrow> int \<Rightarrow> sockaddr_in \<Rightarrow>
    ((int \<times> byte list \<times> sockaddr_in) \<times> 'w fds) outcome" where
  "recv_loop evs s i k len flags addr =
     (case sockets s k of
        None \<Rightarrow> Fault
      | Some so \<Rightarrow> (case recvfrom so len flags addr (fd_net s) of (res, bs, addr1, so1, n) \<Rightarrow>
          let s1 = s\<lparr>fd_net := n, sockets := (sockets s)(k \<mapsto> so1)\<rparr> in
          if d_flags (desc s1 i) AND O_NONBLOCK \<noteq> 0 \<or> res \<noteq> - EAGAIN then Ret ((res, bs, addr1), s1)
          else (case evs of
              [] \<Rightarrow> Blocks
            | (sig, ev) # evs1 \<Rightarrow>
                if sig then Ret ((- EINTR, [], addr1), s1) else recv_loop evs1 (ev s1) i k len flags addr1)))"

declare recv_loop.simps [simp del]

definition fd_recvfrom :: "'w fd_event list \<Rightarrow> 'w fds \<Rightarrow> int \<Rightarrow> u64 \<Rightarrow> int \<Rightarrow> sockaddr_in \<Rightarrow>
    ((int \<times> byte list \<times> sockaddr_in) \<times> 'w fds) outcome" where
  "fd_recvfrom evs s fd len flags addr =
     with_socket s fd (- EBADF, [], addr) (- EINVAL, [], addr) (\<lambda>i k so. recv_loop evs s i k len flags addr)"

definition fd_sendto :: "poll list \<Rightarrow> 'w fds \<Rightarrow> int \<Rightarrow> Netbytes.mem \<Rightarrow> u64 \<Rightarrow> int \<Rightarrow> sockaddr_in \<Rightarrow> (int \<times> 'w fds) outcome" where
  "fd_sendto ps s fd buf len flags addr = with_socket s fd (- EBADF) (- EINVAL) (\<lambda>i k so.
     bind_outcome (sendto so buf len flags addr ps (fd_net s)) (\<lambda>(res, so1, ps1, n).
       Ret (res, s\<lparr>fd_net := n, sockets := (sockets s)(k \<mapsto> so1)\<rparr>)))"

fun release_loop :: "nat list \<Rightarrow> 'w fds \<Rightarrow> 'w fds outcome" where
  "release_loop [] s = Ret s"
| "release_loop (k # ks) s =
     (case fde_fd (fd_table s ! k) of
        None \<Rightarrow> release_loop ks s
      | Some _ \<Rightarrow> bind_outcome (fd_close s (int k)) (\<lambda>(r, s1). release_loop ks s1))"

definition release_process_fds :: "'w fds \<Rightarrow> 'w fds outcome" where
  "release_process_fds s = release_loop [0..<MAX_FDS] s"

section \<open>Reference counts\<close>

text \<open>The loop that counts the new references to the file descriptions of a copied table.\<close>

fun share_fds :: "fd_entry list \<Rightarrow> 'w fds \<Rightarrow> 'w fds" where
  "share_fds [] d = d"
| "share_fds (e # es) d =
     share_fds es (case fde_fd e of None \<Rightarrow> d | Some i \<Rightarrow> upd_desc i (\<lambda>x. x\<lparr>d_refcount := d_refcount x + 1\<rparr>) d)"


text \<open>How often a table points to a description, and the invariant: every count is the number of
  pointers in all tables.\<close>

definition points :: "fd_entry list \<Rightarrow> nat \<Rightarrow> int" where
  "points es i = int (length (filter (\<lambda>e. fde_fd e = Some i) es))"

definition pointers :: "'w fds \<Rightarrow> nat \<Rightarrow> int" where
  "pointers s i = points (fd_table s) i + sum_list (map (\<lambda>es. points es i) (other_tables s))"

definition refs_ok :: "'w fds \<Rightarrow> bool" where
  "refs_ok s \<longleftrightarrow> length (fd_table s) = MAX_FDS \<and> (\<forall>es\<in>set (other_tables s). length es = MAX_FDS) \<and>
     (\<forall>i<length (file_descriptions s). d_refcount (desc s i) = pointers s i) \<and>
     (\<forall>i\<ge>length (file_descriptions s). pointers s i = 0)"

text \<open>The same with a difference: \<open>L i\<close> descriptors point to description \<open>i\<close> without being counted.\<close>

definition lag :: "(nat \<Rightarrow> int) \<Rightarrow> 'w fds \<Rightarrow> bool" where
  "lag L s \<longleftrightarrow> length (fd_table s) = MAX_FDS \<and> (\<forall>es\<in>set (other_tables s). length es = MAX_FDS) \<and>
     (\<forall>i<length (file_descriptions s). d_refcount (desc s i) + L i = pointers s i) \<and>
     (\<forall>i\<ge>length (file_descriptions s). pointers s i = 0)"

lemma refs_ok_lag: "refs_ok s \<longleftrightarrow> lag (\<lambda>_. 0) s"
  by (simp add: refs_ok_def lag_def)

lemma points_simps [simp]:
  "points [] i = 0" "points (e # es) i = (if fde_fd e = Some i then 1 else 0) + points es i" "0 \<le> points es i"
  by (simp_all add: points_def)

lemma points_pos: "e \<in> set es \<Longrightarrow> fde_fd e = Some i \<Longrightarrow> 0 < points es i"
  by (auto simp: points_def filter_empty_conv)

lemma points_update:
  "k < length es \<Longrightarrow> points (es[k := e]) i =
     points es i - (if fde_fd (es ! k) = Some i then 1 else 0) + (if fde_fd e = Some i then 1 else 0)"
  by (induction es arbitrary: k) (auto split: nat.split)

lemma pointers_nonneg [simp]: "0 \<le> pointers s i"
  by (auto simp: pointers_def intro!: add_nonneg_nonneg sum_list_nonneg)

lemma pointers_live:
  assumes "k < length (fd_table s)" "fde_fd (fd_table s ! k) = Some i"
  shows "0 < pointers s i"
proof -
  have "0 < points (fd_table s) i" using assms by (intro points_pos [of "fd_table s ! k"]) auto
  moreover have "0 \<le> sum_list (map (\<lambda>es. points es i) (other_tables s))" by (rule sum_list_nonneg) auto
  ultimately show ?thesis by (simp add: pointers_def)
qed

text \<open>States that agree in the tables and the counts.\<close>

definition same_refs :: "'w fds \<Rightarrow> 'w fds \<Rightarrow> bool" where
  "same_refs s t \<longleftrightarrow> fd_table t = fd_table s \<and> other_tables t = other_tables s \<and>
     map d_refcount (file_descriptions t) = map d_refcount (file_descriptions s)"

lemma same_refsD: "same_refs s t \<Longrightarrow> length (file_descriptions t) = length (file_descriptions s)"
  by (metis same_refs_def length_map)

lemma same_refs_desc: "same_refs s t \<Longrightarrow> i < length (file_descriptions s) \<Longrightarrow> d_refcount (desc t i) = d_refcount (desc s i)"
  by (metis same_refs_def same_refsD desc_def nth_map)

lemma refs_same: "same_refs s t \<Longrightarrow> lag L s \<Longrightarrow> lag L t"
  by (auto simp: lag_def same_refsD same_refs_desc pointers_def) (simp_all add: same_refs_def)

lemma same_refs_simps [simp]:
  "same_refs s s" "same_refs s (t\<lparr>fd_vfs := v\<rparr>) = same_refs s t" "same_refs s (t\<lparr>fd_net := n\<rparr>) = same_refs s t"
  "same_refs s (t\<lparr>pipes := p\<rparr>) = same_refs s t" "same_refs s (t\<lparr>sockets := k\<rparr>) = same_refs s t"
  "same_refs s (t\<lparr>next_pipe := m\<rparr>) = same_refs s t" "same_refs s (t\<lparr>next_socket := m\<rparr>) = same_refs s t"
  "same_refs s (t\<lparr>raised := rs\<rparr>) = same_refs s t"
  by (simp_all add: same_refs_def)

lemma same_refs_upd:
  assumes "same_refs s t" and "\<And>d. d_refcount (f d) = d_refcount d"
  shows "same_refs s (upd_desc i f t)"
proof -
  have "map d_refcount ((file_descriptions t)[i := f (file_descriptions t ! i)]) = map d_refcount (file_descriptions t)"
    using assms(2) by (cases "i < length (file_descriptions t)") (auto intro!: nth_equalityI simp: nth_list_update)
  then show ?thesis using assms(1) by (simp add: same_refs_def upd_desc_def desc_def)
qed

text \<open>A descriptor entry and the count it refers to change together.\<close>

lemma refs_install:
  assumes "lag L s" "k < MAX_FDS" "fde_fd (fd_table s ! k) = None" "i < length (file_descriptions s)"
    and "d_refcount (f (desc s i)) = d_refcount (desc s i) + 1"
  shows "lag L (set_entry k \<lparr>fde_fd = Some i, fde_flags = fl\<rparr> (upd_desc i f s))"
  using assms
  by (auto simp: lag_def set_entry_def upd_desc_def desc_def pointers_def points_update nth_list_update)

lemma refs_remove:
  assumes "lag L s" "k < MAX_FDS" "fde_fd (fd_table s ! k) = Some i"
    and "d_refcount (f (desc s i)) = d_refcount (desc s i) - 1"
  shows "lag L (set_entry k no_entry (upd_desc i f s))"
proof -
  have "i < length (file_descriptions s)"
    using assms pointers_live [of k s i] by (force simp: lag_def not_less [symmetric])
  then show ?thesis using assms
    by (auto simp: lag_def set_entry_def upd_desc_def desc_def pointers_def points_update nth_list_update no_entry_def)
qed

lemma free_fd_Some: "free_fd es n = Some k \<Longrightarrow> n \<le> k \<and> k - n < length es \<and> fde_fd (es ! (k - n)) = None"
  by (induction es n rule: free_fd.induct) (fastforce simp: nth_Cons' split: if_splits)+

lemma free_file_Some: "free_file ds n = Some k \<Longrightarrow> n \<le> k \<and> k - n < length ds \<and> d_refcount (ds ! (k - n)) = 0"
  by (induction ds n rule: free_file.induct) (fastforce simp: nth_Cons' split: if_splits)+

text \<open>The outcome of an operation keeps the invariant.\<close>

definition lag_after :: "(nat \<Rightarrow> int) \<Rightarrow> ('a \<times> 'w fds) outcome \<Rightarrow> bool" where
  "lag_after L r \<longleftrightarrow> (\<forall>x t. r = Ret (x, t) \<longrightarrow> lag L t)"

lemma lag_after_intros:
  "lag L t \<Longrightarrow> lag_after L (Ret (x, t))" "lag_after L Fault" "lag_after L Blocks" "lag_after L Panic"
  "(\<And>y. m = Ret y \<Longrightarrow> lag_after L (f y)) \<Longrightarrow> lag_after L (bind_outcome m f)"
  by (auto simp: lag_after_def bind_outcome_eq_Ret)

lemma refs_fields [simp]:
  "lag L (s\<lparr>fd_vfs := v\<rparr>) = lag L s" "lag L (s\<lparr>fd_net := n\<rparr>) = lag L s"
  "lag L (s\<lparr>pipes := p\<rparr>) = lag L s" "lag L (s\<lparr>sockets := k\<rparr>) = lag L s"
  "lag L (s\<lparr>next_pipe := m\<rparr>) = lag L s" "lag L (s\<lparr>next_socket := m\<rparr>) = lag L s"
  "lag L (s\<lparr>raised := rs\<rparr>) = lag L s"
  by (simp_all add: lag_def desc_def pointers_def)

lemma refs_upd: "lag L s \<Longrightarrow> (\<And>d. d_refcount (f d) = d_refcount d) \<Longrightarrow> lag L (upd_desc i f s)"
  by (rule refs_same [OF same_refs_upd [OF same_refs_simps(1)]])

lemma refs_new:
  assumes "lag L s" "free_fd (fd_table s) 0 = Some k" "free_file (file_descriptions s) 0 = Some i"
    and "\<And>d. d_refcount (f d) = 1"
  shows "lag L (set_entry k \<lparr>fde_fd = Some i, fde_flags = fl\<rparr> (upd_desc i f s))"
  using free_fd_Some [OF assms(2)] free_file_Some [OF assms(3)] assms
  by (intro refs_install) (auto simp: lag_def desc_def)

lemma refs_fd_install: "lag L s \<Longrightarrow> lag_after L (fd_install s path flags st)"
  unfolding fd_install_def
  by (auto split: option.split sum.split intro!: lag_after_intros refs_new refs_upd)

lemma refs_fd_open: "lag L s \<Longrightarrow> lag_after L (fd_open s path flags)"
  unfolding fd_open_def Let_def
  by (auto intro!: lag_after_intros refs_fd_install)

lemma close_description_refs:
  "close_file_description s i = Ret (r, t) \<Longrightarrow> same_refs s t"
  by (auto simp: close_file_description_def bind_outcome_eq_Ret split: fd_type.splits option.splits prod.splits if_splits
    intro!: same_refs_upd)

lemma refs_seek: "lag L s \<Longrightarrow> lag_after L (seek s fd off ty)"
  unfolding seek_def Let_def
  by (auto split: option.split whence.split intro!: lag_after_intros refs_upd)

lemma refs_seekD: "seek s fd off ty = Ret (x, t) \<Longrightarrow> lag L s \<Longrightarrow> lag L t"
  using refs_seek by (force simp: lag_after_def)

lemma refs_fd_write: "lag L s \<Longrightarrow> lag_after L (fd_write evs s fd buf)"
  unfolding fd_write_def Let_def
  by (auto split: option.split prod.split if_splits intro!: lag_after_intros refs_upd)
    (erule (1) refs_seekD)+

lemma read_once_refs: "read_once s i sz = Ret (r, bs, t) \<Longrightarrow> same_refs s t"
  by (auto simp: read_once_def bind_outcome_eq_Ret split: if_splits option.splits prod.splits)

lemma upd_set_commute: "upd_desc i f (set_entry k e s) = set_entry k e (upd_desc i f s)"
  by (cases s) (simp add: upd_desc_def set_entry_def desc_def)

lemma get_fd_entry: "get_fd s fd = Some i \<Longrightarrow> lag L s \<Longrightarrow>
    nat fd < MAX_FDS \<and> fde_fd (fd_table s ! nat fd) = Some i \<and> i < length (file_descriptions s) \<and> 0 < pointers s i"
proof -
  assume a: "get_fd s fd = Some i" "lag L s"
  then have k: "nat fd < MAX_FDS" "fde_fd (fd_table s ! nat fd) = Some i" by (auto simp: get_fd_def split: if_splits)
  then have "0 < pointers s i" using pointers_live [of "nat fd" s i] a(2) by (simp add: lag_def)
  then show ?thesis using k a(2) by (force simp: lag_def not_less [symmetric])
qed

lemma refs_dup_entry:
  assumes "lag L s" "get_fd s fd = Some i" "k < MAX_FDS" "fde_fd (fd_table s ! k) = None"
  shows "lag L (set_entry k \<lparr>fde_fd = Some i, fde_flags = fl\<rparr> (upd_desc i (\<lambda>d. d\<lparr>d_refcount := d_refcount d + 1\<rparr>) s))"
  using get_fd_entry [OF assms(2,1)] assms by (intro refs_install) auto

lemma free_fd_drop: "free_fd (drop n (fd_table s)) n = Some k \<Longrightarrow> lag L s \<Longrightarrow> k < MAX_FDS \<and> fde_fd (fd_table s ! k) = None"
  by (auto simp: lag_def dest!: free_fd_Some)

lemma refs_fd_dup: "lag L s \<Longrightarrow> lag L (snd (dup s fd minfd flags))"
  by (auto simp: dup_def upd_set_commute split: option.split intro!: refs_dup_entry dest: free_fd_drop)

lemma refs_reflag: "lag L s \<Longrightarrow> get_fd s fd = Some i \<Longrightarrow> lag L (set_entry (nat fd) \<lparr>fde_fd = Some i, fde_flags = fl\<rparr> s)"
  by (drule (1) get_fd_entry) (auto simp: lag_def set_entry_def desc_def pointers_def points_update)

lemma refs_fcntl: "lag L s \<Longrightarrow> lag L (snd (fcntl s fd cmd flags))"
  by (auto simp: fcntl_def refs_fd_dup refs_reflag split: option.split fcntl_cmd.split intro!: refs_upd)

lemma same_refs_set: "same_refs s t \<Longrightarrow> same_refs (set_entry k e s) (set_entry k e t)"
  by (simp add: same_refs_def set_entry_def)

text \<open>A close that succeeds keeps the counts; one that fails lowers the count and leaves the descriptor.\<close>

lemma refs_forget:
  assumes "lag L s" "i < length (file_descriptions s)" "d_refcount (f (desc s i)) = d_refcount (desc s i) - 1"
  shows "lag (L(i := L i + 1)) (upd_desc i f s)"
  using assms by (auto simp: lag_def upd_desc_def desc_def pointers_def nth_list_update)

lemma fd_close_cases:
  assumes ok: "lag L s" and i: "get_fd s fd = Some i" and res: "fd_close s fd = Ret (r, t)"
  shows "if r < 0 then lag (L(i := L i + 1)) t \<and> fd_table t = fd_table s
    else lag L t \<and> fd_table t = (fd_table s)[nat fd := no_entry]"
proof -
  define s1 where "s1 = upd_desc i (\<lambda>d. d\<lparr>d_refcount := d_refcount d - 1\<rparr>) s"
  obtain e s2 where m: "(if d_refcount (desc s1 i) = 0 then close_file_description s1 i else Ret (0, s1)) = Ret (e, s2)"
      and t: "if e < 0 then r = e \<and> t = s2 else r = 0 \<and> t = set_entry (nat fd) no_entry s2"
    using res i by (auto simp: fd_close_def s1_def [symmetric] Let_def bind_outcome_eq_Ret split: if_split_asm)
  have same: "same_refs s1 s2"
    using m close_description_refs [of s1 i e s2] by (cases "d_refcount (desc s1 i) = 0") auto
  note entry = get_fd_entry [OF i ok]
  have "lag (L(i := L i + 1)) s1" unfolding s1_def using entry ok by (intro refs_forget) auto
  then have fail: "lag (L(i := L i + 1)) s2" by (rule refs_same [OF same])
  have "lag L (set_entry (nat fd) no_entry s1)" unfolding s1_def using entry ok by (intro refs_remove) auto
  then have "lag L (set_entry (nat fd) no_entry s2)" by (rule refs_same [OF same_refs_set [OF same]])
  moreover have "fd_table s2 = fd_table s" using same by (simp add: same_refs_def s1_def upd_desc_def)
  ultimately show ?thesis using t fail by (auto simp: set_entry_def split: if_splits)
qed

text \<open>An entry that is overwritten gives up its pointer: \<open>dup2\<close> keeps the counts even when the close fails.\<close>

lemma refs_replace:
  assumes "lag L s" "k < MAX_FDS" "fde_fd (fd_table s ! k) = Some j" "i < length (file_descriptions s)"
    and "d_refcount (f (desc s i)) = d_refcount (desc s i) + 1"
  shows "lag (L(j := L j - 1)) (set_entry k \<lparr>fde_fd = Some i, fde_flags = fl\<rparr> (upd_desc i f s))"
proof -
  have "j < length (file_descriptions s)"
    using assms pointers_live [of k s j] by (force simp: lag_def not_less [symmetric])
  then show ?thesis using assms
    by (auto simp: lag_def set_entry_def upd_desc_def desc_def pointers_def points_update nth_list_update)
qed

lemma refs_dup2:
  assumes ok: "lag L s" and res: "dup2 s fd new_fd = Ret (r, t)"
  shows "lag L t"
proof (cases "get_fd s fd = None \<or> new_fd < 0 \<or> new_fd \<ge> int MAX_FDS \<or> fd = new_fd")
  case True
  then show ?thesis using ok res by (auto simp: dup2_def split: option.splits if_splits)
next
  case False
  then obtain i e u where i: "get_fd s fd = Some i" and u: "fd_close s new_fd = Ret (e, u)"
      and t: "t = set_entry (nat new_fd) \<lparr>fde_fd = Some i, fde_flags = 0\<rparr>
        (upd_desc i (\<lambda>d. d\<lparr>d_refcount := d_refcount d + 1\<rparr>) u)"
    using res by (auto simp: dup2_def bind_outcome_eq_Ret upd_set_commute)
  have new: "nat new_fd < MAX_FDS" "nat fd \<noteq> nat new_fd" "length (fd_table s) = MAX_FDS"
    using False ok i by (auto simp: lag_def get_fd_def split: if_splits)
  show ?thesis
  proof (cases "get_fd s new_fd")
    case None
    then have "u = s" "fde_fd (fd_table s ! nat new_fd) = None"
      using u False by (auto simp: fd_close_def get_fd_def split: if_splits)
    then show ?thesis unfolding t using refs_dup_entry [OF ok i new(1)] by simp
  next
    case (Some j)
    note c = fd_close_cases [OF ok Some u] and j = get_fd_entry [OF Some ok]
    show ?thesis
    proof (cases "e < 0")
      case True
      then have u': "lag (L(j := L j + 1)) u" "fd_table u = fd_table s" using c by simp_all
      then have "get_fd u fd = Some i" using i by (simp add: get_fd_def split: if_splits)
      from refs_replace [OF u'(1) new(1), of j i "\<lambda>d. d\<lparr>d_refcount := d_refcount d + 1\<rparr>" 0] get_fd_entry [OF this u'(1)]
      show ?thesis unfolding t using u'(2) j by simp
    next
      case False
      then have u': "lag L u" "fd_table u = (fd_table s)[nat new_fd := no_entry]" using c by simp_all
      then have "get_fd u fd = Some i" "fde_fd (fd_table u ! nat new_fd) = None"
        using i new by (auto simp: get_fd_def no_entry_def split: if_splits)
      then show ?thesis unfolding t using refs_dup_entry [OF u'(1) _ new(1)] by simp
    qed
  qed
qed

lemma refs_fd_socket: "lag L s \<Longrightarrow> lag L (snd (fd_socket s domain ty proto))"
  by (auto simp: fd_socket_def Let_def split: option.split sum.split intro!: refs_new)

lemma refs_fd_pipe: "lag L s \<Longrightarrow> lag L (snd (fd_pipe s))"
proof (cases "\<exists>a b i j. free_fd (fd_table s) 0 = Some a \<and> free_fd (drop (a + 1) (fd_table s)) (a + 1) = Some b \<and>
    free_file (file_descriptions s) 0 = Some i \<and> free_file (drop (i + 1) (file_descriptions s)) (i + 1) = Some j")
  case True
  assume ok: "lag L s"
  from True obtain a b i j where a: "free_fd (fd_table s) 0 = Some a" and b: "free_fd (drop (a + 1) (fd_table s)) (a + 1) = Some b"
    and i: "free_file (file_descriptions s) 0 = Some i" and j: "free_file (drop (i + 1) (file_descriptions s)) (i + 1) = Some j"
    by blast
  define s1 where "s1 = s\<lparr>pipes := (pipes s)(next_pipe s \<mapsto> create_pipe), next_pipe := next_pipe s + 1\<rparr>"
  define fi where "fi = (\<lambda>fl (d :: file_description). d\<lparr>d_pipe := next_pipe s, d_flags := fl, d_refcount := 1, d_type := FD_TYPE_PIPE\<rparr>)"
  define s2 where "s2 = set_entry a \<lparr>fde_fd = Some i, fde_flags = 0\<rparr> (upd_desc i (fi O_RDONLY) s1)"
  have ok2: "lag L s2" unfolding s2_def
    by (rule refs_new) (use ok a i in \<open>simp_all add: s1_def fi_def\<close>)
  have ne: "a < b" "i < j" and fb: "b < MAX_FDS" "fde_fd (fd_table s ! b) = None"
    and fj: "j < length (file_descriptions s)" "d_refcount (file_descriptions s ! j) = 0"
    using free_fd_Some [OF b] free_file_Some [OF j] ok by (auto simp: lag_def)
  have "lag L (set_entry b \<lparr>fde_fd = Some j, fde_flags = 0\<rparr> (upd_desc j (fi O_WRONLY) s2))"
    by (rule refs_install [OF ok2 fb(1)])
      (use ne fb fj in \<open>auto simp: s2_def s1_def set_entry_def upd_desc_def desc_def fi_def\<close>)
  moreover have "snd (fd_pipe s) = set_entry b \<lparr>fde_fd = Some j, fde_flags = 0\<rparr> (upd_desc j (fi O_WRONLY) s2)"
    using a b i j by (simp add: fd_pipe_def Let_def s2_def s1_def fi_def upd_set_commute)
  ultimately show ?thesis by simp
next
  case False
  assume "lag L s"
  then show ?thesis using False by (auto simp: fd_pipe_def split: option.split)
qed

lemma share_fds_length [simp]: "length (file_descriptions (share_fds es d)) = length (file_descriptions d)"
  by (induction es arbitrary: d) (auto simp: upd_desc_def split: option.splits)

lemma upd_desc_count:
  "i < length (file_descriptions d) \<Longrightarrow>
   d_refcount (desc (upd_desc k (\<lambda>x. x\<lparr>d_refcount := d_refcount x + 1\<rparr>) d) i) = d_refcount (desc d i) + (if k = i then 1 else 0)"
  by (cases "k < length (file_descriptions d)") (auto simp: upd_desc_def desc_def nth_list_update)

lemma upd_desc_length [simp]: "length (file_descriptions (upd_desc k f d)) = length (file_descriptions d)"
  by (simp add: upd_desc_def)

lemma share_fds_desc:
  "i < length (file_descriptions d) \<Longrightarrow> d_refcount (desc (share_fds es d) i) = d_refcount (desc d i) + points es i"
proof (induction es arbitrary: d)
  case (Cons e es)
  show ?case using Cons.IH [of d] Cons.IH [of "upd_desc (the (fde_fd e)) (\<lambda>x. x\<lparr>d_refcount := d_refcount x + 1\<rparr>) d"] Cons.prems
    by (cases "fde_fd e") (simp_all add: upd_desc_count)
qed simp

lemma share_fds_fields [simp]: "fd_table (share_fds es d) = fd_table d" "other_tables (share_fds es d) = other_tables d"
  by (induction es arbitrary: d) (auto simp: upd_desc_def split: option.splits)

text \<open>The copy of a table joins the tables of the other tasks, and all counts stay right.\<close>

lemma share_fds_lag:
  assumes "lag L d"
  shows "lag L ((share_fds (fd_table d) d)\<lparr>other_tables := fd_table d # other_tables d\<rparr>)"
proof -
  have p: "pointers ((share_fds (fd_table d) d)\<lparr>other_tables := fd_table d # other_tables d\<rparr>) i = points (fd_table d) i + pointers d i" for i
    by (simp add: pointers_def)
  have z: "points (fd_table d) i = 0" if "length (file_descriptions d) \<le> i" for i
  proof -
    have "0 \<le> sum_list (map (\<lambda>es. points es i) (other_tables d))" by (rule sum_list_nonneg) auto
    moreover have "pointers d i = 0" using assms that by (simp add: lag_def)
    ultimately show ?thesis using points_simps(3) [of "fd_table d" i] by (simp add: pointers_def del: points_simps)
  qed
  have c: "desc (x\<lparr>other_tables := o1\<rparr>) i = desc x i" for x :: "'a fds" and o1 i by (simp add: desc_def)
  show ?thesis unfolding lag_def p c using assms z by (auto simp: lag_def share_fds_desc)
qed

lemma share_fds_refs:
  "refs_ok d \<Longrightarrow> refs_ok ((share_fds (fd_table d) d)\<lparr>other_tables := fd_table d # other_tables d\<rparr>)"
  by (simp add: refs_ok_lag share_fds_lag)

lemma with_socket_refs:
  assumes "with_socket s fd bad inval f = Ret (x, t)" and "\<And>i k so. f i k so = Ret (x, t) \<Longrightarrow> same_refs s t"
  shows "same_refs s t"
  using assms(1) by (auto simp: with_socket_def split: option.splits if_splits dest: assms(2))

text \<open>What tasks do with descriptors.  A read that sleeps is a step per attempt, with the steps of the other
  tasks in between; the last attempt moves the offset.  A new process gets a counted copy of the table.\<close>

inductive fd_step :: "'w fds \<Rightarrow> 'w fds \<Rightarrow> bool" where
  open_fd: "fd_open s path flags = Ret (r, t) \<Longrightarrow> fd_step s t"
| close_fd: "fd_close s fd = Ret (r, t) \<Longrightarrow> get_fd s fd = None \<or> 0 \<le> r \<Longrightarrow> fd_step s t"
| seek_fd: "seek s fd off ty = Ret (r, t) \<Longrightarrow> fd_step s t"
| read_try: "read_once s i sz = Ret (r, bs, t) \<Longrightarrow> fd_step s t"
| read_last: "read_once s i sz = Ret (r, bs, t) \<Longrightarrow> fd_step s (upd_desc i (\<lambda>d. d\<lparr>d_offset := d_offset d + word_of_int r\<rparr>) t)"
| write_fd: "fd_write evs s fd buf = Ret (r, t) \<Longrightarrow> fd_step s t"
| readdir_fd: "fd_readdir s fd = Ret (r, t) \<Longrightarrow> fd_step s t"
| ioctl_fd: "fd_ioctl bt ct s fd request arg = Ret (r, t) \<Longrightarrow> fd_step s t"
| stat_fd: "fstat s fd = Ret (x, t) \<Longrightarrow> fd_step s t"
| truncate_fd: "ftruncate s fd new_size = Ret (r, t) \<Longrightarrow> fd_step s t"
| fcntl_fd: "fcntl s fd cmd flags = (r, t) \<Longrightarrow> fd_step s t"
| dup2_fd: "dup2 s fd new_fd = Ret (r, t) \<Longrightarrow> fd_step s t"
| pipe_fd: "fd_pipe s = (x, t) \<Longrightarrow> fd_step s t"
| socket_fd: "fd_socket s domain ty proto = (r, t) \<Longrightarrow> fd_step s t"
| bind_fd: "fd_bind s fd addr = Ret (r, t) \<Longrightarrow> fd_step s t"
| unbind_fd: "fd_unbind s fd = Ret (r, t) \<Longrightarrow> fd_step s t"
| recv_try: "sockets s k = Some so \<Longrightarrow> recvfrom so len flg addr (fd_net s) = (r, bs, addr1, so1, n) \<Longrightarrow>
    fd_step s (s\<lparr>fd_net := n, sockets := (sockets s)(k \<mapsto> so1)\<rparr>)"
| sendto_fd: "fd_sendto ps s fd mem len flg addr = Ret (r, t) \<Longrightarrow> fd_step s t"
| switch_task: "k < length (other_tables s) \<Longrightarrow>
    fd_step s (s\<lparr>fd_table := other_tables s ! k, other_tables := (other_tables s)[k := fd_table s]\<rparr>)"
| fork_fd: "fd_step s ((share_fds (fd_table s) s)\<lparr>other_tables := fd_table s # other_tables s\<rparr>)"

text \<open>A run, with the number of descriptors of each description that are not counted: one more for each close
  that fails, and the descriptors of a table that is thrown away with its task no longer matter.\<close>

inductive fd_run :: "'w fds \<Rightarrow> (nat \<Rightarrow> int) \<Rightarrow> 'w fds \<Rightarrow> bool" for s0 where
  start: "fd_run s0 (\<lambda>_. 0) s0"
| step: "fd_run s0 F s \<Longrightarrow> fd_step s t \<Longrightarrow> fd_run s0 F t"
| failed_close: "fd_run s0 F s \<Longrightarrow> get_fd s fd = Some i \<Longrightarrow> fd_close s fd = Ret (r, t) \<Longrightarrow> r < 0 \<Longrightarrow>
    fd_run s0 (F(i := F i + 1)) t"
| collect: "fd_run s0 F s \<Longrightarrow> k < length (other_tables s) \<Longrightarrow>
    fd_run s0 (\<lambda>i. F i - points (other_tables s ! k) i)
      (s\<lparr>other_tables := take k (other_tables s) @ drop (Suc k) (other_tables s)\<rparr>)"

text \<open>The calls with loops are runs: a sleeping read, whose events are runs of other tasks, and the closing of all
  descriptors at the end of a process.\<close>

lemma read_loop_run:
  assumes "\<forall>e\<in>set evs. \<forall>F u. fd_run s0 F u \<longrightarrow> (\<exists>F1. fd_run s0 F1 (snd e u))"
    and "fd_run s0 F s" "read_loop evs s i sz = Ret (r, bs, t)"
  shows "\<exists>F1. fd_run s0 F1 t"
  using assms
proof (induction evs arbitrary: s F)
  case Nil
  then show ?case using read_loop.simps [of "[]" s i sz]
    by (auto simp: bind_outcome_eq_Ret split: if_splits intro: fd_run.step fd_step.read_try)
next
  case (Cons e evs)
  obtain sig ev where e: "e = (sig, ev)" by (cases e)
  obtain r1 bs1 s1 where once: "read_once s i sz = Ret (r1, bs1, s1)"
    using Cons.prems(3) read_loop.simps [of "e # evs" s i sz] by (auto simp: bind_outcome_eq_Ret)
  have s1: "fd_run s0 F s1" using Cons.prems(2) fd_step.read_try [OF once] by (rule fd_run.step)
  obtain F1 where F1: "fd_run s0 F1 (ev s1)" using Cons.prems(1) s1 e by force
  show ?case using Cons.prems(1,3) once Cons.IH [OF _ F1] s1 e read_loop.simps [of "e # evs" s i sz]
    by (auto split: if_splits)
qed

lemma release_run: "release_loop ks s = Ret t \<Longrightarrow> fd_run s0 F s \<Longrightarrow> \<exists>F1. fd_run s0 F1 t"
proof (induction ks arbitrary: s F)
  case (Cons k ks)
  show ?case
  proof (cases "fde_fd (fd_table s ! k)")
    case None
    then show ?thesis using Cons by simp
  next
    case (Some i)
    then obtain r s1 where c: "fd_close s (int k) = Ret (r, s1)" and rest: "release_loop ks s1 = Ret t"
      using Cons.prems(1) by (auto simp: bind_outcome_eq_Ret)
    have "\<exists>F1. fd_run s0 F1 s1"
    proof (cases "get_fd s (int k) = None \<or> 0 \<le> r")
      case True
      then show ?thesis using fd_run.step [OF Cons.prems(2) fd_step.close_fd [OF c]] by blast
    next
      case False
      then show ?thesis using fd_run.failed_close [OF Cons.prems(2) _ c] by fastforce
    qed
    then show ?thesis using Cons.IH [OF rest] by blast
  qed
qed auto

lemma sum_list_swap: "k < length xs \<Longrightarrow> f y + sum_list (map f (xs[k := z])) = sum_list (map f xs) + f y - f (xs ! k) + (f z :: int)"
  by (induction xs arbitrary: k) (auto split: nat.split)

lemma refs_switch:
  assumes "lag L s" "k < length (other_tables s)"
  shows "lag L (s\<lparr>fd_table := other_tables s ! k, other_tables := (other_tables s)[k := fd_table s]\<rparr>)"
proof -
  have "pointers (s\<lparr>fd_table := other_tables s ! k, other_tables := (other_tables s)[k := fd_table s]\<rparr>) i = pointers s i" for i
    using sum_list_swap [OF assms(2), of "\<lambda>es. points es i" "other_tables s ! k" "fd_table s"] by (simp add: pointers_def)
  then show ?thesis using assms
    by (auto simp: lag_def desc_def dest!: set_update_subset_insert [THEN subsetD])
qed

lemma refs_step: "fd_step s t \<Longrightarrow> lag L s \<Longrightarrow> lag L t"
proof (induction rule: fd_step.induct)
  case (open_fd s path flags r t)
  then show ?case using refs_fd_open [of L s path flags] by (simp add: lag_after_def)
next
  case (close_fd s fd r t)
  then show ?case using fd_close_cases [of L s fd _ r t] by (cases "get_fd s fd") (auto simp: fd_close_def split: if_splits)
next
  case (seek_fd s fd off ty r t)
  then show ?case by (blast dest: refs_seekD)
next
  case (read_try s i sz r bs t)
  then show ?case by (blast intro: refs_same read_once_refs)
next
  case (read_last s i sz r bs t)
  then show ?case by (auto intro!: refs_upd intro: refs_same read_once_refs)
next
  case (write_fd evs s fd buf r t)
  then show ?case using refs_fd_write [of L s evs fd buf] by (simp add: lag_after_def)
next
  case (readdir_fd s fd r t)
  then show ?case by (auto simp: fd_readdir_def bind_outcome_eq_Ret Let_def split: option.splits if_splits intro!: refs_upd)
next
  case (ioctl_fd bt ct s fd request arg r t)
  then show ?case by (auto simp: fd_ioctl_def bind_outcome_eq_Ret split: option.splits if_splits)
next
  case (stat_fd s fd x t)
  then show ?case by (auto simp: fstat_def bind_outcome_eq_Ret split: option.splits if_splits)
next
  case (truncate_fd s fd new_size r t)
  then show ?case by (auto simp: ftruncate_def bind_outcome_eq_Ret split: option.splits if_splits)
next
  case (fcntl_fd s fd cmd flags r t)
  then show ?case using refs_fcntl [of L s fd cmd flags] by simp
next
  case (dup2_fd s fd new_fd r t)
  then show ?case using refs_dup2 by blast
next
  case (pipe_fd s x t)
  then show ?case using refs_fd_pipe [of L s] by simp
next
  case (socket_fd s domain ty proto r t)
  then show ?case using refs_fd_socket [of L s domain ty proto] by simp
next
  case (bind_fd s fd addr r t)
  have "same_refs s t" using bind_fd.hyps unfolding fd_bind_def by (rule with_socket_refs) (auto split: prod.splits)
  then show ?case using bind_fd.prems by (rule refs_same)
next
  case (unbind_fd s fd r t)
  have "same_refs s t" using unbind_fd.hyps unfolding fd_unbind_def by (rule with_socket_refs) (auto split: prod.splits)
  then show ?case using unbind_fd.prems by (rule refs_same)
next
  case (sendto_fd ps s fd mem len flg addr r t)
  have "same_refs s t" using sendto_fd.hyps unfolding fd_sendto_def by (rule with_socket_refs) (auto simp: bind_outcome_eq_Ret split: prod.splits)
  then show ?case using sendto_fd.prems by (rule refs_same)
next
  case (switch_task k s)
  then show ?case by (simp add: refs_switch)
next
  case (fork_fd s)
  then show ?case by (rule share_fds_lag)
qed simp

lemma sum_list_remove: "k < length xs \<Longrightarrow> sum_list (map f xs) = sum_list (map f (take k xs @ drop (Suc k) xs)) + (f (xs ! k) :: int)"
  by (subst id_take_nth_drop [of k xs]) simp_all

lemma refs_collect:
  assumes "lag L s" "k < length (other_tables s)"
  shows "lag (\<lambda>i. L i - points (other_tables s ! k) i) (s\<lparr>other_tables := take k (other_tables s) @ drop (Suc k) (other_tables s)\<rparr>)"
    (is "lag _ ?t")
proof -
  have p: "pointers ?t i = pointers s i - points (other_tables s ! k) i" for i
    using sum_list_remove [OF assms(2), of "\<lambda>es. points es i"] by (simp add: pointers_def)
  have z: "pointers ?t i = 0" if "length (file_descriptions s) \<le> i" for i
    using p [of i] pointers_nonneg [of ?t i] points_simps(3) [of "other_tables s ! k" i] assms(1) that
    by (simp add: lag_def del: points_simps pointers_nonneg)
  have "desc ?t i = desc s i" for i by (simp add: desc_def)
  then show ?thesis unfolding lag_def using assms z p
    by (auto simp: lag_def dest: in_set_takeD in_set_dropD)
qed

lemma refs_run: "fd_run s0 F s \<Longrightarrow> refs_ok s0 \<Longrightarrow> lag F s"
proof (induction rule: fd_run.induct)
  case start
  then show ?case by (simp add: refs_ok_lag)
next
  case (failed_close F s fd i r t)
  then show ?case using fd_close_cases [of F s fd i r t] by (simp del: fun_upd_apply)
qed (simp_all add: refs_step refs_collect)

section \<open>Properties\<close>

text \<open>A task with an empty descriptor table.\<close>

definition free_description :: file_description where
  "free_description = \<lparr>d_file_handle = \<lparr>fh_mountpoint = 0, fh_handle = 0\<rparr>, d_socket = 0, d_pipe = 0,
     d_type = FD_TYPE_FILE, d_offset = 0, d_flags = 0, d_refcount = 0\<rparr>"

definition demo_fds :: "ram fs_world fds" where
  "demo_fds = \<lparr>file_descriptions = replicate MAX_FILES free_description, fd_table = replicate MAX_FDS no_entry,
     other_tables = [], pipes = Map.empty, next_pipe = 1, sockets = Map.empty, next_socket = 1,
     fd_net = demo_net, fd_vfs = demo_vfs, raised = []\<rparr>"

lemma free_replicate:
  "free_fd (replicate n no_entry) k = (if n = 0 then None else Some k)"
  "free_file (replicate n free_description) k = (if n = 0 then None else Some k)"
  by (cases n; simp add: no_entry_def free_description_def)+

lemma demo_refs: "refs_ok demo_fds"
  by (simp add: refs_ok_def demo_fds_def desc_def pointers_def points_def no_entry_def free_description_def)

text \<open>C3. Descriptors and reference counts: starting from tables with right counts (such as empty ones), whatever the tasks do with descriptors
  (open, close, seek, read, write, duplicate, make pipes and sockets, fork, exit, with switches between
  tasks at every point where a call sleeps), the reference count of a description in use is the number of descriptors of
  all tasks that point to it, less the number \<open>F\<close> of closes of it that failed (and whose descriptors
  have not been thrown away with the table of a dead task since): a failing \<open>fd_close\<close> lowers the count and
  keeps the descriptor.  As long as no close of it fails the count is positive, so no other open can choose it.\<close>

theorem fd_refcounts:
  assumes "fd_run s0 F s" and "refs_ok s0" and "get_fd s fd = Some i"
  shows "i < length (file_descriptions s) \<and>
    d_refcount (desc s i) = int (length (filter (\<lambda>e. fde_fd e = Some i) (concat (fd_table s # other_tables s)))) - F i \<and>
    (F i \<le> 0 \<longrightarrow> 0 < d_refcount (desc s i))"
proof -
  have ok: "lag F s" using assms(1,2) by (rule refs_run)
  have "sum_list (map (\<lambda>es. points es i) ess) = int (length (filter (\<lambda>e. fde_fd e = Some i) (concat ess)))" for ess
    by (induction ess) (simp_all add: points_def)
  then have "pointers s i = int (length (filter (\<lambda>e. fde_fd e = Some i) (concat (fd_table s # other_tables s))))"
    by (simp add: pointers_def points_def)
  moreover have "i < length (file_descriptions s)" "0 < pointers s i" using get_fd_entry [OF assms(3) ok] by simp_all
  moreover have "d_refcount (desc s i) + F i = pointers s i" using ok calculation(2) by (simp add: lag_def)
  ultimately show ?thesis by linarith
qed

lemma demo_pipe:
  "\<exists>t. fd_pipe demo_fds = ((0, Some (0, 1)), t) \<and> get_fd t 0 = Some 0 \<and> get_fd t 1 = Some 1"
  by (simp add: fd_pipe_def demo_fds_def free_replicate MAX_FDS_def MAX_FILES_def Let_def get_fd_def set_entry_def
    upd_desc_def)

theorem fd_refcounts_witness:
  "\<exists>t. fd_pipe demo_fds = ((0, Some (0, 1)), t) \<and> get_fd t 0 = Some 0 \<and> 0 < d_refcount (desc t 0)"
proof -
  obtain t where t: "fd_pipe demo_fds = ((0, Some (0, 1)), t)" "get_fd t 0 = Some 0" using demo_pipe by blast
  have "fd_run demo_fds (\<lambda>_. 0) t" using fd_run.start fd_step.pipe_fd [OF t(1)] by (rule fd_run.step)
  from fd_refcounts [OF this demo_refs t(2)] show ?thesis using t by blast
qed

text \<open>The flag \<open>O_NONBLOCK\<close> of a pipe works the wrong way round: on a full pipe that still has a
  reader, a write through a descriptor without the flag returns \<open>-EAGAIN\<close> at once, and one through a
  descriptor with the flag blocks.\<close>

theorem pipe_write_nonblock_inverted:
  assumes "get_fd s fd = Some i" and "d_type (desc s i) = FD_TYPE_PIPE" and "d_flags (desc s i) AND O_ACCESS \<noteq> O_RDONLY"
    and "pipes s (d_pipe (desc s i)) = Some p" and "pipe_available p = 0" and "reader_count p \<noteq> 0" and "buf \<noteq> []"
  shows "if d_flags (desc s i) AND O_NONBLOCK = 0 then \<exists>t. fd_write evs s fd buf = Ret (- EAGAIN, t)
    else fd_write [] s fd buf = Blocks"
  using assms
  by (auto simp: fd_write_def pipe_write_def pipe_write_loop.simps errno_simps)

definition full_pipe_fds :: "ram fs_world fds" where
  "full_pipe_fds = (snd (fd_pipe demo_fds))\<lparr>pipes := [1 \<mapsto> create_pipe\<lparr>write_head := 8183\<rparr>]\<rparr>"

theorem pipe_write_nonblock_inverted_witness:
  "d_flags (desc full_pipe_fds 1) AND O_NONBLOCK = 0 \<and> (\<exists>t. fd_write [] full_pipe_fds 1 [65] = Ret (- EAGAIN, t))"
proof -
  have st: "get_fd full_pipe_fds 1 = Some 1" "d_type (desc full_pipe_fds 1) = FD_TYPE_PIPE"
      "d_flags (desc full_pipe_fds 1) = O_WRONLY" "d_pipe (desc full_pipe_fds 1) = 1"
      "pipes full_pipe_fds 1 = Some (create_pipe\<lparr>write_head := 8183\<rparr>)"
    by (simp_all add: full_pipe_fds_def fd_pipe_def demo_fds_def free_replicate MAX_FDS_def MAX_FILES_def Let_def get_fd_def
      set_entry_def upd_desc_def desc_def)
  show ?thesis
    using pipe_write_nonblock_inverted [of full_pipe_fds 1 1 "create_pipe\<lparr>write_head := 8183\<rparr>" "[65]" "[]"] st
    by (simp add: flag_simps pipe_available_def create_pipe_def PIPE_SIZE_def)
qed

lemma pipes_update [simp]: "get_fd (s\<lparr>pipes := ps\<rparr>) fd = get_fd s fd" "desc (s\<lparr>pipes := ps\<rparr>) i = desc s i"
  by (simp_all add: get_fd_def desc_def)

text \<open>What \<open>fd_pipe\<close> sets up: two descriptors for the two ends of one new, empty pipe.\<close>

lemma fd_pipe_ends:
  assumes "fd_pipe s = ((0, Some (a, b)), t)" and ok: "refs_ok s"
  shows "\<exists>i j p. get_fd t (int a) = Some i \<and> get_fd t (int b) = Some j \<and>
    d_type (desc t i) = FD_TYPE_PIPE \<and> d_flags (desc t i) = O_RDONLY \<and> d_pipe (desc t i) = p \<and>
    d_type (desc t j) = FD_TYPE_PIPE \<and> d_flags (desc t j) = O_WRONLY \<and> d_pipe (desc t j) = p \<and>
    pipes t p = Some create_pipe"
proof -
  obtain i j where a: "free_fd (fd_table s) 0 = Some a" and b: "free_fd (drop (a + 1) (fd_table s)) (a + 1) = Some b"
    and i: "free_file (file_descriptions s) 0 = Some i" and j: "free_file (drop (i + 1) (file_descriptions s)) (i + 1) = Some j"
    using assms(1) by (auto simp: fd_pipe_def Let_def split: option.splits)
  have ne: "a < b" "i < j" "b < MAX_FDS" "j < length (file_descriptions s)" "length (fd_table s) = MAX_FDS"
    using free_fd_Some [OF b] free_file_Some [OF j] ok by (auto simp: refs_ok_def)
  have t: "t = snd (fd_pipe s)" using assms(1) by simp
  have "get_fd t (int a) = Some i \<and> get_fd t (int b) = Some j \<and>
    d_type (desc t i) = FD_TYPE_PIPE \<and> d_flags (desc t i) = O_RDONLY \<and> d_pipe (desc t i) = next_pipe s \<and>
    d_type (desc t j) = FD_TYPE_PIPE \<and> d_flags (desc t j) = O_WRONLY \<and> d_pipe (desc t j) = next_pipe s \<and>
    pipes t (next_pipe s) = Some create_pipe"
    using ne a b i j
    by (simp add: t fd_pipe_def Let_def get_fd_def set_entry_def upd_desc_def desc_def nth_list_update)
  then show ?thesis by blast
qed

text \<open>C33. What is written to one end of a new pipe is read at the other: after \<open>fd_pipe\<close> a write of up to
  8183 bytes through the second descriptor is accepted completely and a read of that many bytes through
  the first returns exactly these bytes.\<close>

theorem fd_pipe_roundtrip:
  assumes "fd_pipe s = ((0, Some (a, b)), t)" and "refs_ok s"
    and "buf \<noteq> []" and "length buf < PIPE_SIZE" and "unat sz = length buf"
  shows "\<exists>t1 t2. fd_write [] t (int b) buf = Ret (int (length buf), t1) \<and>
    fd_read [] t1 (int a) sz = Ret (int (length buf), buf, t2)"
proof -
  obtain i j p where ends: "get_fd t (int a) = Some i" "get_fd t (int b) = Some j"
      "d_type (desc t i) = FD_TYPE_PIPE" "d_flags (desc t i) = O_RDONLY" "d_pipe (desc t i) = p"
      "d_type (desc t j) = FD_TYPE_PIPE" "d_flags (desc t j) = O_WRONLY" "d_pipe (desc t j) = p"
      "pipes t p = Some create_pipe"
    using fd_pipe_ends [OF assms(1,2)] by blast
  have room: "pipe_available create_pipe = PIPE_SIZE - 1" by (simp add: pipe_available_eq)
  have readers: "reader_count create_pipe \<noteq> 0" by (simp add: create_pipe_def)
  obtain q where q: "pipe_write [] create_pipe buf False = Some (int (length buf), q)" "pipe_inv q" "pipe_contents q = buf"
    using pipe_write_nonblocking_room [OF pipe_inv_create readers assms(3), of "[]"] assms(4) room
    by (auto simp: PIPE_SIZE_def)
  define t1 where "t1 = t\<lparr>pipes := (pipes t)(p \<mapsto> q)\<rparr>"
  have w: "fd_write [] t (int b) buf = Ret (int (length buf), t1)"
    using ends q by (simp add: fd_write_def flag_simps t1_def errno_simps)
  obtain h where r: "pipe_read q (unat sz) = (int (length buf), buf, q\<lparr>read_head := h\<rparr>)"
    using pipe_read_nonempty [OF q(2), of "unat sz"] q(3) assms(3,5) by auto
  have t1: "get_fd t1 (int a) = Some i" "desc t1 i = desc t i" "pipes t1 p = Some q"
    using ends by (simp_all add: t1_def)
  have "read_once t1 i sz = Ret (int (length buf), buf, t1\<lparr>pipes := (pipes t1)(p \<mapsto> q\<lparr>read_head := h\<rparr>)\<rparr>)"
    using ends t1 r by (simp add: read_once_def)
  then have "fd_read [] t1 (int a) sz = Ret (int (length buf), buf, t1\<lparr>pipes := (pipes t1)(p \<mapsto> q\<lparr>read_head := h\<rparr>)\<rparr>)"
    using ends t1 by (simp add: fd_read_def read_loop.simps flag_simps errno_simps)
  then show ?thesis using w by blast
qed

theorem fd_pipe_roundtrip_witness:
  "\<exists>t t1 t2. fd_pipe demo_fds = ((0, Some (0, 1)), t) \<and> fd_write [] t 1 [72, 105] = Ret (2, t1) \<and>
    fd_read [] t1 0 2 = Ret (2, [72, 105], t2)"
proof -
  obtain t where t: "fd_pipe demo_fds = ((0, Some (0, 1)), t)" using demo_pipe by blast
  show ?thesis using fd_pipe_roundtrip [OF t demo_refs, of "[72, 105]" 2] t by (simp add: PIPE_SIZE_def)
qed

end
