(* ===== verification/Tasks.thy ===== *)
theory Tasks
  imports Fd Paging "HOL-Library.Sublist"
begin

text \<open>
  Tasks and signals, the first part of \<open>kernel/usermode/scheduler.c\<close>: the task structures of
  \<open>scheduler.h\<close>, the choice of the next task, the collection of deleted tasks, the delivery of signals
  and the switch to another task.  Kernel objects (tasks, kernel stacks with the interrupt frame at
  their top, saved FPU states) live in stores indexed by their address, 0 for the null pointer; an
  access through a null or freed pointer is a \<open>Fault\<close>.  \<open>kmalloc\<close> hands out fresh addresses and
  \<open>blocks\<close> lists those not yet freed; the heap itself is the subject of the theory Kheap.  Address spaces
  are those of the theory Paging, descriptors those of the theory Fd: the table and the working
  directory of a task are put in place around a call.  \<open>context_switch\<close> does not return; a call that ends
  in it has no result, only the state in which the chosen task resumes at its interrupt frame.
\<close>

datatype process_state =
  STATE_READY | STATE_ZOMBIE | STATE_RUNNING | STATE_BLOCKED | STATE_DELETED | STATE_STOPPED

datatype block_reason = BLOCK_NONE | BLOCK_DELAY | BLOCK_WAITPID

datatype signal_action = SIGNAL_IGNORE | SIGNAL_TERMINATE | SIGNAL_STOP

definition PROCESS_TICKS :: int where "PROCESS_TICKS = 10"

record iframe =
  r15 :: u64
  r14 :: u64
  r13 :: u64
  r12 :: u64
  r11 :: u64
  r10 :: u64
  r9 :: u64
  r8 :: u64
  rdi :: u64
  rsi :: u64
  rbp :: u64
  rdx :: u64
  rcx :: u64
  rbx :: u64
  rax :: u64
  vector :: u64
  error_code :: u64
  rip :: u64
  cs :: u64
  rflags :: u64
  rsp :: u64
  ss :: u64

definition zero_iframe :: iframe where
  "zero_iframe = \<lparr>r15 = 0, r14 = 0, r13 = 0, r12 = 0, r11 = 0, r10 = 0, r9 = 0, r8 = 0, rdi = 0, rsi = 0, rbp = 0,
     rdx = 0, rcx = 0, rbx = 0, rax = 0, vector = 0, error_code = 0, rip = 0, cs = 0, rflags = 0, rsp = 0, ss = 0\<rparr>"

definition KERNEL_CS :: u64 where [flag_simps]: "KERNEL_CS = 0x08"
definition USER_CS :: u64 where [flag_simps]: "USER_CS = 0x1B"
definition SIG_DFL :: u64 where [flag_simps]: "SIG_DFL = 0"
definition SIG_IGN :: u64 where [flag_simps]: "SIG_IGN = 1"
definition SIGKILL :: nat where [flag_simps]: "SIGKILL = 9"
definition SIGCHLD :: nat where [flag_simps]: "SIGCHLD = 17"
definition SIGCONT :: nat where [flag_simps]: "SIGCONT = 18"
definition SIGSTOP :: nat where [flag_simps]: "SIGSTOP = 19"

text \<open>The table \<open>signal_default_actions\<close>; entry 0 has no initialiser and is 0, that is \<open>SIGNAL_IGNORE\<close>.\<close>

definition signal_default_actions :: "nat \<Rightarrow> signal_action" where
  "signal_default_actions i =
     (if i \<in> {0, 17, 18, 23, 28} then SIGNAL_IGNORE else if i \<in> {19, 20, 21, 22} then SIGNAL_STOP
      else SIGNAL_TERMINATE)"

record task =
  t_kernel_stack :: nat
  t_iframe :: nat
  t_signal_interrupted_iframe :: iframe
  t_pid :: int
  t_pgid :: int
  t_sid :: int
  t_in_signal :: bool
  t_state :: process_state
  t_cr3 :: u64
  t_initial_brk :: u64
  t_brk :: u64
  t_fpu_state :: nat
  t_signal_interrupted_fpu_state :: nat
  t_wd :: string
  t_fd_table :: "fd_entry list"
  t_signal_handlers :: "u64 list"
  t_pending_signals :: u32
  t_signal_mask :: u32
  t_time_slice :: int
  t_block_reason :: block_reason
  t_blocked_ticks :: u64
  t_is_kworker :: bool
  t_wstatus :: u64
  t_blocked_process :: nat
  t_waitpid_event :: int
  t_waitpid_flags :: u32
  t_return_code :: int
  t_stop_signal :: int
  t_next :: nat
  t_next_sibling :: nat
  t_parent :: nat
  t_child :: nat

definition idle_task :: nat where "idle_task = 1"
definition init_task :: nat where "init_task = 2"

record 'w sched =
  tasks :: "nat \<Rightarrow> task option"
  frames :: "nat \<Rightarrow> iframe"
  fpus :: "nat \<Rightarrow> byte list"
  cpu_fpu :: "byte list"
  blocks :: "nat list"
  next_addr :: nat
  current_task :: nat
  rr_task :: nat
  last_pid :: int
  scheduler_initialized :: bool
  ticks_remaining :: int
  base_pml4 :: u64
  vvar_paddr :: u64
  tss_rsp0 :: nat
  s_fds :: "'w fds"
  s_mem :: paging

section \<open>Access\<close>

definition task_at :: "'w sched \<Rightarrow> nat \<Rightarrow> task outcome" where
  "task_at s a = (case tasks s a of None \<Rightarrow> Fault | Some t \<Rightarrow> Ret t)"

definition put_task :: "nat \<Rightarrow> task \<Rightarrow> 'w sched \<Rightarrow> 'w sched" where
  "put_task a t s = s\<lparr>tasks := (tasks s)(a \<mapsto> t)\<rparr>"

definition upd_task :: "nat \<Rightarrow> (task \<Rightarrow> task) \<Rightarrow> 'w sched \<Rightarrow> 'w sched outcome" where
  "upd_task a f s = bind_outcome (task_at s a) (\<lambda>t. Ret (put_task a (f t) s))"

definition upd_frame :: "nat \<Rightarrow> (iframe \<Rightarrow> iframe) \<Rightarrow> 'w sched \<Rightarrow> 'w sched" where
  "upd_frame a f s = s\<lparr>frames := (frames s)(a := f (frames s a))\<rparr>"

text \<open>Loops over tasks get as many units of fuel as addresses were handed out.\<close>

definition ring_fuel :: "'w sched \<Rightarrow> nat" where
  "ring_fuel s = next_addr s + 3"

definition sched_kmalloc :: "'w sched \<Rightarrow> nat \<times> 'w sched" where
  "sched_kmalloc s = (next_addr s, s\<lparr>next_addr := next_addr s + 1, blocks := next_addr s # blocks s\<rparr>)"

definition sched_kfree :: "nat \<Rightarrow> 'w sched \<Rightarrow> 'w sched" where
  "sched_kfree a s = s\<lparr>blocks := remove1 a (blocks s)\<rparr>"

definition save_fpu :: "nat \<Rightarrow> 'w sched \<Rightarrow> 'w sched" where
  "save_fpu a s = s\<lparr>fpus := (fpus s)(a := cpu_fpu s)\<rparr>"

definition restore_fpu :: "nat \<Rightarrow> 'w sched \<Rightarrow> 'w sched" where
  "restore_fpu a s = s\<lparr>cpu_fpu := fpus s a\<rparr>"

definition copy_fpu :: "nat \<Rightarrow> nat \<Rightarrow> 'w sched \<Rightarrow> 'w sched" where
  "copy_fpu dst src s = s\<lparr>fpus := (fpus s)(dst := fpus s src)\<rparr>"

text \<open>A call of a descriptor operation in the name of the task \<open>a\<close>.\<close>

definition with_fds :: "nat \<Rightarrow> ('w fds \<Rightarrow> ('a \<times> 'w fds) outcome) \<Rightarrow> 'w sched \<Rightarrow> ('a \<times> 'w sched) outcome" where
  "with_fds a f s =
     bind_outcome (task_at s a) (\<lambda>t.
     bind_outcome (f ((s_fds s)\<lparr>fd_table := t_fd_table t, fd_vfs := (fd_vfs (s_fds s))\<lparr>wd := t_wd t\<rparr>\<rparr>)) (\<lambda>(x, d).
       Ret (x, put_task a (t\<lparr>t_fd_table := fd_table d, t_wd := wd (fd_vfs d)\<rparr>) (s\<lparr>s_fds := d\<rparr>))))"

definition on_mem :: "(paging \<Rightarrow> ('a \<times> paging) outcome) \<Rightarrow> 'w sched \<Rightarrow> ('a \<times> 'w sched) outcome" where
  "on_mem f s = bind_outcome (f (s_mem s)) (\<lambda>(x, m). Ret (x, s\<lparr>s_mem := m\<rparr>))"

text \<open>A store of the kernel through a user pointer.  The processor faults on a page that is not writable;
  the fault handler of \<open>idt.c\<close> lets the store be repeated when \<open>cow_handler\<close> made the page writable.\<close>

definition put_byte :: "u64 \<Rightarrow> byte \<Rightarrow> u64 \<Rightarrow> paging \<Rightarrow> paging" where
  "put_byte e b a m =
     (let off = unat a mod 4096; i = off div 8; k = 8 * (off mod 8)
      in set_word (table_of e) i ((phys m (table_of e) i AND NOT (push_bit k 0xFF)) OR push_bit k (ucast b)) m)"

definition store_byte :: "u64 \<Rightarrow> byte \<Rightarrow> paging \<Rightarrow> paging outcome" where
  "store_byte a b m =
     (let e = pte m a in
      if \<not> flag FLAGS_PRESENT e then Fault
      else if flag FLAGS_RW e then Ret (put_byte e b a m)
      else bind_outcome (cow_handler a m) (\<lambda>(ok, m1). if ok then Ret (put_byte (pte m1 a) b a m1) else Fault))"

fun store_bytes :: "u64 \<Rightarrow> byte list \<Rightarrow> paging \<Rightarrow> paging outcome" where
  "store_bytes a [] m = Ret m"
| "store_bytes a (b # bs) m = bind_outcome (store_byte a b m) (store_bytes (a + 1) bs)"

definition le_bytes :: "nat \<Rightarrow> u64 \<Rightarrow> byte list" where
  "le_bytes n v = map (\<lambda>i. ucast (drop_bit (8 * i) v)) [0..<n]"

definition store_user :: "u64 \<Rightarrow> byte list \<Rightarrow> 'w sched \<Rightarrow> 'w sched outcome" where
  "store_user a bs s = bind_outcome (store_bytes a bs (s_mem s)) (\<lambda>m. Ret (s\<lparr>s_mem := m\<rparr>))"

section \<open>Collecting deleted tasks\<close>

fun unlink_child :: "nat \<Rightarrow> nat \<Rightarrow> nat \<Rightarrow> nat \<Rightarrow> 'w sched \<Rightarrow> 'w sched outcome" where
  "unlink_child 0 s0 t nxt s = Blocks"
| "unlink_child (Suc n) s0 t nxt s =
     bind_outcome (task_at s s0) (\<lambda>x.
       if t_next_sibling x = 0 then Ret s
       else if t_next_sibling x = t then Ret (put_task s0 (x\<lparr>t_next_sibling := nxt\<rparr>) s)
       else unlink_child n (t_next_sibling x) t nxt s)"

text \<open>What \<open>gc_tasks\<close> does with one deleted task \<open>t\<close> whose predecessor in the ring is \<open>p\<close>.\<close>

definition gc_task :: "nat \<Rightarrow> nat \<Rightarrow> 'w sched \<Rightarrow> (nat \<times> 'w sched) outcome" where
  "gc_task p t s =
     bind_outcome (task_at s t) (\<lambda>x.
     bind_outcome (free_page_tables (t_cr3 x) (s_mem s)) (\<lambda>m.
     bind_outcome (upd_task p (\<lambda>y. y\<lparr>t_next := t_next x\<rparr>)
         (sched_kfree (t_fpu_state x) (sched_kfree (t_kernel_stack x) (s\<lparr>s_mem := m\<rparr>)))) (\<lambda>s1.
     bind_outcome
       (if t_is_kworker x then Ret s1
        else bind_outcome (task_at s1 (t_parent x)) (\<lambda>y.
          if t_child y = t then Ret (put_task (t_parent x) (y\<lparr>t_child := t_next_sibling x\<rparr>) s1)
          else unlink_child (ring_fuel s1) (t_child y) t (t_next_sibling x) s1)) (\<lambda>s2.
     let s3 = s2\<lparr>current_task := (if current_task s2 = t then t_next x else current_task s2),
                 rr_task := (if rr_task s2 = t then t_next x else rr_task s2)\<rparr>
     in Ret (t_next x, sched_kfree t (s3\<lparr>tasks := (tasks s3)(t := None)\<rparr>))))))"

fun gc_loop :: "nat \<Rightarrow> nat \<Rightarrow> nat \<Rightarrow> 'w sched \<Rightarrow> 'w sched outcome" where
  "gc_loop 0 p t s = Blocks"
| "gc_loop (Suc n) p t s =
     (if t = init_task then Ret s
      else bind_outcome (task_at s t) (\<lambda>x.
        if t_state x = STATE_DELETED
        then bind_outcome (gc_task p t s) (\<lambda>(nxt, s1). gc_loop n p nxt s1)
        else gc_loop n t (t_next x) s))"

definition gc_tasks :: "'w sched \<Rightarrow> 'w sched outcome" where
  "gc_tasks s = bind_outcome (task_at s init_task) (\<lambda>x. gc_loop (ring_fuel s) init_task (t_next x) s)"

section \<open>The next task\<close>

fun find_ready :: "nat \<Rightarrow> 'w sched \<Rightarrow> nat \<Rightarrow> nat \<Rightarrow> (nat \<times> nat) outcome" where
  "find_ready 0 s start rr = Blocks"
| "find_ready (Suc n) s start rr =
     bind_outcome (task_at s rr) (\<lambda>x.
     bind_outcome (task_at s (t_next x)) (\<lambda>y.
       if t_state y = STATE_READY then Ret (t_next x, t_next x)
       else if t_next x \<noteq> start then find_ready n s start (t_next x)
       else Ret (0, t_next x)))"

definition get_next_task :: "'w sched \<Rightarrow> (nat \<times> 'w sched) outcome" where
  "get_next_task s =
     bind_outcome (find_ready (ring_fuel s) s (rr_task s) (rr_task s)) (\<lambda>(r, rr). Ret (r, s\<lparr>rr_task := rr\<rparr>))"

section \<open>Signals\<close>

definition deliverable :: "task \<Rightarrow> u32" where
  "deliverable t = t_pending_signals t AND NOT (t_signal_mask t)"

text \<open>Bit \<open>i\<close> stands for signal \<open>i + 1\<close>.\<close>

definition takes_signal :: "task \<Rightarrow> nat \<Rightarrow> bool" where
  "takes_signal t i \<longleftrightarrow> bit (deliverable t) i \<and>
     \<not> (t_signal_handlers t ! (i + 1) = SIG_IGN) \<and>
     \<not> (t_signal_handlers t ! (i + 1) = SIG_DFL \<and> signal_default_actions (i + 1) = SIGNAL_IGNORE)"

definition has_pending_signals :: "task \<Rightarrow> bool" where
  "has_pending_signals t \<longleftrightarrow>
     \<not> t_in_signal t \<and> deliverable t \<noteq> 0 \<and> (\<exists>i\<in>set [0..<31]. takes_signal t i)"

definition trampoline :: u64 where
  "trampoline = 0x10000000000 + 4096 * 128 + 16"

text \<open>The frame with which a handler is entered.\<close>

definition handler_frame :: "u64 \<Rightarrow> nat \<Rightarrow> iframe \<Rightarrow> iframe" where
  "handler_frame h sig f = f\<lparr>rip := h, rdi := word_of_nat sig, rsp := (rsp f AND NOT 15) - 8\<rparr>"

definition enter_handler :: "nat \<Rightarrow> u64 \<Rightarrow> 'w sched \<Rightarrow> 'w sched outcome" where
  "enter_handler i h s =
     bind_outcome (task_at s (current_task s)) (\<lambda>t.
       let f = frames s (t_iframe t);
           s1 = put_task (current_task s) (t\<lparr>t_signal_interrupted_iframe := f\<rparr>)
                  (copy_fpu (t_signal_interrupted_fpu_state t) (t_fpu_state t) s);
           f1 = handler_frame h (i + 1) f
       in bind_outcome (store_user (rsp f1) (le_bytes 8 trampoline) (upd_frame (t_iframe t) (\<lambda>_. f1) s1)) (\<lambda>s2.
            upd_task (current_task s) (\<lambda>t. t\<lparr>t_in_signal := True\<rparr>) s2))"

text \<open>The loop of \<open>deliver_signals\<close>.  \<open>ex\<close> is the call of \<open>exit\<close>, which does not come back: the flag in
  the result says whether the loop ended.\<close>

fun deliver_loop ::
  "('w sched \<Rightarrow> int \<Rightarrow> 'w sched outcome) \<Rightarrow> u32 \<Rightarrow> nat list \<Rightarrow> 'w sched \<Rightarrow> (bool \<times> 'w sched) outcome" where
  "deliver_loop ex d [] s = Ret (True, s)"
| "deliver_loop ex d (i # is) s =
     (if \<not> bit d i then deliver_loop ex d is s
      else bind_outcome (upd_task (current_task s) (\<lambda>t. t\<lparr>t_pending_signals := t_pending_signals t AND NOT (push_bit i 1)\<rparr>) s) (\<lambda>s1.
           bind_outcome (task_at s1 (current_task s1)) (\<lambda>t.
             let h = t_signal_handlers t ! (i + 1) in
             if h = SIG_DFL then
               if signal_default_actions (i + 1) = SIGNAL_TERMINATE
               then bind_outcome (ex s1 (- int i - 1)) (\<lambda>s2. Ret (False, s2))
               else deliver_loop ex d is s1
             else if h \<noteq> SIG_IGN then
               if cs (frames s1 (t_iframe t)) \<noteq> USER_CS
               then bind_outcome (upd_task (current_task s1) (\<lambda>t. t\<lparr>t_pending_signals := t_pending_signals t OR push_bit i 1\<rparr>) s1)
                      (deliver_loop ex d is)
               else bind_outcome (enter_handler i h s1) (deliver_loop ex d is)
             else deliver_loop ex d is s1)))"

definition deliver_with :: "('w sched \<Rightarrow> int \<Rightarrow> 'w sched outcome) \<Rightarrow> 'w sched \<Rightarrow> (bool \<times> 'w sched) outcome" where
  "deliver_with ex s =
     bind_outcome (task_at s (current_task s)) (\<lambda>t.
       if deliverable t = 0 \<or> t_in_signal t then Ret (True, s)
       else deliver_loop ex (deliverable t) [0..<31] s)"

section \<open>Leaving and switching\<close>

fun reparent :: "nat \<Rightarrow> nat \<Rightarrow> nat \<Rightarrow> 'w sched \<Rightarrow> 'w sched outcome" where
  "reparent 0 p c s = Blocks"
| "reparent (Suc n) p c s =
     (if c = 0 then Ret s
      else bind_outcome (task_at s c) (\<lambda>x.
           bind_outcome (task_at s p) (\<lambda>y.
           bind_outcome (upd_task p (\<lambda>y. y\<lparr>t_child := c\<rparr>) (put_task c (x\<lparr>t_parent := p, t_next_sibling := t_child y\<rparr>) s)) (\<lambda>s1.
             reparent n p (t_next_sibling x) s1))))"

text \<open>\<open>exit\<close> up to the switch.\<close>

definition exit_task :: "int \<Rightarrow> 'w sched \<Rightarrow> 'w sched outcome" where
  "exit_task ret s =
     (if current_task s = init_task then Panic
      else bind_outcome (with_fds (current_task s) (\<lambda>d. bind_outcome (release_process_fds d) (\<lambda>d1. Ret ((), d1))) s) (\<lambda>(u, s1).
           bind_outcome (task_at s1 (current_task s1)) (\<lambda>t.
           bind_outcome (upd_task (t_parent t) (\<lambda>y. y\<lparr>t_pending_signals := t_pending_signals y OR push_bit (SIGCHLD - 1) 1\<rparr>)
               (put_task (current_task s1) (t\<lparr>t_state := STATE_ZOMBIE, t_return_code := ret\<rparr>) s1)) (\<lambda>s2.
             reparent (ring_fuel s2) init_task (t_child t) s2))))"

text \<open>The end of \<open>switch_task\<close> and of \<open>sigreturn\<close>: the FPU state, the interrupt flag, the jump.\<close>

definition resume :: "'w sched \<Rightarrow> 'w sched outcome" where
  "resume s =
     bind_outcome (task_at s (current_task s)) (\<lambda>t.
       Ret (upd_frame (t_iframe t) (\<lambda>f. f\<lparr>rflags := rflags f OR 0x200\<rparr>) (restore_fpu (t_fpu_state t) s)))"

definition choose_task :: "'w sched \<Rightarrow> 'w sched outcome" where
  "choose_task s =
     bind_outcome (get_next_task s) (\<lambda>(r, s1).
       let nt = (if r = 0 then idle_task else r) in
       bind_outcome (task_at s1 nt) (\<lambda>t.
         Ret ((put_task nt (t\<lparr>t_state := STATE_RUNNING\<rparr>) s1)\<lparr>current_task := nt, ticks_remaining := t_time_slice t,
                s_mem := change_pml4 (t_cr3 t) (s_mem s1), tss_rsp0 := t_kernel_stack t\<rparr>)))"

text \<open>The chosen task may be killed by a signal on the way, and the switch starts again.  The fuel bounds
  these restarts; each of them makes a ready task a zombie.\<close>

fun switch_fuel :: "nat \<Rightarrow> 'w sched \<Rightarrow> 'w sched outcome" where
  "switch_fuel 0 s = Blocks"
| "switch_fuel (Suc n) s =
     bind_outcome (choose_task s) (\<lambda>s1.
     bind_outcome (deliver_with (\<lambda>s ret. bind_outcome (exit_task ret s) (switch_fuel n)) s1) (\<lambda>(back, s2).
       if back then resume s2 else Ret s2))"

definition switch_task :: "'w sched \<Rightarrow> 'w sched outcome" where
  "switch_task s = switch_fuel (ring_fuel s) s"

definition exit :: "int \<Rightarrow> 'w sched \<Rightarrow> 'w sched outcome" where
  "exit ret s = bind_outcome (exit_task ret s) switch_task"

definition deliver_signals :: "'w sched \<Rightarrow> (bool \<times> 'w sched) outcome" where
  "deliver_signals s = deliver_with (\<lambda>s ret. exit ret s) s"

text \<open>The result of \<open>run_next\<close> and \<open>sigreturn\<close>: whether they return.\<close>

definition run_next :: "nat \<Rightarrow> 'w sched \<Rightarrow> (bool \<times> 'w sched) outcome" where
  "run_next f s =
     (if \<not> scheduler_initialized s then Ret (True, s)
      else bind_outcome (task_at s (current_task s)) (\<lambda>t.
        let s1 = save_fpu (t_fpu_state t) (put_task (current_task s) (t\<lparr>t_iframe := f,
              t_state := (if t_state t = STATE_RUNNING then STATE_READY else t_state t)\<rparr>) s)
        in bind_outcome (gc_tasks s1) (\<lambda>s2. bind_outcome (switch_task s2) (\<lambda>s3. Ret (False, s3)))))"

definition sigreturn :: "'w sched \<Rightarrow> (bool \<times> 'w sched) outcome" where
  "sigreturn s =
     bind_outcome (task_at s (current_task s)) (\<lambda>t.
       if \<not> t_in_signal t then Ret (True, s)
       else let s1 = copy_fpu (t_fpu_state t) (t_signal_interrupted_fpu_state t)
                  (upd_frame (t_iframe t) (\<lambda>_. t_signal_interrupted_iframe t)
                    (put_task (current_task s) (t\<lparr>t_in_signal := False\<rparr>) s))
         in bind_outcome (deliver_signals s1) (\<lambda>(back, s2).
              if back then bind_outcome (resume s2) (\<lambda>s3. Ret (False, s3)) else Ret (False, s2)))"

datatype mask_how = SIG_BLOCK | SIG_UNBLOCK | SIG_SETMASK | SIG_how_other

text \<open>The masks are read from and written to memory that the caller provides; the result holds the value
  for \<open>oldset\<close>.\<close>

definition sigprocmask :: "nat \<Rightarrow> mask_how \<Rightarrow> u32 option \<Rightarrow> 'w sched \<Rightarrow> ((int \<times> u32) \<times> 'w sched) outcome" where
  "sigprocmask cur how newset s =
     bind_outcome (task_at s cur) (\<lambda>t.
       let old = t_signal_mask t;
           finish = (\<lambda>new_mask. Ret ((0, old), put_task cur
             (t\<lparr>t_signal_mask := new_mask AND NOT (push_bit (SIGSTOP - 1) 1 OR push_bit (SIGKILL - 1) 1)\<rparr>) s))
       in case newset of None \<Rightarrow> Ret ((0, old), s)
          | Some x \<Rightarrow> (case how of
                SIG_BLOCK \<Rightarrow> finish (old OR x)
              | SIG_UNBLOCK \<Rightarrow> finish (old AND NOT x)
              | SIG_SETMASK \<Rightarrow> finish x
              | SIG_how_other \<Rightarrow> Ret ((- EINVAL, old), s)))"

section \<open>The ring\<close>

text \<open>\<open>links ts a xs\<close>: from \<open>a\<close> the links \<open>next\<close> lead through \<open>xs\<close>.  The scheduler's ring, seen from one of its
  members \<open>a\<close>, is a path back to \<open>a\<close> without repetition.\<close>

fun links :: "(nat \<Rightarrow> task option) \<Rightarrow> nat \<Rightarrow> nat list \<Rightarrow> bool" where
  "links ts a [] \<longleftrightarrow> True"
| "links ts a (x # xs) \<longleftrightarrow> (case ts a of None \<Rightarrow> False | Some t \<Rightarrow> t_next t = x) \<and> links ts x xs"

definition ring :: "(nat \<Rightarrow> task option) \<Rightarrow> nat \<Rightarrow> nat list \<Rightarrow> bool" where
  "ring ts a ys \<longleftrightarrow> links ts a (ys @ [a]) \<and> distinct (a # ys)"

lemma links_append: "links ts a (xs @ ys) \<longleftrightarrow> links ts a xs \<and> links ts (last (a # xs)) ys"
  by (induction xs arbitrary: a) auto

lemma links_cong:
  "links ts a xs \<Longrightarrow> (\<And>b. b \<in> set (butlast (a # xs)) \<Longrightarrow> map_option t_next (ts' b) = map_option t_next (ts b)) \<Longrightarrow> links ts' a xs"
proof (induction xs arbitrary: a)
  case (Cons x xs)
  then have "map_option t_next (ts' a) = map_option t_next (ts a)" by simp
  moreover have "links ts' x xs" using Cons.prems by (intro Cons.IH) auto
  ultimately show ?case using Cons.prems(1) by (auto split: option.splits)
qed simp

lemma links_exists: "links ts a xs \<Longrightarrow> b \<in> set (butlast (a # xs)) \<Longrightarrow> \<exists>t. ts b = Some t"
  by (induction xs arbitrary: a) (auto split: option.splits if_splits)

lemma ring_exists: "ring ts a ys \<Longrightarrow> b \<in> set (a # ys) \<Longrightarrow> \<exists>t. ts b = Some t"
  using links_exists [of ts a "ys @ [a]" b] by (simp add: ring_def butlast_append)

lemma ring_cong:
  "ring ts a ys \<Longrightarrow> (\<And>b. b \<in> set (a # ys) \<Longrightarrow> map_option t_next (ts' b) = map_option t_next (ts b)) \<Longrightarrow> ring ts' a ys"
  unfolding ring_def by (auto intro!: links_cong [of ts a "ys @ [a]" ts'] simp: butlast_append)

lemma ring_rotate:
  assumes "ring ts a (us @ b # vs)"
  shows "ring ts b (vs @ a # us)"
  using assms by (auto simp: ring_def links_append split: option.splits)

lemma ring_from:
  assumes "ring ts a ys" "b \<in> set (a # ys)"
  obtains zs where "ring ts b zs" "set (b # zs) = set (a # ys)"
proof (cases "b = a")
  case False
  with assms(2) obtain us vs where ys: "ys = us @ b # vs" by (auto dest: split_list)
  show thesis using ring_rotate [OF assms(1) [unfolded ys]] that [of "vs @ a # us"] by (auto simp: ys)
qed (use assms that in blast)

lemma ring_insert:
  assumes "ring ts a ys" "n \<notin> set (a # ys)" "ts' a = Some t" "t_next t = n" "ts' n = Some u" "map_option t_next (ts a) = Some (t_next u)"
    "\<And>b. b \<in> set ys \<Longrightarrow> map_option t_next (ts' b) = map_option t_next (ts b)"
  shows "ring ts' a (n # ys)"
proof -
  have "links ts' n (ys @ [a])"
  proof (cases ys)
    case Nil
    then show ?thesis using assms by (auto simp: ring_def)
  next
    case (Cons y zs)
    have "links ts' y (zs @ [a])"
      using assms(1,7) by (intro links_cong [of ts y "zs @ [a]" ts']) (auto simp: ring_def Cons butlast_append)
    then show ?thesis using assms by (auto simp: ring_def Cons)
  qed
  then show ?thesis using assms by (simp add: ring_def)
qed

lemma ring_remove:
  assumes "ring ts p (t # ys)" "ts t = Some x" "ts' p = Some y" "t_next y = t_next x"
    "\<And>b. b \<in> set ys \<Longrightarrow> map_option t_next (ts' b) = map_option t_next (ts b)"
  shows "ring ts' p ys"
proof (cases ys)
  case Nil
  then show ?thesis using assms by (auto simp: ring_def)
next
  case (Cons z zs)
  have "links ts' z (zs @ [p])"
    using assms(1,5) by (intro links_cong [of ts z "zs @ [p]" ts']) (auto simp: ring_def Cons butlast_append)
  then show ?thesis using assms by (auto simp: ring_def Cons)
qed

section \<open>Round robin\<close>

definition ready :: "(nat \<Rightarrow> task option) \<Rightarrow> nat \<Rightarrow> bool" where
  "ready ts a \<longleftrightarrow> (case ts a of None \<Rightarrow> False | Some t \<Rightarrow> t_state t = STATE_READY)"

lemma ready_Some: "ts a = Some t \<Longrightarrow> ready ts a \<longleftrightarrow> t_state t = STATE_READY"
  by (simp add: ready_def)

lemma find_ready_links:
  assumes "links (tasks s) a (xs @ [b])" "b \<notin> set xs" "\<exists>t. tasks s b = Some t" "length xs < n"
  shows "find_ready n s b a = Ret (case find (ready (tasks s)) (xs @ [b]) of Some r \<Rightarrow> (r, r) | None \<Rightarrow> (0, b))"
  using assms
proof (induction xs arbitrary: a n)
  case Nil
  then obtain k where "n = Suc k" by (cases n) auto
  then show ?case using Nil by (auto simp: task_at_def ready_Some split: option.splits)
next
  case (Cons x xs)
  obtain k where n: "n = Suc k" using Cons.prems(4) by (cases n) auto
  obtain t where x: "tasks s x = Some t" using links_exists [of "tasks s" a "x # xs @ [b]" x] Cons.prems(1) by (auto simp: butlast_append)
  obtain u where a: "tasks s a = Some u" "t_next u = x" using Cons.prems(1) by (auto split: option.splits)
  have "find_ready k s b x = Ret (case find (ready (tasks s)) (xs @ [b]) of Some r \<Rightarrow> (r, r) | None \<Rightarrow> (0, b))"
    using Cons.prems by (intro Cons.IH) (auto simp: n)
  then show ?case using Cons.prems(2) x a by (simp add: n task_at_def ready_Some [of "tasks s", OF x])
qed

text \<open>Addresses come from the allocator, so that a ring has fewer members than the fuel of the loops.\<close>

lemma ring_short: "distinct (a # ys) \<Longrightarrow> \<forall>b\<in>set (a # ys). b < next_addr s \<Longrightarrow> length ys < ring_fuel s"
proof -
  assume d: "distinct (a # ys)" and b: "\<forall>b\<in>set (a # ys). b < next_addr s"
  have "card (set (a # ys)) \<le> card {..<next_addr s}" using b by (intro card_mono) auto
  then show ?thesis using distinct_card [OF d] by (simp add: ring_fuel_def)
qed

lemma get_next_task_ring:
  assumes "ring (tasks s) (rr_task s) ys" "\<forall>b\<in>set (rr_task s # ys). b < next_addr s"
  shows "get_next_task s = Ret (case find (ready (tasks s)) (ys @ [rr_task s]) of
    Some r \<Rightarrow> (r, s\<lparr>rr_task := r\<rparr>) | None \<Rightarrow> (0, s))"
proof -
  have d: "distinct (rr_task s # ys)" using assms(1) by (simp add: ring_def)
  have "find_ready (ring_fuel s) s (rr_task s) (rr_task s) =
      Ret (case find (ready (tasks s)) (ys @ [rr_task s]) of Some r \<Rightarrow> (r, r) | None \<Rightarrow> (0, rr_task s))"
    using assms d ring_short [OF d assms(2)] ring_exists [OF assms(1), of "rr_task s"] by (intro find_ready_links) (auto simp: ring_def)
  then show ?thesis by (auto simp: get_next_task_def split: option.splits)
qed


text \<open>A scheduler at work: \<open>init\<close> waits for a child, the task 3 runs, the task 4 is ready; their kernel
  stacks and FPU states have the addresses 5 to 16.\<close>

definition demo_task :: "int \<Rightarrow> nat \<Rightarrow> task" where
  "demo_task pid nxt = \<lparr>t_kernel_stack = 5 + 3 * nat pid, t_iframe = 5 + 3 * nat pid, t_signal_interrupted_iframe = zero_iframe,
     t_pid = pid, t_pgid = 1, t_sid = 1, t_in_signal = False, t_state = STATE_READY, t_cr3 = 0x1000,
     t_initial_brk = 0x500000, t_brk = 0x500000, t_fpu_state = 6 + 3 * nat pid, t_signal_interrupted_fpu_state = 7 + 3 * nat pid,
     t_wd = ''/'', t_fd_table = replicate MAX_FDS no_entry, t_signal_handlers = replicate 32 SIG_DFL,
     t_pending_signals = 0, t_signal_mask = 0, t_time_slice = PROCESS_TICKS, t_block_reason = BLOCK_NONE, t_blocked_ticks = 0,
     t_is_kworker = False, t_wstatus = 0, t_blocked_process = 0, t_waitpid_event = 0, t_waitpid_flags = 0,
     t_return_code = 0, t_stop_signal = 0, t_next = nxt, t_next_sibling = 0, t_parent = 2, t_child = 0\<rparr>"

definition demo_sched :: "ram fs_world sched" where
  "demo_sched = \<lparr>tasks = [1 \<mapsto> (demo_task 0 1)\<lparr>t_is_kworker := True\<rparr>,
       2 \<mapsto> (demo_task 1 3)\<lparr>t_state := STATE_BLOCKED, t_block_reason := BLOCK_WAITPID, t_child := 4\<rparr>,
       3 \<mapsto> (demo_task 2 4)\<lparr>t_state := STATE_RUNNING\<rparr>, 4 \<mapsto> (demo_task 3 2)\<lparr>t_next_sibling := 3\<rparr>],
     frames = (\<lambda>_. zero_iframe\<lparr>cs := USER_CS\<rparr>), fpus = (\<lambda>_. []), cpu_fpu = [], blocks = [3, 4] @ [5..<20], next_addr = 20,
     current_task = 3, rr_task = 3, last_pid = 3, scheduler_initialized = True, ticks_remaining = 5, base_pml4 = 0x1000,
     vvar_paddr = 0x2000, tss_rsp0 = 11, s_fds = demo_fds, s_mem = demo_paging\<rparr>"

lemma demo_ring: "ring (tasks demo_sched) (rr_task demo_sched) [4, 2]"
  by (simp add: ring_def demo_sched_def demo_task_def)

lemma demo_ready: "ready (tasks demo_sched) 4" "\<not> ready (tasks demo_sched) 2" "\<not> ready (tasks demo_sched) 3"
  by (simp_all add: ready_def demo_sched_def demo_task_def)

lemma demo_fields [simp]: "rr_task demo_sched = 3" "current_task demo_sched = 3" "next_addr demo_sched = 20" "frames demo_sched = (\<lambda>_. zero_iframe\<lparr>cs := USER_CS\<rparr>)"
  by (simp_all add: demo_sched_def)

text \<open>C36. The loop of \<open>get_next_task\<close> ends: on a ring of tasks it returns the first ready task behind the
  one chosen last, in the order of the ring, remembers it, and returns the null pointer exactly when no
  task of the ring is ready.\<close>

theorem get_next_task_round_robin:
  assumes "ring (tasks s) (rr_task s) ys" "\<forall>b\<in>set (rr_task s # ys). b < next_addr s"
  shows "(\<nexists>b. b \<in> set (rr_task s # ys) \<and> ready (tasks s) b) \<and> get_next_task s = Ret (0, s) \<or>
    (\<exists>us r vs. ys @ [rr_task s] = us @ r # vs \<and> (\<forall>b\<in>set us. \<not> ready (tasks s) b) \<and> ready (tasks s) r \<and>
      get_next_task s = Ret (r, s\<lparr>rr_task := r\<rparr>))"
proof (cases "find (ready (tasks s)) (ys @ [rr_task s])")
  case None
  then have "get_next_task s = Ret (0, s)" using get_next_task_ring [OF assms] by simp
  with None show ?thesis by (auto simp: find_None_iff)
next
  case (Some r)
  then obtain i where i: "i < length (ys @ [rr_task s])" "ready (tasks s) r" "r = (ys @ [rr_task s]) ! i"
      "\<And>j. j < i \<Longrightarrow> \<not> ready (tasks s) ((ys @ [rr_task s]) ! j)"
    by (auto simp: find_Some_iff)
  have "ys @ [rr_task s] = take i (ys @ [rr_task s]) @ r # drop (Suc i) (ys @ [rr_task s])"
    using i by (simp only: id_take_nth_drop [symmetric])
  moreover have "\<forall>b\<in>set (take i (ys @ [rr_task s])). \<not> ready (tasks s) b"
    using i by (auto simp: in_set_conv_nth simp del: take_append)
  moreover have "get_next_task s = Ret (r, s\<lparr>rr_task := r\<rparr>)" using get_next_task_ring [OF assms] Some by simp
  ultimately show ?thesis using i(2) by blast
qed

theorem get_next_task_round_robin_witness: "get_next_task demo_sched = Ret (4, demo_sched\<lparr>rr_task := 4\<rparr>)"
proof -
  have "\<forall>b\<in>set [rr_task demo_sched, 4, 2]. b < next_addr demo_sched" by simp
  from get_next_task_round_robin [OF demo_ring this] demo_ready(1) obtain us r vs
    where "[4, 2, 3] = us @ r # vs" "\<forall>b\<in>set us. \<not> ready (tasks demo_sched) b" "get_next_task demo_sched = Ret (r, demo_sched\<lparr>rr_task := r\<rparr>)"
    by auto
  then show ?thesis using demo_ready(1) by (cases us) auto
qed

lemma get_next_task_before:
  assumes "ring (tasks s) (rr_task s) (us @ w # vs)" "\<forall>b\<in>set (rr_task s # us @ w # vs). b < next_addr s"
    "ready (tasks s) w"
  shows "get_next_task s = Ret (w, s\<lparr>rr_task := w\<rparr>) \<or>
    (\<exists>us1 r us2. us = us1 @ r # us2 \<and> get_next_task s = Ret (r, s\<lparr>rr_task := r\<rparr>) \<and>
      ring (tasks s) r (us2 @ w # vs @ rr_task s # us1))"
proof (cases "find (ready (tasks s)) us")
  case None
  then have "find (ready (tasks s)) ((us @ w # vs) @ [rr_task s]) = Some w"
    using assms(3) by (induction us) (auto split: if_splits)
  then show ?thesis using get_next_task_ring [OF assms(1,2)] by simp
next
  case (Some r)
  then have f: "find (ready (tasks s)) ((us @ w # vs) @ [rr_task s]) = Some r" by (induction us) (auto split: if_splits)
  from Some have "r \<in> set us" by (auto simp: find_Some_iff)
  then obtain us1 us2 where us: "us = us1 @ r # us2" by (auto dest: split_list)
  have "ring (tasks s) r (us2 @ w # vs @ rr_task s # us1)"
    using ring_rotate [of "tasks s" "rr_task s" us1 r "us2 @ w # vs"] assms(1) by (simp add: us)
  then show ?thesis using get_next_task_ring [OF assms(1,2)] f us by auto
qed

text \<open>Rounds of scheduling: \<open>choose_task\<close> makes a task the current one, the kernel does something, \<open>choose_task\<close>
  is called again, and so on.  What happens between two calls is the argument; \<open>keeps_ring w\<close> says that it
  leaves the links and \<open>rr_task\<close> alone and that \<open>w\<close> stays ready.  Ticks, sleeping, stopping and waking other
  tasks, reads and writes do so.  Creating a task does not: \<open>fork\<close> and \<open>spawn\<close> put the new task right behind
  the current one, and a chain of tasks that each fork another can keep the rest of the ring waiting.\<close>

fun rounds :: "('w sched \<Rightarrow> 'w sched) list \<Rightarrow> 'w sched \<Rightarrow> nat list outcome" where
  "rounds [] s = Ret []"
| "rounds (f # fs) s = bind_outcome (choose_task s) (\<lambda>s1.
     bind_outcome (rounds fs (f s1)) (\<lambda>rs. Ret (current_task s1 # rs)))"

definition keeps_ring :: "nat \<Rightarrow> 'w sched \<Rightarrow> 'w sched \<Rightarrow> bool" where
  "keeps_ring w s s1 \<longleftrightarrow> rr_task s1 = rr_task s \<and> next_addr s \<le> next_addr s1 \<and>
     (\<forall>a. map_option t_next (tasks s1 a) = map_option t_next (tasks s a)) \<and>
     (ready (tasks s) w \<longrightarrow> ready (tasks s1) w)"

text \<open>The task that \<open>get_next_task\<close> finds becomes the current one and is no longer ready; every other task
  and all links stay.\<close>

lemma choose_task_found:
  assumes "get_next_task s = Ret (r, s\<lparr>rr_task := r\<rparr>)" "tasks s r = Some t" "r \<noteq> 0"
  shows "\<exists>s1. choose_task s = Ret s1 \<and> current_task s1 = r \<and> rr_task s1 = r \<and> next_addr s1 = next_addr s \<and>
    (\<forall>a. map_option t_next (tasks s1 a) = map_option t_next (tasks s a)) \<and> (\<forall>a. a \<noteq> r \<longrightarrow> tasks s1 a = tasks s a)"
  using assms by (simp add: choose_task_def task_at_def put_task_def Let_def)

lemma rounds_reach:
  assumes "ring (tasks s) (rr_task s) (us @ w # vs)" "\<forall>b\<in>set (rr_task s # us @ w # vs). b < next_addr s \<and> b \<noteq> 0"
    "ready (tasks s) w" "\<forall>f\<in>set fs. \<forall>s. keeps_ring w s (f s)" "length us < length fs"
  shows "\<exists>rs. subseq rs us \<and> rounds (take (Suc (length rs)) fs) s = Ret (rs @ [w])"
  using assms
proof (induction fs arbitrary: s us vs)
  case (Cons f fs)
  have bound: "\<forall>b\<in>set (rr_task s # us @ w # vs). b < next_addr s" using Cons.prems(2) by blast
  have there: "\<exists>t. tasks s b = Some t" if "b \<in> set (us @ [w])" for b
    using ring_exists [OF Cons.prems(1)] that by auto
  from get_next_task_before [OF Cons.prems(1) bound Cons.prems(3)] show ?case
  proof (elim disjE exE conjE)
    assume g: "get_next_task s = Ret (w, s\<lparr>rr_task := w\<rparr>)"
    obtain t where "tasks s w = Some t" using there by auto
    moreover have "w \<noteq> 0" using Cons.prems(2) by simp
    ultimately obtain s1 where "choose_task s = Ret s1" "current_task s1 = w" using choose_task_found [OF g] by blast
    then have "rounds (take (Suc (length [])) (f # fs)) s = Ret ([] @ [w])" by simp
    then show ?case by (intro exI [of _ "[]"]) simp
  next
    fix us1 r us2
    assume us: "us = us1 @ r # us2" and g: "get_next_task s = Ret (r, s\<lparr>rr_task := r\<rparr>)"
      and ring: "ring (tasks s) r (us2 @ w # vs @ rr_task s # us1)"
    obtain t where "tasks s r = Some t" using there us by auto
    moreover have "r \<noteq> 0" using Cons.prems(2) by (simp add: us)
    ultimately obtain s1 where s1: "choose_task s = Ret s1" "current_task s1 = r" "rr_task s1 = r" "next_addr s1 = next_addr s"
        "\<forall>a. map_option t_next (tasks s1 a) = map_option t_next (tasks s a)" "\<forall>a. a \<noteq> r \<longrightarrow> tasks s1 a = tasks s a"
      using choose_task_found [OF g] by blast
    have "w \<noteq> r" using Cons.prems(1) by (auto simp: ring_def us)
    then have ready: "ready (tasks s1) w" using Cons.prems(3) s1(6) by (simp add: ready_def)
    have f: "keeps_ring w s1 (f s1)" using Cons.prems(4) by simp
    have "ring (tasks (f s1)) (rr_task (f s1)) (us2 @ w # (vs @ rr_task s # us1))"
      using ring_cong [OF ring, of "tasks (f s1)"] f s1 by (simp add: keeps_ring_def)
    moreover have "\<forall>b\<in>set (rr_task (f s1) # us2 @ w # (vs @ rr_task s # us1)). b < next_addr (f s1) \<and> b \<noteq> 0"
      (is "\<forall>b\<in>set ?bs. _")
    proof
      fix b assume "b \<in> set ?bs"
      then have "b \<in> set (rr_task s # us @ w # vs)" using f s1(3) by (auto simp: keeps_ring_def us)
      then have "b < next_addr s \<and> b \<noteq> 0" using Cons.prems(2) by blast
      then show "b < next_addr (f s1) \<and> b \<noteq> 0" using f s1(4) by (simp add: keeps_ring_def)
    qed
    moreover have "ready (tasks (f s1)) w" using f ready by (simp add: keeps_ring_def)
    moreover have "\<forall>f\<in>set fs. \<forall>s. keeps_ring w s (f s)" "length us2 < length fs" using Cons.prems(4,5) us by auto
    ultimately obtain rs where rs: "subseq rs us2" "rounds (take (Suc (length rs)) fs) (f s1) = Ret (rs @ [w])"
      using Cons.IH by blast
    have "rounds (take (Suc (length (r # rs))) (f # fs)) s = Ret ((r # rs) @ [w])" using s1(1,2) rs(2) by simp
    moreover have "subseq (r # rs) us" using rs(1) by (simp add: us subseq_drop_many)
    ultimately show ?case by blast
  qed
qed simp

text \<open>C17. Bounded waiting over many calls of the scheduler, while the ring does not change: when a ready task \<open>w\<close>
  comes behind the tasks \<open>us\<close> in the ring, seen from the task chosen last, then \<open>w\<close> is made the current task
  after at most as many other choices as there are tasks in \<open>us\<close>.  These choices are tasks of \<open>us\<close> in their
  order, none of them twice.  What the kernel does between two calls may be anything that keeps the links of
  the ring and keeps \<open>w\<close> ready.\<close>

theorem choose_task_bounded_waiting:
  assumes "ring (tasks s) (rr_task s) (us @ w # vs)" "\<forall>b\<in>set (rr_task s # us @ w # vs). b < next_addr s \<and> b \<noteq> 0"
    "ready (tasks s) w" "\<forall>f\<in>set fs. \<forall>s. keeps_ring w s (f s)" "length us < length fs"
  shows "\<exists>rs. subseq rs us \<and> distinct rs \<and> rounds (take (Suc (length rs)) fs) s = Ret (rs @ [w])"
proof -
  obtain rs where rs: "subseq rs us" "rounds (take (Suc (length rs)) fs) s = Ret (rs @ [w])"
    using rounds_reach [OF assms] by blast
  moreover have "distinct us" using assms(1) by (simp add: ring_def)
  ultimately show ?thesis by (auto simp: subseq_conv_nths)
qed

theorem choose_task_bounded_waiting_witness:
  "rounds [\<lambda>s. s\<lparr>ticks_remaining := 0\<rparr>, \<lambda>s. s\<lparr>ticks_remaining := 0\<rparr>] (put_task 2 (demo_task 1 3) demo_sched) = Ret [4, 2]"
proof -
  let ?s = "put_task 2 (demo_task 1 3) demo_sched" and ?f = "\<lambda>s :: ram fs_world sched. s\<lparr>ticks_remaining := 0\<rparr>"
  have ring: "ring (tasks ?s) (rr_task ?s) ([4] @ 2 # [])" and "ready (tasks ?s) 2" and 4: "ready (tasks ?s) 4"
    by (simp_all add: ring_def ready_def put_task_def demo_sched_def demo_task_def)
  moreover have bound: "\<forall>b\<in>set (rr_task ?s # [4] @ 2 # []). b < next_addr ?s \<and> b \<noteq> 0" by (simp add: put_task_def)
  moreover have "\<forall>f\<in>set [?f, ?f]. \<forall>s. keeps_ring 2 s (f s)" by (simp add: keeps_ring_def)
  ultimately obtain rs where "subseq rs [4]" "rounds (take (Suc (length rs)) [?f, ?f]) ?s = Ret (rs @ [2])"
    using choose_task_bounded_waiting [of ?s "[4]" 2 "[]" "[?f, ?f]"] by auto
  moreover have "get_next_task ?s = Ret (4, ?s\<lparr>rr_task := 4\<rparr>)"
    using get_next_task_ring [of ?s "[4, 2]"] ring 4 bound by simp
  then have "rounds [?f] ?s = Ret [4]"
    by (simp add: choose_task_def task_at_def put_task_def demo_sched_def demo_task_def Let_def)
  ultimately show ?thesis by (cases rs) (auto split: if_splits)
qed

section \<open>Soft changes\<close>

named_theorems soft_rules

text \<open>No task masks, catches or ignores \<open>SIGKILL\<close> and \<open>SIGSTOP\<close>, and its tables have their length.\<close>

definition task_ok :: "task \<Rightarrow> bool" where
  "task_ok t \<longleftrightarrow> \<not> bit (t_signal_mask t) (SIGKILL - 1) \<and> \<not> bit (t_signal_mask t) (SIGSTOP - 1) \<and>
     length (t_signal_handlers t) = 32 \<and> t_signal_handlers t ! SIGKILL = SIG_DFL \<and> t_signal_handlers t ! SIGSTOP = SIG_DFL \<and>
     length (t_fd_table t) = MAX_FDS"

lemma task_ok_updates [simp]:
  "task_ok (t\<lparr>t_kernel_stack := x0\<rparr>) = task_ok t"
  "task_ok (t\<lparr>t_iframe := x1\<rparr>) = task_ok t"
  "task_ok (t\<lparr>t_signal_interrupted_iframe := x2\<rparr>) = task_ok t"
  "task_ok (t\<lparr>t_pid := x3\<rparr>) = task_ok t"
  "task_ok (t\<lparr>t_pgid := x4\<rparr>) = task_ok t"
  "task_ok (t\<lparr>t_sid := x5\<rparr>) = task_ok t"
  "task_ok (t\<lparr>t_in_signal := x6\<rparr>) = task_ok t"
  "task_ok (t\<lparr>t_state := x7\<rparr>) = task_ok t"
  "task_ok (t\<lparr>t_cr3 := x8\<rparr>) = task_ok t"
  "task_ok (t\<lparr>t_initial_brk := x9\<rparr>) = task_ok t"
  "task_ok (t\<lparr>t_brk := x10\<rparr>) = task_ok t"
  "task_ok (t\<lparr>t_fpu_state := x11\<rparr>) = task_ok t"
  "task_ok (t\<lparr>t_signal_interrupted_fpu_state := x12\<rparr>) = task_ok t"
  "task_ok (t\<lparr>t_wd := x13\<rparr>) = task_ok t"
  "task_ok (t\<lparr>t_pending_signals := x14\<rparr>) = task_ok t"
  "task_ok (t\<lparr>t_time_slice := x15\<rparr>) = task_ok t"
  "task_ok (t\<lparr>t_block_reason := x16\<rparr>) = task_ok t"
  "task_ok (t\<lparr>t_blocked_ticks := x17\<rparr>) = task_ok t"
  "task_ok (t\<lparr>t_is_kworker := x18\<rparr>) = task_ok t"
  "task_ok (t\<lparr>t_wstatus := x19\<rparr>) = task_ok t"
  "task_ok (t\<lparr>t_blocked_process := x20\<rparr>) = task_ok t"
  "task_ok (t\<lparr>t_waitpid_event := x21\<rparr>) = task_ok t"
  "task_ok (t\<lparr>t_waitpid_flags := x22\<rparr>) = task_ok t"
  "task_ok (t\<lparr>t_return_code := x23\<rparr>) = task_ok t"
  "task_ok (t\<lparr>t_stop_signal := x24\<rparr>) = task_ok t"
  "task_ok (t\<lparr>t_next := x25\<rparr>) = task_ok t"
  "task_ok (t\<lparr>t_next_sibling := x26\<rparr>) = task_ok t"
  "task_ok (t\<lparr>t_parent := x27\<rparr>) = task_ok t"
  "task_ok (t\<lparr>t_child := x28\<rparr>) = task_ok t"
  by (simp_all add: task_ok_def)

lemma task_ok_table [simp]: "length x = length (t_fd_table t) \<Longrightarrow> task_ok (t\<lparr>t_fd_table := x\<rparr>) = task_ok t"
  by (simp add: task_ok_def)

text \<open>Most operations leave the ring alone and keep every task well-formed: \<open>soft s s1\<close>.\<close>

definition soft_task :: "task \<Rightarrow> task \<Rightarrow> bool" where
  "soft_task t u \<longleftrightarrow> t_next u = t_next t \<and> (task_ok t \<longrightarrow> task_ok u)"

definition soft :: "'w sched \<Rightarrow> 'w sched \<Rightarrow> bool" where
  "soft s s1 \<longleftrightarrow> current_task s1 = current_task s \<and> rr_task s1 = rr_task s \<and> next_addr s \<le> next_addr s1 \<and>
     (\<forall>a. rel_option soft_task (tasks s a) (tasks s1 a))"

definition softp :: "'w sched \<Rightarrow> 'a \<times> 'w sched \<Rightarrow> bool" where
  "softp s p = soft s (snd p)"

lemma soft_task_refl [simp]: "soft_task t t"
  by (simp add: soft_task_def)

lemma soft_task_trans: "soft_task t u \<Longrightarrow> soft_task u v \<Longrightarrow> soft_task t v"
  by (simp add: soft_task_def)

lemma rel_soft_refl [simp]: "rel_option soft_task x x"
  by (cases x) simp_all

lemma soft_refl [simp]: "soft s s"
  by (simp add: soft_def)

lemma rel_soft_trans: "rel_option soft_task x y \<Longrightarrow> rel_option soft_task y z \<Longrightarrow> rel_option soft_task x z"
  by (cases x; cases y; cases z) (auto intro: soft_task_trans)

lemma soft_trans: "soft s s1 \<Longrightarrow> soft s1 s2 \<Longrightarrow> soft s s2"
  by (auto simp: soft_def intro: rel_soft_trans)

lemma soft_put: "tasks s a = Some t \<Longrightarrow> soft_task t u \<Longrightarrow> soft s (put_task a u s)"
  by (simp add: soft_def put_task_def)

lemma soft_same:
  "tasks s1 = tasks s \<Longrightarrow> current_task s1 = current_task s \<Longrightarrow> rr_task s1 = rr_task s \<Longrightarrow> next_addr s \<le> next_addr s1 \<Longrightarrow> soft s s1"
  by (simp add: soft_def)

lemma soft_put_same:
  "tasks s1 = tasks s \<Longrightarrow> current_task s1 = current_task s \<Longrightarrow> rr_task s1 = rr_task s \<Longrightarrow> next_addr s \<le> next_addr s1 \<Longrightarrow>
   tasks s a = Some t \<Longrightarrow> soft_task t u \<Longrightarrow> soft s (put_task a u s1)"
  by (simp add: soft_def put_task_def)

lemma soft_task_at: "soft s s1 \<Longrightarrow> tasks s a = Some t \<Longrightarrow> \<exists>u. tasks s1 a = Some u \<and> soft_task t u"
  by (auto simp: soft_def option_rel_Some1 dest: spec [of _ a])

lemma post_mono: "post r P \<Longrightarrow> (\<And>x. P x \<Longrightarrow> Q x) \<Longrightarrow> post r Q"
  by (cases r) simp_all

lemma post_task_at: "(\<And>t. tasks s a = Some t \<Longrightarrow> post (f t) Q) \<Longrightarrow> post (bind_outcome (task_at s a) f) Q"
  by (simp add: task_at_def split: option.splits)

lemma soft_from: "soft s s1 \<Longrightarrow> post r (soft s1) \<Longrightarrow> post r (soft s)"
  by (cases r) (auto intro: soft_trans)

lemma softp_from: "soft s s1 \<Longrightarrow> post r (softp s1) \<Longrightarrow> post r (softp s)"
  by (cases r) (auto intro: soft_trans simp: softp_def)

lemma soft_bind: "post r (soft s) \<Longrightarrow> (\<And>s1. soft s s1 \<Longrightarrow> post (f s1) (soft s1)) \<Longrightarrow> post (bind_outcome r f) (soft s)"
  by (cases r) (auto intro: soft_from)

lemma soft_bindp: "post r (soft s) \<Longrightarrow> (\<And>s1. soft s s1 \<Longrightarrow> post (f s1) (softp s1)) \<Longrightarrow> post (bind_outcome r f) (softp s)"
  by (cases r) (auto intro: softp_from)

lemma softp_bind: "post r (softp s) \<Longrightarrow> (\<And>x s1. soft s s1 \<Longrightarrow> post (f (x, s1)) (soft s1)) \<Longrightarrow> post (bind_outcome r f) (soft s)"
  by (cases r) (auto intro: soft_from simp: softp_def)

lemma softp_bindp: "post r (softp s) \<Longrightarrow> (\<And>x s1. soft s s1 \<Longrightarrow> post (f (x, s1)) (softp s1)) \<Longrightarrow> post (bind_outcome r f) (softp s)"
  by (cases r) (auto intro: softp_from simp: softp_def)

lemma soft_upd_task [soft_rules]: "(\<And>t. soft_task t (f t)) \<Longrightarrow> post (upd_task a f s) (soft s)"
  by (auto simp: upd_task_def intro!: post_task_at soft_put)

lemma soft_upd_frame [simp]: "soft s (upd_frame a f s)" "soft s (copy_fpu d c s)" "soft s (save_fpu d s)" "soft s (restore_fpu d s)"
  "soft s (s\<lparr>s_mem := m\<rparr>)" "soft s (s\<lparr>s_fds := d1\<rparr>)" "soft s (s\<lparr>ticks_remaining := k\<rparr>)" "soft s (sched_kfree p s)"
  by (simp_all add: soft_def upd_frame_def copy_fpu_def save_fpu_def restore_fpu_def sched_kfree_def)

lemma soft_store_user [soft_rules]: "post (store_user a bs s) (soft s)"
  by (auto simp: store_user_def post_def bind_outcome_eq_Ret)

lemma soft_on_mem [soft_rules]: "post (on_mem f s) (softp s)"
  by (auto simp: on_mem_def post_def bind_outcome_eq_Ret softp_def)

text \<open>The descriptor operations keep the length of the table.\<close>

lemma fd_table_fields [simp]: "fd_table (upd_desc i f d) = fd_table d" "length (fd_table (set_entry k e d)) = length (fd_table d)"
  by (simp_all add: upd_desc_def set_entry_def)

lemma close_description_table: "close_file_description d i = Ret (r, d1) \<Longrightarrow> fd_table d1 = fd_table d"
  by (auto simp: close_file_description_def bind_outcome_eq_Ret split: fd_type.splits option.splits prod.splits if_splits)

lemma fd_close_table: "fd_close d fd = Ret (r, d1) \<Longrightarrow> length (fd_table d1) = length (fd_table d)"
  by (auto simp: fd_close_def bind_outcome_eq_Ret Let_def dest!: close_description_table split: option.splits if_splits)

lemma dup2_table: "dup2 d fd nfd = Ret (r, d1) \<Longrightarrow> length (fd_table d1) = length (fd_table d)"
  by (auto simp: dup2_def bind_outcome_eq_Ret dest!: fd_close_table split: option.splits if_splits)

lemma release_loop_table: "release_loop ks d = Ret d1 \<Longrightarrow> length (fd_table d1) = length (fd_table d)"
proof (induction ks arbitrary: d)
  case (Cons k ks)
  then show ?case by (fastforce simp: bind_outcome_eq_Ret split: option.splits dest: fd_close_table)
qed simp

lemma release_table: "release_process_fds d = Ret d1 \<Longrightarrow> length (fd_table d1) = length (fd_table d)"
  by (simp add: release_process_fds_def release_loop_table)

lemma soft_with_fds: "(\<And>d x d1. f d = Ret (x, d1) \<Longrightarrow> length (fd_table d1) = length (fd_table d)) \<Longrightarrow> post (with_fds a f s) (softp s)"
  unfolding with_fds_def
  by (intro post_task_at) (fastforce simp: post_def bind_outcome_eq_Ret softp_def soft_task_def intro!: soft_put_same)

lemma soft_release [soft_rules]:
  "post (with_fds a (\<lambda>d. bind_outcome (release_process_fds d) (\<lambda>d1. Ret ((), d1))) s) (softp s)"
  by (rule soft_with_fds) (auto simp: bind_outcome_eq_Ret release_table)


lemma soft_unlink_child [soft_rules]: "post (unlink_child n a t nxt s) (soft s)"
  by (induction n arbitrary: a) (auto simp: soft_task_def intro!: post_task_at soft_put)

lemma soft_reparent [soft_rules]: "post (reparent n p c s) (soft s)"
proof (induction n arbitrary: c s)
  case (Suc n)
  have "post (upd_task p (\<lambda>y. y\<lparr>t_child := c\<rparr>) (put_task c (x\<lparr>t_parent := p, t_next_sibling := k\<rparr>) s)) (soft s)"
    if "tasks s c = Some x" for x k
    by (rule soft_from [OF soft_put [OF that] soft_upd_task]) (simp_all add: soft_task_def)
  then show ?case using Suc.IH by (auto intro!: post_task_at soft_bind)
qed simp

lemma soft_exit_task [soft_rules]: "post (exit_task ret s) (soft s)"
  unfolding exit_task_def
  by (auto intro!: softp_bind soft_release soft_bind post_task_at soft_reparent
      intro: soft_from [OF soft_put soft_upd_task] simp: soft_task_def)

lemma soft_enter_handler [soft_rules]: "post (enter_handler i h s) (soft s)"
  unfolding enter_handler_def Let_def
  by (intro post_task_at soft_bind soft_upd_task soft_from [OF _ soft_store_user] soft_trans [OF _ soft_upd_frame(1)] soft_put_same)
    (auto simp: soft_task_def copy_fpu_def)

lemma soft_resume [soft_rules]: "post (resume s) (soft s)"
  unfolding resume_def by (auto intro!: post_task_at simp: soft_def upd_frame_def restore_fpu_def)


section \<open>The invariant of the scheduler\<close>

text \<open>The tasks form a ring through \<open>init_task\<close> that does not hold \<open>idle_task\<close>; \<open>rr_task\<close> is in it, and
  \<open>current_task\<close> too unless the machine is idle.\<close>

definition ring_ok :: "'w sched \<Rightarrow> nat list \<Rightarrow> bool" where
  "ring_ok s ys \<longleftrightarrow> ring (tasks s) init_task ys \<and> (\<forall>b\<in>set (init_task # ys). b < next_addr s \<and> b \<noteq> idle_task) \<and>
     rr_task s \<in> set (init_task # ys) \<and> current_task s \<in> set (idle_task # init_task # ys)"

definition sched_ok :: "'w sched \<Rightarrow> bool" where
  "sched_ok s \<longleftrightarrow> (\<forall>a t. tasks s a = Some t \<longrightarrow> task_ok t) \<and> tasks s idle_task \<noteq> None \<and> (\<exists>ys. ring_ok s ys)"

definition okp :: "'a \<times> 'w sched \<Rightarrow> bool" where
  "okp p = sched_ok (snd p)"

lemma task_ok_soft: "soft_task t u \<Longrightarrow> task_ok t \<Longrightarrow> task_ok u"
  by (simp add: soft_task_def)

lemma soft_next: "soft s s1 \<Longrightarrow> map_option t_next (tasks s1 a) = map_option t_next (tasks s a)"
proof -
  assume "soft s s1"
  then have "rel_option soft_task (tasks s a) (tasks s1 a)" by (simp add: soft_def)
  then show ?thesis by (cases rule: option.rel_cases) (auto simp: soft_task_def)
qed

lemma ring_ok_soft: "soft s s1 \<Longrightarrow> ring_ok s ys \<Longrightarrow> ring_ok s1 ys"
proof -
  assume *: "soft s s1" "ring_ok s ys"
  have "ring (tasks s1) init_task ys"
    using *(2) soft_next [OF *(1)] by (auto simp: ring_ok_def intro: ring_cong)
  then show ?thesis using * by (auto simp: ring_ok_def soft_def)
qed

lemma sched_ok_soft: "soft s s1 \<Longrightarrow> sched_ok s \<Longrightarrow> sched_ok s1"
proof -
  assume *: "soft s s1" "sched_ok s"
  have "task_ok u" if u: "tasks s1 a = Some u" for a u
  proof -
    have "rel_option soft_task (tasks s a) (Some u)" using *(1) by (simp add: soft_def flip: u)
    then obtain t where "tasks s a = Some t" "soft_task t u" by (auto simp: option_rel_Some2)
    then show ?thesis using *(2) by (auto simp: sched_ok_def intro: task_ok_soft)
  qed
  moreover have "tasks s1 idle_task \<noteq> None" using * soft_next [OF *(1), of idle_task] by (auto simp: sched_ok_def)
  ultimately show ?thesis using * ring_ok_soft [OF *(1)] by (auto simp: sched_ok_def)
qed

lemma post_ok: "post r (soft s) \<Longrightarrow> sched_ok s \<Longrightarrow> post r sched_ok"
  by (erule post_mono) (rule sched_ok_soft)

lemma post_okp: "post r (softp s) \<Longrightarrow> sched_ok s \<Longrightarrow> post r okp"
  by (erule post_mono) (auto simp: softp_def okp_def intro: sched_ok_soft)

lemma ok_bind: "post r sched_ok \<Longrightarrow> (\<And>s1. sched_ok s1 \<Longrightarrow> post (f s1) Q) \<Longrightarrow> post (bind_outcome r f) Q"
  by (cases r) simp_all

lemma okp_bind: "post r okp \<Longrightarrow> (\<And>x s1. sched_ok s1 \<Longrightarrow> post (f (x, s1)) Q) \<Longrightarrow> post (bind_outcome r f) Q"
  by (cases r) (auto simp: okp_def)

lemma okp_pair [simp]: "okp (x, s) = sched_ok s"
  by (simp add: okp_def)

lemma ring_member_ok: "sched_ok s \<Longrightarrow> ring_ok s ys \<Longrightarrow> b \<in> set (idle_task # init_task # ys) \<Longrightarrow> \<exists>t. tasks s b = Some t \<and> task_ok t"
  using ring_exists [of "tasks s" init_task ys b] by (auto simp: ring_ok_def sched_ok_def)

lemma ring_seen_from:
  assumes "ring_ok s ys" "b \<in> set (init_task # ys)"
  obtains zs where "ring (tasks s) b zs" "set (b # zs) = set (init_task # ys)" "\<forall>x\<in>set (b # zs). x < next_addr s"
proof -
  from assms have r: "ring (tasks s) init_task ys" by (simp add: ring_ok_def)
  from ring_from [OF r assms(2)] obtain zs where zs: "ring (tasks s) b zs" "set (b # zs) = set (init_task # ys)" .
  moreover from zs(2) assms(1) have "\<forall>x\<in>set (b # zs). x < next_addr s" unfolding ring_ok_def by blast
  ultimately show thesis using that by blast
qed

lemma get_next_task_ok:
  assumes "ring_ok s ys"
  shows "(\<forall>b\<in>set (init_task # ys). \<not> ready (tasks s) b) \<and> get_next_task s = Ret (0, s) \<or>
    (\<exists>r\<in>set (init_task # ys). ready (tasks s) r \<and> get_next_task s = Ret (r, s\<lparr>rr_task := r\<rparr>))"
proof -
  from assms have "rr_task s \<in> set (init_task # ys)" by (simp add: ring_ok_def)
  from ring_seen_from [OF assms this] obtain zs where zs: "ring (tasks s) (rr_task s) zs"
    "set (rr_task s # zs) = set (init_task # ys)" "\<forall>x\<in>set (rr_task s # zs). x < next_addr s" .
  show ?thesis
  proof (cases "find (ready (tasks s)) (zs @ [rr_task s])")
    case (Some r)
    then have "r \<in> set (zs @ [rr_task s]) \<and> ready (tasks s) r" by (metis find_Some_iff nth_mem)
    with zs(2) have "r \<in> set (init_task # ys)" "ready (tasks s) r" by auto
    then show ?thesis using get_next_task_ring [OF zs(1,3)] Some by auto
  next
    case None
    then have "\<forall>b\<in>set (rr_task s # zs). \<not> ready (tasks s) b" by (auto simp: find_None_iff)
    then show ?thesis using get_next_task_ring [OF zs(1,3)] None unfolding zs(2) by simp
  qed
qed

lemma sched_ok_current:
  assumes "sched_ok s" "ring_ok s ys" "rr \<in> set (init_task # ys)" "c \<in> set (idle_task # init_task # ys)"
  shows "sched_ok (s\<lparr>rr_task := rr, current_task := c\<rparr>)"
proof -
  have "ring_ok (s\<lparr>rr_task := rr, current_task := c\<rparr>) ys" using assms(2-4) by (simp add: ring_ok_def)
  then show ?thesis using assms(1) unfolding sched_ok_def by auto
qed

lemma post_choose_task: "sched_ok s \<Longrightarrow> post (choose_task s) sched_ok"
proof -
  assume ok: "sched_ok s"
  then obtain ys where ys: "ring_ok s ys" by (auto simp: sched_ok_def)
  have rr: "rr_task s \<in> set (init_task # ys)" using ys by (simp add: ring_ok_def)
  have step: "sched_ok ((put_task nt (t\<lparr>t_state := STATE_RUNNING\<rparr>) (s\<lparr>rr_task := r\<rparr>))\<lparr>current_task := nt, ticks_remaining := t_time_slice t,
                s_mem := m, tss_rsp0 := k\<rparr>)"
    if "nt \<in> set (idle_task # init_task # ys)" "r \<in> set (init_task # ys)" "tasks s nt = Some t" for nt r t m k
    by (rule sched_ok_soft [OF _ sched_ok_current [OF ok ys that(2,1)]])
      (use that(3) in \<open>simp add: soft_def put_task_def soft_task_def\<close>)
  obtain r q where g: "get_next_task s = Ret (r, s\<lparr>rr_task := q\<rparr>)" "q \<in> set (init_task # ys)" "r = 0 \<or> r \<in> set (init_task # ys)"
    using get_next_task_ok [OF ys] rr by (metis sched.surjective sched.update_convs(8))
  then have "(if r = 0 then idle_task else r) \<in> set (idle_task # init_task # ys)" by auto
  from step [OF this g(2)] show ?thesis
    by (auto simp: choose_task_def Let_def g(1) task_at_def split: option.splits)
qed

lemma post_deliver_loop:
  assumes "\<And>s r. sched_ok s \<Longrightarrow> post (ex s r) sched_ok" "sched_ok s"
  shows "post (deliver_loop ex d is s) okp"
  using assms(2)
proof (induction "is" arbitrary: s)
  case (Cons i "is")
  have pend: "post (upd_task a (\<lambda>t. t\<lparr>t_pending_signals := g t\<rparr>) s) sched_ok" if "sched_ok s" for a g and s :: "'a sched"
    using that by (intro post_ok [OF soft_upd_task]) (simp_all add: soft_task_def)
  show ?case
    using Cons.prems assms(1)
    by (auto simp: Let_def intro!: ok_bind [OF pend] Cons.IH post_task_at ok_bind [OF post_ok [OF soft_enter_handler]] ok_bind [of "ex _ _"])
qed (simp add: okp_def)

lemma post_deliver_with: "(\<And>s r. sched_ok s \<Longrightarrow> post (ex s r) sched_ok) \<Longrightarrow> sched_ok s \<Longrightarrow> post (deliver_with ex s) okp"
  unfolding deliver_with_def by (auto intro!: post_task_at post_deliver_loop)

lemma post_switch_fuel: "sched_ok s \<Longrightarrow> post (switch_fuel n s) sched_ok"
proof (induction n arbitrary: s)
  case (Suc n)
  show ?case unfolding switch_fuel.simps
    using Suc.prems Suc.IH
    by (auto intro!: ok_bind [OF post_choose_task] okp_bind [OF post_deliver_with] ok_bind [OF post_ok [OF soft_exit_task]] post_ok [OF soft_resume]
        split: if_splits)
qed simp

lemma post_switch_task: "sched_ok s \<Longrightarrow> post (switch_task s) sched_ok"
  by (simp add: switch_task_def post_switch_fuel)

lemma post_exit: "sched_ok s \<Longrightarrow> post (exit ret s) sched_ok"
  by (auto simp: exit_def intro!: ok_bind [OF post_ok [OF soft_exit_task]] post_switch_task)

lemma post_deliver_signals: "sched_ok s \<Longrightarrow> post (deliver_signals s) okp"
  by (auto simp: deliver_signals_def intro!: post_deliver_with post_exit)

section \<open>Collecting keeps the ring\<close>

lemma ring_next_first:
  assumes "ring ts p zs" "ts p = Some y" "t_next y \<noteq> p"
  shows "\<exists>vs. zs = t_next y # vs"
  using assms by (cases zs) (auto simp: ring_def)

lemma ring_second:
  "ring ts p (t # vs) \<Longrightarrow> ts t = Some x \<Longrightarrow> t_next x \<in> set (p # vs)"
  by (cases vs) (auto simp: ring_def)

text \<open>Any state in which \<open>p\<close> skips \<open>t\<close>, all other links are the old ones and \<open>t\<close> is gone.\<close>

lemma sched_ok_unlink:
  assumes "sched_ok s" "ring_ok s ys" "p \<in> set (init_task # ys)" "t \<noteq> init_task" "tasks s p = Some y" "t_next y = t"
    "tasks s t = Some x" "soft (s\<lparr>tasks := (tasks s)(p \<mapsto> y\<lparr>t_next := t_next x\<rparr>)\<rparr>) s2"
    "s3 = s2\<lparr>current_task := (if current_task s2 = t then t_next x else current_task s2),
              rr_task := (if rr_task s2 = t then t_next x else rr_task s2), tasks := (tasks s2)(t := None)\<rparr>"
  shows "\<exists>vs. sched_ok s3 \<and> ring_ok s3 vs \<and> set (init_task # vs) = set (init_task # ys) - {t} \<and> map_option t_next (tasks s3 p) = Some (t_next x)"
proof -
  from ring_seen_from [OF assms(2,3)] obtain zs where zs: "ring (tasks s) p zs" "set (p # zs) = set (init_task # ys)" .
  have "t \<noteq> p"
  proof
    assume "t = p"
    then have "zs = []" using zs(1) assms(5,6) by (cases zs) (auto simp: ring_def)
    then show False using zs(2) \<open>t = p\<close> assms(4) by auto
  qed
  with ring_next_first [OF zs(1) assms(5)] assms(6) obtain vs where vs: "zs = t # vs" by auto
  have mem: "set (p # vs) = set (init_task # ys) - {t}" using zs vs by (auto simp: ring_def)
  have nxt: "map_option t_next (tasks s2 b) = map_option t_next (if b = p then Some (y\<lparr>t_next := t_next x\<rparr>) else tasks s b)" for b
    using soft_next [OF assms(8), of b] by simp
  have p2: "\<exists>z. tasks s2 p = Some z \<and> t_next z = t_next x" using nxt [of p] by auto
  have "ring (tasks s3) p vs"
  proof -
    from p2 obtain z where z: "tasks s2 p = Some z" "t_next z = t_next x" by blast
    show ?thesis
      by (rule ring_remove [of "tasks s" p t vs x "tasks s3" z])
        (use zs(1) vs z assms(7,9) \<open>t \<noteq> p\<close> nxt in \<open>auto simp: ring_def\<close>)
  qed
  from ring_from [OF this, of init_task] mem assms(4) obtain us
    where us: "ring (tasks s3) init_task us" "set (init_task # us) = set (p # vs)" by auto
  have x: "t_next x \<in> set (p # vs)" using ring_second zs(1) assms(7) vs by blast
  have s2: "current_task s2 = current_task s" "rr_task s2 = rr_task s" "next_addr s \<le> next_addr s2" using assms(8) by (auto simp: soft_def)
  have "\<forall>b\<in>set (init_task # us). b < next_addr s2 \<and> b \<noteq> idle_task"
  proof
    fix b assume "b \<in> set (init_task # us)"
    then have "b \<in> set (init_task # ys)" unfolding us(2) mem by blast
    then have "b < next_addr s \<and> b \<noteq> idle_task" using assms(2) unfolding ring_ok_def by blast
    then show "b < next_addr s2 \<and> b \<noteq> idle_task" using s2(3) by simp
  qed
  moreover have "rr_task s3 \<in> set (init_task # us)" "current_task s3 \<in> insert idle_task (set (init_task # us))"
    using x assms(2) s2(1,2) unfolding us(2) mem ring_ok_def assms(9) by auto
  ultimately have "ring_ok s3 us" using us(1) unfolding ring_ok_def by (simp add: assms(9))
  moreover have "task_ok u" if "tasks s3 a = Some u" for a u
  proof -
    have u: "tasks s2 a = Some u" using that by (auto simp: assms(9) split: if_splits)
    have "rel_option soft_task (if a = p then Some (y\<lparr>t_next := t_next x\<rparr>) else tasks s a) (Some u)"
      using assms(8) by (auto simp: soft_def simp flip: u)
    then obtain w where w: "(if a = p then Some (y\<lparr>t_next := t_next x\<rparr>) else tasks s a) = Some w" "soft_task w u" by (auto simp: option_rel_Some2)
    have "task_ok w" using w(1) assms(1,5) by (auto simp: sched_ok_def task_ok_def split: if_splits)
    then show ?thesis using task_ok_soft [OF w(2)] by simp
  qed
  moreover have "tasks s3 idle_task \<noteq> None"
  proof -
    have "idle_task \<noteq> t" using assms(2) zs vs mem by (auto simp: ring_ok_def)
    then show ?thesis using nxt [of idle_task] assms(1) by (auto simp: assms(9) sched_ok_def split: if_splits)
  qed
  moreover have "map_option t_next (tasks s3 p) = Some (t_next x)" using p2 \<open>t \<noteq> p\<close> by (auto simp: assms(9))
  ultimately show ?thesis using us mem by (auto simp: sched_ok_def)
qed

lemma post_gc_task:
  assumes "sched_ok s" "ring_ok s ys" "p \<in> set (init_task # ys)" "t \<noteq> init_task" "tasks s p = Some y" "t_next y = t"
  shows "post (gc_task p t s) (\<lambda>(nxt, s3). sched_ok s3 \<and> (\<exists>vs. ring_ok s3 vs \<and> p \<in> set (init_task # vs)) \<and>
    map_option t_next (tasks s3 p) = Some nxt)"
proof -
  have "p \<noteq> t"
  proof
    assume "p = t"
    from ring_seen_from [OF assms(2,3)] obtain zs where zs: "ring (tasks s) p zs" "set (p # zs) = set (init_task # ys)" .
    have "zs = []" using zs(1) assms(5,6) \<open>p = t\<close> by (cases zs) (auto simp: ring_def)
    then show False using zs(2) assms(4) \<open>p = t\<close> by auto
  qed
  have fin: "sched_ok s3 \<and> (\<exists>vs. ring_ok s3 vs \<and> p \<in> set (init_task # vs)) \<and> map_option t_next (tasks s3 p) = Some (t_next x)"
    if x: "tasks s t = Some x" and so: "soft (s\<lparr>tasks := (tasks s)(p \<mapsto> y\<lparr>t_next := t_next x\<rparr>)\<rparr>) s2"
      and s3: "s3 = sched_kfree t (s2\<lparr>current_task := (if current_task s2 = t then t_next x else current_task s2),
        rr_task := (if rr_task s2 = t then t_next x else rr_task s2), tasks := (tasks s2)(t := None)\<rparr>)" for x s2 s3
  proof -
    let ?s = "s2\<lparr>current_task := (if current_task s2 = t then t_next x else current_task s2),
        rr_task := (if rr_task s2 = t then t_next x else rr_task s2), tasks := (tasks s2)(t := None)\<rparr>"
    from sched_ok_unlink [OF assms x so refl] obtain vs
      where vs: "sched_ok ?s" "ring_ok ?s vs" "set (init_task # vs) = set (init_task # ys) - {t}" "map_option t_next (tasks ?s p) = Some (t_next x)" by blast
    have k: "soft ?s s3" unfolding s3 by (rule soft_upd_frame)
    have "p \<in> set (init_task # vs)" using vs(3) assms(3) \<open>p \<noteq> t\<close> by auto
    then show ?thesis
      using sched_ok_soft [OF k vs(1)] ring_ok_soft [OF k vs(2)] soft_next [OF k, of p] vs(4) by auto
  qed
  have unl: "post (if t_is_kworker x then Ret s1
        else bind_outcome (task_at s1 (t_parent x)) (\<lambda>y.
          if t_child y = t then Ret (put_task (t_parent x) (y\<lparr>t_child := t_next_sibling x\<rparr>) s1)
          else unlink_child (ring_fuel s1) (t_child y) t (t_next_sibling x) s1)) (soft s1)" for x and s1 :: "'a sched"
    by (auto intro!: post_task_at soft_put soft_unlink_child simp: soft_task_def)
  show ?thesis unfolding gc_task_def Let_def
  proof (intro post_task_at post_bind [OF post_self], unfold post_values, goal_cases)
    case (1 x m s1 s2)
    have "soft (s\<lparr>tasks := (tasks s)(p \<mapsto> y\<lparr>t_next := t_next x\<rparr>)\<rparr>) s1"
      using 1(3) assms(5) by (auto simp: upd_task_def task_at_def sched_kfree_def put_task_def soft_def bind_outcome_eq_Ret)
    then have so: "soft (s\<lparr>tasks := (tasks s)(p \<mapsto> y\<lparr>t_next := t_next x\<rparr>)\<rparr>) s2" using postD [OF unl 1(4)] by (rule soft_trans)
    show ?case using fin [OF 1(1) so refl] by simp
  qed
qed

lemma ring_next_member: "ring ts a ys \<Longrightarrow> b \<in> set (a # ys) \<Longrightarrow> ts b = Some t \<Longrightarrow> t_next t \<in> set (a # ys)"
proof -
  assume *: "ring ts a ys" "b \<in> set (a # ys)" "ts b = Some t"
  from ring_from [OF *(1,2)] obtain zs where zs: "ring ts b zs" "set (b # zs) = set (a # ys)" .
  then have "t_next t \<in> set (b # zs)" using *(3) by (cases zs) (auto simp: ring_def)
  then show ?thesis by (simp only: zs(2))
qed

lemma post_gc_loop:
  "sched_ok s \<Longrightarrow> ring_ok s ys \<Longrightarrow> p \<in> set (init_task # ys) \<Longrightarrow> map_option t_next (tasks s p) = Some t \<Longrightarrow> post (gc_loop n p t s) sched_ok"
proof (induction n arbitrary: p t s ys)
  case (Suc n)
  from Suc.prems(4) obtain y where y: "tasks s p = Some y" "t_next y = t" by auto
  show ?case
  proof (cases "t = init_task")
    case False
    have t: "t \<in> set (init_task # ys)" using ring_next_member [of "tasks s" init_task ys p y] Suc.prems(2,3) y by (auto simp: ring_ok_def)
    have "post (bind_outcome (gc_task p t s) (\<lambda>(nxt, s1). gc_loop n p nxt s1)) sched_ok"
      by (rule post_bind [OF post_gc_task [OF Suc.prems(1,2,3) False y]]) (auto intro: Suc.IH)
    moreover have "post (gc_loop n t (t_next x) s) sched_ok" if "tasks s t = Some x" for x
      using Suc.IH [OF Suc.prems(1,2) t] that by simp
    ultimately show ?thesis using False by (auto intro!: post_task_at)
  qed (use Suc.prems in simp)
qed simp

lemma post_gc_tasks: "sched_ok s \<Longrightarrow> post (gc_tasks s) sched_ok"
proof -
  assume ok: "sched_ok s"
  then obtain ys where "ring_ok s ys" by (auto simp: sched_ok_def)
  with ok show ?thesis unfolding gc_tasks_def by (auto intro!: post_task_at post_gc_loop)
qed

lemma post_run_next: "sched_ok s \<Longrightarrow> post (run_next f s) okp"
proof -
  assume ok: "sched_ok s"
  have "sched_ok (save_fpu a (put_task (current_task s) (t\<lparr>t_iframe := f, t_state := st\<rparr>) s))" if "tasks s (current_task s) = Some t" for a t st
    by (rule sched_ok_soft [OF soft_trans [OF soft_put [OF that] soft_upd_frame(3)] ok]) (simp add: soft_task_def)
  then show ?thesis using ok unfolding run_next_def Let_def
    by (auto intro!: post_task_at ok_bind [OF post_gc_tasks] ok_bind [OF post_switch_task])
qed

lemma post_sigreturn: "sched_ok s \<Longrightarrow> post (sigreturn s) okp"
proof -
  assume ok: "sched_ok s"
  have "sched_ok (copy_fpu a b (upd_frame d g (put_task (current_task s) (t\<lparr>t_in_signal := False\<rparr>) s)))" if "tasks s (current_task s) = Some t" for a b d g t
    by (rule sched_ok_soft [OF soft_trans [OF soft_trans [OF soft_put [OF that] soft_upd_frame(1)] soft_upd_frame(2)] ok]) (simp add: soft_task_def)
  then show ?thesis using ok unfolding sigreturn_def Let_def
    by (auto intro!: post_task_at okp_bind [OF post_deliver_signals] ok_bind [OF post_ok [OF soft_resume]])
qed

end
