(* ===== verification/Programs.thy ===== *)
theory Programs
  imports Tasks
begin

text \<open>
  Programs in memory: the ELF loader of \<open>kernel/usermode/elf.c\<close> and the break of
  \<open>kernel/usermode/break.c\<close>.  The loader reads the file through the virtual file system and stores into
  the current address space.  Structures on the kernel stack are not initialised: what they hold
  where a short file did not fill them is the argument \<open>junk\<close>.  The array of program headers is on the
  kernel stack of 128 KB; a header table larger than that is a \<open>Fault\<close>.
\<close>

section \<open>ELF files\<close>

text \<open>Reading \<open>n\<close> bytes into an uninitialised object.\<close>

definition fill :: "byte list \<Rightarrow> nat \<Rightarrow> byte list \<Rightarrow> byte list" where
  "fill junk n bs = take n (bs @ drop (length bs) junk)"

record elf_ehdr =
  e_ident :: "byte list"
  e_type :: nat
  e_entry :: u64
  e_phoff :: u64
  e_phnum :: nat

record elf_phdr =
  p_type :: nat
  p_flags :: u32
  p_offset :: u64
  p_vaddr :: u64
  p_filesz :: u64
  p_memsz :: u64

definition ehdr_of :: "byte list \<Rightarrow> elf_ehdr" where
  "ehdr_of bs = \<lparr>e_ident = take 16 bs, e_type = field bs 16 2, e_entry = word_of_nat (field bs 24 8),
     e_phoff = word_of_nat (field bs 32 8), e_phnum = field bs 56 2\<rparr>"

definition phdr_of :: "byte list \<Rightarrow> nat \<Rightarrow> elf_phdr" where
  "phdr_of bs i = (let o' = 56 * i in
     \<lparr>p_type = field bs o' 4, p_flags = word_of_nat (field bs (o' + 4) 4), p_offset = word_of_nat (field bs (o' + 8) 8),
      p_vaddr = word_of_nat (field bs (o' + 16) 8), p_filesz = word_of_nat (field bs (o' + 32) 8),
      p_memsz = word_of_nat (field bs (o' + 40) 8)\<rparr>)"

definition PT_LOAD :: nat where "PT_LOAD = 1"
definition PF_X :: u32 where [flag_simps]: "PF_X = 1"
definition ELFCLASS64 :: byte where "ELFCLASS64 = 2"
definition ELFDATA2LSB :: byte where "ELFDATA2LSB = 1"
definition ET_EXEC :: nat where "ET_EXEC = 2"

definition read_ehdr :: "byte list \<Rightarrow> 'w vfs \<Rightarrow> file_handle \<Rightarrow> (elf_ehdr \<times> 'w vfs) outcome" where
  "read_ehdr junk v file =
     bind_outcome (read_file v file 0 64) (\<lambda>(r, bs, v1). Ret (ehdr_of (fill junk 64 bs), v1))"

definition is_elf :: "byte list \<Rightarrow> 'w vfs \<Rightarrow> file_handle \<Rightarrow> (bool \<times> 'w vfs) outcome" where
  "is_elf junk v file =
     bind_outcome (read_ehdr junk v file) (\<lambda>(h, v1). Ret (take 4 (e_ident h) = [0x7f, 0x45, 0x4c, 0x46], v1))"

definition is_compatible_binary :: "byte list \<Rightarrow> 'w vfs \<Rightarrow> file_handle \<Rightarrow> (bool \<times> 'w vfs) outcome" where
  "is_compatible_binary junk v file =
     bind_outcome (is_elf junk v file) (\<lambda>(ok, v1).
       if \<not> ok then Ret (False, v1)
       else bind_outcome (read_ehdr junk v1 file) (\<lambda>(h, v2).
         Ret (e_ident h ! 4 = ELFCLASS64 \<and> e_ident h ! 5 = ELFDATA2LSB \<and> e_type h = ET_EXEC, v2)))"

text \<open>\<open>memset\<close> to zero through the page tables.\<close>

fun zero_user :: "u64 \<Rightarrow> nat \<Rightarrow> paging \<Rightarrow> paging outcome" where
  "zero_user a 0 m = Ret m"
| "zero_user a (Suc n) m = bind_outcome (store_byte a 0 m) (zero_user (a + 1) n)"

definition KSTACK_SIZE :: nat where "KSTACK_SIZE = 4096 * 32"

text \<open>One segment; \<open>nx\<close> says whether the processor supports the flag \<open>FLAGS_NX\<close>.\<close>

definition load_segment :: "bool \<Rightarrow> file_handle \<Rightarrow> elf_phdr \<Rightarrow> 'w vfs \<Rightarrow> paging \<Rightarrow> ('w vfs \<times> paging) outcome" where
  "load_segment nx file ph v m =
     (let flags = FLAGS_PRESENT OR FLAGS_USER OR FLAGS_RW OR (if p_flags ph AND PF_X = 0 \<and> nx then FLAGS_NX else 0) in
      bind_outcome (alloc_region (p_vaddr ph) (p_memsz ph) flags m) (\<lambda>(segment_start, m1).
      bind_outcome (read_file v file (p_offset ph) (p_filesz ph)) (\<lambda>(r, bs, v1).
      bind_outcome (store_bytes segment_start bs m1) (\<lambda>m2.
      bind_outcome (zero_user (segment_start + p_filesz ph) (unat (p_memsz ph - p_filesz ph)) m2) (\<lambda>m3. Ret (v1, m3))))))"

definition segment_break :: "elf_phdr \<Rightarrow> u64 \<Rightarrow> u64" where
  "segment_break ph brk = (let e = p_vaddr ph + p_memsz ph in if brk = 0 \<or> e > brk then e else brk)"

text \<open>\<open>alloc_region\<close> returns the address of the segment; a segment at address 0 therefore looks like a
  failure.\<close>

fun load_segments :: "bool \<Rightarrow> file_handle \<Rightarrow> elf_phdr list \<Rightarrow> u64 \<Rightarrow> 'w vfs \<Rightarrow> paging \<Rightarrow> (u64 option \<times> 'w vfs \<times> paging) outcome" where
  "load_segments nx file [] brk v m = Ret (Some brk, v, m)"
| "load_segments nx file (ph # phs) brk v m =
     (if p_type ph \<noteq> PT_LOAD then load_segments nx file phs brk v m
      else if p_vaddr ph = 0 then
        bind_outcome (alloc_region 0 (p_memsz ph) (FLAGS_PRESENT OR FLAGS_USER OR FLAGS_RW OR (if p_flags ph AND PF_X = 0 \<and> nx then FLAGS_NX else 0)) m)
          (\<lambda>(r, m1). Ret (None, v, m1))
      else bind_outcome (load_segment nx file ph v m) (\<lambda>(v1, m1).
        load_segments nx file phs (segment_break ph brk) v1 m1))"

text \<open>The result is the entry point, 0 for failure, and the new value of \<open>*brk\<close>, if it is stored.\<close>

definition load_elf :: "bool \<Rightarrow> byte list \<Rightarrow> file_handle \<Rightarrow> 'w vfs \<Rightarrow> paging \<Rightarrow> ((u64 \<times> u64 option) \<times> 'w vfs \<times> paging) outcome" where
  "load_elf nx junk file v m =
     bind_outcome (is_compatible_binary junk v file) (\<lambda>(ok, v1).
       if \<not> ok then Ret ((0, None), v1, m)
       else bind_outcome (read_ehdr junk v1 file) (\<lambda>(h, v2).
         if 56 * e_phnum h > KSTACK_SIZE then Fault
         else bind_outcome (read_file v2 file (e_phoff h) (word_of_nat (e_phnum h * 56))) (\<lambda>(r, bs, v3).
           let phs = map (phdr_of (fill junk (56 * e_phnum h) bs)) [0..<e_phnum h] in
           bind_outcome (load_segments nx file phs 0 v3 m) (\<lambda>(b, v4, m1).
             case b of None \<Rightarrow> Ret ((0, None), v4, m1)
             | Some brk \<Rightarrow> Ret ((e_entry h, Some (page_align brk)), v4, m1)))))"

section \<open>The break\<close>

definition page_align_up :: "u64 \<Rightarrow> u64" where
  "page_align_up a = (a + 0xFFF) AND PAGE_MASK"

text \<open>The result of \<open>set_brk\<close> is an address, 0 for failure.\<close>

definition set_brk :: "u64 \<Rightarrow> 'w sched \<Rightarrow> (u64 \<times> 'w sched) outcome" where
  "set_brk addr s =
     (if current_task s = 0 then Ret (0, s)
      else bind_outcome (task_at s (current_task s)) (\<lambda>t.
        if addr = 0 then Ret (t_brk t, s)
        else if addr < t_initial_brk t then Ret (0, s)
        else if unat addr > USER_MAX then Ret (0, s)
        else if t_brk t < t_initial_brk t then Ret (0, s)
        else let old_page_end = page_align_up (t_brk t); new_page_end = page_align_up addr in
          bind_outcome
            (if new_page_end > old_page_end then
               bind_outcome (alloc_region old_page_end (new_page_end - old_page_end) (FLAGS_USER OR FLAGS_RW) (s_mem s)) (\<lambda>(r, m1).
                 zero_user old_page_end (unat (new_page_end - old_page_end)) m1)
             else if new_page_end < old_page_end then free_region new_page_end (old_page_end - new_page_end) (s_mem s)
             else Ret (s_mem s)) (\<lambda>m.
          Ret (addr, put_task (current_task s) (t\<lparr>t_brk := addr\<rparr>) (s\<lparr>s_mem := m\<rparr>)))))"

definition BRK_FAILED :: u64 where "BRK_FAILED = - 1"

definition sbrk :: "u64 \<Rightarrow> 'w sched \<Rightarrow> (u64 \<times> 'w sched) outcome" where
  "sbrk increment s =
     (if current_task s = 0 then Ret (BRK_FAILED, s)
      else bind_outcome (task_at s (current_task s)) (\<lambda>t.
        if t_brk t = 0 then Ret (BRK_FAILED, s)
        else let old_brk = t_brk t in
          if sint increment > 0 then
            if increment > - 1 - old_brk then Ret (BRK_FAILED, s)
            else if unat (old_brk + increment) > USER_MAX then Ret (BRK_FAILED, s)
            else bind_outcome (set_brk (old_brk + increment) s) (\<lambda>(r, s1). Ret (if r = 0 then BRK_FAILED else old_brk, s1))
          else if sint increment < 0 then
            let amount = - (increment + 1) + 1 in
            if old_brk < t_initial_brk t \<or> amount > old_brk - t_initial_brk t then Ret (BRK_FAILED, s)
            else bind_outcome (set_brk (old_brk - amount) s) (\<lambda>(r, s1). Ret (if r = 0 then BRK_FAILED else old_brk, s1))
          else Ret (old_brk, s)))"

end
