(* ===== verification/Scheduler.thy ===== *)
theory Scheduler
  imports Programs
begin

text \<open>
  Processes, the second part of \<open>kernel/usermode/scheduler.c\<close>: creation by \<open>fork\<close>, \<open>spawn\<close>, \<open>execve\<close>
  and \<open>create_kworker\<close>, sleeping and waiting, sending signals, process groups and sessions.  A call that
  may leave by a task switch has the result \<open>None\<close> then and \<open>Some r\<close> when it returns \<open>r\<close>.  Arguments in
  user memory are read through the page tables after the checks of the source.
\<close>

section \<open>The ring of tasks\<close>

text \<open>The loops \<open>do { ... task = task->next; } while (task != &init_task);\<close> over all tasks.\<close>

fun ring_each :: "nat \<Rightarrow> (nat \<Rightarrow> 'w sched \<Rightarrow> 'w sched outcome) \<Rightarrow> nat \<Rightarrow> 'w sched \<Rightarrow> 'w sched outcome" where
  "ring_each 0 f a s = Blocks"
| "ring_each (Suc n) f a s =
     bind_outcome (f a s) (\<lambda>s1.
     bind_outcome (task_at s1 a) (\<lambda>t. if t_next t = init_task then Ret s1 else ring_each n f (t_next t) s1))"

fun ring_find :: "nat \<Rightarrow> (task \<Rightarrow> bool) \<Rightarrow> nat \<Rightarrow> 'w sched \<Rightarrow> nat option outcome" where
  "ring_find 0 P a s = Blocks"
| "ring_find (Suc n) P a s =
     bind_outcome (task_at s a) (\<lambda>t.
       if P t then Ret (Some a) else if t_next t = init_task then Ret None else ring_find n P (t_next t) s)"

section \<open>Groups and sessions\<close>

definition getpid :: "'w sched \<Rightarrow> int outcome" where
  "getpid s = bind_outcome (task_at s (current_task s)) (\<lambda>t. Ret (t_pid t))"

definition getppid :: "'w sched \<Rightarrow> int outcome" where
  "getppid s =
     (if current_task s = init_task then Ret 0
      else bind_outcome (task_at s (current_task s)) (\<lambda>t. bind_outcome (task_at s (t_parent t)) (\<lambda>p. Ret (t_pid p))))"

definition with_pid :: "(task \<Rightarrow> int) \<Rightarrow> int \<Rightarrow> 'w sched \<Rightarrow> int outcome" where
  "with_pid get pid s =
     bind_outcome (task_at s (current_task s)) (\<lambda>c.
     let p = (if pid = 0 then t_pid c else pid) in
     bind_outcome (ring_find (ring_fuel s) (\<lambda>t. t_pid t = p) init_task s) (\<lambda>r. case r of
       None \<Rightarrow> Ret (- ESRCH)
     | Some a \<Rightarrow> bind_outcome (task_at s a) (\<lambda>t. Ret (get t))))"

definition getpgid :: "int \<Rightarrow> 'w sched \<Rightarrow> int outcome" where
  "getpgid pid s = with_pid t_pgid pid s"

definition getsid :: "int \<Rightarrow> 'w sched \<Rightarrow> int outcome" where
  "getsid pid s = with_pid t_sid pid s"

fun find_child_pid :: "nat \<Rightarrow> int \<Rightarrow> nat \<Rightarrow> 'w sched \<Rightarrow> nat outcome" where
  "find_child_pid 0 pid c s = Blocks"
| "find_child_pid (Suc n) pid c s =
     (if c = 0 then Ret 0
      else bind_outcome (task_at s c) (\<lambda>t.
        if t_state t \<noteq> STATE_DELETED \<and> t_pid t = pid then Ret c else find_child_pid n pid (t_next_sibling t) s))"

definition get_child :: "nat \<Rightarrow> int \<Rightarrow> 'w sched \<Rightarrow> nat outcome" where
  "get_child a pid s = bind_outcome (task_at s a) (\<lambda>t. find_child_pid (ring_fuel s) pid (t_child t) s)"

text \<open>The argument \<open>cur\<close> is \<open>current_task\<close>, which \<open>add_task\<close> replaces around the calls.\<close>

definition setpgid :: "nat \<Rightarrow> int \<Rightarrow> int \<Rightarrow> 'w sched \<Rightarrow> (int \<times> 'w sched) outcome" where
  "setpgid cur pid0 pgid0 s =
     bind_outcome (task_at s cur) (\<lambda>c.
     let pid = (if pid0 = 0 then t_pid c else pid0); pgid = (if pgid0 = 0 then pid else pgid0) in
     bind_outcome (if pid \<noteq> t_pid c then get_child cur pid s else Ret cur) (\<lambda>target.
     if target = 0 then Ret (- ESRCH, s)
     else bind_outcome (task_at s target) (\<lambda>t.
       if t_sid t \<noteq> t_sid c then Ret (- EPERM, s)
       else bind_outcome
         (if pid \<noteq> pgid then
            bind_outcome (ring_find (ring_fuel s) (\<lambda>i. t_pgid i = pgid \<and> t_state i \<noteq> STATE_DELETED) init_task s) (\<lambda>r. case r of
              None \<Rightarrow> Ret (- ESRCH)
            | Some i \<Rightarrow> bind_outcome (task_at s i) (\<lambda>x. Ret (if t_sid x \<noteq> t_sid t then - EPERM else 0)))
          else Ret 0) (\<lambda>e.
         if e \<noteq> 0 then Ret (e, s)
         else if t_pgid t = t_pid t \<and> pgid \<noteq> t_pgid t then Ret (- EPERM, s)
         else Ret (0, put_task target (t\<lparr>t_pgid := pgid\<rparr>) s)))))"

definition setsid :: "nat \<Rightarrow> 'w sched \<Rightarrow> (int \<times> 'w sched) outcome" where
  "setsid cur s =
     bind_outcome (task_at s cur) (\<lambda>c.
       if t_pgid c = t_pid c then Ret (- EPERM, s)
       else Ret (t_pid c, put_task cur (c\<lparr>t_sid := t_pid c, t_pgid := t_pid c\<rparr>) s))"

section \<open>Sending signals\<close>

definition child_signal :: "nat \<Rightarrow> 'w sched \<Rightarrow> 'w sched outcome" where
  "child_signal p s =
     (if p = 0 then Ret s
      else upd_task p (\<lambda>y. y\<lparr>t_pending_signals := t_pending_signals y OR push_bit (SIGCHLD - 1) 1\<rparr>) s)"

definition signal_task :: "nat \<Rightarrow> nat \<Rightarrow> 'w sched \<Rightarrow> 'w sched outcome" where
  "signal_task a sig s =
     bind_outcome (upd_task a (\<lambda>t. t\<lparr>t_pending_signals := t_pending_signals t OR push_bit (sig - 1) 1\<rparr>) s) (\<lambda>s1.
     bind_outcome (task_at s1 a) (\<lambda>t.
     bind_outcome
       (if signal_default_actions sig = SIGNAL_STOP \<and> t_signal_handlers t ! sig = SIG_DFL \<and> t_state t \<noteq> STATE_STOPPED
        then child_signal (t_parent t) (put_task a (t\<lparr>t_state := STATE_STOPPED,
               t_pending_signals := t_pending_signals t AND NOT (push_bit (sig - 1) 1),
               t_stop_signal := int sig, t_waitpid_event := 1\<rparr>) s1)
        else Ret s1) (\<lambda>s2.
     bind_outcome (task_at s2 a) (\<lambda>u.
       if sig = SIGCONT \<and> t_state u = STATE_STOPPED
       then child_signal (t_parent u) (put_task a (u\<lparr>t_state := STATE_READY, t_waitpid_event := 2\<rparr>) s2)
       else Ret s2))))"

text \<open>One of the four loops of \<open>kill\<close>: the tasks that satisfy \<open>P\<close> and are not deleted get the signal.\<close>

fun signal_loop :: "nat \<Rightarrow> (nat \<Rightarrow> task \<Rightarrow> bool) \<Rightarrow> nat \<Rightarrow> nat \<Rightarrow> bool \<Rightarrow> 'w sched \<Rightarrow> (bool \<times> 'w sched) outcome" where
  "signal_loop 0 P sig a found s = Blocks"
| "signal_loop (Suc n) P sig a found s =
     bind_outcome (task_at s a) (\<lambda>t.
     let hit = P a t \<and> t_state t \<noteq> STATE_DELETED in
     bind_outcome (if hit then signal_task a sig s else Ret s) (\<lambda>s1.
     bind_outcome (task_at s1 a) (\<lambda>u.
       if t_next u = init_task then Ret (found \<or> hit, s1)
       else signal_loop n P sig (t_next u) (found \<or> hit) s1)))"

definition kill :: "int \<Rightarrow> int \<Rightarrow> 'w sched \<Rightarrow> (int \<times> 'w sched) outcome" where
  "kill pid sig s =
     (if sig < 1 \<or> sig > 31 then Ret (- EINVAL, s)
      else bind_outcome (task_at s (current_task s)) (\<lambda>c.
        let P = (\<lambda>a t. if pid > 0 then t_pid t = pid
                 else if pid = 0 then t_pgid t = t_pgid c
                 else if pid = - 1 then a \<noteq> init_task \<and> a \<noteq> current_task s
                 else t_pgid t = - pid)
        in bind_outcome (signal_loop (ring_fuel s) P (nat sig) init_task False s) (\<lambda>(found, s1).
             Ret (if found then 0 else - ESRCH, s1))))"

definition raise :: "int \<Rightarrow> 'w sched \<Rightarrow> (int \<times> 'w sched) outcome" where
  "raise sig s =
     (if sig < 1 \<or> sig > 31 then Ret (- EINVAL, s)
      else bind_outcome (signal_task (current_task s) (nat sig) s) (\<lambda>s1. Ret (0, s1)))"

text \<open>\<open>new\<close> and the value for \<open>*old\<close> are in the caller's memory.\<close>

definition sigaction :: "int \<Rightarrow> u64 option \<Rightarrow> 'w sched \<Rightarrow> ((int \<times> u64 option) \<times> 'w sched) outcome" where
  "sigaction sig new s =
     (if sig < 1 \<or> sig > 31 then Ret ((- EINVAL, None), s)
      else if nat sig = SIGSTOP \<or> nat sig = SIGKILL then Ret ((- EPERM, None), s)
      else bind_outcome (task_at s (current_task s)) (\<lambda>t.
        Ret ((0, Some (t_signal_handlers t ! nat sig)),
          case new of None \<Rightarrow> s
          | Some h \<Rightarrow> put_task (current_task s) (t\<lparr>t_signal_handlers := (t_signal_handlers t)[nat sig := h]\<rparr>) s)))"

section \<open>Creating tasks\<close>

definition PID_MAX :: int where "PID_MAX = 2147483647"

definition fork :: "nat \<Rightarrow> 'w sched \<Rightarrow> 'w sched outcome" where
  "fork f s =
     (if last_pid s = PID_MAX then Panic
      else bind_outcome (upd_task (current_task s) (\<lambda>t. t\<lparr>t_iframe := f\<rparr>) s) (\<lambda>s1.
           bind_outcome (task_at s1 (current_task s1)) (\<lambda>c.
           bind_outcome (on_mem (clone_page_tables (t_cr3 c)) (save_fpu (t_fpu_state c) s1)) (\<lambda>(cr3, s2).
           case sched_kmalloc s2 of (a, s3) \<Rightarrow>
           case sched_kmalloc s3 of (kstack, s4) \<Rightarrow>
           case sched_kmalloc s4 of (fpu, s5) \<Rightarrow>
           case sched_kmalloc s5 of (ifpu, s6) \<Rightarrow>
           let s7 = copy_fpu ifpu (t_signal_interrupted_fpu_state c) (copy_fpu fpu (t_fpu_state c)
                 (upd_frame kstack (\<lambda>_. frames s6 f) s6));
               pid = last_pid s7 + 1;
               new = c\<lparr>t_state := STATE_READY, t_cr3 := cr3, t_kernel_stack := kstack, t_iframe := kstack,
                       t_fpu_state := fpu, t_signal_interrupted_fpu_state := ifpu, t_next_sibling := t_child c,
                       t_child := 0, t_pid := pid, t_parent := current_task s\<rparr>;
               s8 = put_task (current_task s) (c\<lparr>t_next := a, t_child := a, t_state := STATE_READY\<rparr>)
                 (put_task a new (s7\<lparr>last_pid := pid, s_fds := share_fds (t_fd_table c) (s_fds s7)\<rparr>))
           in switch_task (upd_frame kstack (\<lambda>g. g\<lparr>rax := 0\<rparr>) (upd_frame f (\<lambda>g. g\<lparr>rax := word_of_int pid\<rparr>) s8))))))"

definition create_kworker :: "u64 \<Rightarrow> u64 \<Rightarrow> u64 \<Rightarrow> 'w sched \<Rightarrow> (int \<times> 'w sched) outcome" where
  "create_kworker kworker_trampoline function arg s =
     (if last_pid s = PID_MAX then Panic
      else bind_outcome (task_at s init_task) (\<lambda>i.
           bind_outcome (on_mem (clone_page_tables (base_pml4 s)) s) (\<lambda>(cr3, s1).
           bind_outcome (task_at s1 (current_task s1)) (\<lambda>c.
           case sched_kmalloc s1 of (a, s2) \<Rightarrow>
           case sched_kmalloc s2 of (kstack, s3) \<Rightarrow>
           case sched_kmalloc s3 of (fpu, s4) \<Rightarrow>
           let pid = last_pid s4 + 1;
               f = zero_iframe\<lparr>rip := kworker_trampoline, rdi := function, rsi := arg, rflags := 0x200, cs := KERNEL_CS,
                     rsp := word_of_nat kstack, ss := 0x10\<rparr>;
               new = i\<lparr>t_state := STATE_READY, t_cr3 := cr3, t_kernel_stack := kstack, t_iframe := kstack, t_fpu_state := fpu,
                       t_is_kworker := True, t_next := t_next c, t_child := 0, t_next_sibling := 0, t_pid := pid, t_parent := 0\<rparr>
           in Ret (pid, put_task (current_task s4) (c\<lparr>t_next := a\<rparr>)
                (put_task a new (upd_frame kstack (\<lambda>_. f) (s4\<lparr>last_pid := pid\<rparr>))))))))"

definition kworker_exit :: "'w sched \<Rightarrow> (bool \<times> 'w sched) outcome" where
  "kworker_exit s =
     bind_outcome (task_at s (current_task s)) (\<lambda>t.
       if \<not> t_is_kworker t then Ret (True, s)
       else bind_outcome (switch_task (put_task (current_task s) (t\<lparr>t_state := STATE_DELETED\<rparr>) s)) (\<lambda>s1. Ret (False, s1)))"

section \<open>Sleeping and waiting\<close>

definition sleep :: "u64 \<Rightarrow> nat \<Rightarrow> 'w sched \<Rightarrow> (u64 option \<times> 'w sched) outcome" where
  "sleep ms f s =
     (if ms = 0 then Ret (Some 0, s)
      else bind_outcome (task_at s (current_task s)) (\<lambda>t.
        let s1 = upd_frame (t_iframe t) (\<lambda>g. g\<lparr>rax := 0\<rparr>)
              (put_task (current_task s) (t\<lparr>t_state := STATE_BLOCKED, t_block_reason := BLOCK_DELAY, t_blocked_ticks := ms\<rparr>) s)
        in bind_outcome (run_next f s1) (\<lambda>(back, s2). Ret (if back then Some 0 else None, s2))))"

definition WNOHANG :: u32 where [flag_simps]: "WNOHANG = 1"
definition WUNTRACED :: u32 where [flag_simps]: "WUNTRACED = 2"
definition WCONTINUED :: u32 where [flag_simps]: "WCONTINUED = 4"

definition W_EXITCODE :: "int \<Rightarrow> int \<Rightarrow> u32" where
  "W_EXITCODE status sig = push_bit 8 (word_of_int status) OR word_of_int sig"

definition W_STOPCODE :: "int \<Rightarrow> u32" where
  "W_STOPCODE sig = push_bit 8 (word_of_int sig) OR 0x7f"

definition W_CONTINUED :: u32 where "W_CONTINUED = 0xffff"

definition exit_status :: "int \<Rightarrow> u32" where
  "exit_status rc = (if rc \<ge> 0 then W_EXITCODE rc 0 else W_EXITCODE 0 (- rc))"

definition waitable :: "u32 \<Rightarrow> task \<Rightarrow> bool" where
  "waitable flags t \<longleftrightarrow> t_state t = STATE_ZOMBIE \<or> flags AND WUNTRACED \<noteq> 0 \<and> t_waitpid_event t = 1 \<or>
     flags AND WCONTINUED \<noteq> 0 \<and> t_waitpid_event t = 2"

fun first_waitable :: "nat \<Rightarrow> u32 \<Rightarrow> nat \<Rightarrow> 'w sched \<Rightarrow> nat outcome" where
  "first_waitable 0 flags c s = Blocks"
| "first_waitable (Suc n) flags c s =
     (if c = 0 then Ret 0
      else bind_outcome (task_at s c) (\<lambda>t. if waitable flags t then Ret c else first_waitable n flags (t_next_sibling t) s))"

definition get_first_waitpid_target :: "nat \<Rightarrow> u32 \<Rightarrow> 'w sched \<Rightarrow> nat outcome" where
  "get_first_waitpid_target a flags s = bind_outcome (task_at s a) (\<lambda>t. first_waitable (ring_fuel s) flags (t_child t) s)"

text \<open>\<open>if (wstatus) *wstatus = v;\<close>\<close>

definition put_status :: "u64 \<Rightarrow> u32 \<Rightarrow> 'w sched \<Rightarrow> 'w sched outcome" where
  "put_status wstatus v s = (if wstatus = 0 then Ret s else store_user wstatus (le_bytes 4 (ucast v)) s)"

text \<open>The report of a child, the same in both branches of \<open>waitpid\<close>: \<open>Some pid\<close> when there is something to
  report.\<close>

definition report_child :: "nat \<Rightarrow> u64 \<Rightarrow> u32 \<Rightarrow> 'w sched \<Rightarrow> (int option \<times> 'w sched) outcome" where
  "report_child c wstatus options s =
     bind_outcome (task_at s c) (\<lambda>t.
       if t_state t = STATE_ZOMBIE then
         bind_outcome (put_status wstatus (exit_status (t_return_code t)) s) (\<lambda>s1.
         bind_outcome (upd_task c (\<lambda>t. t\<lparr>t_state := STATE_DELETED\<rparr>) s1) (\<lambda>s2. Ret (Some (t_pid t), s2)))
       else if options AND WUNTRACED \<noteq> 0 \<and> t_waitpid_event t = 1 then
         bind_outcome (put_status wstatus (W_STOPCODE (t_stop_signal t)) s) (\<lambda>s1.
         bind_outcome (upd_task c (\<lambda>t. t\<lparr>t_waitpid_event := 0\<rparr>) s1) (\<lambda>s2. Ret (Some (t_pid t), s2)))
       else if options AND WCONTINUED \<noteq> 0 \<and> t_waitpid_event t = 2 then
         bind_outcome (put_status wstatus W_CONTINUED s) (\<lambda>s1.
         bind_outcome (upd_task c (\<lambda>t. t\<lparr>t_waitpid_event := 0\<rparr>) s1) (\<lambda>s2. Ret (Some (t_pid t), s2)))
       else Ret (None, s))"

text \<open>The end of both branches: return, or block on \<open>target\<close>, 0 for any child.\<close>

definition wait_block :: "nat \<Rightarrow> u64 \<Rightarrow> u32 \<Rightarrow> nat \<Rightarrow> 'w sched \<Rightarrow> (int option \<times> 'w sched) outcome" where
  "wait_block target wstatus options f s =
     (if options AND WNOHANG \<noteq> 0 then Ret (Some 0, s)
      else bind_outcome (task_at s (current_task s)) (\<lambda>t.
        if has_pending_signals t then Ret (Some (- EINTR), s)
        else bind_outcome (run_next f (put_task (current_task s) (t\<lparr>t_state := STATE_BLOCKED, t_block_reason := BLOCK_WAITPID,
               t_blocked_process := target, t_wstatus := wstatus, t_waitpid_flags := options\<rparr>) s)) (\<lambda>(back, s1).
          Ret (if back then Some (- ENOSYS) else None, s1))))"

definition waitpid :: "int \<Rightarrow> u64 \<Rightarrow> u32 \<Rightarrow> nat \<Rightarrow> 'w sched \<Rightarrow> (int option \<times> 'w sched) outcome" where
  "waitpid pid wstatus options f s =
     (if pid > 0 then
        bind_outcome (get_child (current_task s) pid s) (\<lambda>c.
          if c = 0 then Ret (Some (- ESRCH), s)
          else bind_outcome (report_child c wstatus options s) (\<lambda>(r, s1).
            if r \<noteq> None then Ret (r, s1) else wait_block c wstatus options f s1))
      else
        bind_outcome (get_first_waitpid_target (current_task s) options s) (\<lambda>c.
          if c = 0 then wait_block 0 wstatus options f s
          else bind_outcome (report_child c wstatus options s) (\<lambda>(r, s1).
            if r \<noteq> None then Ret (r, s1) else wait_block 0 wstatus options f s1)))"

section \<open>Waking blocked tasks\<close>

definition wake :: "nat \<Rightarrow> 'w sched \<Rightarrow> 'w sched outcome" where
  "wake a s = upd_task a (\<lambda>t. t\<lparr>t_state := STATE_READY, t_block_reason := BLOCK_NONE\<rparr>) s"

definition set_rax :: "nat \<Rightarrow> u64 \<Rightarrow> 'w sched \<Rightarrow> 'w sched outcome" where
  "set_rax a v s = bind_outcome (task_at s a) (\<lambda>t. Ret (upd_frame (t_iframe t) (\<lambda>g. g\<lparr>rax := v\<rparr>) s))"

definition check_delay :: "bool \<Rightarrow> nat \<Rightarrow> task \<Rightarrow> 'w sched \<Rightarrow> 'w sched outcome" where
  "check_delay reduce a t s =
     (let ticks = (if reduce then t_blocked_ticks t - 1 else t_blocked_ticks t);
          s1 = put_task a (t\<lparr>t_blocked_ticks := ticks\<rparr>) s
      in bind_outcome (if ticks = 0 then wake a s1 else Ret s1) (\<lambda>s2.
         bind_outcome (task_at s2 a) (\<lambda>u.
           if has_pending_signals u
           then bind_outcome (wake a s2) (\<lambda>s3. bind_outcome (set_rax a (t_blocked_ticks u) s3) (\<lambda>s4.
                  upd_task a (\<lambda>t. t\<lparr>t_blocked_ticks := 0\<rparr>) s4))
           else Ret s2)))"

text \<open>The address space of the waiting task is put in place for the store of its status.\<close>

definition in_space :: "u64 \<Rightarrow> ('w sched \<Rightarrow> 'w sched outcome) \<Rightarrow> 'w sched \<Rightarrow> 'w sched outcome" where
  "in_space cr3 f s =
     (let old_cr3 = pml4_physical (s_mem s) in
      bind_outcome (f (s\<lparr>s_mem := change_pml4 cr3 (s_mem s)\<rparr>)) (\<lambda>s1. Ret (s1\<lparr>s_mem := change_pml4 old_cr3 (s_mem s1)\<rparr>)))"

text \<open>A task that waits for the child \<open>b\<close>.\<close>

definition check_wait_one :: "nat \<Rightarrow> task \<Rightarrow> nat \<Rightarrow> 'w sched \<Rightarrow> 'w sched outcome" where
  "check_wait_one a t b s =
     bind_outcome (task_at s b) (\<lambda>x.
     let zombie = t_state x = STATE_ZOMBIE;
         stopped = t_waitpid_event x = 1 \<and> t_waitpid_flags t AND WUNTRACED \<noteq> 0;
         continued = t_waitpid_event x = 2 \<and> t_waitpid_flags t AND WCONTINUED \<noteq> 0;
         unblock = zombie \<or> stopped \<or> continued
     in bind_outcome (in_space (t_cr3 t) (\<lambda>s1.
            if zombie then bind_outcome (put_status (t_wstatus t) (exit_status (t_return_code x)) s1)
              (upd_task b (\<lambda>x. x\<lparr>t_state := STATE_DELETED\<rparr>))
            else if stopped then bind_outcome (put_status (t_wstatus t) (W_STOPCODE (t_stop_signal x)) s1)
              (upd_task b (\<lambda>x. x\<lparr>t_waitpid_event := 0\<rparr>))
            else if continued then bind_outcome (put_status (t_wstatus t) W_CONTINUED s1)
              (upd_task b (\<lambda>x. x\<lparr>t_waitpid_event := 0\<rparr>))
            else Ret s1) s) (\<lambda>s2.
        if \<not> unblock \<and> \<not> has_pending_signals t then Ret s2
        else bind_outcome (wake a s2) (\<lambda>s3.
             bind_outcome (set_rax a (if unblock then word_of_int (t_pid x) else word_of_int (- EINTR)) s3)
               (upd_task a (\<lambda>t. t\<lparr>t_blocked_process := 0\<rparr>)))))"

text \<open>A task that waits for any child.  A zombie is marked deleted only when there is a status pointer, and
  the status of a stopped child is made from the stop signal of the waiting task.\<close>

definition check_wait_any :: "nat \<Rightarrow> task \<Rightarrow> 'w sched \<Rightarrow> 'w sched outcome" where
  "check_wait_any a t s =
     bind_outcome (get_first_waitpid_target a (t_waitpid_flags t) s) (\<lambda>b.
       if b = 0 then
         if has_pending_signals t then bind_outcome (wake a s) (set_rax a (word_of_int (- EINTR))) else Ret s
       else bind_outcome (task_at s b) (\<lambda>x.
         let zombie = t_state x = STATE_ZOMBIE;
             stopped = t_waitpid_event x = 1 \<and> t_waitpid_flags t AND WUNTRACED \<noteq> 0;
             continued = t_waitpid_event x = 2 \<and> t_waitpid_flags t AND WCONTINUED \<noteq> 0;
             unblock = zombie \<or> stopped \<or> continued
         in bind_outcome (in_space (t_cr3 t) (\<lambda>s1.
                if zombie then
                  if t_wstatus t = 0 then Ret s1
                  else bind_outcome (put_status (t_wstatus t) (exit_status (t_return_code x)) s1)
                    (upd_task b (\<lambda>x. x\<lparr>t_state := STATE_DELETED\<rparr>))
                else if stopped then bind_outcome (put_status (t_wstatus t) (W_STOPCODE (t_stop_signal t)) s1)
                  (upd_task b (\<lambda>x. x\<lparr>t_waitpid_event := 0\<rparr>))
                else if continued then bind_outcome (put_status (t_wstatus t) W_CONTINUED s1)
                  (upd_task b (\<lambda>x. x\<lparr>t_waitpid_event := 0\<rparr>))
                else Ret s1) s) (\<lambda>s2.
            if \<not> unblock then Ret s2
            else bind_outcome (wake a s2) (set_rax a (word_of_int (t_pid x))))))"

definition check_task :: "bool \<Rightarrow> nat \<Rightarrow> 'w sched \<Rightarrow> 'w sched outcome" where
  "check_task reduce a s =
     bind_outcome (task_at s a) (\<lambda>t.
       if t_state t \<noteq> STATE_BLOCKED then Ret s
       else case t_block_reason t of
         BLOCK_DELAY \<Rightarrow> check_delay reduce a t s
       | BLOCK_WAITPID \<Rightarrow> if t_blocked_process t \<noteq> 0 then check_wait_one a t (t_blocked_process t) s else check_wait_any a t s
       | BLOCK_NONE \<Rightarrow> Ret s)"

definition check_blocked_tasks :: "bool \<Rightarrow> 'w sched \<Rightarrow> 'w sched outcome" where
  "check_blocked_tasks reduce_ticks s = ring_each (ring_fuel s) (check_task reduce_ticks) init_task s"

text \<open>The timer interrupt; the clock and the interrupt controller are elsewhere.\<close>

definition irq0_handler :: "nat \<Rightarrow> 'w sched \<Rightarrow> (bool \<times> 'w sched) outcome" where
  "irq0_handler f s =
     bind_outcome (check_blocked_tasks True s) (\<lambda>s1.
     let s2 = s1\<lparr>ticks_remaining := ticks_remaining s1 - 1\<rparr> in
     bind_outcome (task_at s2 (current_task s2)) (\<lambda>c.
       if ticks_remaining s2 \<le> 0 \<and> (cs (frames s2 f) = USER_CS \<or> t_is_kworker c) then run_next f s2 else Ret (True, s2)))"

section \<open>Programs\<close>

record spawn_action =
  sa_action :: nat
  sa_oldfd :: int
  sa_newfd :: int
  sa_how :: nat
  sa_sigmask :: u32
  sa_pgid :: int

definition SPAWN_DUP2 :: nat where "SPAWN_DUP2 = 0"
definition SPAWN_SIGMASK :: nat where "SPAWN_SIGMASK = 1"
definition SPAWN_SETPGID :: nat where "SPAWN_SETPGID = 2"
definition SPAWN_SETSID :: nat where "SPAWN_SETSID = 3"

fun load_bytes :: "paging \<Rightarrow> u64 \<Rightarrow> nat \<Rightarrow> byte list outcome" where
  "load_bytes m a 0 = Ret []"
| "load_bytes m a (Suc n) = bind_outcome (load_byte m a) (\<lambda>b. bind_outcome (load_bytes m (a + 1) n) (\<lambda>bs. Ret (b # bs)))"

text \<open>The characters of a string in user memory, without the terminator; the checks before limit its
  length.\<close>

fun load_string :: "nat \<Rightarrow> paging \<Rightarrow> u64 \<Rightarrow> byte list outcome" where
  "load_string 0 m a = Blocks"
| "load_string (Suc n) m a =
     bind_outcome (load_byte m a) (\<lambda>b. if b = 0 then Ret [] else bind_outcome (load_string n m (a + 1)) (\<lambda>bs. Ret (b # bs)))"

definition MAX_STRING :: nat where "MAX_STRING = 0x10000"

definition int32 :: "nat \<Rightarrow> int" where
  "int32 n = sint (word_of_nat n :: u32)"

definition load_action :: "paging \<Rightarrow> u64 \<Rightarrow> spawn_action outcome" where
  "load_action m a =
     bind_outcome (load_bytes m a 28) (\<lambda>bs.
       Ret \<lparr>sa_action = field bs 0 8, sa_oldfd = int32 (field bs 8 4), sa_newfd = int32 (field bs 12 4),
            sa_how = field bs 16 4, sa_sigmask = word_of_nat (field bs 20 4), sa_pgid = int32 (field bs 24 4)\<rparr>)"

definition mask_how_of :: "nat \<Rightarrow> mask_how" where
  "mask_how_of n = (if n = 0 then SIG_BLOCK else if n = 1 then SIG_UNBLOCK else if n = 2 then SIG_SETMASK else SIG_how_other)"

text \<open>The loops that check a null-terminated array of pointers, of at most \<open>n\<close> elements; \<open>chk\<close> checks what
  an element points to.\<close>

fun scan_array ::
  "(u64 \<Rightarrow> paging \<Rightarrow> (int \<times> paging) outcome) \<Rightarrow> nat \<Rightarrow> u64 \<Rightarrow> paging \<Rightarrow> ((int + u64 list) \<times> paging) outcome" where
  "scan_array chk 0 p m = Ret (Inr [], m)"
| "scan_array chk (Suc n) p m =
     bind_outcome (validate_user_pointer p 8 False m) (\<lambda>(r, m1).
       if r < 0 then Ret (Inl r, m1)
       else bind_outcome (load_bytes m1 p 8) (\<lambda>bs.
         let q = word_of_nat (le_nat bs) in
         if q = 0 then Ret (Inr [], m1)
         else bind_outcome (chk q m1) (\<lambda>(r2, m2).
           if r2 < 0 then Ret (Inl r2, m2)
           else bind_outcome (scan_array chk n (p + 8) m2) (\<lambda>(qs, m3).
             Ret (case qs of Inl e \<Rightarrow> Inl e | Inr l \<Rightarrow> Inr (q # l), m3)))))"

definition ARG_LIMIT :: nat where "ARG_LIMIT = 8192"

definition scan_strings :: "u64 \<Rightarrow> u64 list \<Rightarrow> paging \<Rightarrow> ((int + u64 list) \<times> paging) outcome" where
  "scan_strings p dflt m =
     (if p = 0 then Ret (Inr dflt, m)
      else bind_outcome (scan_array (\<lambda>q. validate_user_string q MAX_STRING) ARG_LIMIT p m) (\<lambda>(r, m1).
        Ret (case r of Inl e \<Rightarrow> Inl e | Inr l \<Rightarrow> if length l = ARG_LIMIT then Inl (- EINVAL) else Inr l, m1)))"

definition scan_actions :: "u64 \<Rightarrow> paging \<Rightarrow> ((int + u64 list) \<times> paging) outcome" where
  "scan_actions p m = (if p = 0 then Ret (Inr [], m) else scan_array (\<lambda>q. validate_user_pointer q 28 False) ARG_LIMIT p m)"

fun load_strings :: "paging \<Rightarrow> u64 list \<Rightarrow> byte list list outcome" where
  "load_strings m [] = Ret []"
| "load_strings m (p # ps) =
     bind_outcome (load_string (Suc MAX_STRING) m p) (\<lambda>x. bind_outcome (load_strings m ps) (\<lambda>xs. Ret (x # xs)))"

text \<open>The spawn actions, in the name of the new task \<open>a\<close>.\<close>

fun run_actions :: "nat \<Rightarrow> int \<Rightarrow> u64 list \<Rightarrow> 'w sched \<Rightarrow> (int \<times> 'w sched) outcome" where
  "run_actions a pid [] s = Ret (0, s)"
| "run_actions a pid (p # ps) s =
     bind_outcome (load_action (s_mem s) p) (\<lambda>x.
     bind_outcome
       (if sa_action x = SPAWN_DUP2 then with_fds a (\<lambda>d. dup2 d (sa_oldfd x) (sa_newfd x)) s
        else if sa_action x = SPAWN_SIGMASK then
          bind_outcome (sigprocmask a (mask_how_of (sa_how x)) (Some (sa_sigmask x)) s) (\<lambda>((r, old), s1). Ret (r, s1))
        else if sa_action x = SPAWN_SETPGID then setpgid a pid (sa_pgid x) s
        else if sa_action x = SPAWN_SETSID then setsid a s
        else Ret (- EINVAL, s)) (\<lambda>(r, s1).
       if r < 0 then Ret (r, s1) else run_actions a pid ps s1))"

fun close_cloexec :: "nat list \<Rightarrow> 'w fds \<Rightarrow> 'w fds outcome" where
  "close_cloexec [] d = Ret d"
| "close_cloexec (k # ks) d =
     (let e = fd_table d ! k in
      case fde_fd e of
        None \<Rightarrow> close_cloexec ks d
      | Some i \<Rightarrow>
          if fde_flags e AND O_CLOEXEC = 0 then close_cloexec ks d
          else let d1 = upd_desc i (\<lambda>x. x\<lparr>d_refcount := d_refcount x - 1\<rparr>) d in
            bind_outcome (if d_refcount (Fd.desc d1 i) = 0 then bind_outcome (close_file_description d1 i) (\<lambda>(r, d2). Ret d2) else Ret d1)
              (\<lambda>d2. close_cloexec ks (set_entry k no_entry d2)))"

text \<open>Strings and words pushed onto the user stack, the last one first; the result holds their addresses.\<close>

fun push_strings :: "byte list list \<Rightarrow> u64 \<Rightarrow> paging \<Rightarrow> (u64 list \<times> u64 \<times> paging) outcome" where
  "push_strings [] sp m = Ret ([], sp, m)"
| "push_strings (x # xs) sp m =
     bind_outcome (push_strings xs sp m) (\<lambda>(ps, sp1, m1).
       let sp2 = sp1 - word_of_nat (length x + 1) in
       bind_outcome (store_bytes sp2 (x @ [0]) m1) (\<lambda>m2. Ret (sp2 # ps, sp2, m2)))"

fun push_words :: "u64 list \<Rightarrow> u64 \<Rightarrow> paging \<Rightarrow> (u64 \<times> paging) outcome" where
  "push_words [] sp m = Ret (sp, m)"
| "push_words (x # xs) sp m =
     bind_outcome (push_words xs sp m) (\<lambda>(sp1, m1).
       bind_outcome (store_bytes (sp1 - 8) (le_bytes 8 x) m1) (\<lambda>m2. Ret (sp1 - 8, m2)))"

definition USER_STACK :: u64 where "USER_STACK = 0x10000000000"

text \<open>The stack of the new program: the arguments and the environment, then their addresses, then the
  number of arguments.\<close>

definition build_stack :: "byte list list \<Rightarrow> byte list list \<Rightarrow> u64 \<Rightarrow> paging \<Rightarrow> (u64 \<times> paging) outcome" where
  "build_stack args env vvar m =
     bind_outcome (alloc_zero_region USER_STACK (4096 * 128) (FLAGS_USER OR FLAGS_RW) m) (\<lambda>(r, m1).
     bind_outcome (alloc_mmio_region (USER_STACK + 4096 * 128) vvar 32 FLAGS_USER m1) (\<lambda>(r, m2).
     bind_outcome (push_strings env (USER_STACK + 4096 * 128) m2) (\<lambda>(eps, sp, m3).
     bind_outcome (push_strings args sp m3) (\<lambda>(aps, sp1, m4).
     bind_outcome (push_words (eps @ [0]) sp1 m4) (\<lambda>(sp2, m5).
     bind_outcome (push_words (aps @ [0]) sp2 m5) (\<lambda>(sp3, m6).
       push_words [word_of_nat (length args)] sp3 m6))))))"

text \<open>A call into the file system in the name of the current task.\<close>

definition with_vfs :: "('w vfs \<Rightarrow> ('a \<times> 'w vfs) outcome) \<Rightarrow> 'w sched \<Rightarrow> ('a \<times> 'w sched) outcome" where
  "with_vfs f s = with_fds (current_task s) (\<lambda>d. bind_outcome (f (fd_vfs d)) (\<lambda>(x, v). Ret (x, d\<lparr>fd_vfs := v\<rparr>))) s"

text \<open>The program of the new task \<open>a\<close>, loaded into the address space that is in place: the entry point, or
  the error.\<close>

definition load_program :: "bool \<Rightarrow> byte list \<Rightarrow> string \<Rightarrow> nat \<Rightarrow> 'w sched \<Rightarrow> ((int + u64) \<times> 'w sched) outcome" where
  "load_program nx junk kpath a s =
     bind_outcome (with_vfs (\<lambda>v. stat v kpath) s) (\<lambda>((res, st), s1).
       if res < 0 then Ret (Inl res, s1)
       else if st_type st = DT_DIR then Ret (Inl (- EISDIR), s1)
       else bind_outcome (with_vfs (\<lambda>v. lookup v kpath) s1) (\<lambda>(l, s2). case l of
         Inl e \<Rightarrow> Ret (Inl e, s2)
       | Inr file \<Rightarrow>
           bind_outcome (with_vfs (\<lambda>v. is_compatible_binary junk v file) s2) (\<lambda>(ok, s3).
             if \<not> ok then Ret (Inl (- ENOEXEC), s3)
             else bind_outcome (load_elf nx junk file (fd_vfs (s_fds s3)) (s_mem s3)) (\<lambda>((entry, brk), v, m).
               let s4 = s3\<lparr>s_fds := (s_fds s3)\<lparr>fd_vfs := v\<rparr>, s_mem := m\<rparr> in
               if entry = 0 then Ret (Inl (- ENOEXEC), s4)
               else case brk of None \<Rightarrow> Ret (Inr entry, s4)
                 | Some b \<Rightarrow> bind_outcome (upd_task a (\<lambda>t. t\<lparr>t_initial_brk := b, t_brk := b\<rparr>) s4) (\<lambda>s5. Ret (Inr entry, s5))))))"

text \<open>The end of \<open>add_task\<close>: stack, kernel stack, FPU states and the links to the parent.\<close>

definition finish_task :: "nat \<Rightarrow> nat \<Rightarrow> u64 \<Rightarrow> byte list list \<Rightarrow> byte list list \<Rightarrow> nat \<Rightarrow> 'w sched \<Rightarrow> 'w sched outcome" where
  "finish_task a parent entry args env f s =
     bind_outcome (on_mem (build_stack args env (vvar_paddr s)) s) (\<lambda>(sp, s1).
     case sched_kmalloc s1 of (kstack, s2) \<Rightarrow>
     case sched_kmalloc s2 of (fpu, s3) \<Rightarrow>
     case sched_kmalloc s3 of (ifpu, s4) \<Rightarrow>
     bind_outcome (task_at s4 parent) (\<lambda>p.
     bind_outcome (upd_task a (\<lambda>t. t\<lparr>t_kernel_stack := kstack, t_iframe := kstack, t_fpu_state := fpu,
           t_signal_interrupted_fpu_state := ifpu, t_next := t_next p, t_next_sibling := t_child p, t_child := 0, t_parent := parent\<rparr>)
         (upd_frame kstack (\<lambda>_. (frames s4 f)\<lparr>rsp := sp, rip := entry\<rparr>) s4))
       (upd_task parent (\<lambda>p. p\<lparr>t_next := a, t_child := a\<rparr>))))"

text \<open>The result is the process id or an error, and the new task.  The kernel copies of the strings are
  freed when they have been pushed; on the error paths they and the new task are not.\<close>

definition add_task ::
  "bool \<Rightarrow> byte list \<Rightarrow> u64 \<Rightarrow> u64 \<Rightarrow> u64 \<Rightarrow> nat \<Rightarrow> int \<Rightarrow> u64 \<Rightarrow> nat \<Rightarrow> 'w sched \<Rightarrow> ((int \<times> nat) \<times> 'w sched) outcome" where
  "add_task nx junk path argv envp parent pid actions f s =
     bind_outcome (load_string (Suc MAX_PATH) (s_mem s) path) (\<lambda>kp.
     let kpath = map (char_of \<circ> unat) kp in
     bind_outcome (on_mem (scan_strings argv [path]) s) (\<lambda>(r1, s1). case r1 of Inl e \<Rightarrow> Ret ((e, 0), s1) | Inr av \<Rightarrow>
     bind_outcome (on_mem (scan_strings envp []) s1) (\<lambda>(r2, s2). case r2 of Inl e \<Rightarrow> Ret ((e, 0), s2) | Inr ev \<Rightarrow>
     bind_outcome (on_mem (scan_actions actions) s2) (\<lambda>(r3, s3). case r3 of Inl e \<Rightarrow> Ret ((e, 0), s3) | Inr acts \<Rightarrow>
     bind_outcome (load_strings (s_mem s3) av) (\<lambda>args.
     bind_outcome (load_strings (s_mem s3) ev) (\<lambda>env.
     bind_outcome (task_at s3 (current_task s3)) (\<lambda>c.
     case sched_kmalloc s3 of (a, s4) \<Rightarrow>
     bind_outcome (on_mem (clone_page_tables (base_pml4 s4)) s4) (\<lambda>(cr3, s5).
     let s6 = put_task a (c\<lparr>t_state := STATE_READY, t_in_signal := False, t_cr3 := cr3, t_pid := pid\<rparr>)
           (s5\<lparr>s_fds := share_fds (t_fd_table c) (s_fds s5)\<rparr>) in
     bind_outcome (run_actions a pid acts s6) (\<lambda>(r, s7). if r < 0 then Ret ((r, 0), s7) else
     bind_outcome (with_fds a (\<lambda>d. bind_outcome (close_cloexec [0..<MAX_FDS] d) (\<lambda>d1. Ret ((), d1))) s7) (\<lambda>(u, s8).
     let old_cr3 = pml4_physical (s_mem s8) in
     bind_outcome (load_program nx junk kpath a (s8\<lparr>s_mem := change_pml4 cr3 (s_mem s8)\<rparr>)) (\<lambda>(l, s9). case l of
       Inl e \<Rightarrow> Ret ((e, 0), s9\<lparr>s_mem := change_pml4 old_cr3 (s_mem s9)\<rparr>)
     | Inr entry \<Rightarrow> bind_outcome (finish_task a parent entry args env f s9) (\<lambda>s10. Ret ((pid, a), s10)))))))))))))"

definition spawn :: "bool \<Rightarrow> byte list \<Rightarrow> u64 \<Rightarrow> u64 \<Rightarrow> u64 \<Rightarrow> u64 \<Rightarrow> nat \<Rightarrow> 'w sched \<Rightarrow> (int option \<times> 'w sched) outcome" where
  "spawn nx junk path argv envp actions f s =
     (if last_pid s = PID_MAX then Panic
      else bind_outcome (upd_task (current_task s) (\<lambda>t. t\<lparr>t_iframe := f\<rparr>) (s\<lparr>last_pid := last_pid s + 1\<rparr>)) (\<lambda>s1.
           bind_outcome (add_task nx junk path argv envp (current_task s1) (last_pid s1) actions f s1) (\<lambda>((res, a), s2).
             if res \<noteq> last_pid s2 then Ret (Some res, s2)
             else bind_outcome (upd_task (current_task s2) (\<lambda>t. t\<lparr>t_state := STATE_READY\<rparr>) s2) (\<lambda>s3.
                  bind_outcome (switch_task (upd_frame f (\<lambda>g. g\<lparr>rax := word_of_int res\<rparr>) s3)) (\<lambda>s4. Ret (None, s4))))))"

text \<open>The loop of \<open>execve\<close> over all tasks: whoever waits for the old task now waits for the new one.\<close>

definition redirect_waiter :: "nat \<Rightarrow> nat \<Rightarrow> nat \<Rightarrow> 'w sched \<Rightarrow> 'w sched outcome" where
  "redirect_waiter old new a s =
     upd_task a (\<lambda>t. t\<lparr>t_blocked_process := (if t_blocked_process t = old then new else t_blocked_process t)\<rparr>) s"

definition execve :: "bool \<Rightarrow> byte list \<Rightarrow> u64 \<Rightarrow> u64 \<Rightarrow> u64 \<Rightarrow> nat \<Rightarrow> 'w sched \<Rightarrow> (int option \<times> 'w sched) outcome" where
  "execve nx junk path argv envp f s =
     bind_outcome (task_at s (current_task s)) (\<lambda>c.
     bind_outcome (add_task nx junk path argv envp (t_parent c) (t_pid c) 0 f s) (\<lambda>((res, new), s1).
       if res \<noteq> t_pid c then Ret (Some res, s1)
       else bind_outcome (upd_task (current_task s1) (\<lambda>t. t\<lparr>t_state := STATE_DELETED\<rparr>) s1) (\<lambda>s2.
            bind_outcome (ring_each (ring_fuel s2) (redirect_waiter (current_task s2) new) init_task s2) (\<lambda>s3.
            bind_outcome (with_fds (current_task s3) (\<lambda>d. bind_outcome (release_process_fds d) (\<lambda>d1. Ret ((), d1))) s3) (\<lambda>(u, s4).
            bind_outcome (task_at s4 (current_task s4)) (\<lambda>t.
            bind_outcome (reparent (ring_fuel s4) new (t_child t) s4) (\<lambda>s5.
            bind_outcome (switch_task s5) (\<lambda>s6. Ret (None, s6)))))))))"

section \<open>Starting\<close>

text \<open>The static tasks \<open>idle_task\<close> and \<open>init_task\<close>; what has no initialiser is zero.\<close>

definition static_task :: "int \<Rightarrow> int \<Rightarrow> nat \<Rightarrow> task" where
  "static_task pid gid self = \<lparr>t_kernel_stack = 0, t_iframe = 0, t_signal_interrupted_iframe = zero_iframe, t_pid = pid, t_pgid = gid,
     t_sid = gid, t_in_signal = False, t_state = STATE_READY, t_cr3 = 0, t_initial_brk = 0, t_brk = 0, t_fpu_state = 0,
     t_signal_interrupted_fpu_state = 0, t_wd = ''/'', t_fd_table = replicate MAX_FDS no_entry,
     t_signal_handlers = replicate 32 SIG_DFL, t_pending_signals = 0, t_signal_mask = 0, t_time_slice = PROCESS_TICKS,
     t_block_reason = BLOCK_NONE, t_blocked_ticks = 0, t_is_kworker = False, t_wstatus = 0, t_blocked_process = 0,
     t_waitpid_event = 0, t_waitpid_flags = 0, t_return_code = 0, t_stop_signal = 0, t_next = self, t_next_sibling = 0,
     t_parent = 0, t_child = 0\<rparr>"

definition boot_sched :: "'w fds \<Rightarrow> paging \<Rightarrow> 'w sched" where
  "boot_sched d m = \<lparr>tasks = [idle_task \<mapsto> static_task 0 0 idle_task, init_task \<mapsto> static_task 1 1 init_task],
     frames = (\<lambda>_. zero_iframe), fpus = (\<lambda>_. []), cpu_fpu = [], blocks = [], next_addr = 3, current_task = init_task,
     rr_task = init_task, last_pid = 1, scheduler_initialized = False, ticks_remaining = PROCESS_TICKS, base_pml4 = 0,
     vvar_paddr = 0, tss_rsp0 = 0, s_fds = d, s_mem = m\<rparr>"

text \<open>A copy to the kernel's view of a physical page.\<close>

fun put_bytes :: "u64 \<Rightarrow> u64 \<Rightarrow> byte list \<Rightarrow> paging \<Rightarrow> paging" where
  "put_bytes p off [] m = m"
| "put_bytes p off (b # bs) m = put_bytes p (off + 1) bs (put_byte p b off m)"

text \<open>\<open>idle\<close> is the address of the idle loop, \<open>sigtramp\<close> the machine code of the signal trampoline.\<close>

definition scheduler_init :: "u64 \<Rightarrow> byte list \<Rightarrow> 'w sched \<Rightarrow> 'w sched outcome" where
  "scheduler_init idle sigtramp s =
     (let s0 = s\<lparr>base_pml4 := pml4_physical (s_mem s)\<rparr> in
      bind_outcome (on_mem (clone_page_tables (base_pml4 s0)) s0) (\<lambda>(cr3, s1).
      case sched_kmalloc s1 of (kstack, s2) \<Rightarrow>
      case sched_kmalloc s2 of (fpu, s3) \<Rightarrow>
      bind_outcome (upd_task idle_task (\<lambda>t. t\<lparr>t_cr3 := cr3, t_kernel_stack := kstack, t_fpu_state := fpu, t_state := STATE_READY,
          t_iframe := kstack, t_is_kworker := True\<rparr>)
        (upd_frame kstack (\<lambda>f. f\<lparr>rip := idle, rflags := 0x200, cs := KERNEL_CS, rsp := word_of_nat kstack, ss := 0x10\<rparr>) s3)) (\<lambda>s4.
      bind_outcome (on_mem allocate_physical_page s4) (\<lambda>(v, s5).
        if length sigtramp > 16 then Panic
        else Ret (s5\<lparr>vvar_paddr := v, s_mem := put_bytes v 16 sigtramp (s_mem s5)\<rparr>)))))"

definition get_vvar_addr :: u64 where
  "get_vvar_addr = USER_STACK + 4096 * 128"

text \<open>The result is the user instruction pointer and stack pointer of the jump at the end.\<close>

definition run_init :: "bool \<Rightarrow> byte list \<Rightarrow> string \<Rightarrow> 'w sched \<Rightarrow> ((u64 \<times> u64) \<times> 'w sched) outcome" where
  "run_init nx junk path s =
     bind_outcome (on_mem (clone_page_tables (base_pml4 s)) s) (\<lambda>(cr3, s1).
     bind_outcome (upd_task init_task (\<lambda>t. t\<lparr>t_cr3 := cr3\<rparr>) (s1\<lparr>s_mem := change_pml4 cr3 (s_mem s1)\<rparr>)) (\<lambda>s2.
     bind_outcome (with_vfs (\<lambda>v. lookup v path) s2) (\<lambda>(l, s3). case l of
       Inl e \<Rightarrow> Panic
     | Inr file \<Rightarrow>
         bind_outcome (load_elf nx junk file (fd_vfs (s_fds s3)) (s_mem s3)) (\<lambda>((entry, brk), v, m).
           let s4 = s3\<lparr>s_fds := (s_fds s3)\<lparr>fd_vfs := v\<rparr>, s_mem := m\<rparr> in
           if entry = 0 then Panic
           else bind_outcome (upd_task init_task (\<lambda>t. let b = (case brk of None \<Rightarrow> t_initial_brk t | Some b \<Rightarrow> b) in
               t\<lparr>t_initial_brk := b, t_parent := init_task, t_brk := b\<rparr>) s4) (\<lambda>s5.
           bind_outcome (on_mem (alloc_zero_region USER_STACK (4096 * 128) (FLAGS_USER OR FLAGS_RW)) s5) (\<lambda>(r, s6).
           bind_outcome (on_mem (alloc_mmio_region (USER_STACK + 4096 * 128) (vvar_paddr s6) 32 FLAGS_USER) s6) (\<lambda>(r, s7).
           case sched_kmalloc s7 of (kstack, s8) \<Rightarrow>
           case sched_kmalloc s8 of (fpu, s9) \<Rightarrow>
           case sched_kmalloc s9 of (ifpu, s10) \<Rightarrow>
           bind_outcome (upd_task init_task (\<lambda>t. t\<lparr>t_kernel_stack := kstack, t_fpu_state := fpu,
               t_signal_interrupted_fpu_state := ifpu\<rparr>) s10) (\<lambda>s11.
             Ret ((entry, USER_STACK + 4096 * 128 - 16),
                  s11\<lparr>tss_rsp0 := kstack, current_task := init_task, scheduler_initialized := True\<rparr>)))))))))"

end
