(* ===== verification/Schedinv.thy ===== *)
theory Schedinv
  imports Scheduler
begin

text \<open>
  The invariant of the scheduler over all operations of \<open>kernel/usermode/scheduler.c\<close>: the tasks form a
  ring through \<open>init_task\<close> and every task is well-formed.  Operations that leave the ring alone are
  \<open>soft\<close>; creating a task inserts it into the ring, collecting deleted tasks removes them.  The step
  relation at the end has a rule per operation.
\<close>

section \<open>Operations that leave the ring alone\<close>

lemma soft_task_mask:
  "soft_task t (t\<lparr>t_signal_mask := x AND NOT (push_bit (SIGSTOP - 1) 1 OR push_bit (SIGKILL - 1) 1)\<rparr>)"
  by (simp add: soft_task_def task_ok_def bit_simps flag_simps)

lemma task_ok_handler:
  "task_ok t \<Longrightarrow> sig \<noteq> SIGKILL \<Longrightarrow> sig \<noteq> SIGSTOP \<Longrightarrow> task_ok (t\<lparr>t_signal_handlers := (t_signal_handlers t)[sig := h]\<rparr>)"
  by (simp add: task_ok_def)

lemma soft_sigprocmask: "post (sigprocmask a how x s) (softp s)"
  unfolding sigprocmask_def Let_def
  by (intro post_task_at) (cases x; cases how; simp only: option.case mask_how.case post_values softp_def snd_conv soft_refl soft_put [OF _ soft_task_mask])

lemma soft_sigaction: "post (sigaction sig new s) (softp s)"
  unfolding sigaction_def
  by (auto intro!: post_task_at soft_put task_ok_handler simp: softp_def soft_task_def split: option.splits)

lemma post_any: "(\<And>x. post (f x) Q) \<Longrightarrow> post (bind_outcome r f) Q"
  by (cases r) simp_all

lemma post_if: "(c \<Longrightarrow> post a Q) \<Longrightarrow> (\<not> c \<Longrightarrow> post b Q) \<Longrightarrow> post (if c then a else b) Q"
  by simp

lemma soft_setpgid: "post (setpgid a pid pgid s) (softp s)"
  unfolding setpgid_def Let_def
  by (intro post_task_at post_any post_if) (simp_all add: softp_def soft_put soft_task_def)

lemma soft_setsid: "post (setsid a s) (softp s)"
  unfolding setsid_def by (auto intro!: post_task_at soft_put simp: softp_def soft_task_def)

lemma soft_child_signal [soft_rules]: "post (child_signal p s) (soft s)"
  unfolding child_signal_def by (auto intro!: soft_upd_task simp: soft_task_def)

lemma soft_signal_task [soft_rules]: "post (signal_task a sig s) (soft s)"
  unfolding signal_task_def
  by (auto intro!: soft_bind soft_upd_task post_task_at soft_from [OF soft_put soft_child_signal] simp: soft_task_def)

lemma soft_signal_loop: "post (signal_loop n P sig a found s) (softp s)"
proof (induction n arbitrary: a found s)
  case (Suc n)
  show ?case unfolding signal_loop.simps Let_def
    by (intro post_task_at soft_bindp) (auto intro!: post_task_at soft_signal_task Suc.IH simp: softp_def)
qed simp

lemma soft_kill: "post (kill pid sig s) (softp s)"
  unfolding kill_def Let_def
  by (auto intro!: post_task_at softp_bindp [OF soft_signal_loop] simp: softp_def)

lemma soft_raise: "post (raise sig s) (softp s)"
  unfolding raise_def by (auto intro!: soft_bindp soft_signal_task simp: softp_def)

lemma soft_put_status [soft_rules]: "post (put_status w v s) (soft s)"
  unfolding put_status_def by (auto intro: soft_store_user)

lemma soft_report_child: "post (report_child c w opt s) (softp s)"
  unfolding report_child_def
  by (auto intro!: post_task_at soft_bindp soft_put_status soft_upd_task simp: softp_def soft_task_def)

lemma soft_wake [soft_rules]: "post (wake a s) (soft s)"
  unfolding wake_def by (rule soft_upd_task) (simp add: soft_task_def)

lemma soft_set_rax [soft_rules]: "post (set_rax a v s) (soft s)"
  unfolding set_rax_def by (auto intro!: post_task_at)

lemma soft_check_delay: "tasks s a = Some t \<Longrightarrow> post (check_delay r a t s) (soft s)"
  unfolding check_delay_def Let_def
  by (rule soft_from [OF soft_put, of s a t "t\<lparr>t_blocked_ticks := if r then t_blocked_ticks t - 1 else t_blocked_ticks t\<rparr>"])
    (auto intro!: soft_bind soft_wake post_task_at soft_set_rax soft_upd_task simp: soft_task_def)

lemma soft_in_space: "(\<And>s. post (f s) (soft s)) \<Longrightarrow> post (in_space cr3 f s) (soft s)"
  unfolding in_space_def Let_def by (rule soft_bind [OF soft_from]) auto

lemma soft_check_wait_one: "post (check_wait_one a t b s) (soft s)"
  unfolding check_wait_one_def Let_def
  by (intro post_task_at soft_bind [OF soft_in_space])
    (auto intro!: soft_bind soft_put_status soft_upd_task soft_wake soft_set_rax simp: soft_task_def)

lemma soft_first_target: "post (get_first_waitpid_target a fl s) (\<lambda>_. True)"
  by (simp add: post_def)

lemma soft_check_wait_any: "post (check_wait_any a t s) (soft s)"
  unfolding check_wait_any_def Let_def
  by (rule post_bind [OF soft_first_target])
    (auto intro!: post_task_at soft_bind soft_in_space soft_put_status soft_upd_task soft_wake soft_set_rax simp: soft_task_def)

lemma soft_check_task: "post (check_task r a s) (soft s)"
  unfolding check_task_def
  by (auto intro!: post_task_at soft_check_delay soft_check_wait_one soft_check_wait_any split: block_reason.splits)

lemma soft_ring_each: "(\<And>a s. post (f a s) (soft s)) \<Longrightarrow> post (ring_each n f a s) (soft s)"
  by (induction n arbitrary: a s) (auto intro!: soft_bind post_task_at)

lemma soft_check_blocked_tasks: "post (check_blocked_tasks r s) (soft s)"
  unfolding check_blocked_tasks_def by (rule soft_ring_each [OF soft_check_task])

lemma post_irq0: "sched_ok s \<Longrightarrow> post (irq0_handler f s) okp"
  unfolding irq0_handler_def Let_def
  by (auto intro!: ok_bind [OF post_ok [OF soft_check_blocked_tasks]] post_task_at post_run_next intro: sched_ok_soft [OF soft_upd_frame(7)])

lemma post_sleep: "sched_ok s \<Longrightarrow> post (sleep ms f s) okp"
proof -
  assume ok: "sched_ok s"
  have "sched_ok (upd_frame a g (put_task (current_task s) (t\<lparr>t_state := x, t_block_reason := y, t_blocked_ticks := z\<rparr>) s))"
    if "tasks s (current_task s) = Some t" for a g t x y z
    by (rule sched_ok_soft [OF soft_trans [OF soft_put [OF that] soft_upd_frame(1)] ok]) (simp add: soft_task_def)
  then show ?thesis using ok unfolding sleep_def Let_def by (auto intro!: post_task_at okp_bind [OF post_run_next])
qed

lemma post_wait_block: "sched_ok s \<Longrightarrow> post (wait_block c w opt f s) okp"
proof -
  assume ok: "sched_ok s"
  have "sched_ok (put_task (current_task s) (t\<lparr>t_state := x, t_block_reason := y, t_blocked_process := z, t_wstatus := w, t_waitpid_flags := fl\<rparr>) s)"
    if "tasks s (current_task s) = Some t" for t x y z fl
    by (rule sched_ok_soft [OF soft_put [OF that] ok]) (simp add: soft_task_def)
  then show ?thesis using ok unfolding wait_block_def Let_def by (auto intro!: post_task_at okp_bind [OF post_run_next])
qed

lemma post_waitpid: "sched_ok s \<Longrightarrow> post (waitpid pid w opt f s) okp"
  unfolding waitpid_def
  by (intro post_if okp_bind [OF post_okp [OF soft_report_child]] post_any; simp add: post_wait_block)


text \<open>A new task is linked into the ring behind the task \<open>k\<close>.\<close>

lemma ring_ok_put: "ring_ok s ys \<Longrightarrow> a \<notin> set (init_task # ys) \<Longrightarrow> ring_ok (put_task a t s) ys"
  by (auto simp: ring_ok_def put_task_def intro: ring_cong)

lemma sched_ok_put: "sched_ok s \<Longrightarrow> ring_ok s ys \<Longrightarrow> a \<notin> set (init_task # ys) \<Longrightarrow> task_ok t \<Longrightarrow> sched_ok (put_task a t s)"
  using ring_ok_put [of s ys a t] by (auto simp: sched_ok_def put_task_def)

lemma sched_ok_link:
  assumes "sched_ok s" "ring_ok s ys" "a \<notin> set (idle_task # init_task # ys)" "a < next_addr s1" "next_addr s \<le> next_addr s1"
    "tasks s k = Some c" "k \<noteq> a" "t_next new = t_next c" "t_next pc = a" "task_ok new" "task_ok pc"
    "tasks s1 = (tasks s)(a \<mapsto> new, k \<mapsto> pc)" "current_task s1 = current_task s" "rr_task s1 = rr_task s"
  shows "sched_ok s1"
proof -
  have "\<exists>vs. ring (tasks s1) init_task vs \<and> set (init_task # ys) \<subseteq> set (init_task # vs) \<and> set (init_task # vs) \<subseteq> insert a (set (init_task # ys))"
  proof (cases "k \<in> set (init_task # ys)")
    case True
    from ring_seen_from [OF assms(2) this] obtain zs where zs: "ring (tasks s) k zs" "set (k # zs) = set (init_task # ys)" .
    then have az: "a \<notin> set (k # zs)" using assms(3) by simp
    have kz: "k \<notin> set zs" using zs(1) by (simp add: ring_def)
    have "ring (tasks s1) k (a # zs)"
      by (rule ring_insert [OF zs(1) az, of "tasks s1" pc new]) (use assms(6-12) az kz in auto)
    from ring_from [OF this, of init_task] zs(2) obtain vs where "ring (tasks s1) init_task vs" "set (init_task # vs) = set (k # a # zs)" by auto
    moreover have "set (k # a # zs) = insert a (set (init_task # ys))" unfolding zs(2) [symmetric] by auto
    ultimately show ?thesis by (metis subset_insertI subset_refl)
  next
    case False
    have "ring (tasks s) init_task ys" using assms(2) by (simp add: ring_ok_def)
    then have "ring (tasks s1) init_task ys" by (rule ring_cong) (use assms(3) False in \<open>auto simp: assms(12)\<close>)
    then show ?thesis by (intro exI [of _ ys]) auto
  qed
  then obtain vs where vs: "ring (tasks s1) init_task vs" "set (init_task # ys) \<subseteq> set (init_task # vs)"
    "set (init_task # vs) \<subseteq> insert a (set (init_task # ys))" by blast
  have "b < next_addr s1 \<and> b \<noteq> idle_task" if "b \<in> set (init_task # vs)" for b
  proof -
    have "b = a \<or> b \<in> set (init_task # ys)" using vs(3) that by blast
    then show ?thesis using assms(2,3,4,5) unfolding ring_ok_def by (metis list.set_intros(1) order_less_le_trans)
  qed
  moreover have "rr_task s \<in> set (init_task # vs)" "current_task s \<in> insert idle_task (set (init_task # vs))"
    using assms(2) vs(2) unfolding ring_ok_def by auto
  ultimately have "ring_ok s1 vs" using vs(1) unfolding ring_ok_def by (simp add: assms(13,14))
  then show ?thesis using assms(1,10,11) unfolding sched_ok_def assms(12) by auto
qed

lemma ring_fresh: "ring_ok s ys \<Longrightarrow> next_addr s \<notin> set (idle_task # init_task # ys)"
  by (auto simp: ring_ok_def idle_task_def init_task_def)

lemma ring_fresh_le: "ring_ok s ys \<Longrightarrow> next_addr s \<le> a \<Longrightarrow> a \<notin> set (idle_task # init_task # ys)"
  by (auto simp: ring_ok_def idle_task_def init_task_def)

lemma sched_okD: "sched_ok s \<Longrightarrow> tasks s a = Some t \<Longrightarrow> task_ok t"
  by (auto simp: sched_ok_def)

lemma sched_ok_ring: "sched_ok s \<Longrightarrow> \<exists>ys. ring_ok s ys"
  by (simp add: sched_ok_def)

lemma on_mem_bind: "bind_outcome (on_mem f s) g = bind_outcome (f (s_mem s)) (\<lambda>(x, m). g (x, s\<lparr>s_mem := m\<rparr>))"
  by (cases "f (s_mem s)") (auto simp: on_mem_def)

lemmas sched_fields = sched_kmalloc_def upd_frame_def copy_fpu_def save_fpu_def put_task_def

lemma ok_bind_soft:
  "post r (soft s) \<Longrightarrow> sched_ok s \<Longrightarrow> (\<And>s1. soft s s1 \<Longrightarrow> sched_ok s1 \<Longrightarrow> post (f s1) Q) \<Longrightarrow> post (bind_outcome r f) Q"
  by (cases r) (auto intro: sched_ok_soft)

lemma okp_bind_soft:
  "post r (softp s) \<Longrightarrow> sched_ok s \<Longrightarrow> (\<And>x s1. soft s s1 \<Longrightarrow> sched_ok s1 \<Longrightarrow> post (f (x, s1)) Q) \<Longrightarrow> post (bind_outcome r f) Q"
  by (cases r) (use sched_ok_soft in \<open>fastforce simp: softp_def\<close>)+

lemma soft_current: "soft s s1 \<Longrightarrow> current_task s1 = current_task s"
  by (simp add: soft_def)

lemma post_fork: "sched_ok s \<Longrightarrow> post (fork f s) sched_ok"
  unfolding fork_def
proof (intro post_if ok_bind_soft [OF soft_upd_task] post_task_at, goal_cases)
  case (4 s1 c)
  then obtain ys where ys: "ring_ok s1 ys" using sched_ok_ring by blast
  have c: "task_ok c" using 4 sched_okD by blast
  have cur: "current_task s = current_task s1" using 4 soft_current by metis
  have k: "current_task s1 \<noteq> next_addr s1" using ys ring_fresh [OF ys] by (auto simp: ring_ok_def)
  show ?case unfolding on_mem_bind
    by (rule post_any, clarsimp simp: sched_kmalloc_def Let_def, rule post_switch_task,
      rule sched_ok_link [OF 4(4) ys ring_fresh [OF ys], of _ "current_task s1" c])
     (use 4(5) k c cur in \<open>simp_all add: sched_fields\<close>)
qed (auto simp: soft_task_def)

lemma post_create_kworker: "sched_ok s \<Longrightarrow> post (create_kworker tr fn arg s) okp"
  unfolding create_kworker_def
proof (intro post_if post_task_at, goal_cases)
  case (2 i)
  then obtain ys where ys: "ring_ok s ys" using sched_ok_ring by blast
  have i: "task_ok i" using 2 sched_okD by blast
  have k: "current_task s \<noteq> next_addr s" using ys ring_fresh [OF ys] by (auto simp: ring_ok_def)
  show ?case unfolding on_mem_bind
  proof (rule post_any, clarsimp simp: sched_kmalloc_def Let_def, rule post_task_at, unfold post_values okp_pair, goal_cases)
    case (1 x m c)
    then have c: "tasks s (current_task s) = Some c" by simp
    then have "task_ok c" using 2 sched_okD by blast
    then show ?case
      by (intro sched_ok_link [OF 2(1) ys ring_fresh [OF ys], of _ "current_task s" c])
        (use c k i in \<open>simp_all add: sched_fields\<close>)
  qed
qed simp

lemma post_kworker_exit: "sched_ok s \<Longrightarrow> post (kworker_exit s) okp"
  unfolding kworker_exit_def
  by (auto intro!: post_task_at ok_bind [OF post_switch_task] elim!: sched_ok_soft [OF soft_put, rotated 2] simp: soft_task_def)

section \<open>Loading programs\<close>

lemma close_cloexec_table: "close_cloexec ks d = Ret d1 \<Longrightarrow> length (fd_table d1) = length (fd_table d)"
proof (induction ks arbitrary: d)
  case (Cons k ks)
  then show ?case
    by (auto simp: Let_def bind_outcome_eq_Ret split: option.splits if_splits dest!: close_description_table Cons.IH)
qed simp

lemma soft_run_actions: "post (run_actions a pid ps s) (softp s)"
proof (induction ps arbitrary: s)
  case (Cons p ps)
  have "post (bind_outcome (sigprocmask a how x s) (\<lambda>((r, old), s1). Ret (r, s1))) (softp s)" for how x
    by (rule softp_bindp [OF soft_sigprocmask]) (auto simp: softp_def)
  then show ?case
    by (simp, intro post_any softp_bindp)
      (auto intro: soft_setpgid soft_setsid soft_with_fds dup2_table Cons.IH simp: softp_def)
qed (simp add: softp_def)

lemma soft_with_vfs: "post (with_vfs f s) (softp s)"
  unfolding with_vfs_def by (rule soft_with_fds) (auto simp: bind_outcome_eq_Ret)

lemma soft_loaded:
  "post (let s4 = s\<lparr>s_fds := d, s_mem := m\<rparr> in
     if entry = 0 then Ret (Inl e, s4)
     else case brk of None \<Rightarrow> Ret (Inr entry, s4)
       | Some b \<Rightarrow> bind_outcome (upd_task a (\<lambda>t. t\<lparr>t_initial_brk := b, t_brk := b\<rparr>) s4) (\<lambda>s5. Ret (Inr entry, s5))) (softp s)"
  unfolding Let_def
  by (rule softp_from [of _ "s\<lparr>s_fds := d, s_mem := m\<rparr>"])
    (auto intro!: soft_bindp soft_upd_task simp: softp_def soft_task_def soft_def split: option.splits)

lemma post_load_elf: "(\<And>x. post (f x) Q) \<Longrightarrow> post (bind_outcome (load_elf nx junk file v m) f) Q"
  by (rule post_any)

lemma soft_load_program: "post (load_program nx junk kp a s) (softp s)"
  unfolding load_program_def
  by (auto intro!: softp_bindp [OF soft_with_vfs] post_load_elf soft_loaded simp: softp_def split: sum.splits)


lemma sched_ok_replace:
  assumes "sched_ok (s :: 'w sched)" "ring_ok s ys" "a \<notin> set (idle_task # init_task # ys)" "task_ok u" "next_addr s \<le> next_addr s1"
    "current_task s1 = current_task s" "rr_task s1 = rr_task s" "tasks s1 = (tasks s)(a \<mapsto> u)"
  shows "sched_ok (s1 :: 'w sched)"
proof -
  have "soft (put_task a u s) s1" using assms(5-8) by (simp add: put_task_def soft_def)
  moreover have "sched_ok (put_task a u s)" using sched_ok_put [of s ys a u] assms(1-4) by simp
  ultimately show ?thesis by (rule sched_ok_soft)
qed

lemma post_finish_task:
  assumes "sched_ok s" "ring_ok s ys" "a \<notin> set (idle_task # init_task # ys)" "a < next_addr s"
  shows "post (finish_task a parent entry args env f s) sched_ok"
  unfolding finish_task_def on_mem_bind
proof (rule post_any, clarsimp simp: sched_kmalloc_def, rule post_task_at, goal_cases)
  case (1 sp m p)
  then have p: "tasks s parent = Some p" by simp
  show ?case
  proof (intro post_bind [OF post_self], goal_cases)
    case (1 s5)
    then obtain t where t: "tasks s a = Some t" by (auto simp: upd_task_def task_at_def upd_frame_def split: option.splits)
    have ok: "task_ok t" "task_ok p" using assms(1) t p sched_okD by blast+
    show ?case
    proof (cases "parent = a")
      case True
      show ?thesis
        by (insert 1 t p True, clarsimp simp: upd_task_def task_at_def upd_frame_def put_task_def, rule sched_ok_replace [OF assms(1-3)])
          (use ok in simp_all)
    next
      case False
      show ?thesis
        by (insert 1 t p False, clarsimp simp: upd_task_def task_at_def upd_frame_def put_task_def,
          rule sched_ok_link [OF assms(1-3), of _ parent p])
          (use ok assms(4) in simp_all)
    qed
  qed
qed


lemma ring_ok_softD: "soft s s1 \<Longrightarrow> next_addr s \<le> next_addr s1"
  by (simp add: soft_def)

text \<open>The new task is in the store but not yet in the ring while its actions run and its program is loaded.\<close>

lemma post_new_task:
  assumes "sched_ok s" "ring_ok s ys" "a \<notin> set (idle_task # init_task # ys)" "a < next_addr s"
  shows "post (bind_outcome (run_actions a pid acts s) (\<lambda>(r, s7). if r < 0 then Ret ((r, 0), s7) else
     bind_outcome (with_fds a (\<lambda>d. bind_outcome (close_cloexec [0..<MAX_FDS] d) (\<lambda>d1. Ret ((), d1))) s7) (\<lambda>(u, s8).
     let old_cr3 = pml4_physical (s_mem s8) in
     bind_outcome (load_program nx junk kpath a (s8\<lparr>s_mem := change_pml4 cr3 (s_mem s8)\<rparr>)) (\<lambda>(l, s9). case l of
       Inl e \<Rightarrow> Ret ((e, 0 :: nat), s9\<lparr>s_mem := change_pml4 old_cr3 (s_mem s9)\<rparr>)
     | Inr entry \<Rightarrow> bind_outcome (finish_task a parent entry args env f s9) (\<lambda>s10. Ret ((pid, a), s10)))))) okp"
proof (rule okp_bind_soft [OF soft_run_actions assms(1)], clarsimp, rule okp_bind_soft [OF soft_with_fds], goal_cases)
  case (1 r s7 d x d1) then show ?case by (auto simp: bind_outcome_eq_Ret close_cloexec_table)
next
  case (2 r s7) then show ?case by simp
next
  case (3 r s7 u s8)
  let ?m = "s8\<lparr>s_mem := change_pml4 cr3 (s_mem s8)\<rparr>"
  have so: "soft s ?m" using soft_trans [OF soft_trans [OF 3(1,4)] soft_upd_frame(5)] .
  have ok: "sched_ok ?m" using sched_ok_soft [OF so assms(1)] .
  show ?case unfolding Let_def prod.case
  proof (rule okp_bind_soft [OF soft_load_program ok], unfold prod.case, goal_cases)
    case (1 l s9)
    have s9: "soft s s9" using soft_trans [OF so 1(1)] .
    have "a < next_addr s9" using ring_ok_softD [OF s9] assms(4) by simp
    note fin = post_finish_task [OF 1(2) ring_ok_soft [OF s9 assms(2)] assms(3) this]
    show ?case using fin 1(2)
      by (auto intro!: ok_bind [OF fin] sched_ok_soft [OF soft_upd_frame(5) 1(2)] split: sum.splits)
  qed
qed

lemma post_add_task: "sched_ok s \<Longrightarrow> post (add_task nx junk path argv envp parent pid actions f s) okp"
  unfolding add_task_def Let_def
proof (rule post_any, rule okp_bind [OF post_okp [OF soft_on_mem]], assumption, clarsimp split: sum.splits, goal_cases)
  case (1 kp s1 av)
  show ?case
  proof (rule okp_bind [OF post_okp [OF soft_on_mem 1(2)]], clarsimp split: sum.splits, goal_cases)
    case (1 s2 ev)
    show ?case
    proof (rule okp_bind [OF post_okp [OF soft_on_mem 1(1)]], clarsimp split: sum.splits, goal_cases)
      case (1 s3 acts)
      note ok = this
      then obtain ys where ys: "ring_ok s3 ys" using sched_ok_ring by blast
      show ?case unfolding on_mem_bind
      proof (intro post_task_at post_any, clarsimp simp: sched_kmalloc_def simp del: run_actions.simps, intro post_any, clarsimp, goal_cases)
        case (1 args env c cr3 m)
        let ?t = "c\<lparr>t_state := STATE_READY, t_in_signal := False, t_cr3 := cr3, t_pid := pid\<rparr>"
        let ?s = "put_task (next_addr s3) ?t (s3\<lparr>next_addr := Suc (next_addr s3), blocks := next_addr s3 # blocks s3, s_mem := m,
                  s_fds := share_fds (t_fd_table c) (s_fds s3)\<rparr>)"
        have "task_ok ?t" using sched_okD [OF ok 1] by simp
        then have ok6: "sched_ok ?s"
          by (intro sched_ok_replace [OF ok ys ring_fresh [OF ys]]) (simp_all add: put_task_def)
        have "soft (put_task (next_addr s3) ?t s3) ?s" by (simp add: soft_def put_task_def)
        then have r6: "ring_ok ?s ys" by (rule ring_ok_soft) (use ring_ok_put [OF ys] ring_fresh [OF ys] in simp)
        have "next_addr s3 < next_addr ?s" by (simp add: put_task_def)
        then show ?case by (rule post_new_task [OF ok6 r6 ring_fresh [OF ys], unfolded Let_def])
      qed
    qed
  qed
qed


lemma post_spawn: "sched_ok s \<Longrightarrow> post (spawn nx junk path argv envp actions f s) okp"
proof -
  assume ok: "sched_ok s"
  have "soft s (s\<lparr>last_pid := last_pid s + 1\<rparr>)" by (simp add: soft_def)
  then have ok1: "sched_ok (s\<lparr>last_pid := last_pid s + 1\<rparr>)" using ok by (rule sched_ok_soft)
  show ?thesis unfolding spawn_def
  proof (intro post_if ok_bind [OF post_ok [OF soft_upd_task ok1]] okp_bind [OF post_add_task], goal_cases)
    case (4 s1 x s2)
    then show ?case
      by (auto simp: soft_task_def split: prod.splits intro!: ok_bind [OF post_ok [OF soft_upd_task]] ok_bind [OF post_switch_task]
          intro: sched_ok_soft [OF soft_upd_frame(1)])
  qed (auto simp: soft_task_def)
qed

lemma post_execve: "sched_ok s \<Longrightarrow> post (execve nx junk path argv envp f s) okp"
  unfolding execve_def
proof (intro post_task_at okp_bind [OF post_add_task], goal_cases)
  case (2 c x s1)
  have waiters: "post (ring_each n (redirect_waiter old new) i s) (soft s)" for n old new i and s :: "'a sched"
    by (rule soft_ring_each) (auto simp: redirect_waiter_def soft_task_def intro!: soft_upd_task)
  show ?case using 2
    by (auto simp: soft_task_def split: prod.splits intro!: ok_bind [OF post_ok [OF soft_upd_task]] ok_bind [OF post_ok [OF waiters]]
        okp_bind [OF post_okp [OF soft_release]] post_task_at ok_bind [OF post_ok [OF soft_reparent]] ok_bind [OF post_switch_task])
qed

section \<open>The break\<close>

lemma soft_set_brk: "post (set_brk addr s) (softp s)"
proof -
  have "soft s (put_task a (t\<lparr>t_brk := b\<rparr>) (s\<lparr>s_mem := m\<rparr>))" if "tasks s a = Some t" for a t b m
    using that by (intro soft_put_same) (auto simp: soft_task_def)
  then show ?thesis unfolding set_brk_def Let_def
    by (intro post_if post_task_at post_any) (simp_all add: softp_def)
qed

lemma soft_sbrk: "post (sbrk inc s) (softp s)"
  unfolding sbrk_def Let_def
  by (intro post_if post_task_at softp_bindp [OF soft_set_brk]) (auto simp: softp_def)

section \<open>Starting\<close>

lemma boot_sched_ok: "sched_ok (boot_sched d m)"
proof -
  have "ring_ok (boot_sched d m) []"
    by (simp add: ring_ok_def ring_def boot_sched_def static_task_def init_task_def idle_task_def)
  moreover have "task_ok (static_task pid gid self)" for pid gid self
    by (simp add: task_ok_def static_task_def SIGKILL_def SIGSTOP_def)
  ultimately show ?thesis by (auto simp: sched_ok_def boot_sched_def init_task_def idle_task_def split: if_splits)
qed

lemma soft_kmalloc [simp]: "soft s (snd (sched_kmalloc s))"
  by (simp add: sched_kmalloc_def soft_def)

lemma soft_scheduler_init: "post (scheduler_init idle tr s) (soft s)"
proof -
  have base: "soft s (s\<lparr>base_pml4 := b\<rparr>)" for b by (simp add: soft_def)
  have alloc: "post (bind_outcome (upd_task idle_task g (upd_frame k h (snd (sched_kmalloc (snd (sched_kmalloc s1)))))) F) (soft s1)"
    if "\<And>t. soft_task t (g t)" "\<And>s4. post (F s4) (soft s4)" for g k h F and s1 :: "'a sched"
    by (rule soft_bind [OF soft_from [OF _ soft_upd_task]])
      (use that soft_trans [OF soft_trans [OF soft_kmalloc soft_kmalloc] soft_upd_frame(1)] in auto)
  show ?thesis unfolding scheduler_init_def Let_def
    by (rule soft_from [OF base [of "pml4_physical (s_mem s)"]], rule softp_bind [OF soft_on_mem], unfold case_prod_beta fst_conv snd_conv, rule alloc)
      (auto intro!: softp_bind [OF soft_on_mem] simp: soft_task_def soft_def)
qed

lemma sched_ok_started: "sched_ok s \<Longrightarrow> sched_ok (s\<lparr>tss_rsp0 := k, current_task := init_task, scheduler_initialized := b\<rparr>)"
proof -
  assume ok: "sched_ok s"
  then obtain ys where ys: "ring_ok s ys" by (auto simp: sched_ok_def)
  then have "sched_ok (s\<lparr>rr_task := rr_task s, current_task := init_task\<rparr>)"
    using ok by (intro sched_ok_current [OF _ ys]) (auto simp: ring_ok_def)
  moreover have "soft (s\<lparr>rr_task := rr_task s, current_task := init_task\<rparr>) (s\<lparr>tss_rsp0 := k, current_task := init_task, scheduler_initialized := b\<rparr>)"
    by (simp add: soft_def)
  ultimately show ?thesis by (metis sched_ok_soft)
qed

lemma post_run_init_end:
  assumes "sched_ok s"
  shows "post (bind_outcome (on_mem f s) (\<lambda>(r, s6). bind_outcome (on_mem (g s6) s6) (\<lambda>(r, s7).
     case sched_kmalloc s7 of (kstack, s8) \<Rightarrow> case sched_kmalloc s8 of (fpu, s9) \<Rightarrow> case sched_kmalloc s9 of (ifpu, s10) \<Rightarrow>
     bind_outcome (upd_task init_task (\<lambda>t. t\<lparr>t_kernel_stack := kstack, t_fpu_state := fpu, t_signal_interrupted_fpu_state := ifpu\<rparr>) s10)
       (\<lambda>s11. Ret (x, s11\<lparr>tss_rsp0 := kstack, current_task := init_task, scheduler_initialized := True\<rparr>))))) okp"
proof (rule okp_bind [OF post_okp [OF soft_on_mem assms]], unfold prod.case, rule okp_bind [OF post_okp [OF soft_on_mem]],
    assumption, unfold prod.case case_prod_beta, rule ok_bind [OF post_ok [OF soft_upd_task]], goal_cases)
  case (2 r s6 r1 s7)
  show ?case unfolding snd_conv by (rule sched_ok_soft [OF soft_trans [OF soft_trans [OF soft_kmalloc soft_kmalloc] soft_kmalloc] 2(2)])
qed (auto simp: soft_task_def intro: sched_ok_started)

lemma post_run_init: "sched_ok s \<Longrightarrow> post (run_init nx junk path s) okp"
  unfolding run_init_def
proof (rule okp_bind [OF post_okp [OF soft_on_mem]], assumption, unfold prod.case, rule ok_bind [OF post_ok [OF soft_upd_task]],
    simp add: soft_task_def, erule sched_ok_soft [OF soft_upd_frame(5)], rule okp_bind [OF post_okp [OF soft_with_vfs]], assumption, goal_cases)
  case (1 cr3 s1 s2 l s3)
  have st: "sched_ok (s3\<lparr>s_fds := d, s_mem := m\<rparr>)" for d m
    by (rule sched_ok_soft [OF _ 1(4)]) (simp add: soft_def)
  show ?case
    by (auto simp: Let_def soft_task_def split: sum.splits intro!: post_load_elf ok_bind [OF post_ok [OF soft_upd_task st]] post_run_init_end)
qed

section \<open>Reachable states\<close>

text \<open>What can happen after the start: system calls and interrupts, and between them anything that does
  not touch the scheduler's own data (user programs, drivers, file systems).\<close>

inductive sched_step :: "'w sched \<Rightarrow> 'w sched \<Rightarrow> bool" where
  other: "tasks s1 = tasks s \<Longrightarrow> current_task s1 = current_task s \<Longrightarrow> rr_task s1 = rr_task s \<Longrightarrow> next_addr s \<le> next_addr s1 \<Longrightarrow>
    sched_step s s1"
| init: "scheduler_init idle tr s = Ret s1 \<Longrightarrow> sched_step s s1"
| start: "run_init nx junk path s = Ret (x, s1) \<Longrightarrow> sched_step s s1"
| files: "with_fds a f s = Ret (x :: int, s1) \<Longrightarrow> (\<And>d y d1. f d = Ret (y, d1) \<Longrightarrow> length (fd_table d1) = length (fd_table d)) \<Longrightarrow> sched_step s s1"
| timer: "irq0_handler f s = Ret (r, s1) \<Longrightarrow> sched_step s s1"
| blocked: "check_blocked_tasks b s = Ret s1 \<Longrightarrow> sched_step s s1"
| yield: "run_next f s = Ret (r, s1) \<Longrightarrow> sched_step s s1"
| exits: "exit ret s = Ret s1 \<Longrightarrow> sched_step s s1"
| forks: "fork f s = Ret s1 \<Longrightarrow> sched_step s s1"
| spawns: "spawn nx junk path argv envp actions f s = Ret (r1, s1) \<Longrightarrow> sched_step s s1"
| execs: "execve nx junk path argv envp f s = Ret (r1, s1) \<Longrightarrow> sched_step s s1"
| kworker: "create_kworker tramp fn arg s = Ret (pid, s1) \<Longrightarrow> sched_step s s1"
| kexit: "kworker_exit s = Ret (r, s1) \<Longrightarrow> sched_step s s1"
| sleeps: "sleep ms f s = Ret (r64, s1) \<Longrightarrow> sched_step s s1"
| waits: "waitpid pid w opt f s = Ret (r1, s1) \<Longrightarrow> sched_step s s1"
| kills: "kill pid sig s = Ret (e, s1) \<Longrightarrow> sched_step s s1"
| raises: "raise sig s = Ret (e, s1) \<Longrightarrow> sched_step s s1"
| actions: "sigaction sig new s = Ret (o1, s1) \<Longrightarrow> sched_step s s1"
| masks: "sigprocmask (current_task s) how newset s = Ret (o2, s1) \<Longrightarrow> sched_step s s1"
| returns: "sigreturn s = Ret (r, s1) \<Longrightarrow> sched_step s s1"
| groups: "setpgid (current_task s) pid pgid s = Ret (e, s1) \<Longrightarrow> sched_step s s1"
| sessions: "setsid (current_task s) s = Ret (e, s1) \<Longrightarrow> sched_step s s1"
| break1: "set_brk addr s = Ret (b, s1) \<Longrightarrow> sched_step s s1"
| break2: "sbrk inc s = Ret (b, s1) \<Longrightarrow> sched_step s s1"

lemmas sched_posts = post_irq0 post_run_next post_spawn post_execve post_create_kworker post_kworker_exit post_sleep post_waitpid
  post_sigreturn post_run_init post_okp [OF soft_kill] post_okp [OF soft_raise] post_okp [OF soft_sigaction]
  post_okp [OF soft_sigprocmask] post_okp [OF soft_setpgid] post_okp [OF soft_setsid] post_okp [OF soft_set_brk] post_okp [OF soft_sbrk]

lemmas sched_posts1 = post_exit post_fork post_ok [OF soft_scheduler_init] post_ok [OF soft_check_blocked_tasks]

lemma okpD: "post r okp \<Longrightarrow> r = Ret (x, s) \<Longrightarrow> sched_ok s"
  by (simp add: okp_def)

lemma sched_step_ok: "sched_step s s1 \<Longrightarrow> sched_ok s \<Longrightarrow> sched_ok s1"
proof (induction rule: sched_step.induct)
  case (other s1 s)
  then show ?case using soft_same [of s1 s] sched_ok_soft by blast
next
  case (files a f s x s1)
  then show ?case using postD [OF soft_with_fds files(1)] sched_ok_soft by (fastforce simp: softp_def)
qed (blast intro: okpD [OF sched_posts(1)] okpD [OF sched_posts(2)] okpD [OF sched_posts(3)] okpD [OF sched_posts(4)]
    okpD [OF sched_posts(5)] okpD [OF sched_posts(6)] okpD [OF sched_posts(7)] okpD [OF sched_posts(8)] okpD [OF sched_posts(9)]
    okpD [OF sched_posts(10)] okpD [OF sched_posts(11)] okpD [OF sched_posts(12)] okpD [OF sched_posts(13)] okpD [OF sched_posts(14)]
    okpD [OF sched_posts(15)] okpD [OF sched_posts(16)] okpD [OF sched_posts(17)] okpD [OF sched_posts(18)]
    postD [OF sched_posts1(1)] postD [OF sched_posts1(2)] postD [OF sched_posts1(3)] postD [OF sched_posts1(4)])+

lemma reachable_ok: "sched_step\<^sup>*\<^sup>* (boot_sched d m) s \<Longrightarrow> sched_ok s"
  by (induction rule: rtranclp_induct) (auto intro: boot_sched_ok sched_step_ok)

text \<open>C5. Whatever system calls and interrupts happen after the start, no task ever blocks, catches or ignores
  \<open>SIGKILL\<close> or \<open>SIGSTOP\<close>: their bits are clear in every signal mask and their handlers are the default.\<close>

theorem kill_stop_never_blocked:
  assumes "sched_step\<^sup>*\<^sup>* (boot_sched d m) s" "tasks s a = Some t"
  shows "\<not> bit (t_signal_mask t) (SIGKILL - 1) \<and> \<not> bit (t_signal_mask t) (SIGSTOP - 1) \<and>
    t_signal_handlers t ! SIGKILL = SIG_DFL \<and> t_signal_handlers t ! SIGSTOP = SIG_DFL"
  using sched_okD [OF reachable_ok [OF assms(1)] assms(2)] by (simp add: task_ok_def)

abbreviation demo_boot :: "ram fs_world sched" where
  "demo_boot \<equiv> boot_sched demo_fds demo_paging"

lemma boot_fields [simp]: "tasks (boot_sched d m) = [idle_task \<mapsto> static_task 0 0 idle_task, init_task \<mapsto> static_task 1 1 init_task]"
  "current_task (boot_sched d m) = init_task" "rr_task (boot_sched d m) = init_task"
  by (simp_all add: boot_sched_def)

theorem kill_stop_never_blocked_witness:
  "\<exists>s1 t. sigprocmask init_task SIG_SETMASK (Some (- 1)) demo_boot = Ret ((0, 0), s1) \<and> tasks s1 init_task = Some t \<and>
     t_signal_mask t = 0xFFFBFEFF \<and> \<not> bit (t_signal_mask t) (SIGKILL - 1) \<and> t_signal_handlers t ! SIGKILL = SIG_DFL"
proof -
  let ?t = "(static_task 1 1 init_task)\<lparr>t_signal_mask := - 1 AND NOT (push_bit (SIGSTOP - 1) 1 OR push_bit (SIGKILL - 1) 1)\<rparr>"
  let ?s = "put_task init_task ?t demo_boot"
  have e: "sigprocmask init_task SIG_SETMASK (Some (- 1)) demo_boot = Ret ((0, 0), ?s)"
    by (simp add: sigprocmask_def task_at_def static_task_def)
  then have st: "sched_step\<^sup>*\<^sup>* demo_boot ?s" using masks [of demo_boot SIG_SETMASK "Some (- 1)"] by auto
  have t: "tasks ?s init_task = Some ?t" by (simp add: put_task_def)
  have "t_signal_mask ?t = 0xFFFBFEFF" by (simp add: SIGSTOP_def SIGKILL_def)
  then show ?thesis using kill_stop_never_blocked [OF st t] e t by blast
qed

text \<open>C1. In every reachable state the choice of the next task ends without a fault: the tasks from
  \<open>init_task\<close> on form a ring, and \<open>get_next_task\<close> returns a ready member of it, or the null pointer when no
  member is ready, and then the machine idles.\<close>

theorem scheduler_never_lost:
  assumes "sched_step\<^sup>*\<^sup>* (boot_sched d m) s"
  shows "\<exists>ys. ring (tasks s) init_task ys \<and> current_task s \<in> set (idle_task # init_task # ys) \<and>
    ((\<forall>b\<in>set (init_task # ys). \<not> ready (tasks s) b) \<and> get_next_task s = Ret (0, s) \<or>
     (\<exists>r\<in>set (init_task # ys). ready (tasks s) r \<and> get_next_task s = Ret (r, s\<lparr>rr_task := r\<rparr>)))"
proof -
  obtain ys where ys: "ring_ok s ys" using reachable_ok [OF assms] by (auto simp: sched_ok_def)
  then show ?thesis using get_next_task_ok [OF ys] by (auto simp: ring_ok_def)
qed

theorem scheduler_never_lost_witness: "get_next_task demo_boot = Ret (init_task, demo_boot\<lparr>rr_task := init_task\<rparr>)"
proof -
  have r: "ready (tasks demo_boot) init_task" by (simp add: ready_def static_task_def)
  have nil: "ys = []" if "ring (tasks demo_boot) init_task ys" for ys
    using that by (cases ys) (auto simp: ring_def static_task_def)
  from scheduler_never_lost [of demo_fds demo_paging demo_boot] obtain ys x where "ring (tasks demo_boot) init_task ys"
    "x \<in> set (init_task # ys)" "get_next_task demo_boot = Ret (x, demo_boot\<lparr>rr_task := x\<rparr>)" using r by auto
  then show ?thesis using nil by fastforce
qed

end
