(* ===== verification/Signals.thy ===== *)
theory Signals
  imports Schedinv
begin

text \<open>
  What signals do to a process: the round trip through a handler, the end of a process and what its
  parent learns, over the definitions of the theories Tasks and Scheduler.  The macros that take a wait
  status apart are those of \<open>libc/platform/include/unistd.h\<close>.
\<close>

section \<open>Delivery\<close>

lemma deliver_loop_filter: "deliver_loop ex d is s = deliver_loop ex d (filter (bit d) is) s"
proof (induction "is" arbitrary: s)
  case (Cons i "is")
  then show ?case by (auto simp: Let_def intro!: bind_outcome_cong)
qed simp

lemma filter_single: "distinct xs \<Longrightarrow> x \<in> set xs \<Longrightarrow> filter (\<lambda>y. y = x) xs = [x]"
  by (induction xs) (auto simp: filter_empty_conv)

lemma deliver_loop_single:
  assumes "i < 31" "d = push_bit i 1"
  shows "deliver_loop ex d [0..<31] s = deliver_loop ex d [i] s"
proof -
  have "filter (bit d) [0..<31] = filter (\<lambda>j. j = i) [0..<31]"
    using assms by (intro filter_cong) (auto simp: bit_simps)
  also have "\<dots> = [i]" using assms(1) by (intro filter_single) auto
  finally show ?thesis by (subst deliver_loop_filter) simp
qed

text \<open>What the handler of a signal may do before it returns: change the frame, the registers and memory, but
  not the kernel's records of the interrupted program; no signal is waiting when it returns.\<close>

definition handler_ran :: "'w sched \<Rightarrow> 'w sched \<Rightarrow> bool" where
  "handler_ran s s1 \<longleftrightarrow> current_task s1 = current_task s \<and>
     (case (tasks s (current_task s), tasks s1 (current_task s)) of
        (Some t, Some u) \<Rightarrow> t_iframe u = t_iframe t \<and> t_fpu_state u = t_fpu_state t \<and>
          t_signal_interrupted_fpu_state u = t_signal_interrupted_fpu_state t \<and>
          t_signal_interrupted_iframe u = t_signal_interrupted_iframe t \<and> t_in_signal u = t_in_signal t \<and> deliverable u = 0 \<and>
          fpus s1 (t_signal_interrupted_fpu_state t) = fpus s (t_signal_interrupted_fpu_state t)
      | _ \<Rightarrow> False)"

lemma deliver_handler:
  assumes "tasks s (current_task s) = Some t" "\<not> t_in_signal t" "i < 31" "deliverable t = push_bit i 1"
    "t_signal_handlers t ! (i + 1) = h" "h \<noteq> SIG_DFL" "h \<noteq> SIG_IGN" "frames s (t_iframe t) = f" "cs f = USER_CS"
    "store_bytes ((rsp f AND NOT 15) - 8) (le_bytes 8 trampoline) (s_mem s) = Ret m"
  shows "\<exists>s1 u. deliver_signals s = Ret (True, s1) \<and> current_task s1 = current_task s \<and> tasks s1 (current_task s) = Some u \<and>
    u = t\<lparr>t_pending_signals := t_pending_signals t AND NOT (push_bit i 1), t_signal_interrupted_iframe := f, t_in_signal := True\<rparr> \<and>
    frames s1 = (frames s)(t_iframe t := handler_frame h (i + 1) f) \<and>
    fpus s1 = (fpus s)(t_signal_interrupted_fpu_state t := fpus s (t_fpu_state t)) \<and> s_mem s1 = m"
proof -
  have b: "bit (push_bit i (1 :: u32)) i" using assms(3) by (simp add: bit_simps)
  then have ne: "push_bit i (1 :: u32) \<noteq> 0" by (metis bit_0_eq bot_apply bot_bool_def)
  have sp: "rsp (handler_frame h n f) = (rsp f AND NOT 15) - 8" for n by (simp add: handler_frame_def)
  show ?thesis
    using assms ne b
    by (simp add: deliver_signals_def deliver_with_def task_at_def deliver_loop_single upd_task_def put_task_def enter_handler_def
        Let_def copy_fpu_def upd_frame_def store_user_def sp del: push_bit_eq_0_iff)
qed

text \<open>C20. Delivering one signal to a handler and returning from it restores the interrupted program.  The current task
  was interrupted in user mode and is not inside a handler, exactly one signal is deliverable to it and has a handler, and
  the stack of the program can take the return address.  Then the
  handler is entered with the signal number and the address of the trampoline on an aligned stack; and
  after \<open>sigreturn\<close>, called when the handler has run without touching what the kernel saved and no further signal is
  deliverable, the frame and the FPU state are those before the signal, with interrupts enabled.  (With two
  signals deliverable at once the second handler is entered over the first, and the frame of the program is lost.)\<close>

theorem signal_handler_roundtrip:
  assumes "tasks s (current_task s) = Some t" "\<not> t_in_signal t" "i < 31" "deliverable t = push_bit i 1"
    "t_signal_handlers t ! (i + 1) = h" "h \<noteq> SIG_DFL" "h \<noteq> SIG_IGN" "frames s (t_iframe t) = f" "cs f = USER_CS"
    "store_bytes ((rsp f AND NOT 15) - 8) (le_bytes 8 trampoline) (s_mem s) = Ret m"
  shows "\<exists>s1. deliver_signals s = Ret (True, s1) \<and> frames s1 (t_iframe t) = handler_frame h (i + 1) f \<and> s_mem s1 = m \<and>
    (\<forall>s2. handler_ran s1 s2 \<longrightarrow> (\<exists>s3. sigreturn s2 = Ret (False, s3) \<and>
      frames s3 (t_iframe t) = f\<lparr>rflags := rflags f OR 0x200\<rparr> \<and> cpu_fpu s3 = fpus s (t_fpu_state t)))"
proof -
  from deliver_handler [OF assms] obtain s1 u where s1: "deliver_signals s = Ret (True, s1)" "current_task s1 = current_task s"
    "tasks s1 (current_task s) = Some u"
    "u = t\<lparr>t_pending_signals := t_pending_signals t AND NOT (push_bit i 1), t_signal_interrupted_iframe := f, t_in_signal := True\<rparr>"
    "frames s1 = (frames s)(t_iframe t := handler_frame h (i + 1) f)"
    "fpus s1 = (fpus s)(t_signal_interrupted_fpu_state t := fpus s (t_fpu_state t))" "s_mem s1 = m" by blast
  have "\<exists>s3. sigreturn s2 = Ret (False, s3) \<and> frames s3 (t_iframe t) = f\<lparr>rflags := rflags f OR 0x200\<rparr> \<and> cpu_fpu s3 = fpus s (t_fpu_state t)"
    if "handler_ran s1 s2" for s2
  proof -
    from that s1(2,3) obtain v where v: "tasks s2 (current_task s) = Some v" "current_task s2 = current_task s" "t_iframe v = t_iframe u"
      "t_fpu_state v = t_fpu_state u" "t_signal_interrupted_fpu_state v = t_signal_interrupted_fpu_state u"
      "t_signal_interrupted_iframe v = t_signal_interrupted_iframe u" "t_in_signal v = t_in_signal u" "deliverable v = 0"
      "fpus s2 (t_signal_interrupted_fpu_state u) = fpus s1 (t_signal_interrupted_fpu_state u)"
      by (auto simp: handler_ran_def split: option.splits)
    have "deliverable (v\<lparr>t_in_signal := False\<rparr>) = 0" using v(8) by (simp add: deliverable_def)
    then show ?thesis using v s1(4,6)
      by (simp add: sigreturn_def task_at_def Let_def deliver_signals_def deliver_with_def put_task_def upd_frame_def copy_fpu_def resume_def restore_fpu_def)
  qed
  then show ?thesis using s1 by auto
qed


text \<open>Stores into the one user page of the small address space.\<close>

definition demo_tables :: "paging \<Rightarrow> bool" where
  "demo_tables m \<longleftrightarrow> pml4_physical m = 0x1000 \<and> (\<forall>p<5. phys m p = phys demo_paging p)"

lemma demo_pte: "demo_tables m \<Longrightarrow> page_no a = 1 \<Longrightarrow> pte m a = 0x5007"
proof -
  assume "demo_tables m" "page_no a = 1"
  then have "get_page_entry a = get_page_entry 0x1000" by (intro get_page_entry_page) (simp add: page_no_def)
  then show ?thesis using \<open>demo_tables m\<close> by (simp add: demo_tables_def pte_def indices_def paging_eval demo_paging_def)
qed

lemma demo_store_byte: "demo_tables m \<Longrightarrow> page_no a = 1 \<Longrightarrow> \<exists>m1. store_byte a b m = Ret m1 \<and> demo_tables m1"
  by (auto simp: store_byte_def demo_pte Let_def flag_def flag_simps put_byte_def table_of_def page_table_to_address_def page_no_def
      demo_tables_def set_word_def)

lemma demo_store_bytes:
  "demo_tables m \<Longrightarrow> 4096 \<le> unat a \<Longrightarrow> unat a + length bs < 8192 \<Longrightarrow> \<exists>m1. store_bytes a bs m = Ret m1 \<and> demo_tables m1"
proof (induction bs arbitrary: a m)
  case (Cons b bs)
  have "page_no a = 1" using Cons.prems by (simp add: page_no_def)
  then obtain m1 where m1: "store_byte a b m = Ret m1" "demo_tables m1" using demo_store_byte Cons.prems(1) by blast
  have "unat (a + 1) = unat a + 1" using Cons.prems(3) by (simp add: unat_word_ariths)
  then show ?case using Cons.IH [OF m1(2), of "a + 1"] Cons.prems m1(1) by simp
qed simp

lemma demo_tables_demo [simp]: "demo_tables demo_paging"
  by (simp add: demo_tables_def demo_paging_def)

definition demo_signal :: "ram fs_world sched" where
  "demo_signal = (put_task 3 ((demo_task 2 4)\<lparr>t_state := STATE_RUNNING, t_pending_signals := 2,
       t_signal_handlers := (replicate 32 SIG_DFL)[2 := 0x400000]\<rparr>) demo_sched)
     \<lparr>frames := (\<lambda>_. zero_iframe\<lparr>cs := USER_CS, rip := 0x401000, rsp := 0x1804\<rparr>)\<rparr>"

theorem signal_handler_roundtrip_witness:
  "\<exists>s1. deliver_signals demo_signal = Ret (True, s1) \<and> rip (frames s1 11) = 0x400000 \<and> rdi (frames s1 11) = 2 \<and>
     rsp (frames s1 11) = 0x17F8 \<and> (\<exists>s3. sigreturn s1 = Ret (False, s3) \<and> rip (frames s3 11) = 0x401000 \<and> rsp (frames s3 11) = 0x1804)"
proof -
  let ?t = "(demo_task 2 4)\<lparr>t_state := STATE_RUNNING, t_pending_signals := 2, t_signal_handlers := (replicate 32 SIG_DFL)[2 := 0x400000]\<rparr>"
  let ?f = "zero_iframe\<lparr>cs := USER_CS, rip := 0x401000, rsp := 0x1804\<rparr>"
  obtain m where m: "store_bytes 0x17F8 (le_bytes 8 trampoline) demo_paging = Ret m"
    using demo_store_bytes [of demo_paging "0x17F8" "le_bytes 8 trampoline"] by (auto simp: le_bytes_def)
  have t: "tasks demo_signal (current_task demo_signal) = Some ?t" by (simp add: demo_signal_def put_task_def)
  have d: "deliverable ?t = push_bit 1 1" by (simp add: deliverable_def demo_task_def)
  have h: "t_signal_handlers ?t ! (1 + 1) = 0x400000" by (simp add: numeral_2_eq_2)
  have hn: "(0x400000 :: u64) \<noteq> SIG_DFL" "(0x400000 :: u64) \<noteq> SIG_IGN" by (simp_all add: SIG_DFL_def SIG_IGN_def)
  have fr: "frames demo_signal (t_iframe ?t) = ?f" "cs ?f = USER_CS" by (simp_all add: demo_signal_def)
  have st: "store_bytes ((rsp ?f AND NOT 15) - 8) (le_bytes 8 trampoline) (s_mem demo_signal) = Ret m"
    using m by (simp add: demo_signal_def put_task_def demo_sched_def)
  have ns: "\<not> t_in_signal ?t" and i: "(1 :: nat) < 31" and a: "t_iframe ?t = 11" by (simp_all add: demo_task_def)
  from signal_handler_roundtrip [OF t ns i d h hn fr st] obtain s1 where s1: "deliver_signals demo_signal = Ret (True, s1)"
    "frames s1 11 = handler_frame 0x400000 2 ?f"
    "\<forall>s2. handler_ran s1 s2 \<longrightarrow> (\<exists>s3. sigreturn s2 = Ret (False, s3) \<and> frames s3 11 = ?f\<lparr>rflags := rflags ?f OR 0x200\<rparr>)"
    unfolding a one_add_one by blast
  from deliver_handler [OF t ns i d h hn fr st] s1(1) have "handler_ran s1 s1" by (auto simp: handler_ran_def deliverable_def demo_task_def)
  with s1 show ?thesis by (auto simp: handler_frame_def zero_iframe_def)
qed

section \<open>Wait statuses\<close>

definition WIFEXITED :: "u32 \<Rightarrow> bool" where "WIFEXITED s \<longleftrightarrow> s AND 0x7f = 0"
definition WEXITSTATUS :: "u32 \<Rightarrow> u32" where "WEXITSTATUS s = drop_bit 8 s AND 0xff"
definition WIFSIGNALED :: "u32 \<Rightarrow> bool" where "WIFSIGNALED s \<longleftrightarrow> s AND 0x7f \<noteq> 0 \<and> s AND 0x7f \<noteq> 0x7f \<and> s \<noteq> 0xffff"
definition WTERMSIG :: "u32 \<Rightarrow> u32" where "WTERMSIG s = s AND 0x7f"
definition WIFSTOPPED :: "u32 \<Rightarrow> bool" where "WIFSTOPPED s \<longleftrightarrow> s AND 0xff = 0x7f"
definition WSTOPSIG :: "u32 \<Rightarrow> u32" where "WSTOPSIG s = drop_bit 8 s AND 0xff"
definition WIFCONTINUED :: "u32 \<Rightarrow> bool" where "WIFCONTINUED s \<longleftrightarrow> s = 0xffff"

lemmas wait_macros = WIFEXITED_def WEXITSTATUS_def WIFSIGNALED_def WTERMSIG_def WIFSTOPPED_def WSTOPSIG_def WIFCONTINUED_def

text \<open>What a parent reads off a status.\<close>

datatype fate = Exited u32 | Killed u32 | Stopped u32 | Continued

definition fates :: "u32 \<Rightarrow> fate set" where
  "fates s = (if WIFEXITED s then {Exited (WEXITSTATUS s)} else {}) \<union> (if WIFSIGNALED s then {Killed (WTERMSIG s)} else {}) \<union>
     (if WIFSTOPPED s then {Stopped (WSTOPSIG s)} else {}) \<union> (if WIFCONTINUED s then {Continued} else {})"

lemma masks7_8: "(0x7f :: u32) = mask 7" "(0xff :: u32) = mask 8"
  by (simp_all add: mask_eq_exp_minus_1)

lemma fates_exit:
  assumes "0 \<le> rc"
  shows "fates (exit_status rc) = {Exited (word_of_int rc AND 0xff)}"
proof -
  let ?w = "push_bit 8 (word_of_int rc) :: u32"
  have low: "?w AND 0x7f = 0" "?w AND 0xff = 0" unfolding masks7_8 by (simp_all add: take_bit_push_bit flip: take_bit_eq_mask)
  have "?w \<noteq> 0xffff" using low(2) by auto
  moreover have "drop_bit 8 ?w AND 0xff = word_of_int rc AND 0xff" unfolding masks7_8
    by (rule bit_word_eqI) (auto simp: bit_simps)
  ultimately show ?thesis using assms low by (simp add: fates_def wait_macros exit_status_def W_EXITCODE_def)
qed

lemma signal_word:
  assumes "1 \<le> sig" "sig \<le> 31"
  shows "uint (word_of_int sig :: u32) = sig" "(word_of_int sig :: u32) AND 0x7f = word_of_int sig" "(word_of_int sig :: u32) AND 0xff = word_of_int sig"
proof -
  show u: "uint (word_of_int sig :: u32) = sig" using assms by (simp add: unsigned_of_int take_bit_int_eq_self)
  show "(word_of_int sig :: u32) AND 0x7f = word_of_int sig" "(word_of_int sig :: u32) AND 0xff = word_of_int sig"
    unfolding masks7_8 by (rule less_mask_eq, use u assms in \<open>simp add: word_less_def\<close>)+
qed

lemma fates_killed:
  assumes "1 \<le> sig" "sig \<le> 31"
  shows "fates (exit_status (- sig)) = {Killed (word_of_int sig)}"
proof -
  have "(word_of_int sig :: u32) \<noteq> 0" "(word_of_int sig :: u32) \<noteq> 0x7f" "(word_of_int sig :: u32) \<noteq> 0xffff"
    using signal_word(1) [OF assms] assms by (auto dest: arg_cong [of _ _ uint])
  then show ?thesis using assms signal_word [OF assms] by (simp add: fates_def wait_macros exit_status_def W_EXITCODE_def)
qed

lemma fates_stopped:
  assumes "1 \<le> sig" "sig \<le> 31"
  shows "fates (W_STOPCODE sig) = {Stopped (word_of_int sig)}"
proof -
  let ?s = "push_bit 8 (word_of_int sig) OR 0x7f :: u32"
  have low: "?s AND 0x7f = 0x7f" "?s AND 0xff = 0x7f" "drop_bit 8 ?s AND 0xff = word_of_int sig AND 0xff"
    unfolding masks7_8 by (rule bit_word_eqI, auto simp: bit_simps)+
  have "?s \<noteq> 0xffff" using low(2) by auto
  then show ?thesis using low signal_word(3) [OF assms] by (simp add: fates_def wait_macros W_STOPCODE_def)
qed

lemma fates_continued: "fates W_CONTINUED = {Continued}"
  by (simp add: fates_def wait_macros W_CONTINUED_def)

text \<open>A wait status tells its parent exactly one fate, and the right one: the exit code modulo 256 of a
  process that returned a code that is not negative, the signal number of a process that was killed or
  stopped, or that it was continued.\<close>

theorem wait_status_roundtrip:
  assumes "0 \<le> rc" "1 \<le> sig" "sig \<le> 31"
  shows "fates (exit_status rc) = {Exited (word_of_int rc AND 0xff)} \<and> fates (exit_status (- sig)) = {Killed (word_of_int sig)} \<and>
    fates (W_STOPCODE sig) = {Stopped (word_of_int sig)} \<and> fates W_CONTINUED = {Continued}"
  using assms fates_exit fates_killed fates_stopped fates_continued by simp

theorem wait_status_roundtrip_witness: "fates (exit_status 3) = {Exited 3} \<and> fates (exit_status (- 9)) = {Killed 9}"
  using wait_status_roundtrip [of 3 9] by simp

section \<open>The end of a process\<close>

definition zombie :: "nat \<Rightarrow> 'w sched \<Rightarrow> bool" where
  "zombie a s \<longleftrightarrow> (case tasks s a of None \<Rightarrow> False | Some t \<Rightarrow> t_state t = STATE_ZOMBIE)"

lemma zombie_fields [simp]:
  "zombie a (upd_frame b f s) = zombie a s" "zombie a (copy_fpu d c s) = zombie a s" "zombie a (restore_fpu d s) = zombie a s"
  "zombie a (s\<lparr>s_mem := m\<rparr>) = zombie a s" "zombie a (s\<lparr>s_fds := q\<rparr>) = zombie a s" "zombie a (s\<lparr>rr_task := r\<rparr>) = zombie a s"
  by (simp_all add: zombie_def upd_frame_def copy_fpu_def restore_fpu_def)

lemma zombie_put: "zombie a s \<Longrightarrow> tasks s b = Some t \<Longrightarrow> (t_state t = STATE_ZOMBIE \<Longrightarrow> t_state u = STATE_ZOMBIE) \<Longrightarrow> zombie a (put_task b u s)"
  by (auto simp: zombie_def put_task_def)

lemma zombie_upd: "zombie a s \<Longrightarrow> (\<And>t. t_state t = STATE_ZOMBIE \<Longrightarrow> t_state (f t) = STATE_ZOMBIE) \<Longrightarrow> post (upd_task b f s) (zombie a)"
  by (auto simp: upd_task_def intro!: post_task_at zombie_put)

lemma zombie_store: "zombie a s \<Longrightarrow> post (store_user p bs s) (zombie a)"
  by (auto simp: store_user_def post_def bind_outcome_eq_Ret)

lemma zombie_with_fds: "zombie a s \<Longrightarrow> post (with_fds b f s) (\<lambda>(x, s1). zombie a s1)"
  unfolding with_fds_def by (intro post_task_at post_any) (auto simp: zombie_def put_task_def)

lemma zombie_reparent: "zombie a s \<Longrightarrow> post (reparent n p c s) (zombie a)"
proof (induction n arbitrary: c s)
  case (Suc n)
  then show ?case by (auto intro!: post_task_at post_bind [OF zombie_upd] zombie_put)
qed simp

lemma zombie_exit_task: "zombie a s \<Longrightarrow> post (exit_task ret s) (zombie a)"
  unfolding exit_task_def
  by (auto intro!: post_bind [OF zombie_with_fds] post_task_at post_bind [OF zombie_upd] zombie_reparent zombie_put)

lemma zombie_deliver_loop:
  assumes "\<And>s r. zombie a s \<Longrightarrow> post (ex s r) (zombie a)" "zombie a s"
  shows "post (deliver_loop ex d is s) (\<lambda>(b, s1). zombie a s1)"
  using assms(2)
proof (induction "is" arbitrary: s)
  case (Cons i "is")
  have enter: "zombie a s \<Longrightarrow> post (enter_handler i h s) (zombie a)" for h s
    unfolding enter_handler_def Let_def by (auto intro!: post_task_at post_bind [OF zombie_store] zombie_upd zombie_put simp: zombie_def put_task_def copy_fpu_def upd_frame_def split: option.splits)
  show ?case using Cons.prems assms(1)
    by (auto simp: Let_def intro!: post_bind [OF zombie_upd] Cons.IH post_task_at post_bind [OF enter] post_bind [of "ex _ _" "zombie a"])
qed simp

lemma zombie_choose_task: "zombie a s \<Longrightarrow> a \<noteq> idle_task \<Longrightarrow> post (choose_task s) (zombie a)"
proof -
  assume z: "zombie a s" "a \<noteq> idle_task"
  have found: "find_ready n s b r = Ret (x, rr) \<Longrightarrow> x = 0 \<or> ready (tasks s) x" for n b r x rr
    by (induction n arbitrary: r) (auto simp: bind_outcome_eq_Ret task_at_def ready_def split: option.splits if_splits)
  show ?thesis unfolding choose_task_def get_next_task_def Let_def
    by (intro post_bind [OF post_self]) (use z in \<open>auto dest!: found simp: post_def bind_outcome_eq_Ret task_at_def zombie_def put_task_def ready_def split: option.splits if_splits\<close>)
qed


lemma zombie_switch_fuel: "zombie a s \<Longrightarrow> a \<noteq> idle_task \<Longrightarrow> post (switch_fuel n s) (zombie a)"
proof (induction n arbitrary: s)
  case (Suc n)
  have dl: "zombie a s \<Longrightarrow> post (deliver_with (\<lambda>s ret. bind_outcome (exit_task ret s) (switch_fuel n)) s) (\<lambda>(b, s1). zombie a s1)" for s :: "'a sched"
    unfolding deliver_with_def using Suc.IH [OF _ Suc.prems(2)]
    by (auto intro!: post_task_at zombie_deliver_loop post_bind [OF zombie_exit_task] intro: Suc.IH [OF _ Suc.prems(2)])
  have rs: "zombie a s \<Longrightarrow> post (resume s) (zombie a)" for s unfolding resume_def by (auto intro!: post_task_at)
  show ?case using Suc.prems unfolding switch_fuel.simps
    by (auto intro!: post_bind [OF zombie_choose_task] post_bind [OF dl] rs)
qed simp

lemma exit_task_zombie: "post (exit_task ret s) (\<lambda>s1. zombie (current_task s) s1)"
proof -
  have cur: "post (with_fds a f s) (\<lambda>(x, s1). current_task s1 = current_task s)" for a and f :: "'a fds \<Rightarrow> (unit \<times> 'a fds) outcome"
    unfolding with_fds_def by (intro post_task_at post_any) (auto simp: put_task_def)
  have "zombie c (put_task c (t\<lparr>t_state := STATE_ZOMBIE, t_return_code := r\<rparr>) s)" for c t r and s :: "'a sched"
    by (simp add: zombie_def put_task_def)
  then show ?thesis unfolding exit_task_def
    by (intro post_if post_bind [OF cur]) (auto intro!: post_task_at post_bind [OF zombie_upd] zombie_reparent)
qed

lemma exit_zombie: "current_task s \<noteq> idle_task \<Longrightarrow> post (exit ret s) (zombie (current_task s))"
  unfolding exit_def switch_task_def by (auto intro!: post_bind [OF exit_task_zombie] zombie_switch_fuel)

text \<open>The delivery of a fatal signal: whatever handlers come first, the loop ends in \<open>exit\<close>.\<close>

lemma deliver_loop_fatal:
  assumes "k \<in> set is" "bit d k" "tasks s c = Some t" "t_signal_handlers t ! (k + 1) = SIG_DFL" "signal_default_actions (k + 1) = SIGNAL_TERMINATE"
    "current_task s = c" "\<And>s r. current_task s = c \<Longrightarrow> post (ex s r) Q"
  shows "post (deliver_loop ex d is s) (\<lambda>(b, s1). \<not> b \<and> Q s1)"
  using assms(1,3,4,6)
proof (induction "is" arbitrary: s t)
  case (Cons i "is")
  have keep: "\<exists>u. tasks s1 c = Some u \<and> t_signal_handlers u = t_signal_handlers t \<and> current_task s1 = c"
    if "upd_task c f s = Ret s1" "\<And>t. t_signal_handlers (f t) = t_signal_handlers t" "tasks s c = Some t" "current_task s = c" for s s1 f and t
    using that by (auto simp: upd_task_def task_at_def put_task_def)
  have enter: "\<exists>u. tasks s1 c = Some u \<and> t_signal_handlers u = t_signal_handlers t \<and> current_task s1 = c"
    if "enter_handler i h s = Ret s1" "tasks s c = Some t" "current_task s = c" for s s1 h and t
    using that by (auto simp: enter_handler_def task_at_def put_task_def Let_def bind_outcome_eq_Ret store_user_def copy_fpu_def upd_frame_def upd_task_def)
  show ?case
  proof (cases "bit d i")
    case False
    then have "k \<in> set is" using Cons.prems(1) assms(2) by auto
    from Cons.IH [OF this Cons.prems(2-4)] False show ?thesis by simp
  next
    case True
    have rest: "post (deliver_loop ex d is s1) (\<lambda>(b, s1). \<not> b \<and> Q s1)"
      if "i \<noteq> k" "tasks s1 c = Some u" "t_signal_handlers u = t_signal_handlers t" "current_task s1 = c" for s1 u
      using that Cons.prems by (intro Cons.IH [of s1 u]) auto
    show ?thesis unfolding deliver_loop.simps Let_def
    proof (simp only: True not_True_eq_False if_False, intro post_bind [OF post_self] post_task_at, goal_cases)
      case (1 s1 v)
      from keep [OF 1(1) [unfolded Cons.prems(4)] _ Cons.prems(2,4)] obtain u
        where u: "tasks s1 c = Some u" "t_signal_handlers u = t_signal_handlers t" "current_task s1 = c" by auto
      with 1(2) have v: "v = u" by (simp add: task_at_def)
      have ex: "post (bind_outcome (ex s1 r) (\<lambda>s2. Ret (False, s2))) (\<lambda>(b, s1). \<not> b \<and> Q s1)" for r
        by (rule post_bind [OF assms(7) [OF u(3)]]) simp
      show ?case
      proof (cases "i = k")
        case True
        then show ?thesis using Cons.prems(3) assms(5) ex by (simp add: v u)
      next
        case False
        let ?R = "\<lambda>(b, s1). \<not> b \<and> Q s1"
        have r1: "post (deliver_loop ex d is s1) ?R" using rest [OF False u] .
        have r2: "post (bind_outcome (upd_task c f s1) (deliver_loop ex d is)) ?R" if "\<And>t. t_signal_handlers (f t) = t_signal_handlers t" for f
          by (rule post_bind [OF post_self]) (use keep [OF _ that u(1,3)] rest [OF False] u(2) in fastforce)
        have r3: "post (bind_outcome (enter_handler i h s1) (deliver_loop ex d is)) ?R" for h
          by (rule post_bind [OF post_self]) (use enter [OF _ u(1,3)] rest [OF False] u(2) in fastforce)
        show ?thesis unfolding v u(3) by (intro post_if ex r1 r2 r3) simp
      qed
    qed
  qed
qed simp


lemma sigkill_fatal: "signal_default_actions (SIGKILL - 1 + 1) = SIGNAL_TERMINATE"
  by (simp add: signal_default_actions_def SIGKILL_def)

text \<open>C19. \<open>SIGKILL\<close> is final: when it is pending for the current task, the invariant of the scheduler holds and the task is not
  inside a signal handler, the delivery does not return to the task, whatever other signals and handlers
  it has; the task has become a zombie when the next task runs.\<close>

theorem sigkill_kills:
  assumes "sched_ok s" "tasks s (current_task s) = Some t" "current_task s \<noteq> idle_task"
    "bit (t_pending_signals t) (SIGKILL - 1)" "\<not> t_in_signal t" "deliver_signals s = Ret (b, s1)"
  shows "\<not> b \<and> zombie (current_task s) s1"
proof -
  have ok: "task_ok t" using sched_okD [OF assms(1,2)] .
  then have bit: "bit (deliverable t) (SIGKILL - 1)" using assms(4) by (simp add: deliverable_def task_ok_def bit_simps SIGKILL_def)
  have h: "t_signal_handlers t ! (SIGKILL - 1 + 1) = SIG_DFL" using ok by (simp add: task_ok_def SIGKILL_def)
  have ex: "post (exit r s') (zombie (current_task s))" if "current_task s' = current_task s" for s' r
    using exit_zombie [of s' r] assms(3) that by simp
  have "SIGKILL - 1 \<in> set [0..<31]" by (simp add: SIGKILL_def)
  from deliver_loop_fatal [OF this bit assms(2) h sigkill_fatal refl ex]
  have "post (deliver_loop (\<lambda>s ret. exit ret s) (deliverable t) [0..<31] s) (\<lambda>(b, s1). \<not> b \<and> zombie (current_task s) s1)" .
  moreover have "deliverable t \<noteq> 0" using bit by auto
  ultimately have "post (deliver_signals s) (\<lambda>(b, s1). \<not> b \<and> zombie (current_task s) s1)"
    using assms(2,5) by (simp add: deliver_signals_def deliver_with_def task_at_def)
  then show ?thesis using assms(6) by simp
qed


definition demo_killed :: "ram fs_world sched" where
  "demo_killed = put_task 3 ((demo_task 2 4)\<lparr>t_state := STATE_RUNNING, t_pending_signals := 0x100\<rparr>) demo_sched"

lemma demo_task_ok [simp]: "task_ok (demo_task pid nxt)"
  by (simp add: task_ok_def demo_task_def SIGKILL_def SIGSTOP_def)

lemma demo_sched_ok: "sched_ok demo_sched"
proof -
  have "ring_ok demo_sched [3, 4]"
    by (simp add: ring_ok_def ring_def demo_sched_def demo_task_def init_task_def idle_task_def)
  moreover have "task_ok t" if "tasks demo_sched a = Some t" for a t
    using that by (auto simp: demo_sched_def split: if_splits)
  ultimately show ?thesis by (auto simp: sched_ok_def idle_task_def) (simp add: demo_sched_def)
qed

lemma demo_tasks [simp]:
  "tasks demo_sched 2 = Some ((demo_task 1 3)\<lparr>t_state := STATE_BLOCKED, t_block_reason := BLOCK_WAITPID, t_child := 4\<rparr>)"
  "tasks demo_sched 3 = Some ((demo_task 2 4)\<lparr>t_state := STATE_RUNNING\<rparr>)" "tasks demo_sched 4 = Some ((demo_task 3 2)\<lparr>t_next_sibling := 3\<rparr>)"
  by (simp_all add: demo_sched_def)

lemma demo_killed_ok: "sched_ok demo_killed"
  unfolding demo_killed_def by (rule sched_ok_soft [OF soft_put [OF demo_tasks(2)] demo_sched_ok]) (simp add: soft_task_def)

lemma release_no_entries: "\<forall>k\<in>set ks. fde_fd (fd_table d ! k) = None \<Longrightarrow> release_loop ks d = Ret d"
  by (induction ks) auto

lemma with_fds_release:
  assumes "tasks s a = Some t" "\<forall>k<MAX_FDS. fde_fd (t_fd_table t ! k) = None"
  shows "\<exists>d. with_fds a (\<lambda>d. bind_outcome (release_process_fds d) (\<lambda>d1. Ret ((), d1))) s = Ret ((), s\<lparr>s_fds := d\<rparr>)"
proof -
  let ?d = "(s_fds s)\<lparr>fd_table := t_fd_table t, fd_vfs := (fd_vfs (s_fds s))\<lparr>wd := t_wd t\<rparr>\<rparr>"
  have "release_process_fds ?d = Ret ?d"
    unfolding release_process_fds_def by (rule release_no_entries) (use assms(2) in simp)
  then have "with_fds a (\<lambda>d. bind_outcome (release_process_fds d) (\<lambda>d1. Ret ((), d1))) s =
      Ret ((), put_task a (t\<lparr>t_fd_table := fd_table ?d, t_wd := wd (fd_vfs ?d)\<rparr>) (s\<lparr>s_fds := ?d\<rparr>))"
    unfolding with_fds_def task_at_def assms(1) by (simp only: option.case bind_outcome.simps prod.case)
  moreover have "t\<lparr>t_fd_table := fd_table ?d, t_wd := wd (fd_vfs ?d)\<rparr> = t" by simp
  moreover have "put_task a t (s\<lparr>s_fds := ?d\<rparr>) = s\<lparr>s_fds := ?d\<rparr>" using assms(1) by (simp add: put_task_def fun_upd_idem)
  ultimately show ?thesis by metis
qed

lemma reparent_none: "0 < n \<Longrightarrow> reparent n p 0 s = Ret s"
  by (cases n) simp_all

lemma switch_fuel_quiet:
  "0 < n \<Longrightarrow> choose_task s = Ret s1 \<Longrightarrow> tasks s1 (current_task s1) = Some t \<Longrightarrow> deliverable t = 0 \<Longrightarrow> switch_fuel n s = resume s1"
  by (cases n) (simp_all add: deliver_with_def task_at_def)

lemma demo_killed_exit: "\<exists>s1. deliver_signals demo_killed = Ret (False, s1)"
proof -
  let ?t = "(demo_task 2 4)\<lparr>t_state := STATE_RUNNING, t_pending_signals := 0\<rparr>"
  let ?s = "put_task 3 ?t demo_sched"
  let ?z = "?t\<lparr>t_state := STATE_ZOMBIE, t_return_code := - 9\<rparr>"
  let ?p = "(demo_task 1 3)\<lparr>t_state := STATE_BLOCKED, t_block_reason := BLOCK_WAITPID, t_child := 4, t_pending_signals := 0x10000\<rparr>"
  have "tasks ?s 3 = Some ?t" "\<forall>k<MAX_FDS. fde_fd (t_fd_table ?t ! k) = None" by (simp_all add: put_task_def demo_task_def no_entry_def)
  from with_fds_release [OF this] obtain d
    where w: "with_fds 3 (\<lambda>d. bind_outcome (release_process_fds d) (\<lambda>d1. Ret ((), d1))) ?s = Ret ((), ?s\<lparr>s_fds := d\<rparr>)" ..
  let ?e = "put_task 2 ?p (put_task 3 ?z (?s\<lparr>s_fds := d\<rparr>))"
  have t: "t_parent ?t = 2" "t_child ?t = 0" by (simp_all add: demo_task_def)
  have cur: "current_task ?s = 3" by (simp add: put_task_def)
  have e: "exit_task (- 9) ?s = Ret ?e"
    unfolding exit_task_def cur w
    by (simp add: init_task_def task_at_def put_task_def upd_task_def t reparent_none ring_fuel_def SIGCHLD_def demo_task_def)
  have r: "ring (tasks ?e) (rr_task ?e) [4, 2]" by (simp add: ring_def put_task_def demo_task_def)
  have "choose_task ?e = Ret ((put_task 4 ((demo_task 3 2)\<lparr>t_next_sibling := 3, t_state := STATE_RUNNING\<rparr>) (?e\<lparr>rr_task := 4\<rparr>))
      \<lparr>current_task := 4, ticks_remaining := PROCESS_TICKS, s_mem := change_pml4 0x1000 (s_mem demo_sched), tss_rsp0 := 14\<rparr>)"
    using get_next_task_ring [OF r] by (simp add: choose_task_def put_task_def ready_def task_at_def Let_def demo_task_def)
  then have "\<exists>s1. switch_task ?e = Ret s1" unfolding switch_task_def
    by (subst switch_fuel_quiet) (auto simp: ring_fuel_def put_task_def deliverable_def demo_task_def resume_def task_at_def)
  with e have "\<exists>s1. exit (- 9) ?s = Ret s1" by (simp add: exit_def)
  moreover have "deliver_signals demo_killed = bind_outcome (exit (- 9) ?s) (\<lambda>s2. Ret (False, s2))"
  proof -
    let ?k = "(demo_task 2 4)\<lparr>t_state := STATE_RUNNING, t_pending_signals := 0x100\<rparr>"
    have d: "deliverable ?k = push_bit 8 1" "\<not> t_in_signal ?k" by (simp_all add: deliverable_def demo_task_def)
    have k: "tasks demo_killed 3 = Some ?k" "current_task demo_killed = 3" by (simp_all add: demo_killed_def put_task_def)
    have one: "deliver_loop (\<lambda>s ret. exit ret s) (push_bit 8 1) [8] demo_killed = bind_outcome (exit (- 9) ?s) (\<lambda>s2. Ret (False, s2))"
      using k by (simp add: upd_task_def task_at_def demo_killed_def put_task_def demo_task_def signal_default_actions_def)
    have "push_bit 8 (1 :: u32) \<noteq> 0" by simp
    then have "deliver_signals demo_killed = deliver_loop (\<lambda>s ret. exit ret s) (push_bit 8 1) [0..<31] demo_killed"
      unfolding deliver_signals_def deliver_with_def k(2) task_at_def k(1) option.case bind_outcome.simps d(1) using d(2) by (simp only: if_False simp_thms)
    also have "\<dots> = deliver_loop (\<lambda>s ret. exit ret s) (push_bit 8 1) [8] demo_killed" by (rule deliver_loop_single) simp_all
    finally show ?thesis using one by (rule trans)
  qed
  ultimately show ?thesis by auto
qed


theorem sigkill_kills_witness: "\<exists>s1. deliver_signals demo_killed = Ret (False, s1) \<and> zombie 3 s1"
proof -
  obtain s1 where s1: "deliver_signals demo_killed = Ret (False, s1)" using demo_killed_exit by blast
  have k: "current_task demo_killed = 3" by (simp add: demo_killed_def put_task_def)
  have t: "tasks demo_killed (current_task demo_killed) = Some ((demo_task 2 4)\<lparr>t_state := STATE_RUNNING, t_pending_signals := 0x100\<rparr>)"
    by (simp add: demo_killed_def put_task_def)
  have i: "current_task demo_killed \<noteq> idle_task" by (simp add: k idle_task_def)
  have b: "bit (t_pending_signals ((demo_task 2 4)\<lparr>t_state := STATE_RUNNING, t_pending_signals := 0x100\<rparr>)) (SIGKILL - 1)"
    by (simp add: SIGKILL_def)
  have n: "\<not> t_in_signal ((demo_task 2 4)\<lparr>t_state := STATE_RUNNING, t_pending_signals := 0x100\<rparr>)" by (simp add: demo_task_def)
  show ?thesis using sigkill_kills [OF demo_killed_ok t i b n s1] s1 unfolding k by blast
qed

end
