(* ===== verification/Waiting.thy ===== *)
theory Waiting
  imports Schedinv
begin

text \<open>
  Properties of single operations of processes: sleeping, \<open>fork\<close> and the break.
\<close>

section \<open>Sleeping\<close>

text \<open>A timer tick, seen from one task; and the tasks for which that is all: those that do not wait for a
  child and have no signal pending while they sleep.\<close>

definition tick :: "task \<Rightarrow> task" where
  "tick t = (if t_state t = STATE_BLOCKED \<and> t_block_reason t = BLOCK_DELAY then
     if t_blocked_ticks t - 1 = 0 then t\<lparr>t_blocked_ticks := 0, t_state := STATE_READY, t_block_reason := BLOCK_NONE\<rparr>
     else t\<lparr>t_blocked_ticks := t_blocked_ticks t - 1\<rparr> else t)"

definition only_sleeps :: "task \<Rightarrow> bool" where
  "only_sleeps t \<longleftrightarrow> (t_state t = STATE_BLOCKED \<longrightarrow> t_block_reason t \<noteq> BLOCK_WAITPID \<and> \<not> has_pending_signals t)"

lemma has_pending_fields [simp]:
  "has_pending_signals (t\<lparr>t_blocked_ticks := x\<rparr>) = has_pending_signals t" "has_pending_signals (t\<lparr>t_state := y\<rparr>) = has_pending_signals t"
  "has_pending_signals (t\<lparr>t_block_reason := z\<rparr>) = has_pending_signals t"
  by (simp_all add: has_pending_signals_def takes_signal_def deliverable_def)

lemma tick_fields [simp]: "t_next (tick t) = t_next t" "only_sleeps t \<Longrightarrow> only_sleeps (tick t)"
  by (auto simp: tick_def only_sleeps_def)

lemma check_task_tick:
  assumes "tasks s a = Some t" "only_sleeps t"
  shows "check_task True a s = Ret (put_task a (tick t) s)"
proof (cases "t_state t = STATE_BLOCKED \<and> t_block_reason t = BLOCK_DELAY")
  case True
  then have n: "\<not> has_pending_signals t" using assms(2) by (simp add: only_sleeps_def)
  then show ?thesis using assms(1) True
    by (simp add: check_task_def task_at_def check_delay_def Let_def wake_def upd_task_def put_task_def tick_def)
next
  case False
  then have "tick t = t" by (auto simp: tick_def)
  moreover have "put_task a t s = s" using assms(1) by (simp add: put_task_def fun_upd_idem)
  ultimately show ?thesis using False assms
    by (auto simp: check_task_def task_at_def only_sleeps_def split: block_reason.splits)
qed

definition tick_all :: "nat set \<Rightarrow> 'w sched \<Rightarrow> 'w sched" where
  "tick_all A s = s\<lparr>tasks := (\<lambda>b. if b \<in> A then map_option tick (tasks s b) else tasks s b)\<rparr>"

lemma tick_all_put: "tasks s a = Some t \<Longrightarrow> a \<notin> A \<Longrightarrow> tick_all A (put_task a (tick t) s) = tick_all (insert a A) s"
  by (rule sched.equality) (auto simp: tick_all_def put_task_def)

lemma ring_each_tick:
  assumes "links (tasks s) a (xs @ [init_task])" "distinct (a # xs)" "init_task \<notin> set xs" "length xs < n"
    "\<forall>b\<in>set (a # xs). \<exists>t. tasks s b = Some t \<and> only_sleeps t"
  shows "ring_each n (check_task True) a s = Ret (tick_all (set (a # xs)) s)"
  using assms
proof (induction xs arbitrary: a s n)
  case Nil
  then obtain t k where t: "tasks s a = Some t" "only_sleeps t" "t_next t = init_task" "n = Suc k" by (cases n) (auto split: option.splits)
  then have "ring_each n (check_task True) a s = Ret (put_task a (tick t) s)"
    using check_task_tick [OF t(1,2)] by (simp add: task_at_def put_task_def)
  then show ?case using tick_all_put [OF t(1), of "{}"] by (simp add: tick_all_def)
next
  case (Cons x xs)
  then obtain t k where t: "tasks s a = Some t" "only_sleeps t" "t_next t = x" "n = Suc k" by (cases n) (auto split: option.splits)
  let ?s = "put_task a (tick t) s"
  have l: "links (tasks ?s) x (xs @ [init_task])"
    by (rule links_cong [of "tasks s"]) (use Cons.prems t in \<open>auto simp: put_task_def butlast_append\<close>)
  have "ring_each k (check_task True) x ?s = Ret (tick_all (set (x # xs)) ?s)"
    by (rule Cons.IH [OF l]) (use Cons.prems t in \<open>auto simp: put_task_def\<close>)
  moreover have "tick_all (set (x # xs)) ?s = tick_all (set (a # x # xs)) s"
    using tick_all_put [OF t(1), of "set (x # xs)"] Cons.prems(2) by simp
  moreover have "x \<noteq> init_task" using Cons.prems(3) by auto
  ultimately show ?case using check_task_tick [OF t(1,2)] t by (simp add: task_at_def put_task_def)
qed

lemma check_blocked_tick:
  assumes "ring (tasks s) init_task ys" "\<forall>b\<in>set (init_task # ys). b < next_addr s" "\<forall>b\<in>set (init_task # ys). \<exists>t. tasks s b = Some t \<and> only_sleeps t"
  shows "check_blocked_tasks True s = Ret (tick_all (set (init_task # ys)) s)"
  unfolding check_blocked_tasks_def
  by (rule ring_each_tick) (use assms ring_short [of init_task ys s] in \<open>auto simp: ring_def\<close>)

fun ticks :: "nat \<Rightarrow> 'w sched \<Rightarrow> 'w sched outcome" where
  "ticks 0 s = Ret s"
| "ticks (Suc n) s = bind_outcome (check_blocked_tasks True s) (ticks n)"

lemma ticks_map:
  assumes "ring (tasks s) init_task ys" "\<forall>b\<in>set (init_task # ys). b < next_addr s" "\<forall>b\<in>set (init_task # ys). \<exists>t. tasks s b = Some t \<and> only_sleeps t"
  shows "\<exists>s1. ticks n s = Ret s1 \<and> (\<forall>b\<in>set (init_task # ys). tasks s1 b = map_option (tick ^^ n) (tasks s b))"
  using assms
proof (induction n arbitrary: s)
  case 0
  then show ?case by (auto simp: option.map_id0)
next
  case (Suc n)
  let ?s = "tick_all (set (init_task # ys)) s"
  have "ring (tasks ?s) init_task ys"
    by (rule ring_cong [OF Suc.prems(1)]) (auto simp: tick_all_def option.map_comp comp_def)
  moreover have "\<forall>b\<in>set (init_task # ys). \<exists>t. tasks ?s b = Some t \<and> only_sleeps t"
    using Suc.prems(3) by (fastforce simp: tick_all_def)
  ultimately obtain s1 where "ticks n ?s = Ret s1" "\<forall>b\<in>set (init_task # ys). tasks s1 b = map_option (tick ^^ n) (tasks ?s b)"
    using Suc.IH [of ?s] Suc.prems(2) by (auto simp: tick_all_def)
  then show ?case using check_blocked_tick [OF Suc.prems]
    by (auto simp: tick_all_def option.map_comp funpow_swap1 comp_def simp del: funpow.simps simp: funpow_Suc_right)
qed

lemma tick_countdown:
  assumes "t_state t = STATE_BLOCKED" "t_block_reason t = BLOCK_DELAY" "n < unat (t_blocked_ticks t)"
  shows "(tick ^^ n) t = t\<lparr>t_blocked_ticks := t_blocked_ticks t - word_of_nat n\<rparr>"
  using assms(3)
proof (induction n)
  case (Suc n)
  have w: "t_blocked_ticks t - word_of_nat n - 1 = t_blocked_ticks t - word_of_nat (Suc n)" by simp
  have "t_blocked_ticks t - word_of_nat (Suc n) \<noteq> 0"
  proof
    assume "t_blocked_ticks t - word_of_nat (Suc n) = 0"
    then have "t_blocked_ticks t = word_of_nat (Suc n)" by (simp only: right_minus_eq)
    moreover have "unat (word_of_nat (Suc n) :: u64) = Suc n mod 2 ^ 64" by (subst unat_of_nat) simp
    ultimately have "unat (t_blocked_ticks t) = Suc n mod 2 ^ 64" by (simp only:)
    moreover have "Suc n mod 2 ^ 64 \<le> Suc n" by (rule mod_less_eq_dividend)
    ultimately show False using Suc.prems by simp
  qed
  then have "tick (t\<lparr>t_blocked_ticks := t_blocked_ticks t - word_of_nat n\<rparr>) = t\<lparr>t_blocked_ticks := t_blocked_ticks t - word_of_nat (Suc n)\<rparr>"
    using assms(1,2) unfolding w [symmetric] tick_def by simp
  then show ?case using Suc by simp
qed simp

lemma tick_last:
  assumes "t_state t = STATE_BLOCKED" "t_block_reason t = BLOCK_DELAY" "t_blocked_ticks t \<noteq> 0"
  shows "t_state ((tick ^^ unat (t_blocked_ticks t)) t) = STATE_READY"
proof -
  obtain n where n: "unat (t_blocked_ticks t) = Suc n" using assms(3) by (cases "unat (t_blocked_ticks t)") (auto simp: unat_eq_0)
  have "(tick ^^ n) t = t\<lparr>t_blocked_ticks := t_blocked_ticks t - word_of_nat n\<rparr>" using tick_countdown assms n by simp
  moreover have "t_blocked_ticks t = word_of_nat (Suc n)" using n by (metis of_nat_unat ucast_id)
  ultimately show ?thesis using assms(1,2) n by (simp add: tick_def)
qed

text \<open>C37. A sleeping task is woken by exactly the timer tick that its delay asks for, and by no earlier one: with
  the tasks in a ring, no signals pending for sleeping tasks and nobody waiting for a child, the scan of
  the timer interrupt never fails, the task is still blocked after fewer ticks than it asked for, and
  ready after that many.\<close>

theorem sleep_wakes_on_time:
  assumes "ring (tasks s) init_task ys" "\<forall>b\<in>set (init_task # ys). b < next_addr s" "\<forall>b\<in>set (init_task # ys). \<exists>t. tasks s b = Some t \<and> only_sleeps t"
    "a \<in> set (init_task # ys)" "tasks s a = Some t" "t_state t = STATE_BLOCKED" "t_block_reason t = BLOCK_DELAY" "t_blocked_ticks t \<noteq> 0"
  shows "(\<forall>n<unat (t_blocked_ticks t). \<exists>s1 u. ticks n s = Ret s1 \<and> tasks s1 a = Some u \<and> t_state u = STATE_BLOCKED) \<and>
    (\<exists>s1 u. ticks (unat (t_blocked_ticks t)) s = Ret s1 \<and> tasks s1 a = Some u \<and> t_state u = STATE_READY)"
proof -
  have "\<exists>s1. ticks n s = Ret s1 \<and> tasks s1 a = Some ((tick ^^ n) t)" for n
    using ticks_map [OF assms(1-3), of n] assms(4,5) by fastforce
  then show ?thesis using tick_countdown [OF assms(6,7)] tick_last [OF assms(6-8)] assms(6) by fastforce
qed

definition demo_sleep :: "ram fs_world sched" where
  "demo_sleep = demo_sched\<lparr>tasks := (tasks demo_sched)(2 \<mapsto> demo_task 1 3,
     4 \<mapsto> (demo_task 3 2)\<lparr>t_state := STATE_BLOCKED, t_block_reason := BLOCK_DELAY, t_blocked_ticks := 2\<rparr>)\<rparr>"

theorem sleep_wakes_on_time_witness:
  "\<exists>s1 u s2 v. ticks 1 demo_sleep = Ret s1 \<and> tasks s1 4 = Some u \<and> t_state u = STATE_BLOCKED \<and>
     ticks 2 demo_sleep = Ret s2 \<and> tasks s2 4 = Some v \<and> t_state v = STATE_READY"
proof -
  let ?t = "(demo_task 3 2)\<lparr>t_state := STATE_BLOCKED, t_block_reason := BLOCK_DELAY, t_blocked_ticks := 2\<rparr>"
  have r: "ring (tasks demo_sleep) init_task [3, 4]"
    by (simp add: ring_def demo_sleep_def demo_sched_def demo_task_def init_task_def)
  have b: "\<forall>b\<in>set [init_task, 3, 4]. b < next_addr demo_sleep" by (simp add: demo_sleep_def init_task_def)
  have o: "\<forall>b\<in>set [init_task, 3, 4]. \<exists>t. tasks demo_sleep b = Some t \<and> only_sleeps t"
    by (simp add: demo_sleep_def demo_sched_def init_task_def only_sleeps_def demo_task_def has_pending_signals_def deliverable_def)
  have m: "4 \<in> set [init_task, 3, 4]" and t: "tasks demo_sleep 4 = Some ?t" by (simp_all add: demo_sleep_def)
  have f: "t_state ?t = STATE_BLOCKED" "t_block_reason ?t = BLOCK_DELAY" "t_blocked_ticks ?t \<noteq> 0" "unat (t_blocked_ticks ?t) = 2" by simp_all
  from sleep_wakes_on_time [OF r b o m t f(1-3)] have
    "\<forall>n<2. \<exists>s1 u. ticks n demo_sleep = Ret s1 \<and> tasks s1 4 = Some u \<and> t_state u = STATE_BLOCKED"
    "\<exists>s1 u. ticks 2 demo_sleep = Ret s1 \<and> tasks s1 4 = Some u \<and> t_state u = STATE_READY" unfolding f(4) by blast+
  moreover have "(1 :: nat) < 2" by simp
  ultimately show ?thesis by blast
qed

section \<open>The break\<close>

lemma sint_bounds: "- (2 ^ 63) \<le> sint (x :: u64)" "sint (x :: u64) < 2 ^ 63"
  using sint_ge [of x] sint_lt [of x] by simp_all

lemma uint_sint_mod: "uint (x :: u64) = sint x mod 2 ^ 64"
  by (simp add: uint_sint take_bit_eq_mod)

lemma uint_pos: "0 < sint (x :: u64) \<Longrightarrow> uint x = sint x"
  using uint_sint_mod [of x] sint_bounds [of x] by (simp add: mod_pos_pos_trivial)

lemma uint_minus_neg: "sint (x :: u64) < 0 \<Longrightarrow> uint (- (x + 1) + 1) = - sint x"
proof -
  assume "sint x < 0"
  have "uint (- x) = (- uint x) mod 2 ^ 64" by (simp add: uint_word_ariths)
  also have "\<dots> = (- sint x) mod 2 ^ 64" unfolding uint_sint_mod by (rule mod_minus_eq)
  also have "\<dots> = - sint x" using \<open>sint x < 0\<close> sint_bounds [of x] by (intro mod_pos_pos_trivial) simp_all
  finally show ?thesis by simp
qed

lemma uint_add_small: "uint (a :: u64) + uint b < 2 ^ 64 \<Longrightarrow> uint (a + b) = uint a + uint b"
  by (simp add: uint_word_ariths mod_pos_pos_trivial)

lemma uint_sub_le: "b \<le> (a :: u64) \<Longrightarrow> uint (a - b) = uint a - uint b"
  by (simp add: word_le_def uint_sub_lem [THEN iffD1])

lemma set_brk_result:
  assumes "tasks s (current_task s) = Some t" "current_task s \<noteq> 0" "addr \<noteq> 0" "t_initial_brk t \<le> addr" "unat addr \<le> USER_MAX"
    "t_initial_brk t \<le> t_brk t" "set_brk addr s = Ret (r, s1)"
  shows "r = addr \<and> tasks s1 (current_task s) = Some (t\<lparr>t_brk := addr\<rparr>)"
proof -
  have "\<not> addr < t_initial_brk t" "\<not> USER_MAX < unat addr" "\<not> t_brk t < t_initial_brk t" using assms(4-6) by auto
  then show ?thesis using assms(1,2,3,7)
    by (auto simp: set_brk_def task_at_def Let_def bind_outcome_eq_Ret put_task_def)
qed

lemma user_max: "unat (x :: u64) \<le> USER_MAX \<longleftrightarrow> uint x \<le> int USER_MAX" "int USER_MAX < 2 ^ 47"
  by (simp only: uint_nat of_nat_le_iff) (simp add: USER_MAX_def)

lemma sbrk_grow:
  assumes "tasks s (current_task s) = Some t" "current_task s \<noteq> 0" "t_initial_brk t \<noteq> 0" "t_initial_brk t \<le> t_brk t"
    "uint (t_brk t) \<le> int USER_MAX" "sbrk inc s = Ret (r, s1)" "0 < sint inc"
  shows "if uint (t_brk t) + sint inc \<le> int USER_MAX
    then r = t_brk t \<and> (\<exists>b. tasks s1 (current_task s) = Some (t\<lparr>t_brk := b\<rparr>) \<and> uint b = uint (t_brk t) + sint inc)
    else r = BRK_FAILED \<and> s1 = s"
proof -
  have b0: "t_brk t \<noteq> 0" using assms(3,4) by (metis word_le_0_iff)
  have sum: "uint (t_brk t + inc) = uint (t_brk t) + sint inc"
    using assms(5,7) uint_pos [OF assms(7)] sint_bounds(2) [of inc] user_max(2) by (subst uint_add_small) auto
  have "\<not> inc > - 1 - t_brk t"
  proof -
    have "uint (- 1 - t_brk t) = 2 ^ 64 - 1 - uint (t_brk t)" by (subst uint_sub_le) (auto simp: unsigned_minus_1_eq_mask mask_eq_exp_minus_1)
    then show ?thesis using assms(5) uint_pos [OF assms(7)] sint_bounds(2) [of inc] user_max(2) by (simp add: word_less_def)
  qed
  then have e: "sbrk inc s = (if unat (t_brk t + inc) > USER_MAX then Ret (BRK_FAILED, s)
      else bind_outcome (set_brk (t_brk t + inc) s) (\<lambda>(r, s1). Ret (if r = 0 then BRK_FAILED else t_brk t, s1)))"
    using assms(1,2,7) b0 by (simp add: sbrk_def task_at_def Let_def)
  show ?thesis
  proof (cases "uint (t_brk t) + sint inc \<le> int USER_MAX")
    case True
    have n0: "t_brk t + inc \<noteq> 0" using sum assms(7) by (metis uint_0_eq add_nonneg_pos less_irrefl uint_ge_0)
    have "t_initial_brk t \<le> t_brk t + inc" using assms(4,7) sum by (simp add: word_le_def)
    moreover have u: "unat (t_brk t + inc) \<le> USER_MAX" using True sum by (simp add: user_max)
    moreover obtain q where "set_brk (t_brk t + inc) s = Ret (q, s1)" "r = (if q = 0 then BRK_FAILED else t_brk t)"
      using assms(6) e u by (auto simp: bind_outcome_eq_Ret)
    ultimately have "q = t_brk t + inc \<and> tasks s1 (current_task s) = Some (t\<lparr>t_brk := t_brk t + inc\<rparr>)"
      by (intro set_brk_result [OF assms(1,2) n0]) (use assms(4) in simp_all)
    then show ?thesis using True sum n0 \<open>r = _\<close> by auto
  next
    case False
    then have "unat (t_brk t + inc) > USER_MAX" using sum user_max(1) [of "t_brk t + inc"] by simp
    then show ?thesis using e assms(6) False by simp
  qed
qed

lemma sbrk_shrink:
  assumes "tasks s (current_task s) = Some t" "current_task s \<noteq> 0" "t_initial_brk t \<noteq> 0" "t_initial_brk t \<le> t_brk t"
    "uint (t_brk t) \<le> int USER_MAX" "sbrk inc s = Ret (r, s1)" "sint inc < 0"
  shows "if uint (t_initial_brk t) \<le> uint (t_brk t) + sint inc
    then r = t_brk t \<and> (\<exists>b. tasks s1 (current_task s) = Some (t\<lparr>t_brk := b\<rparr>) \<and> uint b = uint (t_brk t) + sint inc)
    else r = BRK_FAILED \<and> s1 = s"
proof -
  define am where "am = - (inc + 1) + 1"
  have am: "uint am = - sint inc" unfolding am_def by (rule uint_minus_neg [OF assms(7)])
  have b0: "t_brk t \<noteq> 0" using assms(3,4) by (metis word_le_0_iff)
  have gap: "uint (t_brk t - t_initial_brk t) = uint (t_brk t) - uint (t_initial_brk t)" using assms(4) by (rule uint_sub_le)
  have e: "sbrk inc s = (if am > t_brk t - t_initial_brk t then Ret (BRK_FAILED, s)
      else bind_outcome (set_brk (t_brk t - am) s) (\<lambda>(r, s1). Ret (if r = 0 then BRK_FAILED else t_brk t, s1)))"
    using assms(1,2,4,7) b0 unfolding sbrk_def task_at_def Let_def am_def [symmetric] by auto
  show ?thesis
  proof (cases "uint (t_initial_brk t) \<le> uint (t_brk t) + sint inc")
    case True
    then have g: "\<not> am > t_brk t - t_initial_brk t" using gap am by (simp add: word_less_def)
    have "0 \<le> uint (t_initial_brk t)" by simp
    then have "am \<le> t_brk t" using True am unfolding word_le_def by linarith
    then have dif: "uint (t_brk t - am) = uint (t_brk t) + sint inc" using am by (simp add: uint_sub_le)
    have le: "t_initial_brk t \<le> t_brk t - am" using True dif by (simp add: word_le_def)
    then have n0: "t_brk t - am \<noteq> 0" using assms(3) by (metis word_le_0_iff)
    have u: "unat (t_brk t - am) \<le> USER_MAX" using dif assms(5,7) by (simp add: user_max)
    obtain q where q: "set_brk (t_brk t - am) s = Ret (q, s1)" "r = (if q = 0 then BRK_FAILED else t_brk t)"
      using assms(6) e g by (auto simp: bind_outcome_eq_Ret)
    show ?thesis using set_brk_result [OF assms(1,2) n0 le u assms(4) q(1)] True dif n0 q(2) by auto
  next
    case False
    then have "am > t_brk t - t_initial_brk t" using gap am by (simp add: word_less_def)
    then show ?thesis using e assms(6) False by simp
  qed
qed

text \<open>\<open>sbrk\<close> moves the break by exactly its argument and returns the old one, or returns \<open>-1\<close> and changes
  nothing; it fails exactly when the new break would leave the range from the initial break to the end of
  the user half.\<close>

theorem sbrk_moves_break:
  assumes "tasks s (current_task s) = Some t" "current_task s \<noteq> 0" "t_initial_brk t \<noteq> 0" "t_initial_brk t \<le> t_brk t"
    "uint (t_brk t) \<le> int USER_MAX" "sbrk inc s = Ret (r, s1)"
  shows "if uint (t_initial_brk t) \<le> uint (t_brk t) + sint inc \<and> uint (t_brk t) + sint inc \<le> int USER_MAX
    then r = t_brk t \<and> (\<exists>b. tasks s1 (current_task s) = Some (t\<lparr>t_brk := b\<rparr>) \<and> uint b = uint (t_brk t) + sint inc)
    else r = BRK_FAILED \<and> s1 = s"
proof -
  have le: "uint (t_initial_brk t) \<le> uint (t_brk t)" using assms(4) by (simp add: word_le_def)
  consider "0 < sint inc" | "sint inc < 0" | "sint inc = 0" by linarith
  then show ?thesis
  proof cases
    case 1
    then show ?thesis using sbrk_grow [OF assms 1] le by simp
  next
    case 2
    then show ?thesis using sbrk_shrink [OF assms 2] assms(5) by simp
  next
    case 3
    have "t_brk t \<noteq> 0" using assms(3,4) by (metis word_le_0_iff)
    then have "sbrk inc s = Ret (t_brk t, s)" using 3 assms(1,2) by (simp add: sbrk_def task_at_def Let_def)
    then have "r = t_brk t" "s1 = s" using assms(6) by simp_all
    moreover have "\<exists>b. tasks s (current_task s) = Some (t\<lparr>t_brk := b\<rparr>) \<and> uint b = uint (t_brk t) + sint inc"
      by (rule exI [of _ "t_brk t"]) (use assms(1) 3 in simp)
    ultimately show ?thesis using 3 assms(5) le by simp
  qed
qed


definition demo_brk :: "ram fs_world sched" where
  "demo_brk = put_task 3 ((demo_task 2 4)\<lparr>t_brk := 0x500800\<rparr>) demo_sched"

theorem sbrk_moves_break_witness:
  "\<exists>s1 b. sbrk 16 demo_brk = Ret (0x500800, s1) \<and> tasks s1 3 = Some ((demo_task 2 4)\<lparr>t_brk := b\<rparr>) \<and> uint b = 0x500810"
proof -
  let ?t = "(demo_task 2 4)\<lparr>t_brk := 0x500800\<rparr>"
  have c: "current_task demo_brk = 3" by (simp add: demo_brk_def put_task_def)
  have t: "tasks demo_brk (current_task demo_brk) = Some ?t" by (simp add: demo_brk_def put_task_def)
  have f: "current_task demo_brk \<noteq> 0" "t_initial_brk ?t \<noteq> 0" "t_initial_brk ?t \<le> t_brk ?t" "uint (t_brk ?t) \<le> int USER_MAX"
    by (simp_all add: c demo_task_def USER_MAX_def)
  have si: "sint (16 :: u64) = 16" by simp
  obtain s1 r where s1: "sbrk 16 demo_brk = Ret (r, s1)"
    using t c by (simp add: sbrk_def set_brk_def task_at_def Let_def demo_task_def USER_MAX_def page_align_up_def PAGE_MASK_def)
  from sbrk_moves_break [OF t f s1] show ?thesis using s1 unfolding c by (simp add: si demo_task_def USER_MAX_def)
qed

section \<open>Fork\<close>

text \<open>C18. \<open>fork\<close> makes a child that is a copy of its parent: it has the parent's table of descriptors and the
  cloned address space, it resumes at the same point with result 0 while the parent resumes with the new
  process id, both are ready, the child is the first child of its parent and follows it in the ring, and
  the reference counts of the open files stay right.\<close>

theorem fork_copies:
  assumes "tasks s (current_task s) = Some c" "last_pid s \<noteq> PID_MAX" "clone_page_tables (t_cr3 c) (s_mem s) = Ret (cr3, m)"
    "current_task s < next_addr s" "f < next_addr s" "t_fpu_state c < next_addr s"
    "refs_ok ((s_fds s)\<lparr>fd_table := t_fd_table c\<rparr>)"
  shows "\<exists>s1 p n. fork f s = switch_task s1 \<and> tasks s1 (current_task s) = Some p \<and> tasks s1 (next_addr s) = Some n \<and>
    t_pid n = last_pid s + 1 \<and> t_parent n = current_task s \<and> t_fd_table n = t_fd_table c \<and> t_cr3 n = cr3 \<and>
    t_state n = STATE_READY \<and> t_state p = STATE_READY \<and> t_child p = next_addr s \<and> t_next p = next_addr s \<and> t_next n = t_next c \<and>
    t_next_sibling n = t_child c \<and> frames s1 (t_iframe n) = (frames s f)\<lparr>rax := 0\<rparr> \<and>
    frames s1 (t_iframe p) = (frames s f)\<lparr>rax := word_of_int (last_pid s + 1)\<rparr> \<and> fpus s1 (t_fpu_state n) = cpu_fpu s \<and>
    refs_ok ((s_fds s1)\<lparr>fd_table := t_fd_table p, other_tables := t_fd_table n # other_tables (s_fds s1)\<rparr>)"
proof -
  have comm: "d\<lparr>file_descriptions := x, fd_table := T\<rparr> = d\<lparr>fd_table := T, file_descriptions := x\<rparr>" for x T and d :: "'a fds" by simp
  have sh: "(share_fds es d)\<lparr>fd_table := T\<rparr> = share_fds es (d\<lparr>fd_table := T\<rparr>)" for es T and d :: "'a fds"
    by (induction es arbitrary: d) (auto simp: upd_desc_def Fd.desc_def comm split: option.splits)
  have refs: "refs_ok ((share_fds (t_fd_table c) (s_fds s))\<lparr>fd_table := t_fd_table c, other_tables := t_fd_table c # other_tables (s_fds s)\<rparr>)"
    using share_fds_refs [OF assms(7)] by (simp add: sh)
  show ?thesis
    unfolding fork_def upd_task_def task_at_def assms(1) on_mem_def
    using assms(2-6) refs
    by (simp add: assms(1) sched_kmalloc_def sched_fields Let_def, intro conjI impI) (rule exI, rule conjI, rule refl, simp)+
qed

lemma each_idle: "\<forall>i\<in>set is. f i m = Ret m \<Longrightarrow> each is f m = Ret m"
  by (induction "is") auto

lemma each_returns: "(\<And>i m. \<exists>m1. f i m = Ret m1) \<Longrightarrow> \<exists>m1. each is f m = Ret m1"
proof (induction "is" arbitrary: m)
  case (Cons i "is")
  then obtain m1 where "f i m = Ret m1" by blast
  then show ?case using Cons by simp
qed simp

lemma demo_clone: "\<exists>cr3 m. clone_page_tables 0 demo_paging = Ret (cr3, m)"
proof -
  obtain a m1 where a: "allocate_physical_page demo_paging = Ret (a, m1)" "\<forall>i. phys m1 0 i = 0"
    by (simp add: allocate_physical_page_def get_available_address_def find_free.simps inc_page_def demo_paging_def page_no_def clear_page_def)
  have "clone_table child is 0 dst m1 = Ret m1" for child "is" dst
    unfolding clone_table_def by (rule each_idle) (use a(2) in \<open>simp add: flag_def\<close>)
  moreover obtain m2 where "each [256..<512] (\<lambda>i m. Ret (set_word (page_no a) i (phys m 0 i) m)) m1 = Ret m2"
    using each_returns [of "\<lambda>i m. Ret (set_word (page_no a) i (phys m 0 i) m)" "[256..<512]" m1] by (auto simp del: upt_rec_numeral)
  ultimately show ?thesis using a(1) by (simp add: clone_page_tables_def page_no_def del: upt_rec_numeral)
qed

definition demo_fork :: "ram fs_world sched" where
  "demo_fork = put_task 3 ((demo_task 2 4)\<lparr>t_cr3 := 0\<rparr>) demo_sched"

theorem fork_copies_witness:
  "\<exists>s1 n. fork 11 demo_fork = switch_task s1 \<and> tasks s1 20 = Some n \<and> t_pid n = 4 \<and> t_parent n = 3 \<and> rax (frames s1 (t_iframe n)) = 0"
proof -
  let ?c = "(demo_task 2 4)\<lparr>t_cr3 := 0\<rparr>"
  have c: "current_task demo_fork = 3" "next_addr demo_fork = 20" "last_pid demo_fork = 3" "s_mem demo_fork = demo_paging"
    by (simp_all add: demo_fork_def put_task_def demo_sched_def)
  have t: "tasks demo_fork (current_task demo_fork) = Some ?c" by (simp add: c) (simp add: demo_fork_def put_task_def)
  obtain cr3 m where m: "clone_page_tables (t_cr3 ?c) (s_mem demo_fork) = Ret (cr3, m)" using demo_clone by (auto simp: c)
  have "(s_fds demo_fork)\<lparr>fd_table := t_fd_table ?c\<rparr> = demo_fds"
    by (simp add: demo_fork_def put_task_def demo_sched_def demo_fds_def demo_task_def)
  then have r: "refs_ok ((s_fds demo_fork)\<lparr>fd_table := t_fd_table ?c\<rparr>)" using demo_refs by simp
  have b: "last_pid demo_fork \<noteq> PID_MAX" "current_task demo_fork < next_addr demo_fork" "11 < next_addr demo_fork" "t_fpu_state ?c < next_addr demo_fork"
    by (simp_all add: c PID_MAX_def demo_task_def)
  from fork_copies [OF t b(1) m b(2-4) r] show ?thesis unfolding c by (fastforce simp: iframe.simps)
qed

end
