(* ===== verification/Fat.thy ===== *)
theory Fat
  imports Vfs Timer
begin

text \<open>
  The FAT file system of \<open>kernel/fs/fat.c\<close> and \<open>fat.h\<close>: the on-disk structures, the allocation
  table with its copies, the search for free clusters, 8.3 names, directory lookup, and the file
  operations.  The state of an operation holds the block layer's table, the state of the devices,
  the selected instance \<open>data\<close>, the clock, and what uninitialised local memory holds: the source
  ignores the result of most sector reads, and a buffer that a failed or short read leaves
  untouched keeps that memory.  A read that returns more bytes than the buffer has overruns it,
  which is a \<open>Fault\<close>, like an access outside the allocation table.  The structures are packed and
  little endian; the fields of the boot sector and of the information sector that the code uses are
  the ones recorded.
\<close>

section \<open>On-disk structures\<close>

record bpb_t =
  bytes_per_sector :: u16
  sectors_per_cluster :: byte
  reserved_sectors :: u16
  num_fats :: byte
  total_sectors_16 :: u16
  fat_size_16 :: u16
  total_sectors_32 :: u32
  fat_size_32 :: u32
  root_cluster :: u32
  fs_info :: u16
  file_system_type :: "byte list"

definition bpb_of :: "byte list \<Rightarrow> bpb_t" where
  "bpb_of b =
     \<lparr>bytes_per_sector = word_of_nat (field b 11 2), sectors_per_cluster = word_of_nat (field b 13 1),
      reserved_sectors = word_of_nat (field b 14 2), num_fats = word_of_nat (field b 16 1),
      total_sectors_16 = word_of_nat (field b 19 2), fat_size_16 = word_of_nat (field b 22 2),
      total_sectors_32 = word_of_nat (field b 32 4), fat_size_32 = word_of_nat (field b 36 4),
      root_cluster = word_of_nat (field b 44 4), fs_info = word_of_nat (field b 48 2),
      file_system_type = read_at b 82 8\<rparr>"

record fsinfo_t =
  free_clusters :: u32
  next_free_cluster :: u32

definition fsinfo_of :: "byte list \<Rightarrow> fsinfo_t" where
  "fsinfo_of b =
     \<lparr>free_clusters = word_of_nat (field b 488 4), next_free_cluster = word_of_nat (field b 492 4)\<rparr>"

record fat_dirent =
  fde_name :: "byte list"
  attributes :: byte
  fde_reserved :: byte
  creation_time_tenth :: byte
  creation_time :: u16
  creation_date :: u16
  last_access_date :: u16
  first_cluster_high :: u16
  last_modification_time :: u16
  last_modification_date :: u16
  first_cluster_low :: u16
  fde_file_size :: u32

definition dirent_of :: "byte list \<Rightarrow> fat_dirent" where
  "dirent_of b =
     \<lparr>fde_name = read_at b 0 11, attributes = word_of_nat (field b 11 1), fde_reserved = word_of_nat (field b 12 1),
      creation_time_tenth = word_of_nat (field b 13 1), creation_time = word_of_nat (field b 14 2),
      creation_date = word_of_nat (field b 16 2), last_access_date = word_of_nat (field b 18 2),
      first_cluster_high = word_of_nat (field b 20 2), last_modification_time = word_of_nat (field b 22 2),
      last_modification_date = word_of_nat (field b 24 2), first_cluster_low = word_of_nat (field b 26 2),
      fde_file_size = word_of_nat (field b 28 4)\<rparr>"

text \<open>The bytes of a little-endian integer of \<open>n\<close> bytes.\<close>

primrec le_bytes :: "nat \<Rightarrow> nat \<Rightarrow> byte list" where
  "le_bytes 0 v = []"
| "le_bytes (Suc n) v = word_of_nat v # le_bytes n (v div 256)"

definition bytes_of_dirent :: "fat_dirent \<Rightarrow> byte list" where
  "bytes_of_dirent e =
     fde_name e @ [attributes e, fde_reserved e, creation_time_tenth e] @
     le_bytes 2 (unat (creation_time e)) @ le_bytes 2 (unat (creation_date e)) @
     le_bytes 2 (unat (last_access_date e)) @ le_bytes 2 (unat (first_cluster_high e)) @
     le_bytes 2 (unat (last_modification_time e)) @ le_bytes 2 (unat (last_modification_date e)) @
     le_bytes 2 (unat (first_cluster_low e)) @ le_bytes 4 (unat (fde_file_size e))"

definition DIRENT_VOLUME_LABEL :: byte where [flag_simps]: "DIRENT_VOLUME_LABEL = 0x08"
definition DIRENT_DIRECTORY :: byte where [flag_simps]: "DIRENT_DIRECTORY = 0x10"
definition DIRENT_END :: byte where [flag_simps]: "DIRENT_END = 0x00"
definition DIRENT_DELETED :: byte where [flag_simps]: "DIRENT_DELETED = 0xE5"
definition CLUSTER_CHAIN_END :: u32 where [flag_simps]: "CLUSTER_CHAIN_END = 0x0FFFFFF8"
definition CLUSTER_FREE :: u32 where [flag_simps]: "CLUSTER_FREE = 0"

definition first_cluster :: "fat_dirent \<Rightarrow> u32" where
  "first_cluster e = push_bit 16 (ucast (first_cluster_high e)) OR ucast (first_cluster_low e)"

definition is_directory :: "fat_dirent \<Rightarrow> bool" where
  "is_directory e \<longleftrightarrow> attributes e AND DIRENT_DIRECTORY \<noteq> 0"

section \<open>State\<close>

record fat_data =
  backing :: block_device
  bpb :: bpb_t
  fat :: "u32 list"
  fsinfo :: fsinfo_t
  fat_read_only :: bool
  fat_size :: u32
  last_free :: u32

record 'w fat_state =
  blocks :: "'w blk"
  disk :: 'w
  data :: fat_data
  now :: u64
  junk :: "nat \<Rightarrow> byte"

text \<open>\<open>read_sectors\<close> into a local array of \<open>n\<close> bytes, and \<open>write_sectors\<close>.\<close>

definition load :: "'w fat_state \<Rightarrow> u64 \<Rightarrow> u64 \<Rightarrow> nat \<Rightarrow> (int \<times> byte list \<times> 'w fat_state) outcome" where
  "load s lba cnt n =
     bind_outcome (read_sectors (blocks s) (backing (data s)) lba cnt (disk s)) (\<lambda>(res, bs, w).
       if length bs > n then Fault
       else Ret (res, bs @ map (junk s) [length bs..<n], s\<lparr>disk := w\<rparr>))"

definition store :: "'w fat_state \<Rightarrow> u64 \<Rightarrow> byte list \<Rightarrow> u64 \<Rightarrow> (int \<times> 'w fat_state) outcome" where
  "store s lba bs cnt =
     bind_outcome (write_sectors (blocks s) (backing (data s)) lba bs cnt (disk s)) (\<lambda>(res, w).
       Ret (res, s\<lparr>disk := w\<rparr>))"

definition cluster_sectors :: "'w fat_state \<Rightarrow> u64" where
  "cluster_sectors s = ucast (sectors_per_cluster (bpb (data s)))"

definition bytes_per_cluster :: "'w fat_state \<Rightarrow> nat" where
  "bytes_per_cluster s = unat (sectors_per_cluster (bpb (data s))) * unat (bytes_per_sector (bpb (data s)))"

text \<open>The size that \<open>fat_write_to_file\<close> and \<open>fat_truncate\<close> give a cluster, whatever the sector size.\<close>

definition cluster_512 :: "'w fat_state \<Rightarrow> nat" where
  "cluster_512 s = unat (sectors_per_cluster (bpb (data s))) * 512"

section \<open>Time stamps\<close>

definition fat_timestamp_to_unix :: "u16 \<Rightarrow> u16 \<Rightarrow> u64 outcome" where
  "fat_timestamp_to_unix fat_date fat_time =
     (case to_unix_timestamp
        \<lparr>second = unat (fat_time AND 0x1F) * 2, minute = unat (drop_bit 5 fat_time AND 0x3F),
         hour = unat (drop_bit 11 fat_time AND 0x1F), day = unat (fat_date AND 0x1F),
         month = unat (drop_bit 5 fat_date AND 0x0F),
         year = unat (drop_bit 9 fat_date AND 0x7F) + 1980\<rparr> of
        None \<Rightarrow> Fault
      | Some t \<Rightarrow> Ret (word_of_nat t))"

definition unix_to_fat_timestamp :: "u64 \<Rightarrow> (u16 \<times> u16) outcome" where
  "unix_to_fat_timestamp timestamp =
     (case to_datetime (unat timestamp) of
        None \<Rightarrow> Fault
      | Some dt \<Rightarrow>
          (let year_since_1980 = (if year dt < 1980 then 1980 else year dt) - 1980 in
           Ret (push_bit 9 (word_of_nat year_since_1980 AND 0x7F) OR push_bit 5 (word_of_nat (month dt) AND 0x0F)
                  OR (word_of_nat (day dt) AND 0x1F),
                push_bit 11 (word_of_nat (hour dt) AND 0x1F) OR push_bit 5 (word_of_nat (minute dt) AND 0x3F)
                  OR (word_of_nat (second dt div 2) AND 0x1F))))"

section \<open>Mounting\<close>

definition f32_signature :: "byte list" where
  "f32_signature = map of_char ''FAT32   ''"

definition fat_get_bpb :: "'w fat_state \<Rightarrow> (bpb_t \<times> 'w fat_state) outcome" where
  "fat_get_bpb s = bind_outcome (load s 0 1 512) (\<lambda>(res, b, s1). Ret (bpb_of b, s1))"

definition fat_get_fsinfo :: "'w fat_state \<Rightarrow> (fsinfo_t \<times> 'w fat_state) outcome" where
  "fat_get_fsinfo s =
     bind_outcome (load s (ucast (fs_info (bpb (data s)))) 1 512) (\<lambda>(res, b, s1). Ret (fsinfo_of b, s1))"

definition fat_entries :: "byte list \<Rightarrow> u32 list" where
  "fat_entries b = map (\<lambda>i. word_of_nat (field b (4 * i) 4)) [0..<length b div 4]"

definition no_bpb :: bpb_t where
  "no_bpb = bpb_of (replicate 512 0)"

definition fat_check :: "'w fat_state \<Rightarrow> block_device \<Rightarrow> (int \<times> 'w fat_state) outcome" where
  "fat_check s device =
     bind_outcome (load (s\<lparr>data := (data s)\<lparr>backing := device\<rparr>\<rparr>) 0 1 512) (\<lambda>(res, b, s1).
       Ret (if file_system_type (bpb_of b) = f32_signature then 1 else 0, s1\<lparr>data := data s\<rparr>))"

definition new_fat_data :: "block_device \<Rightarrow> fat_data" where
  "new_fat_data device =
     \<lparr>backing = device, bpb = no_bpb, fat = [], fsinfo = \<lparr>free_clusters = 0, next_free_cluster = 0\<rparr>,
      fat_read_only = False, fat_size = 0, last_free = 0\<rparr>"

text \<open>\<open>None\<close> is the null pointer.  The new \<open>data\<close> comes zeroed from \<open>kmalloc\<close>, as does the array of
  the allocation table; its size is computed in 32 bits.\<close>

definition fat_mount :: "'w fat_state \<Rightarrow> block_device \<Rightarrow> u32 \<Rightarrow> (fat_data option \<times> 'w fat_state) outcome" where
  "fat_mount s device flags =
     (let d = new_fat_data device in
      bind_outcome (fat_get_bpb (s\<lparr>data := d\<rparr>)) (\<lambda>(b, s1).
      bind_outcome (fat_get_fsinfo (s1\<lparr>data := d\<lparr>bpb := b\<rparr>\<rparr>)) (\<lambda>(fi, s2).
        let fat_sectors = (if fat_size_16 b \<noteq> 0 then ucast (fat_size_16 b) else fat_size_32 b);
            total_sectors = (if total_sectors_16 b \<noteq> 0 then ucast (total_sectors_16 b) else total_sectors_32 b);
            data_sectors = total_sectors - (ucast (reserved_sectors b) + ucast (num_fats b) * fat_sectors) in
        if sectors_per_cluster b = 0 then Fault
        else
          let max_clusters = data_sectors div ucast (sectors_per_cluster b);
              lf = (if next_free_cluster fi \<ge> 2 \<and> next_free_cluster fi < max_clusters
                    then next_free_cluster fi else 2);
              n = unat (fat_sectors * ucast (bytes_per_sector b) :: u32) in
          bind_outcome (read_sectors (blocks s) device (ucast (reserved_sectors b)) (ucast fat_sectors) (disk s2))
            (\<lambda>(res, bs, w).
              if length bs > n then Fault
              else if res < 0 then Ret (None, s2\<lparr>disk := w\<rparr>)
              else
                let d1 = \<lparr>backing = device, bpb = b, fat = fat_entries (bs @ replicate (n - length bs) 0), fsinfo = fi,
                          fat_read_only = (flags AND 1 \<noteq> 0), fat_size = fat_sectors, last_free = lf\<rparr> in
                Ret (Some d1, s2\<lparr>disk := w, data := d1\<rparr>)))))"

section \<open>The allocation table\<close>

definition read_fat :: "'w fat_state \<Rightarrow> u32 \<Rightarrow> u32 outcome" where
  "read_fat s cluster =
     (if unat cluster < length (fat (data s)) then Ret (fat (data s) ! unat cluster) else Fault)"

text \<open>The loop over the copies on disk: copy \<open>i\<close> is next, \<open>n\<close> of them remain.\<close>

fun write_fat_copies :: "'w fat_state \<Rightarrow> u32 \<Rightarrow> nat \<Rightarrow> u32 \<Rightarrow> nat \<Rightarrow> nat \<Rightarrow> 'w fat_state outcome" where
  "write_fat_copies s fat_sector ent_offset content 0 i = Ret s"
| "write_fat_copies s fat_sector ent_offset content (Suc n) i =
     (let lba = ucast (fat_sector + word_of_nat i * fat_size (data s)) in
      bind_outcome (load s lba 1 512) (\<lambda>(res, buf, s1).
        if ent_offset + 4 > 512 then Fault
        else
          let old = (word_of_nat (field buf ent_offset 4) :: u32);
              newval = (old AND 0xF0000000) OR (content AND 0x0FFFFFFF) in
          bind_outcome (store s1 lba (write_at buf ent_offset (le_bytes 4 (unat newval))) 1) (\<lambda>(res, s2).
            write_fat_copies s2 fat_sector ent_offset content n (i + 1))))"

definition write_fat :: "'w fat_state \<Rightarrow> u32 \<Rightarrow> u32 \<Rightarrow> 'w fat_state outcome" where
  "write_fat s cluster content =
     (if unat cluster \<ge> length (fat (data s)) \<or> bytes_per_sector (bpb (data s)) = 0 then Fault
      else
        let s1 = s\<lparr>data := (data s)\<lparr>fat := (fat (data s))[unat cluster := content]\<rparr>\<rparr>;
            fat_offset = cluster * 4;
            bps = ucast (bytes_per_sector (bpb (data s)));
            fat_sector = ucast (reserved_sectors (bpb (data s))) + fat_offset div bps;
            ent_offset = unat (fat_offset mod bps) in
        write_fat_copies s1 fat_sector ent_offset content (unat (num_fats (bpb (data s)))) 0)"

definition get_first_cluster_sector :: "'w fat_state \<Rightarrow> u32 \<Rightarrow> u64" where
  "get_first_cluster_sector s cluster =
     (let b = bpb (data s);
          first_data_sector = ucast (reserved_sectors b) + ucast (num_fats b) * fat_size (data s) in
      ucast ((cluster - 2) * ucast (sectors_per_cluster b) + first_data_sector :: u32))"

definition next_cluster :: "'w fat_state \<Rightarrow> u32 \<Rightarrow> u32 outcome" where
  "next_cluster s current_cluster = bind_outcome (read_fat s current_cluster) (\<lambda>e. Ret (e AND 0x0FFFFFFF))"

text \<open>The search for a free cluster.  The loop over the entries of a sector either ends the whole
  search with a result or goes on; \<open>n\<close> entries remain.  The two loops over sectors have the same
  body.\<close>

fun scan_entries :: "byte list \<Rightarrow> u32 \<Rightarrow> u32 \<Rightarrow> nat \<Rightarrow> nat \<Rightarrow> u32 option outcome" where
  "scan_entries buf base limit 0 i = Ret None"
| "scan_entries buf base limit (Suc n) i =
     (let cluster = base + word_of_nat i in
      if cluster < 2 then scan_entries buf base limit n (i + 1)
      else if cluster \<ge> limit then Ret (Some 0)
      else if 4 * i + 4 > 512 then Fault
      else if (word_of_nat (field buf (4 * i) 4) :: u32) AND 0x0FFFFFFF = CLUSTER_FREE then Ret (Some cluster)
      else scan_entries buf base limit n (i + 1))"

fun scan_sectors ::
  "'w fat_state \<Rightarrow> u32 \<Rightarrow> u32 \<Rightarrow> nat \<Rightarrow> u32 \<Rightarrow> (u32 option \<times> 'w fat_state) outcome" where
  "scan_sectors s entries_per_sector limit 0 sector = Ret (None, s)"
| "scan_sectors s entries_per_sector limit (Suc n) sector =
     bind_outcome (load s (ucast (ucast (reserved_sectors (bpb (data s))) + sector)) 1 512) (\<lambda>(res, buf, s1).
       if res < 0 then Ret (Some 0, s1)
       else bind_outcome
              (scan_entries buf (sector * entries_per_sector) limit (unat entries_per_sector) 0) (\<lambda>r.
                case r of
                  None \<Rightarrow> scan_sectors s1 entries_per_sector limit n (sector + 1)
                | Some c \<Rightarrow> Ret (Some c, if c = 0 then s1 else s1\<lparr>data := (data s1)\<lparr>last_free := c\<rparr>\<rparr>)))"

definition total_clusters :: "'w fat_state \<Rightarrow> u32" where
  "total_clusters s =
     (let b = bpb (data s);
          total_sectors = (if total_sectors_16 b \<noteq> 0 then ucast (total_sectors_16 b) else total_sectors_32 b);
          first_data_sector = ucast (reserved_sectors b) + ucast (num_fats b) * fat_size (data s) in
      (total_sectors - first_data_sector) div ucast (sectors_per_cluster b))"

definition fat_compute_free_cluster :: "'w fat_state \<Rightarrow> (u32 \<times> 'w fat_state) outcome" where
  "fat_compute_free_cluster s =
     (let b = bpb (data s) in
      if sectors_per_cluster b = 0 \<or> bytes_per_sector b = 0 then Fault
      else
        let limit = total_clusters s + 2;
            entries_per_sector = ucast (bytes_per_sector b) div 4;
            start_cluster = (if last_free (data s) < 2 \<or> last_free (data s) \<ge> limit then 2 else last_free (data s));
            start_sector = start_cluster * 4 div ucast (bytes_per_sector b) in
        bind_outcome (scan_sectors s entries_per_sector limit
            (unat (fat_size (data s)) - unat start_sector) start_sector) (\<lambda>(r, s1).
          case r of
            Some c \<Rightarrow> Ret (c, s1)
          | None \<Rightarrow>
              bind_outcome (scan_sectors s1 entries_per_sector limit (unat start_sector) 0) (\<lambda>(r, s2).
                Ret (case r of Some c \<Rightarrow> c | None \<Rightarrow> 0, s2))))"

section \<open>Names\<close>

text \<open>\<open>normalize_fat_path\<close> into a buffer of \<open>cap\<close> bytes: leading, repeated and trailing slashes go,
  lower-case letters become upper-case.\<close>

definition upcase :: "char \<Rightarrow> char" where
  "upcase c = (if 97 \<le> (of_char c :: nat) \<and> (of_char c :: nat) \<le> 122 then char_of (of_char c - 32 :: nat) else c)"

fun normalize_loop :: "string \<Rightarrow> string \<Rightarrow> string" where
  "normalize_loop [] out = out"
| "normalize_loop (c # cs) out =
     (if upcase c = slash \<and> out \<noteq> [] \<and> last out = slash then normalize_loop cs out
      else normalize_loop cs (out @ [upcase c]))"

definition normalize_fat_path :: "nat \<Rightarrow> string \<Rightarrow> string outcome" where
  "normalize_fat_path cap input_path =
     (let out = normalize_loop (dropWhile (\<lambda>c. c = slash) input_path) [];
          path = (if out \<noteq> [] \<and> last out = slash then butlast out else out) in
      if length out > cap \<or> length path \<ge> cap then Fault else Ret path)"

definition space :: byte where "space = 0x20"
definition dot :: byte where "dot = 0x2E"

definition pad :: "nat \<Rightarrow> byte list \<Rightarrow> byte list" where
  "pad n xs = take n xs @ replicate (n - length xs) space"

text \<open>The array has 12 elements; when no dot, space or terminator is among them the code looks at
  element 12.\<close>

definition readable_to_8d3 :: "byte list \<Rightarrow> byte list outcome" where
  "readable_to_8d3 path =
     (let stem = takeWhile (\<lambda>c. c \<noteq> dot \<and> c \<noteq> space \<and> c \<noteq> 0) (take 12 path);
          i = length stem in
      if i \<ge> 12 then Fault
      else
        let ext = (if path ! i = dot
                   then takeWhile (\<lambda>c. c \<noteq> space \<and> c \<noteq> 0) (take (12 - (i + 1)) (drop (i + 1) path))
                   else []) in
        Ret (write_at path 0 (pad 8 stem @ pad 3 ext)))"

definition f8d3_to_readable :: "byte list \<Rightarrow> byte list" where
  "f8d3_to_readable path =
     (let name = filter (\<lambda>c. c \<noteq> space) (read_at path 0 8);
          ext = filter (\<lambda>c. c \<noteq> space) (read_at path 8 3);
          temp = name @ (if ext = [] then [] else dot # ext) in
      temp @ replicate (12 - length temp) 0)"

text \<open>The name that the search loops compare with: at most 12 characters of the component, filled
  with spaces.\<close>

definition component_8d3 :: "string \<Rightarrow> byte list outcome" where
  "component_8d3 name =
     (let c = map of_char (take 12 name) :: byte list in
      bind_outcome (readable_to_8d3 (c @ replicate (12 - length c) space)) (\<lambda>p. Ret (take 11 p)))"

section \<open>Directories\<close>

datatype dir_scan = Exhausted | Ended | Hit nat | Overrun

definition skipped :: "fat_dirent \<Rightarrow> bool" where
  "skipped e \<longleftrightarrow> hd (fde_name e) = DIRENT_DELETED \<or> attributes e AND DIRENT_VOLUME_LABEL \<noteq> 0"

text \<open>The search for a name in the entries of one cluster, from \<open>offset\<close> on.\<close>

function scan_dir :: "byte list \<Rightarrow> byte list \<Rightarrow> nat \<Rightarrow> dir_scan" where
  "scan_dir buf component offset =
     (if offset \<ge> length buf then Exhausted
      else if offset + 32 > length buf then Overrun
      else
        let e = dirent_of (read_at buf offset 32) in
        if hd (fde_name e) = DIRENT_END then Ended
        else if skipped e then scan_dir buf component (offset + 32)
        else if fde_name e = component then Hit offset
        else scan_dir buf component (offset + 32))"
  by pat_completeness auto
termination by (relation "measure (\<lambda>(buf, component, offset). length buf - offset)") auto

declare scan_dir.simps [simp del]

definition load_cluster :: "'w fat_state \<Rightarrow> u32 \<Rightarrow> (byte list \<times> 'w fat_state) outcome" where
  "load_cluster s cluster =
     bind_outcome (load s (get_first_cluster_sector s cluster) (cluster_sectors s) (bytes_per_cluster s))
       (\<lambda>(res, buf, s1). Ret (buf, s1))"

text \<open>The search along the chain of clusters of a directory, whose cluster \<open>cluster\<close> is in \<open>buf\<close>.  A
  chain without a cycle has at most as many clusters as the table has entries.\<close>

fun search_chain ::
  "nat \<Rightarrow> 'w fat_state \<Rightarrow> byte list \<Rightarrow> u32 \<Rightarrow> byte list \<Rightarrow> ((u32 \<times> nat \<times> fat_dirent) option \<times> 'w fat_state) outcome" where
  "search_chain 0 s component cluster buf = Blocks"
| "search_chain (Suc n) s component cluster buf =
     (case scan_dir buf component 0 of
        Overrun \<Rightarrow> Fault
      | Ended \<Rightarrow> Ret (None, s)
      | Hit offset \<Rightarrow> Ret (Some (cluster, offset, dirent_of (read_at buf offset 32)), s)
      | Exhausted \<Rightarrow>
          bind_outcome (next_cluster s cluster) (\<lambda>c.
            if c \<ge> CLUSTER_CHAIN_END then Ret (None, s)
            else bind_outcome (load_cluster s c) (\<lambda>(buf1, s1). search_chain n s1 component c buf1)))"

definition chain_fuel :: "'w fat_state \<Rightarrow> nat" where
  "chain_fuel s = length (fat (data s)) + 1"

record fat_dirent_ref =
  ref_dirent :: fat_dirent
  ref_found :: bool
  ref_cluster :: u32
  ref_position :: "u32 \<times> u32"

definition zero_fat_dirent :: fat_dirent where
  "zero_fat_dirent = dirent_of (replicate 32 0)"

definition dirent_position :: "'w fat_state \<Rightarrow> u32 \<Rightarrow> nat \<Rightarrow> u32 \<times> u32" where
  "dirent_position s cluster offset =
     (ucast (get_first_cluster_sector s cluster) + word_of_nat (offset div 512), word_of_nat (offset mod 512))"

text \<open>The first component of a path and what follows it.  A component that does not end within 12
  characters is cut there and its rest is taken for the next component.\<close>

definition path_component :: "string \<Rightarrow> string \<times> string" where
  "path_component path =
     (let component = takeWhile (\<lambda>c. c \<noteq> slash) (take 12 path);
          rest = drop (length component) path in
      (component, if rest \<noteq> [] \<and> hd rest = slash then tl rest else rest))"

lemma path_component_shorter:
  assumes "path \<noteq> []" and "(component, rest) = path_component path"
  shows "length rest < length path"
proof (cases "takeWhile (\<lambda>c. c \<noteq> slash) (take 12 path)")
  case Nil
  with assms(1) have "hd path = slash" by (cases path) (auto split: if_splits)
  with Nil assms show ?thesis by (simp add: path_component_def)
next
  case (Cons c cs)
  then show ?thesis using assms by (auto simp: path_component_def Let_def)
qed

text \<open>The loop over the components of a normalised path.\<close>

function dirent_ref_loop ::
  "'w fat_state \<Rightarrow> string \<Rightarrow> fat_dirent_ref \<Rightarrow> (fat_dirent_ref \<times> 'w fat_state) outcome" where
  "dirent_ref_loop s path ref =
     (if path = [] then Ret (ref, s)
      else if \<not> is_directory (ref_dirent ref) then
        Ret (ref\<lparr>ref_found := False, ref_cluster := 0, ref_dirent := zero_fat_dirent\<rparr>, s)
      else
        bind_outcome (load_cluster s (ref_cluster ref)) (\<lambda>(buf, s1).
          case path_component path of (component, rest) \<Rightarrow>
          bind_outcome (component_8d3 component) (\<lambda>name.
          bind_outcome (search_chain (chain_fuel s1) s1 name (ref_cluster ref) buf) (\<lambda>(r, s2).
            case r of
              None \<Rightarrow> Ret (ref\<lparr>ref_found := False, ref_cluster := 0, ref_dirent := zero_fat_dirent\<rparr>, s2)
            | Some (cluster, offset, e) \<Rightarrow>
                dirent_ref_loop s2 rest
                  \<lparr>ref_dirent = e, ref_found = True, ref_cluster = first_cluster e,
                   ref_position = dirent_position s2 cluster offset\<rparr>))))"
  by pat_completeness auto
termination
  by (relation "measure (\<lambda>(s, path, ref). length path)") 
    (auto intro: path_component_shorter)

declare dirent_ref_loop.simps [simp del]

end
