(* ===== verification/Fatops.thy ===== *)
theory Fatops
  imports Fat
begin

text \<open>
  The operations of the FAT file system, \<open>kernel/fs/fat.c\<close>, on the structures of the theory Fat:
  lookup by handle and by path, directory listing, read, write, creation, deletion, renaming,
  truncation, time stamps, and the driver record that \<open>fat_register\<close> fills.  A handle is the
  position of a directory entry, the sector in the upper and the byte offset in the lower 32 bits;
  0 stands for the root directory.
\<close>

section \<open>Directory entries by path and by handle\<close>

definition root_ref :: "'w fat_state \<Rightarrow> fat_dirent_ref" where
  "root_ref s =
     (let r = root_cluster (bpb (data s)) in
      \<lparr>ref_dirent = zero_fat_dirent\<lparr>attributes := DIRENT_DIRECTORY, first_cluster_low := ucast (r AND 0xFFFF),
         first_cluster_high := ucast (drop_bit 16 r AND 0xFFFF)\<rparr>,
       ref_found = True, ref_cluster = r, ref_position = (0, 0)\<rparr>)"

definition fat_get_dirent_ref :: "'w fat_state \<Rightarrow> string \<Rightarrow> (fat_dirent_ref \<times> 'w fat_state) outcome" where
  "fat_get_dirent_ref s path =
     bind_outcome (normalize_fat_path 512 path) (\<lambda>npath. dirent_ref_loop s npath (root_ref s))"

text \<open>The entry of the root directory is a local variable of which only the first four characters of
  the name, the attributes and the first cluster are set.\<close>

definition junk_dirent :: "'w fat_state \<Rightarrow> fat_dirent" where
  "junk_dirent s = dirent_of (map (junk s) [0..<32])"

definition handle_sector :: "u64 \<Rightarrow> u64" where
  "handle_sector handle = ucast (ucast (drop_bit 32 handle) :: u32)"

definition handle_offset :: "u64 \<Rightarrow> nat" where
  "handle_offset handle = unat (handle AND 0xFFFFFFFF)"

definition fat_read_dirent :: "'w fat_state \<Rightarrow> u64 \<Rightarrow> (fat_dirent \<times> 'w fat_state) outcome" where
  "fat_read_dirent s handle =
     (if handle = 0 then
        let e = junk_dirent s; r = root_cluster (bpb (data s)) in
        Ret (e\<lparr>fde_name := write_at (fde_name e) 0 (map of_char ''ROOT''), attributes := DIRENT_DIRECTORY,
               first_cluster_low := ucast (r AND 0xFFFF), first_cluster_high := ucast (drop_bit 16 r AND 0xFFFF)\<rparr>, s)
      else
        bind_outcome (load s (handle_sector handle) 1 512) (\<lambda>(res, buf, s1).
          if handle_offset handle + 32 > 512 then Fault
          else Ret (dirent_of (read_at buf (handle_offset handle) 32), s1)))"

text \<open>The end of \<open>fat_write_to_file\<close> and \<open>fat_truncate\<close>: the changed entry goes back to its sector.\<close>

definition fat_write_dirent :: "'w fat_state \<Rightarrow> u64 \<Rightarrow> fat_dirent \<Rightarrow> 'w fat_state outcome" where
  "fat_write_dirent s handle e =
     bind_outcome (load s (handle_sector handle) 1 512) (\<lambda>(res, buf, s1).
       if handle_offset handle + 32 > 512 then Fault
       else bind_outcome
         (store s1 (handle_sector handle) (write_at buf (handle_offset handle) (bytes_of_dirent e)) 1)
         (\<lambda>(res, s2). Ret s2))"

definition gone :: "fat_dirent \<Rightarrow> bool" where
  "gone e \<longleftrightarrow> hd (fde_name e) = DIRENT_DELETED \<or> hd (fde_name e) = 0"

definition fat_get_root :: "u64" where
  "fat_get_root = 0"

definition pack_handle :: "u32 \<times> u32 \<Rightarrow> u64" where
  "pack_handle p = push_bit 32 (ucast (fst p)) OR ucast (snd p)"

definition fat_lookup :: "'w fat_state \<Rightarrow> string \<Rightarrow> u64 \<Rightarrow> ((int + u64) \<times> 'w fat_state) outcome" where
  "fat_lookup s name parent =
     bind_outcome (fat_read_dirent s parent) (\<lambda>(e, s1).
       if \<not> is_directory e then Ret (Inl (- ENOTDIR), s1)
       else
         bind_outcome (load_cluster s1 (first_cluster e)) (\<lambda>(buf, s2).
         bind_outcome (normalize_fat_path 512 name) (\<lambda>n_name.
         bind_outcome (component_8d3 n_name) (\<lambda>component.
         bind_outcome (search_chain (chain_fuel s2) s2 component (first_cluster e) buf) (\<lambda>(r, s3).
           Ret (case r of
                  None \<Rightarrow> Inl (- ENOENT)
                | Some (cluster, offset, e1) \<Rightarrow> Inr (pack_handle (dirent_position s3 cluster offset)), s3))))))"

definition fat_lookup_path :: "'w fat_state \<Rightarrow> string \<Rightarrow> ((int + u64) \<times> 'w fat_state) outcome" where
  "fat_lookup_path s path =
     bind_outcome (fat_get_dirent_ref s path) (\<lambda>(ref, s1).
       Ret (if ref_found ref then Inr (pack_handle (ref_position ref)) else Inl (- ENOENT), s1))"

section \<open>Listing a directory\<close>

definition dot_name :: "byte list" where
  "dot_name = map of_char ''.          ''"

definition dotdot_name :: "byte list" where
  "dotdot_name = map of_char ''..         ''"

definition out_dirent :: "fat_dirent \<Rightarrow> string \<times> u32" where
  "out_dirent e =
     (map (\<lambda>c. char_of (unat c)) (takeWhile (\<lambda>c. c \<noteq> 0) (f8d3_to_readable (fde_name e @ [attributes e]))),
      if is_directory e then DT_DIR else DT_FILE)"

text \<open>The entries of one cluster: the one with the wanted index, or the index the next cluster
  starts with.\<close>

function list_cluster :: "byte list \<Rightarrow> nat \<Rightarrow> u64 \<Rightarrow> u64 \<Rightarrow> (fat_dirent + u64) outcome" where
  "list_cluster buf offset current_index index =
     (if offset \<ge> length buf then Ret (Inr current_index)
      else if offset + 32 > length buf then Fault
      else
        let e = dirent_of (read_at buf offset 32) in
        if hd (fde_name e) = DIRENT_END then Ret (Inr current_index)
        else if skipped e \<or> fde_name e = dot_name \<or> fde_name e = dotdot_name then
          list_cluster buf (offset + 32) current_index index
        else if current_index = index then Ret (Inl e)
        else list_cluster buf (offset + 32) (current_index + 1) index)"
  by pat_completeness auto
termination by (relation "measure (\<lambda>(buf, offset, current_index, index). length buf - offset)") auto

declare list_cluster.simps [simp del]

fun readdir_chain ::
  "nat \<Rightarrow> 'w fat_state \<Rightarrow> u32 \<Rightarrow> u64 \<Rightarrow> u64 \<Rightarrow> (fat_dirent option \<times> 'w fat_state) outcome" where
  "readdir_chain 0 s cluster current_index index = Blocks"
| "readdir_chain (Suc n) s cluster current_index index =
     (if cluster \<ge> CLUSTER_CHAIN_END then Ret (None, s)
      else
        bind_outcome (load_cluster s cluster) (\<lambda>(buf, s1).
        bind_outcome (list_cluster buf 0 current_index index) (\<lambda>r.
          case r of
            Inl e \<Rightarrow> Ret (Some e, s1)
          | Inr i \<Rightarrow> bind_outcome (next_cluster s1 cluster) (\<lambda>c. readdir_chain n s1 c i index))))"

text \<open>The \<open>int\<close> index is compared as an unsigned 64-bit number.\<close>

definition fat_readdir ::
  "'w fat_state \<Rightarrow> u64 \<Rightarrow> int \<Rightarrow> ((int \<times> (string \<times> u32) option) \<times> 'w fat_state) outcome" where
  "fat_readdir s handle index =
     bind_outcome (fat_read_dirent s handle) (\<lambda>(e, s1).
       if gone e then Ret ((- ENOENT, None), s1)
       else bind_outcome (readdir_chain (chain_fuel s1 + 1) s1 (first_cluster e) 0 (word_of_int index)) (\<lambda>(r, s2).
         Ret (case r of None \<Rightarrow> (0, None) | Some e1 \<Rightarrow> (1, Some (out_dirent e1)), s2)))"

section \<open>Reading\<close>

text \<open>The loop that skips whole clusters; \<open>None\<close> is the end of the chain.  With a positive cluster size
  it makes at most \<open>offset\<close> steps, with a cluster size of zero it follows the chain to its end.\<close>

fun skip_clusters :: "nat \<Rightarrow> 'w fat_state \<Rightarrow> nat \<Rightarrow> u32 \<Rightarrow> nat \<Rightarrow> (u32 \<times> nat) option outcome" where
  "skip_clusters 0 s cluster_size current_cluster offset = Blocks"
| "skip_clusters (Suc n) s cluster_size current_cluster offset =
     (if offset \<ge> cluster_size then
        bind_outcome (next_cluster s current_cluster) (\<lambda>c.
          if c \<ge> CLUSTER_CHAIN_END then Ret None
          else skip_clusters n s cluster_size c (offset - cluster_size))
      else Ret (Some (current_cluster, offset)))"

text \<open>The read loop; \<open>out\<close> holds the bytes read so far.  Every turn copies at least one byte.\<close>

fun fat_read_loop ::
  "nat \<Rightarrow> 'w fat_state \<Rightarrow> u32 \<Rightarrow> nat \<Rightarrow> nat \<Rightarrow> byte list \<Rightarrow> (byte list \<times> 'w fat_state) outcome" where
  "fat_read_loop 0 s current_cluster cluster_offset sz out = Blocks"
| "fat_read_loop (Suc n) s current_cluster cluster_offset sz out =
     (if length out \<ge> sz then Ret (out, s)
      else
        bind_outcome (load_cluster s current_cluster) (\<lambda>(buf, s1).
          let out1 = out @ read_at buf cluster_offset (min (length buf - cluster_offset) (sz - length out)) in
          if length out1 < sz then
            bind_outcome (next_cluster s1 current_cluster) (\<lambda>c.
              if c \<ge> CLUSTER_CHAIN_END then Ret (out1, s1)
              else fat_read_loop n s1 c 0 sz out1)
          else fat_read_loop n s1 current_cluster (cluster_offset + (length out1 - length out)) sz out1))"

definition fat_read ::
  "'w fat_state \<Rightarrow> u64 \<Rightarrow> u64 \<Rightarrow> u64 \<Rightarrow> (int \<times> byte list \<times> 'w fat_state) outcome" where
  "fat_read s handle offset size0 =
     bind_outcome (fat_read_dirent s handle) (\<lambda>(e, s1).
       if gone e then Ret (- ENOENT, [], s1)
       else if offset \<ge> ucast (fde_file_size e) then Ret (0, [], s1)
       else
         let sz = (if offset + size0 > ucast (fde_file_size e) then ucast (fde_file_size e) - offset else size0) in
         bind_outcome (skip_clusters (unat offset + chain_fuel s1) s1 (bytes_per_cluster s1) (first_cluster e) (unat offset))
           (\<lambda>r. case r of
              None \<Rightarrow> Ret (- 3, [], s1)
            | Some (cluster, cluster_offset) \<Rightarrow>
                bind_outcome (fat_read_loop (unat sz + 1) s1 cluster cluster_offset (unat sz) []) (\<lambda>(out, s2).
                  Ret (int (length out), out, s2))))"

section \<open>Deleting and adding entries\<close>

definition mark_deleted :: "'w fat_state \<Rightarrow> u32 \<times> u32 \<Rightarrow> 'w fat_state outcome" where
  "mark_deleted s position =
     bind_outcome (load s (ucast (fst position)) 1 512) (\<lambda>(res, buf, s1).
       if unat (snd position) \<ge> 512 then Fault
       else bind_outcome (store s1 (ucast (fst position)) (buf[unat (snd position) := DIRENT_DELETED]) 1)
         (\<lambda>(res, s2). Ret s2))"

text \<open>The loop that frees a chain.  Apart from turns at cluster 0 every turn clears an entry that was
  not zero or goes to cluster 0, and a second turn at cluster 0 repeats itself for ever.\<close>

fun free_chain :: "nat \<Rightarrow> 'w fat_state \<Rightarrow> u32 \<Rightarrow> 'w fat_state outcome" where
  "free_chain 0 s cluster = Blocks"
| "free_chain (Suc n) s cluster =
     (if cluster \<ge> CLUSTER_CHAIN_END then Ret s
      else bind_outcome (next_cluster s cluster) (\<lambda>c.
           bind_outcome (write_fat s cluster CLUSTER_FREE) (\<lambda>s1. free_chain n s1 c)))"

definition fat_delete :: "'w fat_state \<Rightarrow> string \<Rightarrow> (int \<times> 'w fat_state) outcome" where
  "fat_delete s path =
     (if fat_read_only (data s) then Ret (- EROFS, s)
      else
        bind_outcome (normalize_fat_path 512 path) (\<lambda>npath.
        bind_outcome (fat_get_dirent_ref s npath) (\<lambda>(ref, s1).
          if \<not> ref_found ref then Ret (- ENOENT, s1)
          else
            bind_outcome (mark_deleted s1 (ref_position ref)) (\<lambda>s2.
            bind_outcome (free_chain (chain_fuel s2 + 3) s2 (first_cluster (ref_dirent ref))) (\<lambda>s3.
              Ret (0, s3))))))"

text \<open>The first entry of a cluster that is unused.\<close>

function free_slot :: "byte list \<Rightarrow> nat \<Rightarrow> nat option outcome" where
  "free_slot buf offset =
     (if offset \<ge> length buf then Ret None
      else if buf ! offset = DIRENT_END \<or> buf ! offset = DIRENT_DELETED then
        if offset + 32 > length buf then Fault else Ret (Some offset)
      else free_slot buf (offset + 32))"
  by pat_completeness auto
termination by (relation "measure (\<lambda>(buf, offset). length buf - offset)") auto

declare free_slot.simps [simp del]

definition clear_cluster :: "'w fat_state \<Rightarrow> u32 \<Rightarrow> nat \<Rightarrow> (int \<times> 'w fat_state) outcome" where
  "clear_cluster s cluster n =
     store s (get_first_cluster_sector s cluster) (replicate n 0) (cluster_sectors s)"

text \<open>The loop of \<open>fat_add_dirent\<close>.  At most every cluster of the table is visited, and each cluster
  that is added was free before.\<close>

fun add_dirent_loop :: "nat \<Rightarrow> 'w fat_state \<Rightarrow> u32 \<Rightarrow> fat_dirent \<Rightarrow> (int \<times> 'w fat_state) outcome" where
  "add_dirent_loop 0 s cluster e = Blocks"
| "add_dirent_loop (Suc n) s cluster e =
     bind_outcome (load_cluster s cluster) (\<lambda>(buf, s1).
     bind_outcome (free_slot buf 0) (\<lambda>slot.
       case slot of
         Some offset \<Rightarrow>
           bind_outcome (store s1 (get_first_cluster_sector s1 cluster)
               (write_at buf offset (bytes_of_dirent e)) (cluster_sectors s1)) (\<lambda>(res, s2). Ret (0, s2))
       | None \<Rightarrow>
           bind_outcome (next_cluster s1 cluster) (\<lambda>c.
             if c < CLUSTER_CHAIN_END then add_dirent_loop n s1 c e
             else
               bind_outcome (fat_compute_free_cluster s1) (\<lambda>(free_cluster, s2).
                 if free_cluster = 0 then Ret (- ENOSPC, s2)
                 else
                   bind_outcome (write_fat s2 cluster (free_cluster AND 0x0FFFFFFF)) (\<lambda>s3.
                   bind_outcome (write_fat s3 free_cluster CLUSTER_CHAIN_END) (\<lambda>s4.
                   bind_outcome (clear_cluster s4 free_cluster (bytes_per_cluster s4)) (\<lambda>(res, s5).
                     add_dirent_loop n s5 free_cluster e)))))))"

definition fat_add_dirent :: "'w fat_state \<Rightarrow> string \<Rightarrow> fat_dirent \<Rightarrow> (int \<times> 'w fat_state) outcome" where
  "fat_add_dirent s path e =
     (if fat_read_only (data s) then Ret (- EROFS, s)
      else
        bind_outcome (normalize_fat_path 512 path) (\<lambda>npath.
        bind_outcome (fat_get_dirent_ref s npath) (\<lambda>(parent, s1).
          if \<not> ref_found parent then Ret (- ENOENT, s1)
          else if \<not> is_directory (ref_dirent parent) then Ret (- ENOTDIR, s1)
          else add_dirent_loop (2 * chain_fuel s1) s1 (ref_cluster parent) e)))"

text \<open>\<open>dirname\<close> has 256 bytes; the file name is written over the 12 bytes that \<open>filename\<close> holds, without
  a terminator.\<close>

definition separate_dirname_filename :: "string \<Rightarrow> byte list \<Rightarrow> (string \<times> byte list) outcome" where
  "separate_dirname_filename path filename =
     (let name = rev (takeWhile (\<lambda>c. c \<noteq> slash) (rev path));
          dirname = take (length path - length name) path in
      if length dirname \<ge> 256 then Fault
      else Ret (dirname, write_at filename 0 (map of_char (take 12 name))))"

section \<open>Creating files and directories\<close>

definition stamped :: "fat_dirent \<Rightarrow> u16 \<times> u16 \<Rightarrow> fat_dirent" where
  "stamped e dt = e\<lparr>last_modification_date := fst dt, last_modification_time := snd dt,
     creation_date := fst dt, creation_time := snd dt\<rparr>"

definition fat_create_file :: "'w fat_state \<Rightarrow> string \<Rightarrow> (int \<times> 'w fat_state) outcome" where
  "fat_create_file s path =
     bind_outcome (normalize_fat_path 512 path) (\<lambda>npath.
       if fat_read_only (data s) then Ret (- EROFS, s)
       else
         bind_outcome (fat_lookup_path s npath) (\<lambda>(r, s1).
           case r of
             Inr h \<Rightarrow> Ret (- EEXIST, s1)
           | Inl err \<Rightarrow>
               bind_outcome (unix_to_fat_timestamp (now s1)) (\<lambda>dt.
               bind_outcome (separate_dirname_filename npath (replicate 12 0)) (\<lambda>(dirname, filename).
               bind_outcome (readable_to_8d3 filename) (\<lambda>name.
                 fat_add_dirent s1 dirname ((stamped zero_fat_dirent dt)\<lparr>fde_name := take 11 name\<rparr>))))))"

text \<open>The first sector of a new directory: only the named fields of the first two entries and the first
  byte of the third are set in the local buffer.\<close>

definition link_entry :: "fat_dirent \<Rightarrow> byte list \<Rightarrow> u16 \<times> u16 \<Rightarrow> u16 \<times> u16 \<Rightarrow> fat_dirent" where
  "link_entry e name cluster dt =
     (stamped e dt)\<lparr>fde_name := name, attributes := DIRENT_DIRECTORY,
        first_cluster_low := fst cluster, first_cluster_high := snd cluster\<rparr>"

definition directory_sector :: "'w fat_state \<Rightarrow> u16 \<times> u16 \<Rightarrow> u16 \<times> u16 \<Rightarrow> u16 \<times> u16 \<Rightarrow> byte list" where
  "directory_sector s self parent dt =
     (let buf = map (junk s) [0..<512] in
      bytes_of_dirent (link_entry (dirent_of (read_at buf 0 32)) dot_name self dt) @
      bytes_of_dirent (link_entry (dirent_of (read_at buf 32 32)) dotdot_name parent dt) @
      DIRENT_END # drop 65 buf)"

definition fat_create_directory :: "'w fat_state \<Rightarrow> string \<Rightarrow> (int \<times> 'w fat_state) outcome" where
  "fat_create_directory s path =
     bind_outcome (normalize_fat_path 512 path) (\<lambda>npath.
       if fat_read_only (data s) then Ret (- EROFS, s)
       else
         bind_outcome (fat_lookup_path s npath) (\<lambda>(r, s1).
           case r of
             Inr h \<Rightarrow> Ret (- EEXIST, s1)
           | Inl err \<Rightarrow>
               bind_outcome (unix_to_fat_timestamp (now s1)) (\<lambda>dt.
               bind_outcome (fat_compute_free_cluster s1) (\<lambda>(free_cluster, s2).
                 if free_cluster = 0 then Ret (- ENOSPC, s2)
                 else
                   bind_outcome (write_fat s2 free_cluster CLUSTER_CHAIN_END) (\<lambda>s3.
                   bind_outcome (clear_cluster s3 free_cluster (bytes_per_cluster s3)) (\<lambda>(res, s4).
                   let self = (ucast (free_cluster AND 0xFFFF), ucast (drop_bit 16 free_cluster)) in
                   bind_outcome (separate_dirname_filename npath (replicate 12 0)) (\<lambda>(dirname, filename).
                   bind_outcome (readable_to_8d3 filename) (\<lambda>name.
                   bind_outcome (fat_add_dirent s4 dirname
                       ((stamped zero_fat_dirent dt)\<lparr>attributes := DIRENT_DIRECTORY, first_cluster_low := fst self,
                          first_cluster_high := snd self, fde_name := take 11 name\<rparr>)) (\<lambda>(res, s5).
                     if res < 0 then Ret (res, s5)
                     else
                       bind_outcome (fat_get_dirent_ref s5 dirname) (\<lambda>(parent, s6).
                       bind_outcome (store s6 (get_first_cluster_sector s6 free_cluster)
                           (directory_sector s6 self
                              (first_cluster_low (ref_dirent parent), first_cluster_high (ref_dirent parent)) dt) 1)
                         (\<lambda>(res, s7). Ret (if res < 0 then res else 0, s7))))))))))))"

section \<open>Writing\<close>

text \<open>A new cluster at the end of a chain, as \<open>fat_write_to_file\<close> links it.\<close>

definition link_new :: "'w fat_state \<Rightarrow> u32 \<Rightarrow> u32 \<Rightarrow> 'w fat_state outcome" where
  "link_new s previous_cluster free_cluster =
     bind_outcome (write_fat s previous_cluster (free_cluster AND 0x0FFFFFFF)) (\<lambda>s1.
       write_fat s1 free_cluster CLUSTER_CHAIN_END)"

text \<open>The loop that skips clusters up to the offset.  The result is an error or the previous cluster,
  the current cluster and the offset that is left.\<close>

fun write_skip ::
  "nat \<Rightarrow> 'w fat_state \<Rightarrow> nat \<Rightarrow> u32 \<Rightarrow> u32 \<Rightarrow> nat \<Rightarrow> ((int + u32 \<times> u32 \<times> nat) \<times> 'w fat_state) outcome" where
  "write_skip 0 s cluster_size previous_cluster current_cluster offset = Blocks"
| "write_skip (Suc n) s cluster_size previous_cluster current_cluster offset =
     (if offset < cluster_size then Ret (Inr (previous_cluster, current_cluster, offset), s)
      else if current_cluster \<ge> CLUSTER_CHAIN_END then
        bind_outcome (fat_compute_free_cluster s) (\<lambda>(free_cluster, s1).
          if free_cluster = 0 then Ret (Inl (- ENOSPC), s1)
          else
            bind_outcome (clear_cluster s1 free_cluster (cluster_512 s1)) (\<lambda>(res, s2).
              if res < 0 then Ret (Inl res, s2)
              else bind_outcome (link_new s2 previous_cluster free_cluster) (\<lambda>s3.
                write_skip n s3 cluster_size previous_cluster free_cluster (offset - cluster_size))))
      else
        bind_outcome (next_cluster s current_cluster) (\<lambda>c.
          write_skip n s cluster_size current_cluster c (offset - cluster_size)))"

text \<open>The cluster that the write loop writes into: a new one when the chain has ended.\<close>

definition write_target ::
  "'w fat_state \<Rightarrow> u32 \<Rightarrow> u32 \<Rightarrow> ((int + u32) \<times> 'w fat_state) outcome" where
  "write_target s previous_cluster current_cluster =
     (if current_cluster < CLUSTER_CHAIN_END then Ret (Inr current_cluster, s)
      else
        bind_outcome (fat_compute_free_cluster s) (\<lambda>(free_cluster, s1).
          if free_cluster = 0 then Ret (Inl (- ENOSPC), s1)
          else bind_outcome (link_new s1 previous_cluster free_cluster) (\<lambda>s2. Ret (Inr free_cluster, s2))))"

text \<open>The cluster buffer before the new bytes are put in: read back for a partial cluster at a positive
  offset, zeroed when fewer bytes than a cluster remain, uninitialised otherwise.\<close>

definition write_buffer ::
  "'w fat_state \<Rightarrow> u32 \<Rightarrow> nat \<Rightarrow> nat \<Rightarrow> ((int + byte list) \<times> 'w fat_state) outcome" where
  "write_buffer s cluster cluster_offset left =
     (if cluster_offset \<noteq> 0 then
        bind_outcome (load s (get_first_cluster_sector s cluster) (cluster_sectors s) (bytes_per_cluster s))
          (\<lambda>(res, buf, s1). Ret (if res < 0 then Inl res else Inr buf, s1))
      else if left < cluster_512 s then
        if cluster_512 s > bytes_per_cluster s then Fault
        else Ret (Inr (replicate (cluster_512 s) 0 @ map (junk s) [cluster_512 s..<bytes_per_cluster s]), s)
      else Ret (Inr (map (junk s) [0..<bytes_per_cluster s]), s))"

text \<open>The write loop; \<open>k\<close> bytes have been written.  Every turn writes at least one byte.\<close>

fun write_loop ::
  "nat \<Rightarrow> 'w fat_state \<Rightarrow> byte list \<Rightarrow> nat \<Rightarrow> u32 \<Rightarrow> u32 \<Rightarrow> nat \<Rightarrow> nat \<Rightarrow> (int option \<times> 'w fat_state) outcome" where
  "write_loop 0 s buffer sz previous_cluster current_cluster cluster_offset k = Blocks"
| "write_loop (Suc n) s buffer sz previous_cluster current_cluster cluster_offset k =
     (if k \<ge> sz then Ret (None, s)
      else
        bind_outcome (write_target s previous_cluster current_cluster) (\<lambda>(r, s1).
          case r of
            Inl err \<Rightarrow> Ret (Some err, s1)
          | Inr cluster \<Rightarrow>
              bind_outcome (write_buffer s1 cluster cluster_offset (sz - k)) (\<lambda>(r, s2).
                case r of
                  Inl err \<Rightarrow> Ret (Some err, s2)
                | Inr buf \<Rightarrow>
                    let m = min (bytes_per_cluster s2 - cluster_offset) (sz - k) in
                    bind_outcome (store s2 (get_first_cluster_sector s2 cluster)
                        (write_at buf cluster_offset (read_at buffer k m)) (cluster_sectors s2)) (\<lambda>(res, s3).
                      if k + m < sz then
                        bind_outcome (next_cluster s3 cluster) (\<lambda>c.
                          write_loop n s3 buffer sz cluster c 0 (k + m))
                      else write_loop n s3 buffer sz previous_cluster cluster (cluster_offset + m) (k + m)))))"

definition modified :: "fat_dirent \<Rightarrow> u16 \<times> u16 \<Rightarrow> fat_dirent" where
  "modified e dt = e\<lparr>last_modification_date := fst dt, last_modification_time := snd dt\<rparr>"

text \<open>The first cluster of a new file: the code tests the low half of the cluster number only, and
  does not test whether a free cluster was found.\<close>

definition write_first :: "'w fat_state \<Rightarrow> fat_dirent \<Rightarrow> (fat_dirent \<times> u32 \<times> 'w fat_state) outcome" where
  "write_first s e =
     (if first_cluster_low e = 0 then
        bind_outcome (fat_compute_free_cluster s) (\<lambda>(free_cluster, s1).
        bind_outcome (write_fat s1 free_cluster CLUSTER_CHAIN_END) (\<lambda>s2.
          Ret (e\<lparr>first_cluster_low := ucast (free_cluster AND 0xFFFF),
                 first_cluster_high := ucast (drop_bit 16 free_cluster AND 0xFFFF)\<rparr>, free_cluster, s2)))
      else Ret (e, first_cluster e, s))"

definition fat_write_to_file ::
  "'w fat_state \<Rightarrow> u64 \<Rightarrow> byte list \<Rightarrow> u64 \<Rightarrow> u64 \<Rightarrow> (int \<times> 'w fat_state) outcome" where
  "fat_write_to_file s handle buffer offset sz =
     (if fat_read_only (data s) then Ret (- EROFS, s)
      else
        bind_outcome (fat_read_dirent s handle) (\<lambda>(e, s1).
          if gone e then Ret (- ENOENT, s1)
          else
            bind_outcome (write_first s1 e) (\<lambda>(e1, cluster, s2).
            bind_outcome (write_skip (unat offset + 3 * chain_fuel s2) s2 (bytes_per_cluster s2) 0 cluster (unat offset))
              (\<lambda>(r, s3).
              case r of
                Inl err \<Rightarrow> Ret (err, s3)
              | Inr (previous_cluster, current_cluster, cluster_offset) \<Rightarrow>
                  bind_outcome (write_loop (unat sz + 1) s3 buffer (unat sz) previous_cluster current_cluster cluster_offset 0)
                    (\<lambda>(r, s4).
                    case r of
                      Some err \<Rightarrow> Ret (err, s4)
                    | None \<Rightarrow>
                        bind_outcome (unix_to_fat_timestamp (now s4)) (\<lambda>dt.
                          let e2 = (if offset + sz > ucast (fde_file_size e) then e1\<lparr>fde_file_size := ucast (offset + sz)\<rparr>
                                    else e1) in
                          bind_outcome (fat_write_dirent s4 handle (modified e2 dt)) (\<lambda>s5.
                            Ret (sint sz, s5))))))))"

section \<open>Renaming, attributes\<close>

text \<open>Here the array for the file name is not initialised.\<close>

definition fat_rename :: "'w fat_state \<Rightarrow> string \<Rightarrow> string \<Rightarrow> (int \<times> 'w fat_state) outcome" where
  "fat_rename s old_path new_path =
     (if fat_read_only (data s) then Ret (- EROFS, s)
      else
        bind_outcome (normalize_fat_path 4096 old_path) (\<lambda>old_npath.
        bind_outcome (normalize_fat_path 4096 new_path) (\<lambda>new_npath.
        bind_outcome (fat_get_dirent_ref s old_npath) (\<lambda>(old_ref, s1).
          if \<not> ref_found old_ref then Ret (- ENOENT, s1)
          else
            bind_outcome (fat_lookup_path s1 new_npath) (\<lambda>(r, s2).
            bind_outcome (case r of Inl err \<Rightarrow> Ret (0, s2) | Inr h \<Rightarrow> fat_delete s2 new_npath) (\<lambda>(res, s3).
              if res < 0 then Ret (res, s3)
              else
                bind_outcome (separate_dirname_filename new_npath (map (junk s3) [0..<12])) (\<lambda>(new_dirname, filename).
                bind_outcome (readable_to_8d3 filename) (\<lambda>name.
                bind_outcome (fat_add_dirent s3 new_dirname ((ref_dirent old_ref)\<lparr>fde_name := take 11 name\<rparr>)) (\<lambda>(res, s4).
                  if res \<noteq> 0 then Ret (res, s4)
                  else bind_outcome (mark_deleted s4 (ref_position old_ref)) (\<lambda>s5. Ret (0, s5)))))))))))"

definition fat_stat :: "'w fat_state \<Rightarrow> u64 \<Rightarrow> ((int \<times> stat_t) \<times> 'w fat_state) outcome" where
  "fat_stat s handle =
     bind_outcome (fat_read_dirent s handle) (\<lambda>(e, s1).
       if gone e then Ret ((- ENOENT, zero_stat), s1)
       else
         bind_outcome (fat_timestamp_to_unix (creation_date e) (creation_time e)) (\<lambda>c.
         bind_outcome (fat_timestamp_to_unix (last_modification_date e) (last_modification_time e)) (\<lambda>m.
           Ret ((0, zero_stat\<lparr>st_type := (if is_directory e then DT_DIR else DT_FILE), st_size := ucast (fde_file_size e),
                   st_ctime := c, st_btime := c, st_mtime := m\<rparr>), s1))))"

definition fat_get_creation_time :: "'w fat_state \<Rightarrow> string \<Rightarrow> ((int \<times> u64) \<times> 'w fat_state) outcome" where
  "fat_get_creation_time s path =
     bind_outcome (fat_get_dirent_ref s path) (\<lambda>(ref, s1).
       if \<not> ref_found ref then Ret ((- ENOENT, 0), s1)
       else bind_outcome (fat_timestamp_to_unix (creation_date (ref_dirent ref)) (creation_time (ref_dirent ref)))
         (\<lambda>t. Ret ((0, t), s1)))"

definition fat_get_last_modification_time :: "'w fat_state \<Rightarrow> string \<Rightarrow> ((int \<times> u64) \<times> 'w fat_state) outcome" where
  "fat_get_last_modification_time s path =
     bind_outcome (fat_get_dirent_ref s path) (\<lambda>(ref, s1).
       if \<not> ref_found ref then Ret ((- ENOENT, 0), s1)
       else bind_outcome (fat_timestamp_to_unix (last_modification_date (ref_dirent ref))
           (last_modification_time (ref_dirent ref))) (\<lambda>t. Ret ((0, t), s1)))"

section \<open>Truncation\<close>

text \<open>A free cluster, cleared on disk: the result is an error or the cluster.\<close>

definition fresh_cluster :: "'w fat_state \<Rightarrow> ((int + u32) \<times> 'w fat_state) outcome" where
  "fresh_cluster s =
     bind_outcome (fat_compute_free_cluster s) (\<lambda>(free_cluster, s1).
       if free_cluster = 0 then Ret (Inl (- ENOSPC), s1)
       else bind_outcome (clear_cluster s1 free_cluster (cluster_512 s1)) (\<lambda>(res, s2).
         Ret (if res < 0 then Inl res else Inr free_cluster, s2)))"

text \<open>The walk to the end of a chain, which compares table entries without masking them.\<close>

fun chain_last :: "nat \<Rightarrow> 'w fat_state \<Rightarrow> u32 \<Rightarrow> u32 outcome" where
  "chain_last 0 s last_cluster = Blocks"
| "chain_last (Suc n) s last_cluster =
     bind_outcome (read_fat s last_cluster) (\<lambda>c.
       if c \<ge> CLUSTER_CHAIN_END then Ret last_cluster else chain_last n s c)"

fun extend_chain :: "nat \<Rightarrow> 'w fat_state \<Rightarrow> u32 \<Rightarrow> ((int + u32) \<times> 'w fat_state) outcome" where
  "extend_chain 0 s last_cluster = Ret (Inr last_cluster, s)"
| "extend_chain (Suc n) s last_cluster =
     bind_outcome (fresh_cluster s) (\<lambda>(r, s1).
       case r of
         Inl err \<Rightarrow> Ret (Inl err, s1)
       | Inr free_cluster \<Rightarrow>
           bind_outcome (write_fat s1 last_cluster (free_cluster AND 0x0FFFFFFF)) (\<lambda>s2.
             extend_chain n s2 free_cluster))"

definition truncate_grow ::
  "'w fat_state \<Rightarrow> fat_dirent \<Rightarrow> nat \<Rightarrow> ((int + fat_dirent) \<times> 'w fat_state) outcome" where
  "truncate_grow s e difference =
     bind_outcome
       (if first_cluster_high e = 0 \<and> first_cluster_low e = 0 then
          bind_outcome (fresh_cluster s) (\<lambda>(r, s1).
            case r of
              Inl err \<Rightarrow> Ret (Inl err, s1)
            | Inr free_cluster \<Rightarrow>
                bind_outcome (write_fat s1 free_cluster CLUSTER_CHAIN_END) (\<lambda>s2.
                  Ret (Inr (e\<lparr>first_cluster_high := ucast (drop_bit 16 free_cluster),
                              first_cluster_low := ucast (free_cluster AND 0xFFFF)\<rparr>, difference - 1), s2)))
        else Ret (Inr (e, difference), s)) (\<lambda>(r, s1).
       case r of
         Inl err \<Rightarrow> Ret (Inl err, s1)
       | Inr (e1, n) \<Rightarrow>
           bind_outcome (chain_last (chain_fuel s1) s1 (first_cluster e1)) (\<lambda>l.
           bind_outcome (extend_chain n s1 l) (\<lambda>(r, s2).
             case r of
               Inl err \<Rightarrow> Ret (Inl err, s2)
             | Inr l1 \<Rightarrow> bind_outcome (write_fat s2 l1 CLUSTER_CHAIN_END) (\<lambda>s3. Ret (Inr e1, s3)))))"

text \<open>The ring of the last \<open>difference + 1\<close> clusters of the chain, and the loop that frees backwards.\<close>

fun last_ring :: "nat \<Rightarrow> 'w fat_state \<Rightarrow> nat \<Rightarrow> u32 list \<Rightarrow> nat \<Rightarrow> (u32 list \<times> nat) outcome" where
  "last_ring 0 s difference last_clusters head = Blocks"
| "last_ring (Suc n) s difference last_clusters head =
     bind_outcome (read_fat s (last_clusters ! head)) (\<lambda>c.
       if c \<ge> CLUSTER_CHAIN_END then Ret (last_clusters, head)
       else
         let head1 = (head + 1) mod (difference + 1) in
         last_ring n s difference (last_clusters[head1 := c]) head1)"

fun free_ring :: "nat \<Rightarrow> 'w fat_state \<Rightarrow> nat \<Rightarrow> u32 list \<Rightarrow> nat \<Rightarrow> 'w fat_state outcome" where
  "free_ring 0 s difference last_clusters head = Ret s"
| "free_ring (Suc n) s difference last_clusters head =
     bind_outcome (write_fat s (last_clusters ! head) CLUSTER_FREE) (\<lambda>s1.
       free_ring n s1 difference last_clusters ((head + difference) mod (difference + 1)))"

definition clear_tail :: "'w fat_state \<Rightarrow> u32 \<Rightarrow> nat \<Rightarrow> 'w fat_state outcome" where
  "clear_tail s cluster used =
     (if used = 0 then Ret s
      else
        bind_outcome (load s (get_first_cluster_sector s cluster) (cluster_sectors s) (cluster_512 s)) (\<lambda>(res, buf, s1).
        bind_outcome (store s1 (get_first_cluster_sector s1 cluster)
            (take used buf @ replicate (cluster_512 s1 - used) 0) (cluster_sectors s1)) (\<lambda>(res, s2). Ret s2)))"

definition truncate_shrink ::
  "'w fat_state \<Rightarrow> fat_dirent \<Rightarrow> nat \<Rightarrow> nat \<Rightarrow> (fat_dirent \<times> 'w fat_state) outcome" where
  "truncate_shrink s e difference new_size =
     bind_outcome (last_ring (chain_fuel s) s difference ((replicate (difference + 1) 0)[0 := first_cluster e]) 0)
       (\<lambda>(last_clusters, head).
       let new_end = last_clusters ! ((head + 1) mod (difference + 1)) in
       bind_outcome
         (if new_end \<noteq> 0 then
            bind_outcome (write_fat s new_end CLUSTER_CHAIN_END) (\<lambda>s1.
            bind_outcome (clear_tail s1 new_end (new_size mod cluster_512 s1)) (\<lambda>s2. Ret (e, s2)))
          else Ret (e\<lparr>first_cluster_high := 0, first_cluster_low := 0\<rparr>, s)) (\<lambda>(e1, s3).
       bind_outcome (free_ring difference s3 difference last_clusters head) (\<lambda>s4. Ret (e1, s4))))"

text \<open>The number of clusters of the old size is computed in 32 bits, that of the new size in 64 bits.\<close>

definition fat_truncate :: "'w fat_state \<Rightarrow> u64 \<Rightarrow> u64 \<Rightarrow> (int \<times> 'w fat_state) outcome" where
  "fat_truncate s handle new_size =
     (if fat_read_only (data s) then Ret (- EROFS, s)
      else
        bind_outcome (fat_read_dirent s handle) (\<lambda>(e, s1).
          if gone e then Ret (- ENOENT, s1)
          else if cluster_512 s1 = 0 then Fault
          else
            let original = unat ((fde_file_size e + word_of_nat (cluster_512 s1) - 1) div word_of_nat (cluster_512 s1));
                required = unat ((new_size + word_of_nat (cluster_512 s1) - 1) div word_of_nat (cluster_512 s1)) in
            bind_outcome (unix_to_fat_timestamp (now s1)) (\<lambda>dt.
              let e1 = modified (e\<lparr>fde_file_size := ucast new_size\<rparr>) dt in
              bind_outcome
                (if original < required then truncate_grow s1 e1 (required - original)
                 else if original > required then
                   bind_outcome (truncate_shrink s1 e1 (original - required) (unat new_size)) (\<lambda>(e2, s2). Ret (Inr e2, s2))
                 else Ret (Inr e1, s1)) (\<lambda>(r, s3).
                case r of
                  Inl err \<Rightarrow> Ret (err, s3)
                | Inr e2 \<Rightarrow> bind_outcome (fat_write_dirent s3 handle e2) (\<lambda>s4. Ret (0, s4))))))"

section \<open>The driver\<close>

text \<open>The mounted instances by address, the static pointer \<open>data\<close>, and the rest of the machine that the
  operations use.\<close>

record 'w fat_world =
  fat_mounts :: "nat \<Rightarrow> fat_data option"
  fat_current :: nat
  fat_fresh :: nat
  fat_blocks :: "'w blk"
  fat_disk :: 'w
  fat_clock :: u64
  fat_junk :: "nat \<Rightarrow> byte"

definition fat_view :: "'w fat_world \<Rightarrow> fat_data \<Rightarrow> 'w fat_state" where
  "fat_view w d = \<lparr>blocks = fat_blocks w, disk = fat_disk w, data = d, now = fat_clock w, junk = fat_junk w\<rparr>"

definition fat_back :: "'w fat_world \<Rightarrow> 'w fat_state \<Rightarrow> 'w fat_world" where
  "fat_back w s = w\<lparr>fat_mounts := (fat_mounts w)(fat_current w \<mapsto> data s), fat_disk := disk s\<rparr>"

definition with_fat :: "'w fat_world \<Rightarrow> ('w fat_state \<Rightarrow> ('a \<times> 'w fat_state) outcome) \<Rightarrow> ('a \<times> 'w fat_world) outcome" where
  "with_fat w f =
     (case fat_mounts w (fat_current w) of
        None \<Rightarrow> Fault
      | Some d \<Rightarrow> bind_outcome (f (fat_view w d)) (\<lambda>(x, s). Ret (x, fat_back w s)))"

definition fat_select :: "nat \<Rightarrow> 'w fat_world \<Rightarrow> 'w fat_world" where
  "fat_select p w = w\<lparr>fat_current := p\<rparr>"

text \<open>A mount that fails leaves \<open>data\<close> pointing at the freed instance.\<close>

definition fat_mount_new :: "block_device \<Rightarrow> u32 \<Rightarrow> 'w fat_world \<Rightarrow> (nat \<times> 'w fat_world) outcome" where
  "fat_mount_new device flags w =
     (let a = fat_fresh w;
          w1 = w\<lparr>fat_current := a, fat_fresh := a + 1\<rparr> in
      bind_outcome (fat_mount (fat_view w1 (new_fat_data device)) device flags) (\<lambda>(r, s).
        case r of
          None \<Rightarrow> Ret (0, w1\<lparr>fat_disk := disk s\<rparr>)
        | Some d \<Rightarrow> Ret (a, fat_back w1 s)))"

definition fat_driver :: "'w fat_world filesystem" where
  "fat_driver =
     \<lparr>fs_name = ''fat'', fs_requires_backing = True,
      fs_check = Some (\<lambda>dev w. bind_outcome (fat_check (fat_view w (new_fat_data dev)) dev) (\<lambda>(r, s).
        Ret (r, w\<lparr>fat_disk := disk s\<rparr>))),
      fs_mount = fat_mount_new,
      fs_unmount = None,
      fs_select = fat_select,
      fs_get_root = (\<lambda>w. Ret (unat fat_get_root)),
      fs_lookup = (\<lambda>name h w. with_fat w (\<lambda>s. bind_outcome (fat_lookup s name (word_of_nat h)) (\<lambda>(r, s1).
        Ret (map_sum id unat r, s1)))),
      fs_open = None,
      fs_close = None,
      fs_readdir = Some (\<lambda>h i w. with_fat w (\<lambda>s. fat_readdir s (word_of_nat h) i)),
      fs_read = Some (\<lambda>h off sz w. bind_outcome
        (with_fat w (\<lambda>s. bind_outcome (fat_read s (word_of_nat h) off sz) (\<lambda>(r, bs, s1). Ret ((r, bs), s1))))
        (\<lambda>((r, bs), w1). Ret (r, bs, w1))),
      fs_write = Some (\<lambda>h buf off sz w. with_fat w (\<lambda>s. fat_write_to_file s (word_of_nat h) buf off sz)),
      fs_stat = Some (\<lambda>h w. with_fat w (\<lambda>s. fat_stat s (word_of_nat h))),
      fs_mknod = None,
      fs_create_file = Some (\<lambda>path w. with_fat w (\<lambda>s. fat_create_file s path)),
      fs_create_directory = Some (\<lambda>path w. with_fat w (\<lambda>s. fat_create_directory s path)),
      fs_remove = Some (\<lambda>path w. with_fat w (\<lambda>s. fat_delete s path)),
      fs_rename = Some (\<lambda>old new w. with_fat w (\<lambda>s. fat_rename s old new)),
      fs_link = None,
      fs_truncate = Some (\<lambda>h n w. with_fat w (\<lambda>s. fat_truncate s (word_of_nat h) n))\<rparr>"

end
