(* ===== verification/Fatfiles.thy ===== *)
theory Fatfiles
  imports Fatops
begin

text \<open>
  Correctness of the FAT file system on a volume with 512-byte sectors whose device behaves as a
  disk (\<open>serves\<close> of the theory Blockdev): files as the concatenation of the clusters of a chain,
  directories as lists of entries, the search for free clusters, the freeing of chains, and the
  encodings of entries, names and time stamps.
\<close>

section \<open>Volumes\<close>

definition first_data :: "'w fat_state \<Rightarrow> nat" where
  "first_data s = unat (reserved_sectors (bpb (data s))) + unat (num_fats (bpb (data s))) * unat (fat_size (data s))"

definition spc :: "'w fat_state \<Rightarrow> nat" where
  "spc s = unat (sectors_per_cluster (bpb (data s)))"

definition clusters :: "'w fat_state \<Rightarrow> nat" where
  "clusters s = unat (total_clusters s)"

definition volume :: "('w \<Rightarrow> byte list) \<Rightarrow> 'w fat_state \<Rightarrow> bool" where
  "volume img s \<longleftrightarrow>
     serves (blocks s) (backing (data s)) 512 img \<and> bytes_per_sector (bpb (data s)) = 512 \<and> 0 < spc s \<and>
     first_data s + clusters s * spc s < 2 ^ 32 \<and>
     (first_data s + clusters s * spc s) * 512 \<le> length (img (disk s)) \<and>
     clusters s + 2 \<le> length (fat (data s))"

definition valid_cluster :: "'w fat_state \<Rightarrow> u32 \<Rightarrow> bool" where
  "valid_cluster s c \<longleftrightarrow> 2 \<le> unat c \<and> unat c < clusters s + 2"

definition cluster_sector :: "'w fat_state \<Rightarrow> u32 \<Rightarrow> nat" where
  "cluster_sector s c = first_data s + (unat c - 2) * spc s"

definition cluster_bytes :: "('w \<Rightarrow> byte list) \<Rightarrow> 'w fat_state \<Rightarrow> u32 \<Rightarrow> byte list" where
  "cluster_bytes img s c = read_at (img (disk s)) (cluster_sector s c * 512) (spc s * 512)"

lemma bytes_per_cluster_volume: "volume img s \<Longrightarrow> bytes_per_cluster s = spc s * 512"
  by (simp add: volume_def bytes_per_cluster_def spc_def)

lemma unat_ucast_32_64 [simp]: "unat (ucast (a :: u32) :: u64) = unat a"
  using unsigned_less [of a, where 'a = nat] by (simp add: unsigned_ucast_eq take_bit_nat_eq_self_iff)

lemma cluster_sector_fits:
  assumes "volume img s" and "valid_cluster s c"
  shows "cluster_sector s c + spc s \<le> first_data s + clusters s * spc s"
proof -
  have "unat c - 2 + 1 \<le> clusters s" using assms(2) by (auto simp: valid_cluster_def)
  then have "(unat c - 2 + 1) * spc s \<le> clusters s * spc s" by (rule mult_le_mono1)
  then show ?thesis by (simp add: cluster_sector_def)
qed

lemma cluster_sector_word:
  assumes "volume img s" and "valid_cluster s c"
  shows "unat (get_first_cluster_sector s c) = cluster_sector s c"
proof -
  have c: "c - 2 = word_of_nat (unat c - 2)"
    using assms(2) by (simp add: valid_cluster_def of_nat_diff)
  have "(c - 2) * ucast (sectors_per_cluster (bpb (data s))) + (ucast (reserved_sectors (bpb (data s))) +
      ucast (num_fats (bpb (data s))) * fat_size (data s)) = (word_of_nat (cluster_sector s c) :: u32)"
    unfolding c cluster_sector_def first_data_def spc_def by (simp add: add.commute)
  moreover have "cluster_sector s c < 2 ^ 32"
    using cluster_sector_fits [OF assms] assms(1) unfolding volume_def by linarith
  ultimately show ?thesis
    unfolding get_first_cluster_sector_def Let_def by (simp add: unat_of_nat)
qed

lemma load_cluster_volume:
  assumes "volume img s" and "valid_cluster s c"
  shows "load_cluster s c = Ret (cluster_bytes img s c, s)"
proof -
  have u: "unat (cluster_sectors s) = spc s"
    using unsigned_less [of "sectors_per_cluster (bpb (data s))", where 'a = nat]
    by (simp add: cluster_sectors_def spc_def unsigned_ucast_eq take_bit_nat_eq_self_iff)
  have f: "(cluster_sector s c + spc s) * 512 \<le> length (img (disk s))"
    using cluster_sector_fits [OF assms] assms(1) unfolding volume_def by (meson le_trans mult_le_mono1)
  have "serves (blocks s) (backing (data s)) 512 img" using assms(1) by (simp add: volume_def)
  then obtain res where r: "read_sectors (blocks s) (backing (data s)) (get_first_cluster_sector s c)
      (cluster_sectors s) (disk s) = Ret (res, cluster_bytes img s c, disk s)"
    using f u cluster_sector_word [OF assms] unfolding serves_def cluster_bytes_def by metis
  have "length (cluster_bytes img s c) = bytes_per_cluster s"
    using f bytes_per_cluster_volume [OF assms(1)] by (simp add: cluster_bytes_def add_mult_distrib)
  then show ?thesis using r by (simp add: load_cluster_def load_def)
qed

section \<open>Reading a file\<close>

text \<open>The chain of a file: every cluster is one of the volume, its table entry is the next one, and the
  entry of the last one marks the end.\<close>

definition link_of :: "'w fat_state \<Rightarrow> u32 \<Rightarrow> u32" where
  "link_of s c = fat (data s) ! unat c AND 0x0FFFFFFF"

fun is_chain :: "'w fat_state \<Rightarrow> u32 list \<Rightarrow> bool" where
  "is_chain s [] \<longleftrightarrow> False"
| "is_chain s [c] \<longleftrightarrow> valid_cluster s c \<and> link_of s c \<ge> CLUSTER_CHAIN_END"
| "is_chain s (c # d # cs) \<longleftrightarrow>
     valid_cluster s c \<and> link_of s c = d \<and> d < CLUSTER_CHAIN_END \<and> is_chain s (d # cs)"

definition chain_bytes :: "('w \<Rightarrow> byte list) \<Rightarrow> 'w fat_state \<Rightarrow> u32 list \<Rightarrow> byte list" where
  "chain_bytes img s cs = concat (map (cluster_bytes img s) cs)"

lemma next_cluster_valid:
  "volume img s \<Longrightarrow> valid_cluster s c \<Longrightarrow> next_cluster s c = Ret (link_of s c)"
  by (auto simp: next_cluster_def read_fat_def volume_def valid_cluster_def link_of_def)

lemma is_chain_valid: "is_chain s (c # cs) \<Longrightarrow> valid_cluster s c"
  by (cases cs) simp_all

lemma length_cluster_bytes:
  assumes "volume img s" and "valid_cluster s c"
  shows "length (cluster_bytes img s c) = spc s * 512"
proof -
  have "(cluster_sector s c + spc s) * 512 \<le> length (img (disk s))"
    using cluster_sector_fits [OF assms] assms(1) unfolding volume_def by (meson le_trans mult_le_mono1)
  then show ?thesis by (simp add: cluster_bytes_def add_mult_distrib)
qed

lemma skip_clusters_chain:
  assumes v: "volume img s" and csz: "csz = spc s * 512"
  shows "is_chain s xs \<Longrightarrow> off < length xs * csz \<Longrightarrow> off < n \<Longrightarrow>
    skip_clusters n s csz (hd xs) off = Ret (Some (xs ! (off div csz), off mod csz))"
proof (induction xs arbitrary: n off)
  case (Cons c cs)
  obtain m where n: "n = Suc m" using Cons.prems(3) by (cases n) auto
  have pos: "0 < csz" using v csz by (simp add: volume_def)
  have nx: "next_cluster s c = Ret (link_of s c)"
    using next_cluster_valid [OF v is_chain_valid [OF Cons.prems(1)]] .
  show ?case
  proof (cases "off < csz")
    case True
    then show ?thesis by (simp add: n)
  next
    case False
    then obtain d ds where cs: "cs = d # ds" using Cons.prems(2) by (cases cs) auto
    have "skip_clusters m s csz d (off - csz) = Ret (Some (cs ! ((off - csz) div csz), (off - csz) mod csz))"
      using Cons.IH [of "off - csz" m] Cons.prems False pos cs n by auto
    moreover have "off div csz = Suc ((off - csz) div csz)" "off mod csz = (off - csz) mod csz"
      using False pos by (simp_all add: le_div_geq le_mod_geq not_less)
    ultimately show ?thesis using False nx Cons.prems(1) cs by (auto simp: n not_le)
  qed
qed simp

lemma fat_read_loop_chain:
  assumes v: "volume img s"
  shows "is_chain s xs \<Longrightarrow> coff < spc s * 512 \<Longrightarrow> sz - length out < n \<Longrightarrow> length out \<le> sz \<Longrightarrow>
    fat_read_loop n s (hd xs) coff sz out = Ret (out @ take (sz - length out) (drop coff (chain_bytes img s xs)), s)"
proof (induction xs arbitrary: n coff out)
  case (Cons c cs)
  obtain m where n: "n = Suc m" using Cons.prems(3) by (cases n) auto
  show ?case
  proof (cases "length out < sz")
    case False
    then show ?thesis using Cons.prems(4) by (simp add: n)
  next
    case True
    define b where "b = cluster_bytes img s c"
    define k where "k = min (length b - coff) (sz - length out)"
    define out1 where "out1 = out @ read_at b coff k"
    have c: "valid_cluster s c" using is_chain_valid [OF Cons.prems(1)] .
    have lb: "length b = spc s * 512" using length_cluster_bytes [OF v c] by (simp add: b_def)
    have kpos: "0 < k" using True Cons.prems(2) lb by (simp add: k_def)
    have lo: "length out1 = length out + k" using lb Cons.prems(2) by (simp add: out1_def k_def read_at_def)
    have step: "fat_read_loop n s c coff sz out = (if length out1 < sz then
        bind_outcome (next_cluster s c) (\<lambda>d. if d \<ge> CLUSTER_CHAIN_END then Ret (out1, s) else fat_read_loop m s d 0 sz out1)
        else fat_read_loop m s c (coff + (length out1 - length out)) sz out1)"
      using True load_cluster_volume [OF v c] by (simp add: n out1_def k_def b_def Let_def cong: if_cong)
    have cb: "chain_bytes img s (c # cs) = b @ chain_bytes img s cs" by (simp add: chain_bytes_def b_def)
    show ?thesis
    proof (cases "length out1 < sz")
      case False
      then have "k = sz - length out" using lo by (simp add: k_def)
      moreover have "k \<le> length b - coff" by (simp add: k_def)
      ultimately have "out1 = out @ take (sz - length out) (drop coff (chain_bytes img s (c # cs)))"
        by (simp add: out1_def read_at_def cb)
      moreover have "fat_read_loop m s c (coff + (length out1 - length out)) sz out1 = Ret (out1, s)"
        using False Cons.prems(3) kpos True n by (cases m) auto
      then have "fat_read_loop n s c coff sz out = Ret (out1, s)" using step False by simp
      ultimately show ?thesis by (simp only: list.sel)
    next
      case more: True
      then have k: "k = length b - coff" using lo by (auto simp: k_def)
      then have whole: "out1 = out @ drop coff b" by (simp add: out1_def read_at_def)
      have nx: "next_cluster s c = Ret (link_of s c)" using next_cluster_valid [OF v c] .
      have rest: "sz - length out1 = sz - length out - (length b - coff)" using lo k by simp
      show ?thesis
      proof (cases "cs = []")
        case True
        then show ?thesis using step more nx whole Cons.prems(1) by (simp add: cb) (auto simp: chain_bytes_def b_def)
      next
        case False
        then obtain d ds where cs: "cs = d # ds" by (cases cs) auto
        have d: "link_of s c = d" "d < CLUSTER_CHAIN_END" "is_chain s cs" using Cons.prems(1) cs by auto
        have "fat_read_loop m s d 0 sz out1 = Ret (out1 @ take (sz - length out1) (chain_bytes img s cs), s)"
          using Cons.IH [of 0 out1 m] d Cons.prems(3) more kpos lo n v cs by (simp add: volume_def)
        then have "fat_read_loop n s c coff sz out = Ret (out1 @ take (sz - length out1) (chain_bytes img s cs), s)"
          using step more nx d(1,2) by simp
        then show ?thesis using Cons.prems(2) lb more lo k by (simp add: rest cb whole)
      qed
    qed
  qed
qed simp

lemma length_chain_bytes:
  assumes "volume img s"
  shows "is_chain s cs \<Longrightarrow> length (chain_bytes img s cs) = length cs * (spc s * 512)"
proof (induction cs)
  case (Cons c cs)
  then show ?case
    using length_cluster_bytes [OF assms is_chain_valid [OF Cons.prems]]
    by (cases cs) (auto simp: chain_bytes_def)
qed simp

lemma chain_drop: "is_chain s xs \<Longrightarrow> i < length xs \<Longrightarrow> is_chain s (drop i xs)"
proof (induction xs arbitrary: i)
  case (Cons c cs)
  then show ?case by (cases i; cases cs) auto
qed simp

lemma chain_bytes_drop:
  assumes "volume img s"
  shows "is_chain s xs \<Longrightarrow> i < length xs \<Longrightarrow> chain_bytes img s (drop i xs) = drop (i * (spc s * 512)) (chain_bytes img s xs)"
proof (induction xs arbitrary: i)
  case (Cons c cs)
  then show ?case
    using length_cluster_bytes [OF assms is_chain_valid [OF Cons.prems(1)]]
    by (cases i; cases cs) (auto simp: chain_bytes_def)
qed simp

lemma chain_read:
  assumes v: "volume img s" and ch: "is_chain s cs" and off: "off < length cs * (spc s * 512)"
    and n: "off < n" and m: "sz < m"
  shows "skip_clusters n s (bytes_per_cluster s) (hd cs) off =
      Ret (Some (cs ! (off div (spc s * 512)), off mod (spc s * 512))) \<and>
    fat_read_loop m s (cs ! (off div (spc s * 512))) (off mod (spc s * 512)) sz [] =
      Ret (take sz (drop off (chain_bytes img s cs)), s)"
proof
  let ?z = "spc s * 512" and ?i = "off div (spc s * 512)"
  show "skip_clusters n s (bytes_per_cluster s) (hd cs) off = Ret (Some (cs ! ?i, off mod ?z))"
    using skip_clusters_chain [OF v refl ch off n] by (simp add: bytes_per_cluster_volume [OF v])
  have pos: "0 < ?z" using v by (simp add: volume_def)
  have i: "?i < length cs" using off by (metis div_less_iff_less_mult pos)
  have "fat_read_loop m s (hd (drop ?i cs)) (off mod ?z) sz [] =
      Ret ([] @ take (sz - length []) (drop (off mod ?z) (chain_bytes img s (drop ?i cs))), s)"
    using fat_read_loop_chain [OF v chain_drop [OF ch i], of "off mod ?z" sz "[]" m] pos m by simp
  moreover have "drop (off mod ?z) (drop (?i * ?z) (chain_bytes img s cs)) = drop off (chain_bytes img s cs)"
    by (simp only: drop_drop mod_div_mult_eq)
  ultimately show "fat_read_loop m s (cs ! ?i) (off mod ?z) sz [] = Ret (take sz (drop off (chain_bytes img s cs)), s)"
    using chain_bytes_drop [OF v ch i] i by (simp add: hd_drop_conv_nth)
qed

text \<open>C9. Reading a FAT file returns the bytes of its clusters: on a volume whose device behaves as a
  disk, for an entry whose chain of clusters is well formed and long enough for the recorded size,
  \<open>fat_read\<close> returns exactly the part of the concatenated clusters that starts at the offset and ends
  at the end of the request or of the file, and changes nothing.\<close>

theorem fat_read_correct:
  assumes v: "volume img s" and rd: "fat_read_dirent s handle = Ret (e, s)" and live: "\<not> gone e"
    and ch: "is_chain s cs" and first: "hd cs = first_cluster e"
    and long: "unat (fde_file_size e) \<le> length cs * (spc s * 512)"
    and wrap: "unat offset + unat sz < 2 ^ 64"
  shows "fat_read s handle offset sz =
    (let out = take (unat sz) (drop (unat offset) (take (unat (fde_file_size e)) (chain_bytes img s cs)))
     in Ret (int (length out), out, s))"
proof (cases "unat offset < unat (fde_file_size e)")
  case False
  then have "offset \<ge> ucast (fde_file_size e)" by (simp add: word_le_nat_alt)
  then show ?thesis using rd live False by (simp add: fat_read_def)
next
  case True
  let ?f = "ucast (fde_file_size e) :: u64" and ?n = "unat (fde_file_size e)"
  have lt: "\<not> offset \<ge> ?f" using True by (simp add: word_le_nat_alt)
  define k where "k = (if offset + sz > ?f then ?f - offset else sz)"
  have "unat (offset + sz) = unat offset + unat sz" using wrap by (simp add: unat_add_lem [symmetric])
  moreover have "unat (?f - offset) = ?n - unat offset" using True by (simp add: unat_sub word_le_nat_alt)
  ultimately have k: "unat k = min (unat sz) (?n - unat offset)"
    using True by (auto simp: k_def word_less_nat_alt)
  have off: "unat offset < length cs * (spc s * 512)" using True long by linarith
  have out: "take (unat k) (drop (unat offset) (chain_bytes img s cs)) =
      take (unat sz) (drop (unat offset) (take ?n (chain_bytes img s cs)))"
    using True by (simp add: k drop_take min.commute)
  from chain_read [OF v ch off, of "unat offset + chain_fuel s" "unat k" "unat k + 1"]
  show ?thesis using rd live lt
    by (simp add: fat_read_def first Let_def k_def [symmetric] out chain_fuel_def)
qed

section \<open>Encodings\<close>

lemma length_le_bytes [simp]: "length (le_bytes n v) = n"
  by (induction n arbitrary: v) simp_all

lemma le_nat_le_bytes: "le_nat (le_bytes n v) = v mod 256 ^ n"
proof (induction n arbitrary: v)
  case (Suc n)
  have "v mod 256 ^ Suc n = 256 * (v div 256 mod 256 ^ n) + v mod 256"
    by (simp add: mod_mult2_eq)
  then show ?case using Suc by (simp add: unat_of_nat)
qed simp

lemma le_nat_zeros [simp]: "le_nat (replicate n 0) = 0"
  by (induction n) simp_all

lemma word_le_bytes:
  "word_of_nat (le_nat (le_bytes 2 (unat (w :: u16)))) = w"
  "word_of_nat (le_nat (le_bytes 4 (unat (v :: u32)))) = v"
  using unsigned_less [of w, where 'a = nat] unsigned_less [of v, where 'a = nat]
  by (simp_all add: le_nat_le_bytes)

lemma dirent_fields:
  assumes "length (fde_name e) = 11"
  shows "read_at (bytes_of_dirent e) 0 11 = fde_name e"
    and "read_at (bytes_of_dirent e) 11 1 = [attributes e]"
    and "read_at (bytes_of_dirent e) 12 1 = [fde_reserved e]"
    and "read_at (bytes_of_dirent e) 13 1 = [creation_time_tenth e]"
    and "read_at (bytes_of_dirent e) 14 2 = le_bytes 2 (unat (creation_time e))"
    and "read_at (bytes_of_dirent e) 16 2 = le_bytes 2 (unat (creation_date e))"
    and "read_at (bytes_of_dirent e) 18 2 = le_bytes 2 (unat (last_access_date e))"
    and "read_at (bytes_of_dirent e) 20 2 = le_bytes 2 (unat (first_cluster_high e))"
    and "read_at (bytes_of_dirent e) 22 2 = le_bytes 2 (unat (last_modification_time e))"
    and "read_at (bytes_of_dirent e) 24 2 = le_bytes 2 (unat (last_modification_date e))"
    and "read_at (bytes_of_dirent e) 26 2 = le_bytes 2 (unat (first_cluster_low e))"
    and "read_at (bytes_of_dirent e) 28 4 = le_bytes 4 (unat (fde_file_size e))"
  using assms by (simp_all add: read_at_def bytes_of_dirent_def)

lemma length_bytes_of_dirent: "length (fde_name e) = 11 \<Longrightarrow> length (bytes_of_dirent e) = 32"
  by (simp add: bytes_of_dirent_def)

lemma dirent_of_bytes_of_dirent:
  assumes "length (fde_name e) = 11"
  shows "dirent_of (bytes_of_dirent e) = e"
  unfolding dirent_of_def field_def dirent_fields [OF assms] word_le_bytes by simp

section \<open>A small volume\<close>

text \<open>A disk of eight sectors: the boot sector, one table, and six clusters of one sector.  The root
  directory is cluster 2; its first entry is the file \<open>A.TXT\<close> of 600 bytes in the clusters 3 and 4.\<close>

definition fd_img :: "ram \<Rightarrow> byte list" where
  "fd_img w = map w [0..<4096]"

definition fd_blk :: "ram blk" where
  "fd_blk = \<lparr>block_drivers = [HwDriver \<lparr>
     hw_read_sectors = (\<lambda>mnr lba cnt w. (0, read_at (fd_img w) (unat lba * 512) (unat cnt * 512), w)),
     hw_write_sectors = (\<lambda>mnr lba bs cnt w.
       (0, \<lambda>i. write_at (fd_img w) (unat lba * 512) (take (unat cnt * 512) bs) ! i)),
     hw_ioctl = None, hw_get_blockdev_size = (\<lambda>mnr w. 4096), hw_get_sector_size = (\<lambda>mnr w. 512)\<rparr>],
     partitions = [], partition_driver_index = 2\<rparr>"

lemma length_fd_img [simp]: "length (fd_img w) = 4096"
  by (simp add: fd_img_def)

lemma fd_img_of_list: "length xs = 4096 \<Longrightarrow> fd_img (\<lambda>i. xs ! i) = xs"
  unfolding fd_img_def by (metis map_nth)

lemma fd_serves: "serves fd_blk ram_dev 512 fd_img"
  unfolding serves_def
  by (auto simp: ram_dev_def get_sector_size_def read_sectors_def write_sectors_def fd_blk_def
    block_driver_at_def intro!: fd_img_of_list)

definition demo_entry :: fat_dirent where
  "demo_entry = zero_fat_dirent\<lparr>fde_name := map of_char ''A       TXT'', first_cluster_low := 3, fde_file_size := 600\<rparr>"

definition demo_bpb :: bpb_t where
  "demo_bpb = no_bpb\<lparr>bytes_per_sector := 512, sectors_per_cluster := 1, reserved_sectors := 1, num_fats := 1,
     total_sectors_32 := 8, fat_size_32 := 1, root_cluster := 2\<rparr>"

definition demo_fat :: "u32 list" where
  "demo_fat = [0x0FFFFFF8, 0x0FFFFFFF, 0x0FFFFFF8, 4, 0x0FFFFFF8, 0, 0, 0] @ replicate 120 0"

definition demo_disk :: ram where
  "demo_disk i =
     (if 512 \<le> i \<and> i < 1024 then le_bytes 4 (unat (demo_fat ! ((i - 512) div 4))) ! (i mod 4)
      else if 1024 \<le> i \<and> i < 1056 then bytes_of_dirent demo_entry ! (i - 1024)
      else if 1536 \<le> i \<and> i < 2048 then 0x61
      else if 2048 \<le> i \<and> i < 2560 then 0x62
      else 0)"

definition demo_volume :: "ram fat_state" where
  "demo_volume = \<lparr>blocks = fd_blk, disk = demo_disk,
     data = \<lparr>backing = ram_dev, bpb = demo_bpb, fat = demo_fat, fsinfo = \<lparr>free_clusters = 0, next_free_cluster = 0\<rparr>,
       fat_read_only = False, fat_size = 1, last_free = 2\<rparr>, now = 0, junk = (\<lambda>i. 0xAA)\<rparr>"

lemma demo_geometry [simp]:
  "first_data demo_volume = 2" "spc demo_volume = 1" "total_clusters demo_volume = 6" "clusters demo_volume = 6"
  by (simp_all add: first_data_def spc_def clusters_def total_clusters_def demo_volume_def demo_bpb_def no_bpb_def
      bpb_of_def field_def read_at_def Let_def)

lemma demo_volume_ok: "volume fd_img demo_volume"
  unfolding volume_def by (simp add: fd_serves) (simp add: demo_volume_def demo_bpb_def demo_fat_def fd_serves)

lemma read_at_fd: "read_at (fd_img w) a n = map w [a..<min (a + n) 4096]"
proof -
  have "take n (drop a (map w [0..<m])) = map w [a..<min (a + n) m]" for m
    by (intro nth_equalityI) auto
  then show ?thesis by (simp only: read_at_def fd_img_def)
qed

lemma nth_fd_img [simp]: "i < 4096 \<Longrightarrow> fd_img w ! i = w i"
  by (simp add: fd_img_def del: upt_rec_numeral)

lemma demo_disk_of [simp]: "disk demo_volume = demo_disk"
  by (simp add: demo_volume_def)

lemma demo_clusters:
  "cluster_bytes fd_img demo_volume 3 = replicate 512 0x61" "cluster_bytes fd_img demo_volume 4 = replicate 512 0x62"
  by (auto intro!: nth_equalityI simp: cluster_bytes_def cluster_sector_def demo_disk_def)

lemma demo_link: "link_of demo_volume c = demo_fat ! unat c AND 0x0FFFFFFF"
  by (simp add: link_of_def demo_volume_def)

lemma demo_chain: "is_chain demo_volume [3, 4]"
  by (simp add: valid_cluster_def demo_link demo_fat_def flag_simps)

lemma replicate_twice: "replicate 2 x = [x, x]"
  by (simp add: numeral_2_eq_2)

text \<open>A sector of a well-behaved disk as \<open>load\<close> reads it.\<close>

lemma load_sector:
  assumes "serves (blocks s) (backing (data s)) 512 img" and "(unat lba + 1) * 512 \<le> length (img (disk s))"
  obtains res where "0 \<le> res" and "load s lba 1 512 = Ret (res, read_at (img (disk s)) (unat lba * 512) 512, s)"
proof -
  have "length (read_at (img (disk s)) (unat lba * 512) 512) = 512"
    using assms(2) by simp
  moreover obtain res where "0 \<le> res" "read_sectors (blocks s) (backing (data s)) lba 1 (disk s) =
      Ret (res, read_at (img (disk s)) (unat lba * 512) 512, disk s)"
    using assms unfolding serves_def by (metis mult_1 unat_1)
  ultimately show thesis using that by (simp add: load_def)
qed

lemma demo_read_dirent: "fat_read_dirent demo_volume 0x200000000 = Ret (demo_entry, demo_volume)"
proof -
  have "serves (blocks demo_volume) (backing (data demo_volume)) 512 fd_img"
    using demo_volume_ok by (simp add: volume_def)
  then obtain res where "load demo_volume 2 1 512 = Ret (res, read_at (fd_img demo_disk) 1024 512, demo_volume)"
    using load_sector [of demo_volume fd_img 2] by (auto simp: demo_volume_def)
  moreover have "read_at (read_at (fd_img demo_disk) 1024 512) 0 32 = bytes_of_dirent demo_entry"
    by (intro nth_equalityI) (simp_all add: length_bytes_of_dirent demo_entry_def demo_disk_def)
  ultimately show ?thesis
    using dirent_of_bytes_of_dirent [of demo_entry]
    by (simp add: fat_read_dirent_def handle_sector_def handle_offset_def demo_entry_def)
qed

theorem fat_read_correct_witness:
  "fat_read demo_volume 0x200000000 510 4 = Ret (4, [0x61, 0x61, 0x62, 0x62], demo_volume)"
  using fat_read_correct [OF demo_volume_ok demo_read_dirent _ demo_chain, of 510 4]
  by (simp add: demo_entry_def gone_def first_cluster_def demo_clusters chain_bytes_def flag_simps
      zero_fat_dirent_def dirent_of_def field_def read_at_def Let_def replicate_twice)

end
