(* ===== verification/Fatalloc.thy ===== *)
theory Fatalloc
  imports Fatfiles
begin

text \<open>
  The search for free clusters and the freeing of chains in the FAT file system: what
  \<open>fat_compute_free_cluster\<close> finds, what \<open>fat_delete\<close> does to the allocation table, and the file
  operations that go wrong on unusual but valid volumes.
\<close>

section \<open>The search for a free cluster\<close>

text \<open>The entry of cluster \<open>k\<close> in the first copy of the table on disk is free.\<close>

definition free_on_disk :: "('w \<Rightarrow> byte list) \<Rightarrow> 'w fat_state \<Rightarrow> nat \<Rightarrow> bool" where
  "free_on_disk img s k \<longleftrightarrow>
     (word_of_nat (field (img (disk s)) (unat (reserved_sectors (bpb (data s))) * 512 + 4 * k) 4) :: u32)
       AND 0x0FFFFFFF = 0"

text \<open>The table has an entry for every cluster.\<close>

definition table_ok :: "'w fat_state \<Rightarrow> bool" where
  "table_ok s \<longleftrightarrow> 0 < num_fats (bpb (data s)) \<and> clusters s + 2 \<le> 0x0FFFFFF7 \<and>
     clusters s + 2 \<le> unat (fat_size (data s)) * 128 \<and> unat (fat_size (data s)) * 128 < 2 ^ 32"

text \<open>The first sector of the table that the search looks at.\<close>

definition start_sector :: "'w fat_state \<Rightarrow> nat" where
  "start_sector s =
     (let l = unat (last_free (data s)) in (if l < 2 \<or> l \<ge> clusters s + 2 then 2 else l) div 128)"

fun scan_ref :: "(nat \<Rightarrow> bool) \<Rightarrow> nat \<Rightarrow> nat list \<Rightarrow> nat option" where
  "scan_ref P l [] = None"
| "scan_ref P l (k # ks) =
     (if k < 2 then scan_ref P l ks else if k \<ge> l then Some 0 else if P k then Some k else scan_ref P l ks)"

lemma scan_ref_append:
  "scan_ref P l (xs @ ys) = (case scan_ref P l xs of None \<Rightarrow> scan_ref P l ys | Some k \<Rightarrow> Some k)"
  by (induction xs) auto

lemma scan_ref_range:
  "a \<le> l \<Longrightarrow> 2 \<le> l \<Longrightarrow> l < b \<Longrightarrow>
   scan_ref P l [a..<b] = Some (case find P [max 2 a..<l] of Some k \<Rightarrow> k | None \<Rightarrow> 0)"
proof (induction "l - a" arbitrary: a)
  case 0
  then show ?case by (simp add: upt_conv_Cons)
next
  case (Suc n)
  then have e: "[a..<b] = a # [Suc a..<b]" by (simp add: upt_conv_Cons)
  have IH: "scan_ref P l [Suc a..<b] = Some (case find P [max 2 (Suc a)..<l] of Some k \<Rightarrow> k | None \<Rightarrow> 0)"
    using Suc by simp
  show ?case
  proof (cases "a < 2")
    case True
    then have "max 2 (Suc a) = max 2 a" by simp
    then show ?thesis using True IH e by (simp add: numeral_2_eq_2)
  next
    case False
    then have "[max 2 a..<l] = a # [max 2 (Suc a)..<l]" using Suc.hyps(2) by (simp add: upt_conv_Cons max_def)
    then show ?thesis using False IH e Suc.hyps(2) by auto
  qed
qed

lemma scan_ref_below: "b \<le> l \<Longrightarrow> scan_ref P l [a..<b] = find P [max 2 a..<b]"
proof (induction "b - a" arbitrary: a)
  case 0
  then show ?case by simp
next
  case (Suc n)
  then have e: "[a..<b] = a # [Suc a..<b]" by (simp add: upt_conv_Cons)
  have IH: "scan_ref P l [Suc a..<b] = find P [max 2 (Suc a)..<b]" using Suc by simp
  show ?case
  proof (cases "a < 2")
    case True
    then have "max 2 (Suc a) = max 2 a" by simp
    then show ?thesis using True IH e by (simp add: numeral_2_eq_2)
  next
    case False
    then have "[max 2 a..<b] = a # [max 2 (Suc a)..<b]" using Suc.hyps(2) by (simp add: upt_conv_Cons max_def)
    then show ?thesis using False IH e Suc.hyps(2) Suc.prems by auto
  qed
qed

lemma scan_ref_cong: "(\<And>k. k \<in> set ks \<Longrightarrow> P k = Q k) \<Longrightarrow> scan_ref P l ks = scan_ref Q l ks"
  by (induction ks) auto

lemma scan_entries_ref:
  assumes "4 * (i + n) \<le> 512" and "unat base + i + n < 2 ^ 32"
  shows "scan_entries buf base limit n i =
    Ret (map_option word_of_nat (scan_ref
      (\<lambda>k. (word_of_nat (field buf (4 * (k - unat base)) 4) :: u32) AND 0x0FFFFFFF = 0) (unat limit)
      [unat base + i..<unat base + i + n]))"
  using assms
proof (induction n arbitrary: i)
  case (Suc n)
  have u: "unat (base + word_of_nat i) = unat base + i"
    using Suc.prems(2) by (simp add: unat_word_ariths unat_of_nat)
  have e: "[unat base + i..<unat base + i + Suc n] = (unat base + i) # [unat base + (i + 1)..<unat base + (i + 1) + n]"
    by (simp add: upt_conv_Cons)
  have w: "word_of_nat (unat base + i) = base + word_of_nat i" by simp
  show ?case
    using Suc.IH [of "i + 1"] Suc.prems unfolding e
    by (simp add: u word_less_nat_alt word_le_nat_alt flag_simps Let_def)
qed simp

lemma unat_ucast_u16_u32 [simp]: "unat (ucast (a :: u16) :: u32) = unat a"
  using unsigned_less [of a, where 'a = nat] by (simp add: unsigned_ucast_eq take_bit_nat_eq_self_iff)

lemma field_read_at:
  assumes "i + n \<le> m" and "a + m \<le> length xs"
  shows "field (read_at xs a m) i n = field xs (a + i) n"
proof -
  have "read_at (read_at xs a m) i n = read_at xs (a + i) n"
    using assms by (intro nth_equalityI) (auto simp: read_at_def add.assoc)
  then show ?thesis by (simp add: field_def)
qed

lemma scan_sectors_ref:
  assumes v: "volume img s" and r: "unat (reserved_sectors (bpb (data s))) + sec + n \<le> first_data s"
    and eps: "(sec + n) * 128 < 2 ^ 32"
  shows "scan_sectors s 128 limit n (word_of_nat sec) =
    Ret (case scan_ref (free_on_disk img s) (unat limit) [sec * 128..<(sec + n) * 128] of
           None \<Rightarrow> (None, s)
         | Some k \<Rightarrow> (Some (word_of_nat k), if (word_of_nat k :: u32) = 0 then s
             else s\<lparr>data := (data s)\<lparr>last_free := word_of_nat k\<rparr>\<rparr>))"
  using r eps
proof (induction n arbitrary: sec)
  case (Suc n)
  let ?r = "unat (reserved_sectors (bpb (data s)))" and ?P = "free_on_disk img s"
  have fd: "first_data s < 2 ^ 32" "first_data s * 512 \<le> length (img (disk s))"
    using v by (auto simp: volume_def)
  have lba: "unat (ucast (reserved_sectors (bpb (data s))) + word_of_nat sec :: u32) = ?r + sec"
    using Suc.prems(1) fd(1) by (simp add: unat_word_ariths unat_of_nat)
  have fits: "(?r + sec + 1) * 512 \<le> length (img (disk s))"
  proof -
    have "(?r + sec + 1) * 512 \<le> first_data s * 512" using Suc.prems(1) by (intro mult_le_mono1) simp
    then show ?thesis using fd(2) by linarith
  qed
  obtain res where ld: "0 \<le> res" "load s (ucast (ucast (reserved_sectors (bpb (data s))) + word_of_nat sec :: u32)) 1 512 =
      Ret (res, read_at (img (disk s)) ((?r + sec) * 512) 512, s)"
    using load_sector [of s img "ucast (ucast (reserved_sectors (bpb (data s))) + word_of_nat sec :: u32)"] v lba fits
    by (auto simp: volume_def)
  have base: "unat (word_of_nat sec * 128 :: u32) = sec * 128"
    using Suc.prems(2) by (simp add: unat_word_ariths unat_of_nat)
  have "scan_ref (\<lambda>k. (word_of_nat (field (read_at (img (disk s)) ((?r + sec) * 512) 512) (4 * (k - sec * 128)) 4) :: u32)
        AND 0x0FFFFFFF = 0) (unat limit) [sec * 128..<sec * 128 + 128] =
      scan_ref ?P (unat limit) [sec * 128..<sec * 128 + 128]"
    using fits by (intro scan_ref_cong) (auto simp: free_on_disk_def field_read_at algebra_simps)
  then have en: "scan_entries (read_at (img (disk s)) ((?r + sec) * 512) 512) (word_of_nat sec * 128) limit 128 0 =
      Ret (map_option word_of_nat (scan_ref ?P (unat limit) [sec * 128..<sec * 128 + 128]))"
    using scan_entries_ref [of 0 128 "word_of_nat sec * 128 :: u32"] Suc.prems(2) base by simp
  have split: "[sec * 128..<(sec + Suc n) * 128] = [sec * 128..<sec * 128 + 128] @ [(sec + 1) * 128..<(sec + 1 + n) * 128]"
    using upt_add_eq_append [of "sec * 128" "sec * 128 + 128" "n * 128"] by (simp add: algebra_simps)
  have nxt: "(word_of_nat sec :: u32) + 1 = word_of_nat (sec + 1)" by simp
  show ?case
    using ld en Suc.IH [of "sec + 1"] Suc.prems
    unfolding split scan_ref_append scan_sectors.simps nxt
    by (auto split: option.splits)
qed simp

lemma find_upt_bounds: "find P [a..<b] = Some k \<Longrightarrow> a \<le> k \<and> k < b"
  by (auto simp: find_Some_iff)

lemma limit_word: "table_ok s \<Longrightarrow> unat (total_clusters s + 2) = clusters s + 2"
  by (simp add: table_ok_def clusters_def unat_word_ariths)

lemma search_start:
  assumes t: "table_ok s"
    and sc: "sc = (if last_free (data s) < 2 \<or> last_free (data s) \<ge> total_clusters s + 2 then 2 else last_free (data s))"
  shows "sc * 4 div 512 = word_of_nat (start_sector s)" and "unat (word_of_nat (start_sector s) :: u32) = start_sector s"
    and "start_sector s * 128 \<le> clusters s + 2" and "start_sector s < unat (fat_size (data s))"
proof -
  let ?l = "unat (last_free (data s))"
  have u: "unat sc = (if ?l < 2 \<or> ?l \<ge> clusters s + 2 then 2 else ?l)"
    by (simp add: sc word_less_nat_alt word_le_nat_alt limit_word [OF t])
  then have small: "unat sc * 4 < 2 ^ 32" "unat sc \<le> clusters s + 2" using t by (auto simp: table_ok_def)
  have "unat (sc * 4 div 512) = start_sector s" (is "unat ?w = _")
    using small(1) by (simp add: unat_div unat_word_ariths start_sector_def Let_def u)
  then show "sc * 4 div 512 = word_of_nat (start_sector s)" "unat (word_of_nat (start_sector s) :: u32) = start_sector s"
    using word_of_nat_eq_iff [of "unat ?w" "start_sector s"] by (metis of_nat_unat ucast_id)+
  show "start_sector s * 128 \<le> clusters s + 2"
    using le_trans [OF div_times_less_eq_dividend small(2), of 128] by (simp only: start_sector_def Let_def u [symmetric])
  have "2 \<le> unat (fat_size (data s)) * 128" "2 < (128 :: nat)" using t by (auto simp: table_ok_def)
  then have "2 < unat (fat_size (data s)) * 128" by (cases "unat (fat_size (data s))") simp_all
  then have "unat sc < unat (fat_size (data s)) * 128" using t u by (auto simp: table_ok_def)
  then show "start_sector s < unat (fat_size (data s))"
    by (simp only: start_sector_def Let_def u [symmetric] div_less_iff_less_mult)
qed

text \<open>The clusters in the order in which the search visits them: from the sector of the table that holds the last cluster found
  to the end of the volume, and then, only if the table ends with the entry of the last cluster, those of the sectors before.\<close>

definition search_order :: "'w fat_state \<Rightarrow> nat list" where
  "search_order s = [max 2 (start_sector s * 128)..<clusters s + 2] @
     (if clusters s + 2 = unat (fat_size (data s)) * 128 then [2..<start_sector s * 128] else [])"

text \<open>What a scan over sectors of the table comes to.\<close>

definition scan_result :: "'w fat_state \<Rightarrow> nat option \<Rightarrow> u32 option \<times> 'w fat_state" where
  "scan_result s r = (case r of None \<Rightarrow> (None, s)
     | Some k \<Rightarrow> (Some (word_of_nat k), s\<lparr>data := (data s)\<lparr>last_free := word_of_nat k\<rparr>\<rparr>))"

lemma scan_sectors_below:
  assumes v: "volume img s" and t: "table_ok s" and n: "sec + n \<le> unat (fat_size (data s))" "(sec + n) * 128 \<le> clusters s + 2"
  shows "scan_sectors s 128 (total_clusters s + 2) n (word_of_nat sec) =
    Ret (scan_result s (find (free_on_disk img s) [max 2 (sec * 128)..<(sec + n) * 128]))"
proof -
  have "1 \<le> unat (num_fats (bpb (data s)))" using t by (simp add: table_ok_def word_less_nat_alt)
  then have "unat (fat_size (data s)) \<le> unat (num_fats (bpb (data s))) * unat (fat_size (data s))" by simp
  then have rs: "unat (reserved_sectors (bpb (data s))) + sec + n \<le> first_data s" using n(1) unfolding first_data_def by linarith
  have "(sec + n) * 128 < 2 ^ 32" using n(2) t by (simp add: table_ok_def)
  note scan = scan_sectors_ref [OF v rs this, of "total_clusters s + 2", unfolded limit_word [OF t] scan_ref_below [OF n(2)]]
  show ?thesis
  proof (cases "find (free_on_disk img s) [max 2 (sec * 128)..<(sec + n) * 128]")
    case None
    then show ?thesis using scan by (simp add: scan_result_def)
  next
    case (Some k)
    then have "2 \<le> k" "k < 2 ^ 32" using find_upt_bounds [OF Some] n(2) t by (auto simp: table_ok_def)
    then have "unat (word_of_nat k :: u32) = k" by (simp add: unat_of_nat)
    then have "(word_of_nat k :: u32) \<noteq> 0" using \<open>2 \<le> k\<close> by auto
    then show ?thesis using Some scan by (simp add: scan_result_def)
  qed
qed

text \<open>The first loop on a table with an entry beyond the last cluster: it ends the whole search.\<close>

lemma scan_sectors_beyond:
  assumes v: "volume img s" and t: "table_ok s" and lt: "sec < unat (fat_size (data s))" "sec * 128 \<le> clusters s + 2"
    and long: "clusters s + 2 < unat (fat_size (data s)) * 128"
  shows "scan_sectors s 128 (total_clusters s + 2) (unat (fat_size (data s)) - sec) (word_of_nat sec) =
    Ret (case find (free_on_disk img s) [max 2 (sec * 128)..<clusters s + 2] of
      None \<Rightarrow> (Some 0, s) | Some k \<Rightarrow> scan_result s (Some k))"
proof -
  let ?F = "unat (fat_size (data s))" and ?N = "clusters s + 2"
  have "1 \<le> unat (num_fats (bpb (data s)))" using t by (simp add: table_ok_def word_less_nat_alt)
  then have "?F \<le> unat (num_fats (bpb (data s))) * ?F" by simp
  then have rs: "unat (reserved_sectors (bpb (data s))) + sec + (?F - sec) \<le> first_data s"
    using lt by (simp add: first_data_def)
  have len: "(sec + (?F - sec)) * 128 = ?F * 128" using lt by simp
  have eps: "?F * 128 < 2 ^ 32" using t by (simp add: table_ok_def)
  have ref: "scan_ref (free_on_disk img s) ?N [sec * 128..<?F * 128] =
      Some (case find (free_on_disk img s) [max 2 (sec * 128)..<?N] of Some k \<Rightarrow> k | None \<Rightarrow> 0)"
    using lt(2) long by (intro scan_ref_range) simp_all
  note scan = scan_sectors_ref [OF v rs, of "total_clusters s + 2", unfolded len limit_word [OF t] ref, OF eps]
  show ?thesis
  proof (cases "find (free_on_disk img s) [max 2 (sec * 128)..<?N]")
    case None
    then show ?thesis using scan by simp
  next
    case (Some k)
    then have "2 \<le> k" "k < 2 ^ 32" using find_upt_bounds [OF Some] t by (auto simp: table_ok_def)
    then have "unat (word_of_nat k :: u32) = k" by (simp add: unat_of_nat)
    then have "(word_of_nat k :: u32) \<noteq> 0" using \<open>2 \<le> k\<close> by auto
    then show ?thesis using Some scan by (simp add: scan_result_def)
  qed
qed

lemma find_append: "find P (xs @ ys) = (case find P xs of None \<Rightarrow> find P ys | Some k \<Rightarrow> Some k)"
  by (induction xs) auto

text \<open>C38. The search for a free cluster returns the first free cluster of the volume in its order of search and remembers it, and
  returns 0 when there is none: it goes from the table sector that holds the last cluster found to the end of the volume, and on to
  the sectors before only if the table has exactly as many entries as the volume has clusters.  On a table
  with an entry beyond the last cluster the first loop ends the search there, and clusters that are free in earlier
  sectors of the table are not found.\<close>

theorem fat_compute_free_cluster_finds:
  assumes v: "volume img s" and t: "table_ok s"
  shows "fat_compute_free_cluster s =
    Ret (case find (free_on_disk img s) (search_order s) of
           None \<Rightarrow> (0, s)
         | Some k \<Rightarrow> (word_of_nat k, s\<lparr>data := (data s)\<lparr>last_free := word_of_nat k\<rparr>\<rparr>))"
proof -
  let ?b = "bpb (data s)" and ?N = "clusters s + 2" and ?F = "unat (fat_size (data s))" and ?S = "start_sector s"
  have b: "bytes_per_sector ?b = 512" "sectors_per_cluster ?b \<noteq> 0" using v by (auto simp: volume_def spc_def)
  define sc where "sc = (if last_free (data s) < 2 \<or> last_free (data s) \<ge> total_clusters s + 2 then 2 else last_free (data s))"
  note ss = search_start(1,2) [OF t sc_def] and st = search_start(3) [OF t sc_def] and lt = search_start(4) [OF t sc_def]
  have u512: "(ucast (512 :: u16) :: u32) = 512" "(512 :: u32) div 4 = 128" by simp_all
  have run: "fat_compute_free_cluster s =
      bind_outcome (scan_sectors s 128 (total_clusters s + 2) (?F - ?S) (word_of_nat ?S)) (\<lambda>(r, s1). case r of
        Some c \<Rightarrow> Ret (c, s1)
      | None \<Rightarrow> bind_outcome (scan_sectors s1 128 (total_clusters s + 2) ?S 0) (\<lambda>(r, s2).
          Ret (case r of Some c \<Rightarrow> c | None \<Rightarrow> 0, s2)))"
    using b(2) unfolding fat_compute_free_cluster_def Let_def sc_def [symmetric] b(1) u512 ss by simp
  show ?thesis
  proof (cases "?N = ?F * 128")
    case True
    then have "(?S + (?F - ?S)) * 128 = ?N" "?S * 128 \<le> ?N" using lt by simp_all
    then have 1: "scan_sectors s 128 (total_clusters s + 2) (?F - ?S) (word_of_nat ?S) =
        Ret (scan_result s (find (free_on_disk img s) [max 2 (?S * 128)..<?N]))"
      and 2: "scan_sectors s 128 (total_clusters s + 2) ?S 0 = Ret (scan_result s (find (free_on_disk img s) [2..<?S * 128]))"
      using scan_sectors_below [OF v t, of ?S "?F - ?S"] scan_sectors_below [OF v t, of 0 ?S] lt by simp_all
    show ?thesis unfolding run search_order_def find_append 1 using True 2
      by (auto simp: scan_result_def split: option.splits)
  next
    case False
    then have long: "?N < ?F * 128" using t by (simp add: table_ok_def)
    show ?thesis unfolding run search_order_def scan_sectors_beyond [OF v t lt st long] using False
      by (auto simp: scan_result_def split: option.splits)
  qed
qed

lemma demo_free_on_disk: "k < 128 \<Longrightarrow> free_on_disk fd_img demo_volume k \<longleftrightarrow> demo_fat ! k AND 0x0FFFFFFF = 0"
proof -
  assume k: "k < 128"
  have "read_at (fd_img demo_disk) (512 + 4 * k) 4 = le_bytes 4 (unat (demo_fat ! k))"
  proof (rule nth_equalityI)
    fix i assume "i < length (read_at (fd_img demo_disk) (512 + 4 * k) 4)"
    then have i: "i < 4" using k by simp
    then have "(4 * k + i) div 4 = k" "(512 + 4 * k + i) mod 4 = i" by presburger+
    then show "read_at (fd_img demo_disk) (512 + 4 * k) 4 ! i = le_bytes 4 (unat (demo_fat ! k)) ! i"
      using k i by (simp add: demo_disk_def)
  qed (use k in simp)
  moreover have "unat (reserved_sectors (bpb (data demo_volume))) = 1"
    by (simp add: demo_volume_def demo_bpb_def)
  ultimately show ?thesis by (simp add: free_on_disk_def field_def word_le_bytes)
qed

lemma demo_table_ok: "table_ok demo_volume"
  unfolding table_ok_def demo_geometry by (simp add: demo_volume_def demo_bpb_def)

lemma demo_start: "start_sector demo_volume = 0"
  unfolding start_sector_def by (simp add: demo_volume_def)

theorem fat_compute_free_cluster_finds_witness:
  "fat_compute_free_cluster demo_volume =
     Ret (5, demo_volume\<lparr>data := (data demo_volume)\<lparr>last_free := 5\<rparr>\<rparr>)"
proof -
  have "search_order demo_volume = [2, 3, 4, 5, 6, 7]"
    by (simp add: search_order_def demo_start upt_rec)
  moreover have "find (free_on_disk fd_img demo_volume) [2, 3, 4, 5, 6, 7] = Some 5"
    by (simp add: demo_free_on_disk demo_fat_def)
  ultimately show ?thesis
    using fat_compute_free_cluster_finds [OF demo_volume_ok demo_table_ok] by simp
qed

section \<open>Changing a table entry\<close>

text \<open>Where copy \<open>k\<close> of the table on disk holds the entry of cluster \<open>c\<close>, and the 28 bits of it.\<close>

definition entry_at :: "'w fat_state \<Rightarrow> nat \<Rightarrow> nat \<Rightarrow> nat" where
  "entry_at s k c = (unat (reserved_sectors (bpb (data s))) + k * unat (fat_size (data s))) * 512 + 4 * c"

definition disk_entry :: "('w \<Rightarrow> byte list) \<Rightarrow> 'w fat_state \<Rightarrow> nat \<Rightarrow> nat \<Rightarrow> u32" where
  "disk_entry img s k c = word_of_nat (field (img (disk s)) (entry_at s k c) 4) AND 0x0FFFFFFF"

lemma store_sector:
  assumes "serves (blocks s) (backing (data s)) 512 img" and "(unat lba + 1) * 512 \<le> length (img (disk s))"
    and "length bs = 512"
  obtains res w' where "store s lba bs 1 = Ret (res, s\<lparr>disk := w'\<rparr>)"
    and "img w' = write_at (img (disk s)) (unat lba * 512) bs"
proof -
  have "(unat lba + unat (1 :: u64)) * 512 \<le> length (img (disk s)) \<and> unat (1 :: u64) * 512 \<le> length bs \<longrightarrow>
    (\<exists>res w'. 0 \<le> res \<and> write_sectors (blocks s) (backing (data s)) lba bs 1 (disk s) = Ret (res, w') \<and>
       img w' = write_at (img (disk s)) (unat lba * 512) (take (unat (1 :: u64) * 512) bs))"
    using assms(1) unfolding serves_def by blast
  then show thesis using assms(2,3) that by (auto simp: store_def)
qed

lemma volume_disk:
  "volume img s \<Longrightarrow> length (img w) = length (img (disk s)) \<Longrightarrow> volume img (s\<lparr>disk := w\<rparr>)"
  by (simp add: volume_def spc_def clusters_def total_clusters_def first_data_def)

text \<open>One turn of the loop over the copies: the sector is read, four bytes of it are replaced, and it
  is written back, which changes these four bytes of the disk.\<close>

lemma write_copy_step:
  assumes v: "volume img s" and k: "k < unat (num_fats (bpb (data s)))" and c: "c < unat (fat_size (data s)) * 128"
    and e: "e = 4 * (c mod 128)" and lba: "lba = word_of_nat (unat (reserved_sectors (bpb (data s))) + c div 128) + word_of_nat k * fat_size (data s)"
  obtains w' where "write_fat_copies s (word_of_nat (unat (reserved_sectors (bpb (data s))) + c div 128)) e content (Suc n) k =
      write_fat_copies (s\<lparr>disk := w'\<rparr>) (word_of_nat (unat (reserved_sectors (bpb (data s))) + c div 128)) e content n (k + 1)"
    and "img w' = write_at (img (disk s)) (entry_at s k c)
      (le_bytes 4 (unat (((word_of_nat (field (img (disk s)) (entry_at s k c) 4) :: u32) AND 0xF0000000) OR (content AND 0x0FFFFFFF))))"
    and "entry_at s k c + 4 \<le> length (img (disk s))"
proof -
  let ?r = "unat (reserved_sectors (bpb (data s)))" and ?F = "unat (fat_size (data s))"
  let ?img = "img (disk s)" and ?sec = "?r + c div 128 + k * ?F"
  have q: "c div 128 < ?F" using c by (simp add: div_less_iff_less_mult)
  have "(k + 1) * ?F \<le> unat (num_fats (bpb (data s))) * ?F" using k by (intro mult_le_mono1) simp
  then have sec: "?sec + 1 \<le> first_data s" using q by (simp add: first_data_def)
  have fd: "first_data s < 2 ^ 32" "first_data s * 512 \<le> length ?img" using v by (auto simp: volume_def)
  have l: "unat lba = ?sec"
  proof -
    have "lba = word_of_nat ?sec" by (simp add: lba)
    moreover have "?sec < 2 ^ 32" using sec fd(1) by linarith
    then have "unat (word_of_nat ?sec :: u32) = ?sec" by (simp only: unat_of_nat) simp
    ultimately show ?thesis by (simp only:)
  qed
  have fits: "(?sec + 1) * 512 \<le> length ?img"
    using mult_le_mono1 [OF sec, of 512] fd(2) by linarith
  have sv: "serves (blocks s) (backing (data s)) 512 img" using v by (simp add: volume_def)
  have e512: "e + 4 \<le> 512" using e mod_less_divisor [of 128 c] by linarith
  have pos: "?sec * 512 + e = entry_at s k c"
    using mult_div_mod_eq [of 128 c] unfolding entry_at_def e by (simp only: add_mult_distrib)
  obtain res where ld: "load s (ucast lba) 1 512 = Ret (res, read_at ?img (?sec * 512) 512, s)"
    using load_sector [OF sv, of "ucast lba"] fits l by auto
  let ?nv = "((word_of_nat (field ?img (entry_at s k c) 4) :: u32) AND 0xF0000000) OR (content AND 0x0FFFFFFF)"
  let ?bs = "write_at (read_at ?img (?sec * 512) 512) e (le_bytes 4 (unat ?nv))"
  have f: "field (read_at ?img (?sec * 512) 512) e 4 = field ?img (entry_at s k c) 4"
    using field_read_at [of e 4 512 "?sec * 512" ?img] e512 fits pos by simp
  have len: "length ?bs = 512" using fits e512 by simp
  obtain res' w' where st: "store s (ucast lba) ?bs 1 = Ret (res', s\<lparr>disk := w'\<rparr>)"
      "img w' = write_at ?img (?sec * 512) ?bs"
    using store_sector [OF sv _ len, of "ucast lba"] fits l by auto
  show thesis
  proof (rule that)
    show "write_fat_copies s (word_of_nat (?r + c div 128)) e content (Suc n) k =
      write_fat_copies (s\<lparr>disk := w'\<rparr>) (word_of_nat (?r + c div 128)) e content n (k + 1)"
      using ld st e512 f by (simp add: Let_def lba [symmetric] del: of_nat_add)
    show "img w' = write_at ?img (entry_at s k c) (le_bytes 4 (unat ?nv))"
      using st(2) write_at_sector [of "?sec * 512" 512 ?img e "le_bytes 4 (unat ?nv)"] fits e512 pos by simp
    show "entry_at s k c + 4 \<le> length ?img" using pos fits e512 by simp
  qed
qed

lemma field_cong:
  assumes "length xs = length ys" and "a + n \<le> length ys" and "\<And>j. a \<le> j \<Longrightarrow> j < a + n \<Longrightarrow> xs ! j = ys ! j"
  shows "field xs a n = field ys a n"
proof -
  have "read_at xs a n = read_at ys a n" using assms by (intro nth_equalityI) auto
  then show ?thesis by (simp add: field_def)
qed

lemma masked_entry: "((x AND 0xF0000000) OR (y AND 0x0FFFFFFF)) AND 0x0FFFFFFF = (y AND 0x0FFFFFFF :: u32)"
  by (simp add: bit.conj_disj_distrib2 and.assoc)

lemma entry_at_disk [simp]: "entry_at (s\<lparr>disk := w\<rparr>) k c = entry_at s k c"
  by (simp add: entry_at_def)

lemma entries_apart:
  assumes "c < unat (fat_size (data s)) * 128" and "d < unat (fat_size (data s)) * 128" and "k < k'"
  shows "entry_at s k c + 4 \<le> entry_at s k' d"
proof -
  have "(k + 1) * unat (fat_size (data s)) \<le> k' * unat (fat_size (data s))"
    using assms(3) by (intro mult_le_mono1) simp
  then show ?thesis using assms(1) by (simp add: entry_at_def add_mult_distrib)
qed

definition in_entry :: "'w fat_state \<Rightarrow> nat \<Rightarrow> nat \<Rightarrow> nat \<Rightarrow> bool" where
  "in_entry s k c j \<longleftrightarrow> entry_at s k c \<le> j \<and> j < entry_at s k c + 4"

lemma write_copies:
  assumes "volume img s" and c: "c < unat (fat_size (data s)) * 128"
    and "i + n \<le> unat (num_fats (bpb (data s)))"
  shows "\<exists>w'. write_fat_copies s (word_of_nat (unat (reserved_sectors (bpb (data s))) + c div 128)) (4 * (c mod 128)) content n i =
        Ret (s\<lparr>disk := w'\<rparr>) \<and> length (img w') = length (img (disk s)) \<and>
      (\<forall>j < length (img (disk s)). (\<forall>k. i \<le> k \<longrightarrow> k < i + n \<longrightarrow> \<not> in_entry s k c j) \<longrightarrow> img w' ! j = img (disk s) ! j) \<and>
      (\<forall>k. i \<le> k \<longrightarrow> k < i + n \<longrightarrow> disk_entry img (s\<lparr>disk := w'\<rparr>) k c = content AND 0x0FFFFFFF)"
  using assms
proof (induction n arbitrary: i s)
  case 0
  have "s\<lparr>disk := disk s\<rparr> = s" by simp
  then show ?case by (intro exI [of _ "disk s"]) simp
next
  case (Suc n)
  let ?fs = "word_of_nat (unat (reserved_sectors (bpb (data s))) + c div 128) :: u32" and ?e = "4 * (c mod 128)"
  have i: "i < unat (num_fats (bpb (data s)))" using Suc.prems(3) by simp
  obtain w1 where w1: "write_fat_copies s ?fs ?e content (Suc n) i = write_fat_copies (s\<lparr>disk := w1\<rparr>) ?fs ?e content n (i + 1)"
      "img w1 = write_at (img (disk s)) (entry_at s i c)
        (le_bytes 4 (unat (((word_of_nat (field (img (disk s)) (entry_at s i c) 4) :: u32) AND 0xF0000000) OR (content AND 0x0FFFFFFF))))"
      "entry_at s i c + 4 \<le> length (img (disk s))"
    using write_copy_step [OF Suc.prems(1) i Suc.prems(2) refl refl, of content n] by blast
  let ?s1 = "s\<lparr>disk := w1\<rparr>"
  have l1: "length (img w1) = length (img (disk s))" using w1(2,3) by simp
  have v1: "volume img ?s1" using volume_disk [OF Suc.prems(1) l1] .
  obtain w2 where w2: "write_fat_copies ?s1 ?fs ?e content n (i + 1) = Ret (s\<lparr>disk := w2\<rparr>)"
      "length (img w2) = length (img w1)"
      "\<And>j. j < length (img w1) \<Longrightarrow> (\<And>k. i + 1 \<le> k \<Longrightarrow> k < i + 1 + n \<Longrightarrow> \<not> in_entry s k c j) \<Longrightarrow> img w2 ! j = img w1 ! j"
      "\<And>k. i + 1 \<le> k \<Longrightarrow> k < i + 1 + n \<Longrightarrow> disk_entry img (s\<lparr>disk := w2\<rparr>) k c = content AND 0x0FFFFFFF"
    using Suc.IH [OF v1, of "i + 1"] Suc.prems(2,3) by (auto simp: in_entry_def)
  have "field (img w2) (entry_at s i c) 4 = field (img w1) (entry_at s i c) 4"
  proof (rule field_cong)
    fix j assume j: "entry_at s i c \<le> j" "j < entry_at s i c + 4"
    have "\<not> in_entry s k c j" if "i + 1 \<le> k" for k
      using entries_apart [OF Suc.prems(2,2), of i k] that j by (simp add: in_entry_def)
    then show "img w2 ! j = img w1 ! j" using w2(3) [of j] j w1(3) l1 by simp
  qed (use w1(3) l1 w2(2) in simp_all)
  also have "word_of_nat \<dots> = ((word_of_nat (field (img (disk s)) (entry_at s i c) 4) :: u32) AND 0xF0000000) OR (content AND 0x0FFFFFFF)"
    using w1(3) by (simp add: field_def w1(2) word_le_bytes read_at_write_at [where ys = "le_bytes 4 _", simplified])
  finally have here: "disk_entry img (s\<lparr>disk := w2\<rparr>) i c = content AND 0x0FFFFFFF"
    by (simp add: disk_entry_def masked_entry)
  show ?case
  proof (intro exI [of _ w2] conjI allI impI)
    fix j assume j: "j < length (img (disk s))" "\<forall>k. i \<le> k \<longrightarrow> k < i + Suc n \<longrightarrow> \<not> in_entry s k c j"
    then have "img w2 ! j = img w1 ! j" using w2(3) l1 by simp
    moreover have "\<not> in_entry s i c j" using j(2) by simp
    then have "img w1 ! j = img (disk s) ! j" using j(1) w1(2,3) by (auto simp: nth_write_at in_entry_def)
    ultimately show "img w2 ! j = img (disk s) ! j" by simp
  next
    fix k assume "i \<le> k" "k < i + Suc n"
    then show "disk_entry img (s\<lparr>disk := w2\<rparr>) k c = content AND 0x0FFFFFFF"
      using here w2(4) [of k] by (cases "k = i") auto
  qed (use w1 w2 l1 in simp_all)
qed

definition set_entry :: "'w fat_state \<Rightarrow> u32 \<Rightarrow> u32 \<Rightarrow> 'w \<Rightarrow> 'w fat_state" where
  "set_entry s c v w = s\<lparr>data := (data s)\<lparr>fat := (fat (data s))[unat c := v]\<rparr>, disk := w\<rparr>"

lemma set_entry_fields [simp]:
  "fat (data (set_entry s c v w)) = (fat (data s))[unat c := v]" "disk (set_entry s c v w) = w"
  "bpb (data (set_entry s c v w)) = bpb (data s)" "fat_size (data (set_entry s c v w)) = fat_size (data s)"
  "entry_at (set_entry s c v w) k d = entry_at s k d"
  by (simp_all add: set_entry_def entry_at_def)

lemma set_entry_geometry [simp]:
  "first_data (set_entry s c v w) = first_data s" "spc (set_entry s c v w) = spc s" "clusters (set_entry s c v w) = clusters s"
  "valid_cluster (set_entry s c v w) d = valid_cluster s d"
  by (simp_all add: first_data_def spc_def clusters_def total_clusters_def valid_cluster_def)

lemma set_entry_volume:
  "volume img s \<Longrightarrow> length (img w) = length (img (disk s)) \<Longrightarrow> volume img (set_entry s c v w)"
  by (simp add: volume_def) (simp add: set_entry_def)

text \<open>\<open>write_fat\<close> changes one entry everywhere: the table in memory gets the new value, and on a
  volume whose device behaves as a disk every copy of the table on disk gets its lower 28 bits at that
  entry, keeps all its other entries, and no byte of the disk outside these entries changes.\<close>

lemma write_fat_set:
  assumes v: "volume img s" and c: "unat c < length (fat (data s))" "unat c < unat (fat_size (data s)) * 128" "unat c < 2 ^ 30"
  shows "\<exists>w'. write_fat s c content = Ret (set_entry s c content w') \<and> length (img w') = length (img (disk s)) \<and>
      (\<forall>k d. k < unat (num_fats (bpb (data s))) \<longrightarrow> d < unat (fat_size (data s)) * 128 \<longrightarrow>
         disk_entry img (set_entry s c content w') k d = (if d = unat c then content AND 0x0FFFFFFF else disk_entry img s k d)) \<and>
      (\<forall>j < length (img (disk s)). (\<forall>k < unat (num_fats (bpb (data s))). \<not> in_entry s k (unat c) j) \<longrightarrow>
         img w' ! j = img (disk s) ! j)"
proof -
  let ?s1 = "set_entry s c content (disk s)" and ?r = "unat (reserved_sectors (bpb (data s)))"
  have s1: "?s1 = s\<lparr>data := (data s)\<lparr>fat := (fat (data s))[unat c := content]\<rparr>\<rparr>" by (simp add: set_entry_def)
  have b: "bytes_per_sector (bpb (data s)) = 512" using v by (simp add: volume_def)
  have c4: "unat (c * 4) = 4 * unat c" using c(3) by (simp add: unat_word_ariths)
  have "unat (c * 4 div 512) = unat c div 128" "unat (c * 4 mod 512) = 4 * (unat c mod 128)"
    using c4 mult_mod_right [of 4 "unat c" 128] by (simp_all add: unat_div unat_mod)
  moreover from this have "c * 4 div 512 = word_of_nat (unat c div 128)" by (metis of_nat_unat ucast_id)
  ultimately have w: "write_fat s c content =
      write_fat_copies ?s1 (word_of_nat (?r + unat c div 128)) (4 * (unat c mod 128)) content (unat (num_fats (bpb (data s)))) 0"
    using b c(1) by (simp add: write_fat_def Let_def s1)
  have "volume img ?s1" using set_entry_volume [OF v] by simp
  from write_copies [OF this, of "unat c" 0 "unat (num_fats (bpb (data s)))" content] c(2)
  obtain w' where w': "write_fat_copies ?s1 (word_of_nat (?r + unat c div 128)) (4 * (unat c mod 128)) content
        (unat (num_fats (bpb (data s)))) 0 = Ret (?s1\<lparr>disk := w'\<rparr>)" "length (img w') = length (img (disk s))"
      "\<forall>j < length (img (disk s)). (\<forall>k. k < unat (num_fats (bpb (data s))) \<longrightarrow> \<not> in_entry s k (unat c) j) \<longrightarrow> img w' ! j = img (disk s) ! j"
      "\<forall>k. k < unat (num_fats (bpb (data s))) \<longrightarrow> disk_entry img (?s1\<lparr>disk := w'\<rparr>) k (unat c) = content AND 0x0FFFFFFF"
    by (auto simp: in_entry_def)
  have s2: "?s1\<lparr>disk := w'\<rparr> = set_entry s c content w'" by (simp add: set_entry_def)
  have other: "disk_entry img (set_entry s c content w') k d = disk_entry img s k d"
    if k: "k < unat (num_fats (bpb (data s)))" and d: "d < unat (fat_size (data s)) * 128" "d \<noteq> unat c" for k d
  proof -
    have "entry_at s k d + 4 \<le> length (img (disk s))" using write_copy_step [OF v k d(1) refl refl] by blast
    moreover have "img w' ! j = img (disk s) ! j" if j: "entry_at s k d \<le> j" "j < entry_at s k d + 4" for j
    proof -
      have "\<not> in_entry s k' (unat c) j" for k'
        using entries_apart [OF c(2) d(1), of k' k] entries_apart [OF d(1) c(2), of k k'] j d(2)
        by (cases "k' = k"; cases "k' < k") (auto simp: in_entry_def entry_at_def)
      then show ?thesis using w'(3) j calculation by simp
    qed
    ultimately have "field (img w') (entry_at s k d) 4 = field (img (disk s)) (entry_at s k d) 4"
      using w'(2) by (intro field_cong) simp_all
    then show ?thesis by (simp add: disk_entry_def)
  qed
  show ?thesis using w w' s2 other by (intro exI [of _ w']) auto
qed

section \<open>Deleting a file\<close>

text \<open>A chain is determined by its first cluster, so no cluster occurs twice in it.\<close>

lemma is_chain_unique: "is_chain s (c # xs) \<Longrightarrow> is_chain s (c # ys) \<Longrightarrow> xs = ys"
proof (induction xs arbitrary: c ys)
  case Nil
  then show ?case by (cases ys) auto
next
  case (Cons d xs)
  then obtain zs where "ys = d # zs" by (cases ys) auto
  then show ?case using Cons.IH [of d zs] Cons.prems by simp
qed

lemma is_chain_distinct: "is_chain s cs \<Longrightarrow> distinct cs"
proof (induction cs)
  case (Cons c cs)
  have "c \<notin> set cs"
  proof
    assume "c \<in> set cs"
    then obtain i where i: "i < length cs" "cs ! i = c" by (auto simp: in_set_conv_nth)
    have "drop (Suc i) (c # cs) = c # drop (Suc i) cs" using Cons_nth_drop_Suc [OF i(1)] i(2) by simp
    then have "is_chain s (c # drop (Suc i) cs)" using chain_drop [OF Cons.prems, of "Suc i"] i(1) by simp
    then have "cs = drop (Suc i) cs" by (rule is_chain_unique [OF Cons.prems])
    then have "length cs = length cs - Suc i" by (metis length_drop)
    then show False using i(1) by simp
  qed
  then show ?case using Cons by (cases cs) auto
qed simp

lemma is_chain_all_valid: "is_chain s cs \<Longrightarrow> c \<in> set cs \<Longrightarrow> valid_cluster s c"
  by (induction s cs rule: is_chain.induct) auto

lemma is_chain_length: 
  assumes "is_chain s cs"
  shows "length cs \<le> clusters s + 2"
proof -
  have "inj_on unat (set cs)" by (rule inj_onI) (simp add: word_unat_eq_iff)
  then have "length cs = card (unat ` set cs)"
    using is_chain_distinct [OF assms] by (simp add: card_image distinct_card)
  also have "\<dots> \<le> card {..<clusters s + 2}"
    using is_chain_all_valid [OF assms] by (intro card_mono) (auto simp: valid_cluster_def)
  finally show ?thesis by simp
qed

lemma in_entry_before_data:
  assumes "in_entry s k c j" and "k < unat (num_fats (bpb (data s)))" and "c < unat (fat_size (data s)) * 128"
  shows "j < first_data s * 512"
proof -
  have "(k + 1) * unat (fat_size (data s)) \<le> unat (num_fats (bpb (data s))) * unat (fat_size (data s))"
    using assms(2) by (intro mult_le_mono1) simp
  then show ?thesis using assms(1,3) by (simp add: in_entry_def entry_at_def first_data_def add_mult_distrib)
qed

text \<open>What freeing the clusters \<open>cs\<close> does to the table in memory and on disk; the clusters themselves
  keep their contents.\<close>

definition freed :: "('w \<Rightarrow> byte list) \<Rightarrow> 'w fat_state \<Rightarrow> u32 set \<Rightarrow> 'w fat_state \<Rightarrow> bool" where
  "freed img s cs s' \<longleftrightarrow>
     (\<exists>f w. s' = s\<lparr>data := (data s)\<lparr>fat := f\<rparr>, disk := w\<rparr> \<and> length f = length (fat (data s)) \<and>
        (\<forall>d < length f. f ! d = (if d \<in> unat ` cs then 0 else fat (data s) ! d))) \<and>
     length (img (disk s')) = length (img (disk s)) \<and>
     (\<forall>k d. k < unat (num_fats (bpb (data s))) \<longrightarrow> d < unat (fat_size (data s)) * 128 \<longrightarrow>
        disk_entry img s' k d = (if d \<in> unat ` cs then 0 else disk_entry img s k d)) \<and>
     drop (first_data s * 512) (img (disk s')) = drop (first_data s * 512) (img (disk s))"

lemma freed_empty: "freed img s {} s"
  by (auto simp: freed_def intro!: exI [of _ "fat (data s)"] exI [of _ "disk s"])

lemma freed_trans:
  assumes "freed img s A s1" and "freed img s1 B s2"
  shows "freed img s (A \<union> B) s2"
proof -
  obtain f w where 1: "s1 = s\<lparr>data := (data s)\<lparr>fat := f\<rparr>, disk := w\<rparr>" "length f = length (fat (data s))"
      "\<forall>d < length f. f ! d = (if d \<in> unat ` A then 0 else fat (data s) ! d)"
    using assms(1) by (auto simp: freed_def)
  obtain g w2 where 2: "s2 = s1\<lparr>data := (data s1)\<lparr>fat := g\<rparr>, disk := w2\<rparr>" "length g = length f"
      "\<forall>d < length g. g ! d = (if d \<in> unat ` B then 0 else f ! d)"
    using assms(2) 1 by (auto simp: freed_def)
  have geo: "bpb (data s1) = bpb (data s)" "fat_size (data s1) = fat_size (data s)" "first_data s1 = first_data s"
    using 1(1) by (simp_all add: first_data_def)
  show ?thesis
    unfolding freed_def
  proof (intro conjI exI [of _ g] exI [of _ w2] allI impI)
    show "s2 = s\<lparr>data := (data s)\<lparr>fat := g\<rparr>, disk := w2\<rparr>" using 1(1) 2(1) by simp
    fix d assume "d < length g"
    then show "g ! d = (if d \<in> unat ` (A \<union> B) then 0 else fat (data s) ! d)"
      using 1(3) 2(2,3) by (auto simp: image_Un)
  next
    fix k d assume "k < unat (num_fats (bpb (data s)))" "d < unat (fat_size (data s)) * 128"
    then show "disk_entry img s2 k d = (if d \<in> unat ` (A \<union> B) then 0 else disk_entry img s k d)"
      using assms geo by (auto simp: freed_def image_Un)
  qed (use assms 1 2 geo in \<open>auto simp: freed_def\<close>)
qed

lemma valid_in_table:
  assumes "volume img s" and "table_ok s" and "valid_cluster s c"
  shows "unat c < length (fat (data s))" "unat c < unat (fat_size (data s)) * 128" "unat c < 2 ^ 30"
  using assms by (auto simp: volume_def table_ok_def valid_cluster_def)

lemma freed_one:
  assumes v: "volume img s" and t: "table_ok s" and c: "valid_cluster s c"
  shows "\<exists>s'. write_fat s c CLUSTER_FREE = Ret s' \<and> freed img s {c} s'"
proof -
  note b = valid_in_table [OF v t c]
  obtain w where w: "write_fat s c 0 = Ret (set_entry s c 0 w)" "length (img w) = length (img (disk s))"
      "\<forall>k d. k < unat (num_fats (bpb (data s))) \<longrightarrow> d < unat (fat_size (data s)) * 128 \<longrightarrow>
         disk_entry img (set_entry s c 0 w) k d = (if d = unat c then 0 else disk_entry img s k d)"
      "\<forall>j < length (img (disk s)). (\<forall>k < unat (num_fats (bpb (data s))). \<not> in_entry s k (unat c) j) \<longrightarrow>
         img w ! j = img (disk s) ! j"
    using write_fat_set [OF v b, of 0] by auto
  have "drop (first_data s * 512) (img w) = drop (first_data s * 512) (img (disk s))"

  proof (rule nth_equalityI)
    fix i assume i: "i < length (drop (first_data s * 512) (img w))"
    have "\<not> in_entry s k (unat c) (first_data s * 512 + i)" if "k < unat (num_fats (bpb (data s)))" for k
      using in_entry_before_data [OF _ that b(2), of "first_data s * 512 + i"] by auto
    then show "drop (first_data s * 512) (img w) ! i = drop (first_data s * 512) (img (disk s)) ! i"
      using w(2,4) i by simp
  qed (use w(2) in simp)
  moreover have "set_entry s c 0 w = s\<lparr>data := (data s)\<lparr>fat := (fat (data s))[unat c := 0]\<rparr>, disk := w\<rparr>"
    by (simp add: set_entry_def)
  ultimately have "freed img s {c} (set_entry s c 0 w)"
    using w(2,3) unfolding freed_def by (auto simp: nth_list_update intro!: exI [of _ "(fat (data s))[unat c := 0]"] exI [of _ w])
  then show ?thesis using w(1) by (simp add: CLUSTER_FREE_def)
qed

lemma freed_geometry:
  assumes "freed img s A s'"
  shows "bpb (data s') = bpb (data s)" "fat_size (data s') = fat_size (data s)" "first_data s' = first_data s"
    "spc s' = spc s" "clusters s' = clusters s" "length (fat (data s')) = length (fat (data s))"
    "volume img s \<Longrightarrow> volume img s'" "table_ok s \<Longrightarrow> table_ok s'" "valid_cluster s' c = valid_cluster s c"
proof -
  obtain f w where 1: "s' = s\<lparr>data := (data s)\<lparr>fat := f\<rparr>, disk := w\<rparr>" "length f = length (fat (data s))"
    "length (img w) = length (img (disk s))"
    using assms by (auto simp: freed_def)
  show a: "bpb (data s') = bpb (data s)" "fat_size (data s') = fat_size (data s)" "first_data s' = first_data s"
    "spc s' = spc s" "clusters s' = clusters s" "length (fat (data s')) = length (fat (data s))"
    using 1 by (simp_all add: first_data_def spc_def clusters_def total_clusters_def)
  show "volume img s \<Longrightarrow> volume img s'" using a 1 by (simp add: volume_def)
  show "table_ok s \<Longrightarrow> table_ok s'" using a by (simp add: table_ok_def)
  show "valid_cluster s' c = valid_cluster s c" using a by (simp add: valid_cluster_def)
qed

lemma freed_link:
  assumes "freed img s A s'" and "volume img s" and "valid_cluster s c" and "c \<notin> A"
  shows "link_of s' c = link_of s c"
proof -
  obtain f w where 1: "s' = s\<lparr>data := (data s)\<lparr>fat := f\<rparr>, disk := w\<rparr>" "length f = length (fat (data s))"
      "\<forall>d < length f. f ! d = (if d \<in> unat ` A then 0 else fat (data s) ! d)"
    using assms(1) by (auto simp: freed_def)
  have "unat c \<notin> unat ` A" using assms(4) by (auto simp: word_unat_eq_iff [symmetric])
  moreover have "unat c < length f" using assms(2,3) 1(2) by (auto simp: volume_def valid_cluster_def)
  ultimately show ?thesis using 1 by (simp add: link_of_def)
qed

lemma freed_chain:
  assumes "freed img s {c} s'" and "volume img s"
  shows "is_chain s cs \<Longrightarrow> c \<notin> set cs \<Longrightarrow> is_chain s' cs"
proof (induction cs)
  case (Cons d ds)
  have "link_of s' d = link_of s d" "valid_cluster s' d = valid_cluster s d"
    using freed_link [OF assms is_chain_valid [OF Cons.prems(1)]] freed_geometry(9) [OF assms(1)] Cons.prems(2) by auto
  then show ?case using Cons by (cases ds) auto
qed simp

lemma free_chain_frees:
  assumes "volume img s" and "table_ok s" and "is_chain s cs" and "length cs < n"
  shows "\<exists>s'. free_chain n s (hd cs) = Ret s' \<and> freed img s (set cs) s'"
  using assms
proof (induction cs arbitrary: n s)
  case (Cons c cs)
  obtain m where n: "n = Suc m" using Cons.prems(4) by (cases n) auto
  have c: "valid_cluster s c" using is_chain_valid [OF Cons.prems(3)] .
  have lt: "c < CLUSTER_CHAIN_END"
    using c Cons.prems(2) by (auto simp: valid_cluster_def table_ok_def word_less_nat_alt CLUSTER_CHAIN_END_def)
  have nx: "next_cluster s c = Ret (link_of s c)" using next_cluster_valid [OF Cons.prems(1) c] .
  obtain s1 where s1: "write_fat s c CLUSTER_FREE = Ret s1" "freed img s {c} s1"
    using freed_one [OF Cons.prems(1,2) c] by blast
  have step: "free_chain n s c = free_chain m s1 (link_of s c)" using lt nx s1(1) by (simp add: n not_le [symmetric])
  show ?case
  proof (cases "cs = []")
    case True
    then have "free_chain m s1 (link_of s c) = Ret s1" using Cons.prems(3,4) n by (cases m) auto
    then show ?thesis using step s1(2) True by simp
  next
    case False
    then have l: "link_of s c = hd cs" "is_chain s cs" using Cons.prems(3) by (cases cs; simp)+
    have "c \<notin> set cs" using is_chain_distinct [OF Cons.prems(3)] by simp
    then have "is_chain s1 cs" using freed_chain [OF s1(2) Cons.prems(1) l(2)] by simp
    then obtain s' where "free_chain m s1 (hd cs) = Ret s'" "freed img s1 (set cs) s'"
      using Cons.IH [of s1 m] freed_geometry(7,8) [OF s1(2)] Cons.prems n by auto
    then show ?thesis using step l(1) freed_trans [OF s1(2)] by auto
  qed
qed simp

text \<open>The step that marks the entry: one byte of the data area becomes the mark of deleted entries.\<close>

lemma mark_deleted_volume:
  assumes v: "volume img s" and "(unat sec + 1) * 512 \<le> length (img (disk s))" and o: "unat off < 512"
  obtains w where "mark_deleted s (sec, off) = Ret (s\<lparr>disk := w\<rparr>)"
    and "img w = (img (disk s))[unat sec * 512 + unat off := DIRENT_DELETED]"
proof -
  let ?b = "read_at (img (disk s)) (unat sec * 512) 512"
  have sv: "serves (blocks s) (backing (data s)) 512 img" using v by (simp add: volume_def)
  obtain res where ld: "load s (ucast sec) 1 512 = Ret (res, ?b, s)"
    using load_sector [OF sv, of "ucast sec"] assms(2) by auto
  have len: "length (?b[unat off := DIRENT_DELETED]) = 512" using assms(2) by simp
  obtain res w where st: "store s (ucast sec) (?b[unat off := DIRENT_DELETED]) 1 = Ret (res, s\<lparr>disk := w\<rparr>)"
      "img w = write_at (img (disk s)) (unat sec * 512) (?b[unat off := DIRENT_DELETED])"
    using store_sector [OF sv _ len, of "ucast sec"] assms(2) by auto
  have "img w = (img (disk s))[unat sec * 512 + unat off := DIRENT_DELETED]"
  proof (rule nth_equalityI)
    fix i assume i: "i < length (img w)"
    have "length (img w) = length (img (disk s))" using st(2) len assms(2) by simp
    then show "img w ! i = (img (disk s))[unat sec * 512 + unat off := DIRENT_DELETED] ! i"
      using i len assms(2) o unfolding st(2) by (auto simp: nth_write_at nth_list_update)
  qed (use st(2) len assms(2) in simp)
  then show thesis using that ld st(1) o by (simp add: mark_deleted_def)
qed

text \<open>C11. Deleting a file with a well-formed chain of clusters frees exactly these clusters: the call
  returns 0, the entries of the chain become zero in the table in memory and in every copy on disk, all
  other entries stay, and in the data area only the first byte of the directory entry changes, to the
  mark of deleted entries.\<close>

theorem fat_delete_frees:
  assumes v: "volume img s" and t: "table_ok s" and ro: "\<not> fat_read_only (data s)"
    and path: "normalize_fat_path 512 path = Ret npath"
    and ref: "fat_get_dirent_ref s npath = Ret (ref, s)" "ref_found ref" "ref_position ref = (sec, off)"
    and ch: "is_chain s cs" "hd cs = first_cluster (ref_dirent ref)"
    and sec: "first_data s \<le> unat sec" "(unat sec + 1) * 512 \<le> length (img (disk s))" "unat off < 512"
  shows "\<exists>s'. fat_delete s path = Ret (0, s') \<and> length (fat (data s')) = length (fat (data s)) \<and>
    (\<forall>d < length (fat (data s)). fat (data s') ! d = (if d \<in> unat ` set cs then 0 else fat (data s) ! d)) \<and>
    (\<forall>k d. k < unat (num_fats (bpb (data s))) \<longrightarrow> d < unat (fat_size (data s)) * 128 \<longrightarrow>
       disk_entry img s' k d = (if d \<in> unat ` set cs then 0 else disk_entry img s k d)) \<and>
    drop (first_data s * 512) (img (disk s')) =
      drop (first_data s * 512) ((img (disk s))[unat sec * 512 + unat off := DIRENT_DELETED])"
proof -
  obtain w where w: "mark_deleted s (sec, off) = Ret (s\<lparr>disk := w\<rparr>)"
      "img w = (img (disk s))[unat sec * 512 + unat off := DIRENT_DELETED]"
    using mark_deleted_volume [OF v sec(2,3)] by blast
  let ?s1 = "s\<lparr>disk := w\<rparr>"
  have v1: "volume img ?s1" using volume_disk [OF v] w(2) by simp
  have geo: "clusters ?s1 = clusters s" "first_data ?s1 = first_data s" "chain_fuel ?s1 = chain_fuel s"
    by (simp_all add: clusters_def total_clusters_def first_data_def chain_fuel_def)
  have t1: "table_ok ?s1" using t geo by (simp add: table_ok_def)
  have ch1: "is_chain ?s1 cs" using ch(1)
    by (induction s cs rule: is_chain.induct) (auto simp: link_of_def valid_cluster_def clusters_def total_clusters_def)
  have "length cs < chain_fuel s + 3"
    using is_chain_length [OF ch(1)] v by (simp add: chain_fuel_def volume_def)
  then obtain s' where s': "free_chain (chain_fuel s + 3) ?s1 (hd cs) = Ret s'" "freed img ?s1 (set cs) s'"
    using free_chain_frees [OF v1 t1 ch1] by blast
  have "fat_delete s path = Ret (0, s')"
    using ro path ref w(1) s'(1) geo ch(2) by (simp add: fat_delete_def)
  moreover have "disk_entry img ?s1 k d = disk_entry img s k d"
    if k: "k < unat (num_fats (bpb (data s)))" and d: "d < unat (fat_size (data s)) * 128" for k d
  proof -
    have e: "entry_at s k d + 4 \<le> length (img (disk s))" using write_copy_step [OF v k d refl refl] by blast
    have "unat sec * 512 + unat off \<noteq> j" if "entry_at s k d \<le> j" "j < entry_at s k d + 4" for j
      using in_entry_before_data [OF _ k d, of j] that sec(1) by (auto simp: in_entry_def)
    then have "field (img w) (entry_at s k d) 4 = field (img (disk s)) (entry_at s k d) 4"
      using e unfolding w(2) by (intro field_cong) auto
    then show ?thesis by (simp add: disk_entry_def)
  qed
  ultimately show ?thesis using s'(2) w(2) geo unfolding freed_def by (intro exI [of _ s']) auto
qed

lemma length_demo_entry: "length (fde_name demo_entry) = 11"
  by (simp add: demo_entry_def)

lemma demo_root_cluster:
  "read_at (cluster_bytes fd_img demo_volume 2) 0 32 = bytes_of_dirent demo_entry" "length (cluster_bytes fd_img demo_volume 2) = 512"
proof -
  show l: "length (cluster_bytes fd_img demo_volume 2) = 512"
    using length_cluster_bytes [OF demo_volume_ok, of 2] by (simp add: valid_cluster_def)
  show "read_at (cluster_bytes fd_img demo_volume 2) 0 32 = bytes_of_dirent demo_entry"
    using l by (intro nth_equalityI)
      (simp_all add: length_bytes_of_dirent [OF length_demo_entry] cluster_bytes_def cluster_sector_def demo_disk_def)
qed

lemma demo_normalize: "normalize_fat_path 512 ''/a.txt'' = Ret ''A.TXT''" "normalize_fat_path 512 ''A.TXT'' = Ret ''A.TXT''"
  by code_simp+

lemma replicate_7: "replicate 7 x = [x, x, x, x, x, x, x]"
  by (simp add: numeral_eq_Suc)

lemma demo_component: "component_8d3 ''A.TXT'' = Ret (fde_name demo_entry)"
  by (simp add: component_8d3_def readable_to_8d3_def dot_def space_def pad_def write_at_def demo_entry_def replicate_7)

lemma demo_scan: "scan_dir (cluster_bytes fd_img demo_volume 2) (fde_name demo_entry) 0 = Hit 0"
proof -
  have "hd (fde_name demo_entry) = 65" "attributes demo_entry = 0"
    by (simp_all add: demo_entry_def zero_fat_dirent_def dirent_of_def field_def read_at_def)
  then show ?thesis
    using demo_root_cluster dirent_of_bytes_of_dirent [OF length_demo_entry]
    by (subst scan_dir.simps) (simp add: skipped_def flag_simps)
qed

lemma demo_search: "search_chain (Suc n) demo_volume (fde_name demo_entry) 2 (cluster_bytes fd_img demo_volume 2) =
  Ret (Some (2, 0, demo_entry), demo_volume)"
  using demo_scan demo_root_cluster dirent_of_bytes_of_dirent [OF length_demo_entry] by simp

lemma demo_first: "first_cluster demo_entry = 3"
  by (simp add: first_cluster_def demo_entry_def zero_fat_dirent_def dirent_of_def field_def read_at_def)

lemma demo_position: "dirent_position demo_volume 2 0 = (2, 0)"
proof -
  have "unat (get_first_cluster_sector demo_volume 2) = 2"
    using cluster_sector_word [OF demo_volume_ok, of 2] by (simp add: valid_cluster_def cluster_sector_def)
  then have "get_first_cluster_sector demo_volume 2 = 2" by (simp add: word_unat_eq_iff)
  then show ?thesis by (simp add: dirent_position_def)
qed

lemma demo_ref:
  "fat_get_dirent_ref demo_volume ''A.TXT'' =
     Ret (\<lparr>ref_dirent = demo_entry, ref_found = True, ref_cluster = 3, ref_position = (2, 0)\<rparr>, demo_volume)"
proof -
  have root: "ref_cluster (root_ref demo_volume) = 2" "is_directory (ref_dirent (root_ref demo_volume))"
    by (simp_all add: root_ref_def demo_volume_def demo_bpb_def is_directory_def flag_simps)
  have pc: "path_component ''A.TXT'' = (''A.TXT'', [])" by (simp add: path_component_def)
  have ld: "load_cluster demo_volume 2 = Ret (cluster_bytes fd_img demo_volume 2, demo_volume)"
    using load_cluster_volume [OF demo_volume_ok, of 2] by (simp add: valid_cluster_def)
  have s: "search_chain (chain_fuel demo_volume) demo_volume (fde_name demo_entry) 2 (cluster_bytes fd_img demo_volume 2) =
      Ret (Some (2, 0, demo_entry), demo_volume)"
    using demo_search [of "length (fat (data demo_volume))"] by (simp add: chain_fuel_def)
  show ?thesis
    unfolding fat_get_dirent_ref_def demo_normalize bind_outcome.simps
    by (subst dirent_ref_loop.simps)
      (simp add: root ld pc demo_component s demo_position demo_first dirent_ref_loop.simps [of _ "[]"])
qed

theorem fat_delete_frees_witness:
  "\<exists>s'. fat_delete demo_volume ''/a.txt'' = Ret (0, s') \<and> fat (data s') ! 2 = 0x0FFFFFF8 \<and>
     fat (data s') ! 3 = 0 \<and> fat (data s') ! 4 = 0"
proof -
  have "\<not> fat_read_only (data demo_volume)" by (simp add: demo_volume_def)
  moreover have "length (fat (data demo_volume)) = 128" "fat (data demo_volume) ! 2 = 0x0FFFFFF8"
    by (simp_all add: demo_volume_def demo_fat_def)
  ultimately show ?thesis
    using fat_delete_frees [OF demo_volume_ok demo_table_ok _ demo_normalize(1) demo_ref _ _ demo_chain, of 2 0]
    by (auto simp: demo_first)
qed

section \<open>Deleting empty files\<close>

lemma load_data: "load s lba cnt n = Ret (res, b, s') \<Longrightarrow> data s' = data s"
  by (auto simp: load_def bind_outcome_eq_Ret split: if_splits)

lemma store_data: "store s lba bs cnt = Ret (res, s') \<Longrightarrow> data s' = data s"
  by (auto simp: store_def bind_outcome_eq_Ret)

lemma write_fat_copies_data: "write_fat_copies s a e v n i = Ret s' \<Longrightarrow> data s' = data s"
proof (induction n arbitrary: s i)
  case (Suc n)
  then show ?case
    by (fastforce simp: bind_outcome_eq_Ret Let_def dest: load_data store_data split: if_splits)
qed simp

lemma write_fat_data:
  "write_fat s c v = Ret s' \<Longrightarrow> data s' = (data s)\<lparr>fat := (fat (data s))[unat c := v]\<rparr>"
  by (auto simp: write_fat_def Let_def dest: write_fat_copies_data split: if_splits)

lemma free_chain_keeps_free:
  "free_chain n s c = Ret s' \<Longrightarrow> k < length (fat (data s)) \<Longrightarrow> fat (data s) ! k = 0 \<Longrightarrow> fat (data s') ! k = 0"
proof (induction n arbitrary: s c)
  case (Suc n)
  show ?case
  proof (cases "c \<ge> CLUSTER_CHAIN_END")
    case False
    then obtain d s1 where s1: "write_fat s c CLUSTER_FREE = Ret s1" "free_chain n s1 d = Ret s'"
      using Suc.prems(1) by (auto simp: bind_outcome_eq_Ret)
    have "k < length (fat (data s1))" "fat (data s1) ! k = 0"
      using write_fat_data [OF s1(1)] Suc.prems(2,3) by (cases "unat c = k"; simp add: CLUSTER_FREE_def)+
    then show ?thesis using Suc.IH [OF s1(2)] by simp
  qed (use Suc.prems in simp)
qed simp

text \<open>A turn at cluster 0 of a table whose entry 0 is zero leads back to cluster 0.\<close>

lemma free_chain_zero_loops:
  assumes "volume img s" "table_ok s" "fat (data s) ! 0 = 0"
  shows "free_chain n s 0 = Blocks"
  using assms
proof (induction n arbitrary: s)
  case (Suc n)
  have z: "\<not> CLUSTER_CHAIN_END \<le> (0 :: u32)" by (simp add: CLUSTER_CHAIN_END_def)
  have b: "unat (0 :: u32) < length (fat (data s))" "unat (0 :: u32) < unat (fat_size (data s)) * 128" "unat (0 :: u32) < 2 ^ 30"
    using Suc.prems(1,2) by (auto simp: volume_def table_ok_def)
  obtain w where w: "write_fat s 0 CLUSTER_FREE = Ret (set_entry s 0 CLUSTER_FREE w)" "length (img w) = length (img (disk s))"
    using write_fat_set [OF Suc.prems(1) b, of CLUSTER_FREE] by blast
  let ?s = "set_entry s 0 CLUSTER_FREE w"
  have "next_cluster s 0 = Ret 0" using b(1) Suc.prems(3) by (simp add: next_cluster_def read_fat_def)
  moreover have "free_chain n ?s 0 = Blocks"
  proof (rule Suc.IH)
    show "volume img ?s" by (rule set_entry_volume [OF Suc.prems(1) w(2)])
    show "table_ok ?s" using Suc.prems(2) by (simp add: table_ok_def)
    show "fat (data ?s) ! 0 = 0" using b(1) by (simp add: set_entry_def CLUSTER_FREE_def)
  qed
  ultimately show ?case using z w(1) by simp
qed simp

lemma free_chain_zero_clears:
  assumes "free_chain m s 0 = Ret s1"
  shows "fat (data s1) ! 0 = 0"
proof -
  have z: "(0 :: u32) < CLUSTER_CHAIN_END" by (simp add: CLUSTER_CHAIN_END_def)
  obtain k where "m = Suc k" using assms by (cases m) auto
  then obtain d s' where s': "next_cluster s 0 = Ret d" "write_fat s 0 CLUSTER_FREE = Ret s'" "free_chain k s' d = Ret s1"
    using assms z by (auto simp: bind_outcome_eq_Ret not_le [symmetric])
  have "0 < length (fat (data s))" using s'(1) by (auto simp: next_cluster_def read_fat_def bind_outcome_eq_Ret split: if_splits)
  then have "0 < length (fat (data s'))" "fat (data s') ! 0 = 0"
    using write_fat_data [OF s'(2)] by (simp_all add: CLUSTER_FREE_def)
  then show ?thesis using free_chain_keeps_free [OF s'(3)] by simp
qed

text \<open>What an empty file is for \<open>fat_delete\<close>: the path leads to an entry on the volume without a first cluster.\<close>

definition empty_file :: "('w \<Rightarrow> byte list) \<Rightarrow> 'w fat_state \<Rightarrow> string \<Rightarrow> bool" where
  "empty_file img s path \<longleftrightarrow> (\<exists>npath ref sec off. normalize_fat_path 512 path = Ret npath \<and>
     fat_get_dirent_ref s npath = Ret (ref, s) \<and> ref_found ref \<and> ref_position ref = (sec, off) \<and>
     first_cluster (ref_dirent ref) = 0 \<and> (unat sec + 1) * 512 \<le> length (img (disk s)) \<and> unat off < 512)"

lemma fat_delete_empty:
  assumes "volume img s" "\<not> fat_read_only (data s)" "empty_file img s path"
  obtains w where "fat_delete s path = bind_outcome (free_chain (chain_fuel s + 3) (s\<lparr>disk := w\<rparr>) 0) (\<lambda>s3. Ret (0, s3))"
    and "length (img w) = length (img (disk s))"
proof -
  obtain npath ref sec off where e: "normalize_fat_path 512 path = Ret npath" "fat_get_dirent_ref s npath = Ret (ref, s)"
      "ref_found ref" "ref_position ref = (sec, off)" "first_cluster (ref_dirent ref) = 0"
      "(unat sec + 1) * 512 \<le> length (img (disk s))" "unat off < 512"
    using assms(3) by (auto simp: empty_file_def)
  obtain w where w: "mark_deleted s (sec, off) = Ret (s\<lparr>disk := w\<rparr>)"
      "img w = (img (disk s))[unat sec * 512 + unat off := DIRENT_DELETED]"
    using mark_deleted_volume [OF assms(1) e(6,7)] by blast
  have "fat_delete s path = bind_outcome (free_chain (chain_fuel s + 3) (s\<lparr>disk := w\<rparr>) 0) (\<lambda>s3. Ret (0, s3))"
    using assms(2) e w(1) by (simp add: fat_delete_def chain_fuel_def)
  then show thesis using that w(2) by simp
qed

text \<open>C39. The second deletion of an empty file does not return: \<open>fat_delete\<close> of a file without clusters visits cluster 0 and
  clears entry 0 of the table.  In any later state of the volume in which that entry is still as it was left, \<open>fat_delete\<close> of an
  empty file goes from cluster 0 to cluster 0, however many turns the loop is given.\<close>

theorem second_empty_delete_loops:
  assumes "volume img s" "\<not> fat_read_only (data s)" "empty_file img s path" "fat_delete s path = Ret (r, s1)"
    and "volume img s2" "table_ok s2" "\<not> fat_read_only (data s2)" "empty_file img s2 path2"
    and "fat (data s2) ! 0 = fat (data s1) ! 0"
  shows "r = 0 \<and> fat (data s1) ! 0 = 0 \<and> fat_delete s2 path2 = Blocks \<and> (\<forall>n. free_chain n s2 0 = Blocks)"
proof -
  obtain w where "bind_outcome (free_chain (chain_fuel s + 3) (s\<lparr>disk := w\<rparr>) 0) (\<lambda>s3. Ret (0, s3)) = Ret (r, s1)"
    using fat_delete_empty [OF assms(1-3)] assms(4) by metis
  then have one: "r = 0" "fat (data s1) ! 0 = 0"
    using free_chain_zero_clears by (auto simp: bind_outcome_eq_Ret)
  obtain w2 where w2: "fat_delete s2 path2 = bind_outcome (free_chain (chain_fuel s2 + 3) (s2\<lparr>disk := w2\<rparr>) 0) (\<lambda>s3. Ret (0, s3))"
      "length (img w2) = length (img (disk s2))"
    using fat_delete_empty [OF assms(5,7,8)] by blast
  have "table_ok (s2\<lparr>disk := w2\<rparr>)" using assms(6) by (simp add: table_ok_def clusters_def total_clusters_def)
  then have "free_chain n (s2\<lparr>disk := w2\<rparr>) 0 = Blocks" for n
    using free_chain_zero_loops [OF volume_disk [OF assms(5) w2(2)]] assms(9) one(2) by simp
  moreover have "free_chain n s2 0 = Blocks" for n
    using free_chain_zero_loops [OF assms(5,6)] assms(9) one(2) by simp
  ultimately show ?thesis using one w2(1) by simp
qed

text \<open>The small volume with an empty file in place of \<open>A.TXT\<close>, and any table in memory.\<close>

definition hollow_entry :: fat_dirent where
  "hollow_entry = zero_fat_dirent\<lparr>fde_name := map of_char ''A       TXT''\<rparr>"

definition hollow_volume :: "u32 list \<Rightarrow> ram fat_state" where
  "hollow_volume f = demo_volume\<lparr>disk := (\<lambda>i. if 1024 \<le> i \<and> i < 1056 then bytes_of_dirent hollow_entry ! (i - 1024) else demo_disk i),
     data := (data demo_volume)\<lparr>fat := f\<rparr>\<rparr>"

lemma hollow_geometry:
  "first_data (hollow_volume f) = 2" "spc (hollow_volume f) = 1" "clusters (hollow_volume f) = 6" "fat (data (hollow_volume f)) = f"
  "blocks (hollow_volume f) = fd_blk" "bpb (data (hollow_volume f)) = demo_bpb" "\<not> fat_read_only (data (hollow_volume f))"
  using demo_geometry(1,2,4)
  by (simp_all add: hollow_volume_def first_data_def spc_def clusters_def total_clusters_def) (simp_all add: demo_volume_def)

lemma hollow_disk: "disk (hollow_volume f) = (\<lambda>i. if 1024 \<le> i \<and> i < 1056 then bytes_of_dirent hollow_entry ! (i - 1024) else demo_disk i)"
  by (simp add: hollow_volume_def)

lemma hollow_volume_ok: "length f = 128 \<Longrightarrow> volume fd_img (hollow_volume f)" "length f = 128 \<Longrightarrow> table_ok (hollow_volume f)"
  using demo_volume_ok demo_table_ok unfolding volume_def table_ok_def hollow_geometry
  by (simp_all add: demo_volume_def hollow_volume_def)

lemma hollow_entry_fields: "length (fde_name hollow_entry) = 11" "fde_name hollow_entry = fde_name demo_entry" "hd (fde_name hollow_entry) = 65"
  "attributes hollow_entry = 0" "first_cluster hollow_entry = 0"
  by (simp_all add: hollow_entry_def demo_entry_def first_cluster_def zero_fat_dirent_def dirent_of_def field_def read_at_def)

lemma hollow_root_cluster:
  assumes "length f = 128"
  shows "read_at (cluster_bytes fd_img (hollow_volume f) 2) 0 32 = bytes_of_dirent hollow_entry"
    "length (cluster_bytes fd_img (hollow_volume f) 2) = 512"
proof -
  show l: "length (cluster_bytes fd_img (hollow_volume f) 2) = 512"
    using length_cluster_bytes [OF hollow_volume_ok(1) [OF assms], of 2] by (simp add: valid_cluster_def hollow_geometry)
  show "read_at (cluster_bytes fd_img (hollow_volume f) 2) 0 32 = bytes_of_dirent hollow_entry"
    using l by (intro nth_equalityI)
      (simp_all add: length_bytes_of_dirent [OF hollow_entry_fields(1)] cluster_bytes_def cluster_sector_def hollow_geometry hollow_disk)
qed

lemma hollow_empty:
  assumes "length f = 128"
  shows "empty_file fd_img (hollow_volume f) ''/a.txt''"
proof -
  let ?s = "hollow_volume f" and ?c = "cluster_bytes fd_img (hollow_volume f) 2"
  note v = hollow_volume_ok(1) [OF assms] and rc = hollow_root_cluster [OF assms]
  have valid: "valid_cluster ?s 2" by (simp add: valid_cluster_def hollow_geometry)
  have root: "ref_cluster (root_ref ?s) = 2" "is_directory (ref_dirent (root_ref ?s))"
    by (simp_all add: root_ref_def hollow_geometry demo_bpb_def is_directory_def flag_simps)
  have "scan_dir ?c (fde_name demo_entry) 0 = Hit 0"
    using rc dirent_of_bytes_of_dirent [OF hollow_entry_fields(1)] hollow_entry_fields
    by (subst scan_dir.simps) (simp add: skipped_def flag_simps)
  then have s: "search_chain (chain_fuel ?s) ?s (fde_name demo_entry) 2 ?c = Ret (Some (2, 0, hollow_entry), ?s)"
    using rc dirent_of_bytes_of_dirent [OF hollow_entry_fields(1)] by (simp add: chain_fuel_def)
  have "unat (get_first_cluster_sector ?s 2) = 2"
    using cluster_sector_word [OF v valid] by (simp add: cluster_sector_def hollow_geometry)
  then have "get_first_cluster_sector ?s 2 = 2" by (simp add: word_unat_eq_iff)
  then have pos: "dirent_position ?s 2 0 = (2, 0)" by (simp add: dirent_position_def hollow_geometry)
  have "fat_get_dirent_ref ?s ''A.TXT'' =
      Ret (\<lparr>ref_dirent = hollow_entry, ref_found = True, ref_cluster = 0, ref_position = (2, 0)\<rparr>, ?s)"
    unfolding fat_get_dirent_ref_def demo_normalize bind_outcome.simps
    by (subst dirent_ref_loop.simps)
      (simp add: root load_cluster_volume [OF v valid] path_component_def demo_component s pos hollow_entry_fields
        dirent_ref_loop.simps [of _ "[]"])
  then show ?thesis unfolding empty_file_def demo_normalize(1) by (simp add: hollow_entry_fields)
qed

text \<open>Deleting the empty file clears entry 0, and with the table it leaves behind the deletion of an empty file does not end.\<close>

theorem second_empty_delete_loops_witness:
  "\<exists>s1. fat_delete (hollow_volume demo_fat) ''/a.txt'' = Ret (0, s1) \<and> fat (data s1) ! 0 = 0 \<and>
     fat_delete (hollow_volume (fat (data s1))) ''/a.txt'' = Blocks"
proof -
  let ?s = "hollow_volume demo_fat"
  have l: "length demo_fat = 128" by (simp add: demo_fat_def)
  note v = hollow_volume_ok(1) [OF l]
  obtain w where w: "fat_delete ?s ''/a.txt'' = bind_outcome (free_chain (chain_fuel ?s + 3) (?s\<lparr>disk := w\<rparr>) 0) (\<lambda>s3. Ret (0, s3))"
      "length (fd_img w) = length (fd_img (disk ?s))"
    using fat_delete_empty [OF v hollow_geometry(7) hollow_empty [OF l]] by blast
  let ?t = "?s\<lparr>disk := w\<rparr>"
  have b: "unat (0 :: u32) < length (fat (data ?t))" "unat (0 :: u32) < unat (fat_size (data ?t)) * 128" "unat (0 :: u32) < 2 ^ 30"
    by (simp_all add: hollow_volume_def demo_fat_def) (simp add: demo_volume_def)
  obtain w1 where w1: "write_fat ?t 0 CLUSTER_FREE = Ret (set_entry ?t 0 CLUSTER_FREE w1)"
    using write_fat_set [OF volume_disk [OF v, OF w(2)] b, of CLUSTER_FREE] by blast
  have "next_cluster ?t 0 = Ret 0x0FFFFFF8"
    by (simp add: next_cluster_def read_fat_def hollow_geometry demo_fat_def)
  then have "free_chain (Suc (Suc (chain_fuel ?s + 1))) ?t 0 = Ret (set_entry ?t 0 CLUSTER_FREE w1)"
    using w1 by simp (simp add: CLUSTER_CHAIN_END_def)
  moreover have "Suc (Suc (chain_fuel ?s + 1)) = chain_fuel ?s + 3" by simp
  ultimately have "free_chain (chain_fuel ?s + 3) ?t 0 = Ret (set_entry ?t 0 CLUSTER_FREE w1)" by (simp only:)
  then have del: "fat_delete ?s ''/a.txt'' = Ret (0, set_entry ?t 0 CLUSTER_FREE w1)"
    by (simp only: w(1) bind_outcome.simps)
  let ?f = "fat (data (set_entry ?t 0 CLUSTER_FREE w1))"
  have "length ?f = 128" by (simp add: set_entry_def hollow_geometry l)
  from second_empty_delete_loops [OF v hollow_geometry(7) hollow_empty [OF l] del hollow_volume_ok [OF this] hollow_geometry(7) hollow_empty [OF this]]
  show ?thesis using del by (auto simp: hollow_geometry)
qed

end
