(* ===== verification/Fatdirs.thy ===== *)
theory Fatdirs
  imports Fatalloc
begin

text \<open>
  Directories, names and time stamps of the FAT file system: lookup against a search in the list of
  all entries of a directory, the round trip of 8.3 names and of time stamps.
\<close>

section \<open>Lookup\<close>

definition entries :: "byte list \<Rightarrow> fat_dirent list" where
  "entries b = map (\<lambda>i. dirent_of (read_at b (32 * i) 32)) [0..<length b div 32]"

text \<open>The reference: the index of the first entry of a list, before the end marker, that is neither
  deleted nor a volume label and has the given name.\<close>

fun find_name :: "fat_dirent list \<Rightarrow> byte list \<Rightarrow> nat \<Rightarrow> nat option" where
  "find_name [] name i = None"
| "find_name (e # es) name i =
     (if hd (fde_name e) = DIRENT_END then None
      else if \<not> skipped e \<and> fde_name e = name then Some i
      else find_name es name (i + 1))"

fun scan_list :: "fat_dirent list \<Rightarrow> byte list \<Rightarrow> nat \<Rightarrow> dir_scan" where
  "scan_list [] name i = Exhausted"
| "scan_list (e # es) name i =
     (if hd (fde_name e) = DIRENT_END then Ended
      else if skipped e then scan_list es name (i + 1)
      else if fde_name e = name then Hit (32 * i)
      else scan_list es name (i + 1))"

lemma scan_dir_list:
  assumes "length buf = 32 * m"
  shows "i \<le> m \<Longrightarrow> scan_dir buf name (32 * i) = scan_list (drop i (entries buf)) name i"
proof (induction "m - i" arbitrary: i)
  case 0
  then show ?case using assms by (subst scan_dir.simps) (simp add: entries_def)
next
  case (Suc k)
  then have i: "i < m" by simp
  have "drop i (entries buf) = entries buf ! i # drop (Suc i) (entries buf)"
    using i assms by (intro Cons_nth_drop_Suc [symmetric]) (simp add: entries_def)
  moreover have "entries buf ! i = dirent_of (read_at buf (32 * i) 32)"
    using i assms by (simp add: entries_def)
  moreover have "scan_dir buf name (32 * i + 32) = scan_list (drop (Suc i) (entries buf)) name (Suc i)"
    using Suc.hyps(1) [of "Suc i"] Suc.hyps(2) by (simp add: add.commute)
  ultimately show ?case using i assms by (subst scan_dir.simps) (simp add: Let_def)
qed

lemma find_name_append:
  "find_name (es @ fs) name i = (case scan_list es name i of
     Exhausted \<Rightarrow> find_name fs name (i + length es) | Hit off \<Rightarrow> Some (off div 32) | _ \<Rightarrow> None)"
  by (induction es arbitrary: i) (auto split: dir_scan.splits)

lemma scan_list_Hit: "scan_list es name i = Hit off \<Longrightarrow> \<exists>k < length es. off = 32 * (i + k)"
  by (induction es arbitrary: i) (fastforce split: if_splits)+

lemma scan_list_no_overrun: "scan_list es name i \<noteq> Overrun"
  by (induction es arbitrary: i) auto

lemma find_name_shift: "find_name es name (i + m) = map_option (\<lambda>k. k + m) (find_name es name i)"
proof (induction es arbitrary: i)
  case (Cons e es)
  show ?case using Cons.IH [of "i + 1"] by simp
qed simp

lemma entries_append:
  assumes "length a = 32 * m"
  shows "entries (a @ b) = entries a @ entries b"
proof (rule nth_equalityI)
  have l: "length (a @ b) div 32 = m + length b div 32" using assms by simp
  then show "length (entries (a @ b)) = length (entries a @ entries b)" using assms by (simp add: entries_def)
  fix i assume "i < length (entries (a @ b))"
  then have i: "i < m + length b div 32" using l by (simp add: entries_def)
  show "entries (a @ b) ! i = (entries a @ entries b) ! i"
  proof (cases "i < m")
    case True
    then have "read_at (a @ b) (32 * i) 32 = read_at a (32 * i) 32" using assms by (simp add: read_at_def)
    then show ?thesis using True i assms by (simp add: entries_def nth_append)
  next
    case False
    then have "read_at (a @ b) (32 * i) 32 = read_at b (32 * (i - m)) 32"
      using assms by (simp add: read_at_def right_diff_distrib')
    then show ?thesis using False i assms by (simp add: entries_def nth_append)
  qed
qed

lemma entries_nth:
  "32 * i + 32 \<le> length b \<Longrightarrow> dirent_of (read_at b (32 * i) 32) = entries b ! i"
  by (simp add: entries_def)

lemma search_chain_finds:
  assumes v: "volume img s"
  shows "is_chain s xs \<Longrightarrow> length xs \<le> n \<Longrightarrow>
    search_chain n s name (hd xs) (cluster_bytes img s (hd xs)) =
      Ret (map_option (\<lambda>i. (xs ! (i div (16 * spc s)), 32 * (i mod (16 * spc s)), entries (chain_bytes img s xs) ! i))
             (find_name (entries (chain_bytes img s xs)) name 0), s)"
proof (induction xs arbitrary: n)
  case (Cons c cs)
  let ?b = "cluster_bytes img s c" and ?m = "16 * spc s" and ?E = "entries (chain_bytes img s cs)"
  obtain k where n: "n = Suc k" using Cons.prems(2) by (cases n) auto
  have c: "valid_cluster s c" using is_chain_valid [OF Cons.prems(1)] .
  have lb: "length ?b = 32 * ?m" using length_cluster_bytes [OF v c] by simp
  have le: "length (entries ?b) = ?m" using lb by (simp add: entries_def)
  have pos: "0 < ?m" using v by (simp add: volume_def)
  have all: "entries (chain_bytes img s (c # cs)) = entries ?b @ ?E"
    using entries_append [OF lb] by (simp add: chain_bytes_def)
  have scan: "scan_dir ?b name 0 = scan_list (entries ?b) name 0" using scan_dir_list [OF lb, of 0] by simp
  show ?case
  proof (cases "scan_list (entries ?b) name 0")
    case Exhausted
    have nx: "next_cluster s c = Ret (link_of s c)" using next_cluster_valid [OF v c] .
    have fn: "find_name (entries ?b @ ?E) name 0 = map_option (\<lambda>i. i + ?m) (find_name ?E name 0)"
      using Exhausted le find_name_shift [of ?E name 0 ?m] by (simp add: find_name_append)
    show ?thesis
    proof (cases "cs = []")
      case True
      then show ?thesis using Cons.prems(1) nx scan Exhausted fn all by (simp add: n chain_bytes_def entries_def)
    next
      case False
      then obtain d ds where cs: "cs = d # ds" by (cases cs) auto
      then have d: "link_of s c = d" "d < CLUSTER_CHAIN_END" "is_chain s cs" using Cons.prems(1) by auto
      have "search_chain k s name d (cluster_bytes img s d) =
          Ret (map_option (\<lambda>i. (cs ! (i div ?m), 32 * (i mod ?m), ?E ! i)) (find_name ?E name 0), s)"
        using Cons.IH [OF d(3), of k] Cons.prems(2) n cs by simp
      moreover have "load_cluster s d = Ret (cluster_bytes img s d, s)"
        using load_cluster_volume [OF v is_chain_valid] d(3) cs by blast
      ultimately have "search_chain n s name c ?b =
          Ret (map_option (\<lambda>i. (cs ! (i div ?m), 32 * (i mod ?m), ?E ! i)) (find_name ?E name 0), s)"
        using nx scan Exhausted d(1,2) by (simp add: n not_le [symmetric])
      moreover have "(i + ?m) div ?m = Suc (i div ?m)" for i using pos div_add_self2 [of ?m i] by simp
      ultimately show ?thesis unfolding all fn using le by (simp add: option.map_comp comp_def nth_append)
    qed
  next
    case (Hit off)
    then obtain i where i: "i < ?m" "off = 32 * i" using scan_list_Hit [OF Hit] le by auto
    have "dirent_of (read_at ?b off 32) = entries ?b ! i"
      using entries_nth [of i ?b] i lb by simp
    then show ?thesis using Hit scan i all le by (simp add: n find_name_append nth_append)
  next
    case Ended
    then show ?thesis using scan all by (simp add: n find_name_append)
  qed (use scan_list_no_overrun in blast)
qed simp

text \<open>C12. Lookup in a directory is a search in the list of its entries: on a volume whose device behaves
  as a disk, for a directory with a well-formed chain of clusters, \<open>fat_lookup\<close> returns the position of
  the first entry, before the end marker, that is neither deleted nor a volume label and whose 8.3 name
  is that of the argument, and \<open>-ENOENT\<close> when there is none.\<close>

theorem fat_lookup_finds:
  assumes v: "volume img s" and rd: "fat_read_dirent s parent = Ret (e, s)" and dir: "is_directory e"
    and ch: "is_chain s cs" "hd cs = first_cluster e"
    and name: "normalize_fat_path 512 name = Ret n_name" "component_8d3 n_name = Ret component"
  shows "fat_lookup s name parent =
    Ret (case find_name (entries (chain_bytes img s cs)) component 0 of
           None \<Rightarrow> Inl (- ENOENT)
         | Some i \<Rightarrow> Inr (pack_handle (dirent_position s (cs ! (i div (16 * spc s))) (32 * (i mod (16 * spc s))))), s)"
proof -
  have "length cs \<le> chain_fuel s" using is_chain_length [OF ch(1)] v by (simp add: chain_fuel_def volume_def)
  note search = search_chain_finds [OF v ch(1) this, of component]
  have "load_cluster s (hd cs) = Ret (cluster_bytes img s (hd cs), s)"
    using load_cluster_volume [OF v] is_chain_valid ch(1) by (cases cs) auto
  then show ?thesis
    using rd dir name search ch(2) by (auto simp: fat_lookup_def split: option.splits)
qed

lemma demo_root_dirent:
  "\<exists>e. fat_read_dirent demo_volume 0 = Ret (e, demo_volume) \<and> is_directory e \<and> first_cluster e = 2"
proof -
  have "root_cluster (bpb (data demo_volume)) = 2" by (simp add: demo_volume_def demo_bpb_def)
  then show ?thesis by (simp add: fat_read_dirent_def Let_def is_directory_def first_cluster_def flag_simps)
qed

lemma demo_find: "find_name (entries (chain_bytes fd_img demo_volume [2])) (fde_name demo_entry) 0 = Some 0"
proof -
  have "length (entries (cluster_bytes fd_img demo_volume 2)) = 16" "entries (cluster_bytes fd_img demo_volume 2) ! 0 = demo_entry"
    using demo_root_cluster dirent_of_bytes_of_dirent [OF length_demo_entry] by (simp_all add: entries_def)
  then obtain es where "entries (cluster_bytes fd_img demo_volume 2) = demo_entry # es"
    by (cases "entries (cluster_bytes fd_img demo_volume 2)") auto
  moreover have "hd (fde_name demo_entry) = 65" "attributes demo_entry = 0"
    by (simp_all add: demo_entry_def zero_fat_dirent_def dirent_of_def field_def read_at_def)
  ultimately show ?thesis by (simp add: chain_bytes_def skipped_def flag_simps)
qed

theorem fat_lookup_finds_witness: "fat_lookup demo_volume ''/a.txt'' 0 = Ret (Inr 0x200000000, demo_volume)"
proof -
  obtain e where e: "fat_read_dirent demo_volume 0 = Ret (e, demo_volume)" "is_directory e" "hd [2] = first_cluster e"
    using demo_root_dirent by auto
  have "is_chain demo_volume [2]" by (simp add: valid_cluster_def demo_link demo_fat_def flag_simps)
  from fat_lookup_finds [OF demo_volume_ok e(1,2) this e(3) demo_normalize(1) demo_component]
  show ?thesis by (simp add: demo_find demo_position pack_handle_def)
qed

section \<open>Time stamps\<close>

lemma pack_date:
  fixes y m d :: u16
  defines "w \<equiv> push_bit 9 (y AND 0x7F) OR push_bit 5 (m AND 0x0F) OR (d AND 0x1F)"
  shows "drop_bit 9 w AND 0x7F = y AND 0x7F" "drop_bit 5 w AND 0x0F = m AND 0x0F" "w AND 0x1F = d AND 0x1F"
proof -
  have k: "(0x7F :: u16) = mask 7" "(0x0F :: u16) = mask 4" "(0x1F :: u16) = mask 5"
    by (simp_all add: mask_eq_exp_minus_1)
  show "drop_bit 9 w AND 0x7F = y AND 0x7F" "drop_bit 5 w AND 0x0F = m AND 0x0F" "w AND 0x1F = d AND 0x1F"
    unfolding w_def k by (auto intro!: bit_word_eqI simp: bit_simps)
qed

lemma pack_time:
  fixes h m s :: u16
  defines "w \<equiv> push_bit 11 (h AND 0x1F) OR push_bit 5 (m AND 0x3F) OR (s AND 0x1F)"
  shows "drop_bit 11 w AND 0x1F = h AND 0x1F" "drop_bit 5 w AND 0x3F = m AND 0x3F" "w AND 0x1F = s AND 0x1F"
proof -
  have k: "(0x3F :: u16) = mask 6" "(0x1F :: u16) = mask 5"
    by (simp_all add: mask_eq_exp_minus_1)
  show "drop_bit 11 w AND 0x1F = h AND 0x1F" "drop_bit 5 w AND 0x3F = m AND 0x3F" "w AND 0x1F = s AND 0x1F"
    unfolding w_def k by (auto intro!: bit_word_eqI simp: bit_simps)
qed

lemma unat_masked:
  assumes "n < 2 ^ k" and "k \<le> 16"
  shows "unat ((word_of_nat n :: u16) AND mask k) = n"
proof -
  have "(word_of_nat n :: u16) AND mask k = word_of_nat (take_bit k n)"
    by (simp add: take_bit_eq_mask [symmetric] take_bit_of_nat)
  then show ?thesis
    using assms power_increasing [of k 16 "2 :: nat"] by (simp add: unat_of_nat take_bit_nat_eq_self)
qed

lemma unat_fields:
  "n < 128 \<Longrightarrow> unat ((word_of_nat n :: u16) AND 0x7F) = n" "n < 64 \<Longrightarrow> unat ((word_of_nat n :: u16) AND 0x3F) = n"
  "n < 32 \<Longrightarrow> unat ((word_of_nat n :: u16) AND 0x1F) = n" "n < 16 \<Longrightarrow> unat ((word_of_nat n :: u16) AND 0x0F) = n"
  using unat_masked [of n 7] unat_masked [of n 6] unat_masked [of n 5] unat_masked [of n 4]
  by (simp_all add: mask_eq_exp_minus_1)

lemma to_unix_seconds:
  assumes "to_unix_timestamp dt = Some t"
  shows "to_unix_timestamp (dt\<lparr>second := second dt div 2 * 2\<rparr>) = Some (t - t mod 2)"
proof -
  obtain days where days: "sum_months 1 (month dt) (year dt) (sum_years 1970 (year dt) 0) = Some days"
    using assms by (auto simp: to_unix_timestamp_def split: option.splits)
  define x where "x = (days + (if day dt = 0 then 4294967295 else day dt - 1)) * 86400 + hour dt * 3600 + minute dt * 60"
  have "even x" by (simp add: x_def)
  moreover have t: "t = x + second dt" using assms days by (simp add: to_unix_timestamp_def x_def)
  ultimately have "t mod 2 = second dt mod 2" by (simp add: mod_add_eq [symmetric])
  then have "t - t mod 2 = x + second dt div 2 * 2" using t by (simp add: minus_mod_eq_div_mult [symmetric])
  then show ?thesis using days by (simp add: to_unix_timestamp_def x_def)
qed

lemma days_in_month_le: "m < 12 \<Longrightarrow> days_in_month y m \<le> 31"
  by (auto simp: days_in_month_def mdays_def less_Suc_eq numeral_eq_Suc)

lemma fat_years:
  assumes "315532800 \<le> t" and "t < 4354819200" and "1970 \<le> y" and "y < 2 ^ 31"
    and "gregorian_days y \<le> t div 86400" and "t div 86400 < gregorian_days (y + 1)"
  shows "1980 \<le> y" and "y < 2108"
proof -
  have g: "gregorian_days 1980 = 3652" "gregorian_days 2108 = 50403" by (simp_all add: gregorian_days_def)
  show "1980 \<le> y"
  proof (rule ccontr)
    assume "\<not> 1980 \<le> y"
    then have "gregorian_days (y + 1) \<le> gregorian_days 1980" using assms(3) by (intro gregorian_days_mono) simp_all
    then show False using assms(1,6) g(1) by linarith
  qed
  show "y < 2108"
  proof (rule ccontr)
    assume "\<not> y < 2108"
    then have "gregorian_days 2108 \<le> gregorian_days y" using assms(4) by (intro gregorian_days_mono) simp_all
    then show False using assms(2,5) g(2) by linarith
  qed
qed

text \<open>C40. A time stamp between 1980 and 2107 survives the encoding of FAT entries up to its resolution of
  two seconds: the date and time words that \<open>unix_to_fat_timestamp\<close> writes are read back by
  \<open>fat_timestamp_to_unix\<close> as the same time, rounded down to an even second.\<close>

theorem fat_timestamp_roundtrip:
  assumes "315532800 \<le> unat t" and "unat t < 4354819200"
  shows "bind_outcome (unix_to_fat_timestamp t) (\<lambda>(d, tm). fat_timestamp_to_unix d tm) =
    Ret (word_of_nat (unat t - unat t mod 2))"
proof -
  have in_range: "unat t div 86400 < gregorian_days (2 ^ 31)" using assms(2) by (simp add: gregorian_days_def)
  obtain dt where dt: "to_datetime (unat t) = Some dt" "to_unix_timestamp dt = Some (unat t)"
      "1 \<le> month dt" "month dt \<le> 12" "1 \<le> day dt" "day dt \<le> days_in_month (year dt) (month dt - 1)"
      "hour dt < 24" "minute dt < 60" "second dt < 60" "1970 \<le> year dt" "year dt < 2 ^ 31"
      "gregorian_days (year dt) \<le> unat t div 86400" "unat t div 86400 < gregorian_days (year dt + 1)"
    using calendar_conversion [OF in_range] by blast
  have y: "1980 \<le> year dt" "year dt - 1980 < 128" using fat_years [OF assms dt(10-13)] by simp_all
  have "month dt - 1 < 12" using dt(3,4) by linarith
  then have "day dt \<le> 31" using le_trans [OF dt(6) days_in_month_le] by simp
  then have b: "month dt < 16" "day dt < 32" "hour dt < 32" "minute dt < 64" "second dt div 2 < 32"
    using dt(4,7-9) by simp_all
  have "to_unix_timestamp \<lparr>second = second dt div 2 * 2, minute = minute dt, hour = hour dt, day = day dt,
      month = month dt, year = year dt - 1980 + 1980\<rparr> = Some (unat t - unat t mod 2)"
    using to_unix_seconds [OF dt(2)] y(1) by (cases dt) simp
  note sec = this
  define D :: u16 where "D = push_bit 9 (word_of_nat (year dt - 1980) AND 0x7F) OR push_bit 5 (word_of_nat (month dt) AND 0x0F)
      OR (word_of_nat (day dt) AND 0x1F)"
  define T :: u16 where "T = push_bit 11 (word_of_nat (hour dt) AND 0x1F) OR push_bit 5 (word_of_nat (minute dt) AND 0x3F)
      OR (word_of_nat (second dt div 2) AND 0x1F)"
  have ny: "(year dt < 1980) = False" using y(1) by simp
  have u: "unix_to_fat_timestamp t = Ret (D, T)"
    by (simp only: unix_to_fat_timestamp_def dt(1) option.case Let_def D_def T_def ny if_False)
  have "unat (drop_bit 9 D AND 0x7F) = year dt - 1980" "unat (drop_bit 5 D AND 0x0F) = month dt" "unat (D AND 0x1F) = day dt"
    unfolding D_def pack_date using unat_fields y(2) b by blast+
  moreover have "unat (drop_bit 11 T AND 0x1F) = hour dt" "unat (drop_bit 5 T AND 0x3F) = minute dt"
      "unat (T AND 0x1F) = second dt div 2"
    unfolding T_def pack_time using unat_fields b by blast+
  ultimately have "fat_timestamp_to_unix D T = Ret (word_of_nat (unat t - unat t mod 2))"
    unfolding fat_timestamp_to_unix_def by (simp only: sec option.case)
  then show ?thesis by (simp only: u bind_outcome.simps split_conv)
qed

theorem fat_timestamp_roundtrip_witness:
  "bind_outcome (unix_to_fat_timestamp 1700000001) (\<lambda>(d, tm). fat_timestamp_to_unix d tm) = Ret 1700000000"
  using fat_timestamp_roundtrip [of 1700000001] by (simp del: of_nat_diff)

section \<open>Names\<close>

definition plain :: "byte list \<Rightarrow> bool" where
  "plain xs \<longleftrightarrow> (\<forall>c \<in> set xs. c \<noteq> dot \<and> c \<noteq> space \<and> c \<noteq> 0)"

definition readable :: "byte list \<Rightarrow> byte list \<Rightarrow> byte list" where
  "readable stem ext = stem @ (if ext = [] then [] else dot # ext)"

lemma length_pad [simp]: "length (pad n xs) = n"
  by (simp add: pad_def)

lemma pad_short: "length xs \<le> n \<Longrightarrow> pad n xs = xs @ replicate (n - length xs) space"
  by (simp add: pad_def)

lemma filter_pad: "plain xs \<Longrightarrow> length xs \<le> n \<Longrightarrow> filter (\<lambda>c. c \<noteq> space) (pad n xs) = xs"
  by (auto simp: pad_short plain_def filter_id_conv)

lemma readable_to_8d3_plain:
  assumes "plain stem" and "plain ext" and "length stem \<le> 8" and "length ext \<le> 3"
  shows "readable_to_8d3 (pad 12 (readable stem ext)) = Ret (write_at (pad 12 (readable stem ext)) 0 (pad 8 stem @ pad 3 ext))"
proof -
  let ?p = "pad 12 (readable stem ext)" and ?P = "\<lambda>c. c \<noteq> dot \<and> c \<noteq> space \<and> c \<noteq> 0"
  have l: "length (readable stem ext) \<le> 12" using assms by (simp add: readable_def)
  obtain c rest where split: "?p = stem @ c # rest" and c: "c = dot \<or> c = space" and ext: "ext \<noteq> [] \<longrightarrow> c = dot"
    and nx: "(if c = dot then takeWhile (\<lambda>c. c \<noteq> space \<and> c \<noteq> 0) rest else []) = ext"
  proof (cases "ext = []")
    case True
    obtain k where "12 - length stem = Suc k" using assms(3) by (cases "12 - length stem") auto
    then have "?p = stem @ space # replicate k space" using True assms(3) by (simp add: pad_short readable_def)
    then show thesis using that [of space] True by (simp add: space_def dot_def)
  next
    case False
    have "?p = stem @ dot # ext @ replicate (12 - length (readable stem ext)) space"
      using False l by (simp add: pad_short readable_def)
    moreover have "takeWhile (\<lambda>c. c \<noteq> space \<and> c \<noteq> 0) (ext @ replicate k space) = ext" for k
      using assms(2) by (induction ext) (auto simp: plain_def takeWhile_eq_Nil_iff)
    ultimately show thesis using that [of dot] by simp
  qed
  have tw: "takeWhile ?P ?p = stem"
    using assms(1) c unfolding split by (auto simp: takeWhile_append2 plain_def)
  have len: "length ?p = 12" by simp
  then have rest: "length rest = 11 - length stem" unfolding split by simp
  have i: "length stem < 12" using assms(3) by simp
  have at: "?p ! length stem = c" unfolding split by simp
  have dr: "take (12 - (length stem + 1)) (drop (length stem + 1) ?p) = rest" unfolding split using rest by simp
  have tk: "take 12 ?p = ?p" by simp
  show ?thesis
    unfolding readable_to_8d3_def tk tw Let_def at dr nx using i by simp
qed

text \<open>A file name survives the conversion to the 8.3 form of directory entries: for a stem of at most
  eight and an extension of at most three characters other than dot, space and NUL,
  \<open>readable_to_8d3\<close> followed by \<open>f8d3_to_readable\<close> gives the name back, terminated by NULs.\<close>

theorem short_name_roundtrip:
  assumes "plain stem" and "plain ext" and "length stem \<le> 8" and "length ext \<le> 3"
  shows "bind_outcome (readable_to_8d3 (pad 12 (readable stem ext))) (\<lambda>p. Ret (f8d3_to_readable p)) =
    Ret (readable stem ext @ replicate (12 - length (readable stem ext)) 0)"
proof -
  let ?q = "write_at (pad 12 (readable stem ext)) 0 (pad 8 stem @ pad 3 ext)"
  have "read_at ?q 0 8 = pad 8 stem" "read_at ?q 8 3 = pad 3 ext" by (simp_all add: write_at_def read_at_def)
  then have "f8d3_to_readable ?q = readable stem ext @ replicate (12 - length (readable stem ext)) 0"
    using assms by (simp add: f8d3_to_readable_def filter_pad Let_def readable_def)
  then show ?thesis using readable_to_8d3_plain [OF assms] by simp
qed

theorem short_name_roundtrip_witness:
  "bind_outcome (readable_to_8d3 (pad 12 (map of_char ''README.MD''))) (\<lambda>p. Ret (f8d3_to_readable p)) =
     Ret (map of_char ''README.MD'' @ [0, 0, 0])"
proof -
  have "map of_char ''README.MD'' = readable (map of_char ''README'') (map of_char ''MD'')"
    by (simp add: readable_def dot_def)
  moreover have "plain (map of_char ''README'')" "plain (map of_char ''MD'')"
    by (simp_all add: plain_def dot_def space_def)
  moreover have "length (readable (map of_char ''README'') (map of_char ''MD'')) = 9"
    by (simp add: readable_def)
  moreover have "replicate 3 (0 :: byte) = [0, 0, 0]" by (simp add: numeral_eq_Suc)
  ultimately show ?thesis
    using short_name_roundtrip [of "map of_char ''README''" "map of_char ''MD''"] by simp
qed

end
