(* ===== verification/Fatwrite.thy ===== *)
theory Fatwrite
  imports Fatdirs
begin

text \<open>
  Writing to a FAT file inside its clusters: the exact effect of \<open>fat_write_to_file\<close> on the contents of
  the file and on its directory entry, with the bytes that the code clears behind the written range.
\<close>

section \<open>Clusters as parts of the disk\<close>

definition in_cluster :: "'w fat_state \<Rightarrow> u32 \<Rightarrow> nat \<Rightarrow> bool" where
  "in_cluster s c j \<longleftrightarrow> cluster_sector s c * 512 \<le> j \<and> j < (cluster_sector s c + spc s) * 512"

lemma cluster_sector_disk [simp]:
  "cluster_sector (s\<lparr>disk := w\<rparr>) c = cluster_sector s c" "spc (s\<lparr>disk := w\<rparr>) = spc s"
  "valid_cluster (s\<lparr>disk := w\<rparr>) c = valid_cluster s c" "table_ok (s\<lparr>disk := w\<rparr>) = table_ok s"
  "get_first_cluster_sector (s\<lparr>disk := w\<rparr>) c = get_first_cluster_sector s c"
  "link_of (s\<lparr>disk := w\<rparr>) c = link_of s c" "cluster_sectors (s\<lparr>disk := w\<rparr>) = cluster_sectors s"
  "bytes_per_cluster (s\<lparr>disk := w\<rparr>) = bytes_per_cluster s" "in_cluster (s\<lparr>disk := w\<rparr>) c j = in_cluster s c j"
  by (simp_all add: cluster_sector_def first_data_def spc_def valid_cluster_def table_ok_def clusters_def
      total_clusters_def get_first_cluster_sector_def link_of_def cluster_sectors_def bytes_per_cluster_def in_cluster_def)

lemma is_chain_disk [simp]: "is_chain (s\<lparr>disk := w\<rparr>) cs = is_chain s cs"
  by (induction s cs rule: is_chain.induct) simp_all

lemma cluster_inside:
  assumes "volume img s" and "valid_cluster s c"
  shows "(cluster_sector s c + spc s) * 512 \<le> length (img (disk s))"
  using cluster_sector_fits [OF assms] assms(1) unfolding volume_def by (meson le_trans mult_le_mono1)

lemma clusters_disjoint:
  assumes "valid_cluster s c" and "valid_cluster s d" and "in_cluster s c j" and "in_cluster s d j"
  shows "c = d"
proof -
  have apart: False if "valid_cluster s a" "in_cluster s a j" "in_cluster s b j" "unat a < unat b" for a b
  proof -
    have "unat a - 2 + 1 \<le> unat b - 2" using that(1,4) by (auto simp: valid_cluster_def)
    then have "(unat a - 2 + 1) * spc s \<le> (unat b - 2) * spc s" by (rule mult_le_mono1)
    then have "(cluster_sector s a + spc s) * 512 \<le> cluster_sector s b * 512" by (simp add: cluster_sector_def)
    then show False using that(2,3) unfolding in_cluster_def by linarith
  qed
  show ?thesis using apart [of c d] apart [of d c] assms by (metis linorder_neqE_nat word_unat_eq_iff)
qed

lemma store_cluster:
  assumes v: "volume img s" and c: "valid_cluster s c" and bs: "length bs = spc s * 512"
  obtains res w where "store s (get_first_cluster_sector s c) bs (cluster_sectors s) = Ret (res, s\<lparr>disk := w\<rparr>)"
    and "length (img w) = length (img (disk s))"
    and "cluster_bytes img (s\<lparr>disk := w\<rparr>) c = bs"
    and "\<And>j. j < length (img (disk s)) \<Longrightarrow> \<not> in_cluster s c j \<Longrightarrow> img w ! j = img (disk s) ! j"
proof -
  have u: "unat (cluster_sectors s) = spc s"
    using unsigned_less [of "sectors_per_cluster (bpb (data s))", where 'a = nat]
    by (simp add: cluster_sectors_def spc_def unsigned_ucast_eq take_bit_nat_eq_self_iff)
  note f = cluster_inside [OF v c]
  have "(unat (get_first_cluster_sector s c) + unat (cluster_sectors s)) * 512 \<le> length (img (disk s)) \<and>
      unat (cluster_sectors s) * 512 \<le> length bs \<longrightarrow>
    (\<exists>res w'. 0 \<le> res \<and> write_sectors (blocks s) (backing (data s)) (get_first_cluster_sector s c) bs (cluster_sectors s) (disk s) =
        Ret (res, w') \<and>
       img w' = write_at (img (disk s)) (unat (get_first_cluster_sector s c) * 512) (take (unat (cluster_sectors s) * 512) bs))"
    using v unfolding volume_def serves_def by blast
  then obtain res w where w: "write_sectors (blocks s) (backing (data s)) (get_first_cluster_sector s c) bs (cluster_sectors s) (disk s) =
        Ret (res, w)" "img w = write_at (img (disk s)) (cluster_sector s c * 512) bs"
    using f u cluster_sector_word [OF v c] bs by auto
  have fits: "cluster_sector s c * 512 + length bs \<le> length (img (disk s))" using f bs by (simp add: add_mult_distrib)
  show thesis
  proof (rule that)
    show "store s (get_first_cluster_sector s c) bs (cluster_sectors s) = Ret (res, s\<lparr>disk := w\<rparr>)"
      using w(1) by (simp add: store_def)
    show "length (img w) = length (img (disk s))" using w(2) fits by simp
    show "cluster_bytes img (s\<lparr>disk := w\<rparr>) c = bs"
      using w(2) fits bs read_at_write_at [OF fits] by (simp add: cluster_bytes_def)
    show "img w ! j = img (disk s) ! j" if "j < length (img (disk s))" "\<not> in_cluster s c j" for j
      using that w(2) fits bs by (auto simp: nth_write_at in_cluster_def add_mult_distrib)
  qed
qed

lemma cluster_bytes_cong:
  assumes "volume img s" and "valid_cluster s c" and "length (img w) = length (img (disk s))"
    and "\<And>j. j < length (img (disk s)) \<Longrightarrow> in_cluster s c j \<Longrightarrow> img w ! j = img (disk s) ! j"
  shows "cluster_bytes img (s\<lparr>disk := w\<rparr>) c = cluster_bytes img s c"
proof (rule nth_equalityI)
  have f: "cluster_sector s c * 512 + spc s * 512 \<le> length (img (disk s))"
    using cluster_inside [OF assms(1,2)] by (simp add: add_mult_distrib)
  then show "length (cluster_bytes img (s\<lparr>disk := w\<rparr>) c) = length (cluster_bytes img s c)"
    using assms(3) by (simp add: cluster_bytes_def)
  fix i assume "i < length (cluster_bytes img (s\<lparr>disk := w\<rparr>) c)"
  then have "i < spc s * 512" using f assms(3) by (simp add: cluster_bytes_def)
  then show "cluster_bytes img (s\<lparr>disk := w\<rparr>) c ! i = cluster_bytes img s c ! i"
    using f assms(3) assms(4) [of "cluster_sector s c * 512 + i"]
    by (simp add: cluster_bytes_def in_cluster_def add_mult_distrib)
qed

section \<open>The write loop\<close>

text \<open>The number of bytes behind the written range that the loop clears: when the last part of the range
  starts at the beginning of a cluster and does not fill it, the rest of that cluster.\<close>

definition cleared :: "nat \<Rightarrow> nat \<Rightarrow> nat \<Rightarrow> nat" where
  "cleared csz off n =
     (if 0 < n \<and> (off + n) mod csz \<noteq> 0 \<and> (off mod csz = 0 \<or> off div csz < (off + n) div csz)
      then csz - (off + n) mod csz else 0)"

lemma cleared_next:
  assumes "off < csz" and "csz < off + n"
  shows "cleared csz off n = cleared csz 0 (off + n - csz)"
proof -
  have m: "(off + n) mod csz = (off + n - csz) mod csz" using assms by (simp add: le_mod_geq)
  moreover have "1 \<le> (off + n) div csz" using assms by (simp add: div_greater_zero_iff Suc_le_eq)
  moreover have "off div csz = 0" using assms by simp
  ultimately show ?thesis using assms by (auto simp: cleared_def)
qed

lemma cleared_last:
  assumes "off < csz" and "off + n \<le> csz" and "0 < n"
  shows "cleared csz off n = (if off = 0 then csz - n else 0)"
proof (cases "off + n = csz")
  case True
  then show ?thesis using assms by (auto simp: cleared_def)
next
  case False
  then have "off + n < csz" using assms by simp
  then show ?thesis using assms by (auto simp: cleared_def)
qed

lemma cluster_512_volume: "cluster_512 s = spc s * 512"
  by (simp add: cluster_512_def spc_def)

lemma unat_cluster_sectors: "unat (cluster_sectors s) = spc s"
  using unsigned_less [of "sectors_per_cluster (bpb (data s))", where 'a = nat]
  by (simp add: cluster_sectors_def spc_def unsigned_ucast_eq take_bit_nat_eq_self_iff)

lemma read_cluster:
  assumes "volume img s" and "valid_cluster s c"
  obtains res where "0 \<le> res" and "read_sectors (blocks s) (backing (data s)) (get_first_cluster_sector s c)
    (cluster_sectors s) (disk s) = Ret (res, cluster_bytes img s c, disk s)"
proof -
  have "serves (blocks s) (backing (data s)) 512 img" using assms(1) by (simp add: volume_def)
  then show thesis
    using that cluster_inside [OF assms] unat_cluster_sectors [of s] cluster_sector_word [OF assms]
    unfolding serves_def cluster_bytes_def by metis
qed

text \<open>The buffer of one turn after the new bytes are put in.\<close>

lemma write_buffer_volume:
  assumes v: "volume img s" and c: "valid_cluster s c" and coff: "coff < spc s * 512"
    and xs: "length xs = min (spc s * 512 - coff) left" and pos: "0 < left"
  obtains buf where "write_buffer s c coff left = Ret (Inr buf, s)" and "length buf = spc s * 512"
    and "write_at buf coff xs = write_at (cluster_bytes img s c) coff
      (xs @ replicate (if coff = 0 \<and> left < spc s * 512 then spc s * 512 - left else 0) 0)"
proof -
  have lb: "length (cluster_bytes img s c) = spc s * 512" using length_cluster_bytes [OF v c] .
  have bpc: "bytes_per_cluster s = spc s * 512" using bytes_per_cluster_volume [OF v] .
  show thesis
  proof (cases "coff = 0")
    case False
    obtain res where "0 \<le> res" "read_sectors (blocks s) (backing (data s)) (get_first_cluster_sector s c)
        (cluster_sectors s) (disk s) = Ret (res, cluster_bytes img s c, disk s)"
      using read_cluster [OF v c] .
    then show thesis using that [of "cluster_bytes img s c"] False lb bpc
      by (simp add: write_buffer_def load_def)
  next
    case True
    show thesis
    proof (cases "left < spc s * 512")
      case lt: True
      then have "write_buffer s c coff left = Ret (Inr (replicate (spc s * 512) 0), s)"
        using True bpc by (simp add: write_buffer_def cluster_512_volume)
      then show thesis using that lt True xs lb by (simp add: write_at_def)
    next
      case ge: False
      then have "write_buffer s c coff left = Ret (Inr (map (junk s) [0..<spc s * 512]), s)"
        using True bpc by (simp add: write_buffer_def cluster_512_volume)
      then show thesis using that ge True xs lb by (simp add: write_at_def)
    qed
  qed
qed

lemma write_target_valid:
  "table_ok s \<Longrightarrow> valid_cluster s c \<Longrightarrow> write_target s prev c = Ret (Inr c, s)"
  by (auto simp: write_target_def valid_cluster_def table_ok_def word_less_nat_alt CLUSTER_CHAIN_END_def)

lemma chain_bytes_Cons: "chain_bytes img s (c # cs) = cluster_bytes img s c @ chain_bytes img s cs"
  by (simp add: chain_bytes_def)

lemma chain_bytes_cong:
  assumes v: "volume img s" and l: "length (img w) = length (img (disk s))"
    and same: "\<And>j c. j < length (img (disk s)) \<Longrightarrow> c \<in> set cs \<Longrightarrow> in_cluster s c j \<Longrightarrow> img w ! j = img (disk s) ! j"
    and valid: "\<And>c. c \<in> set cs \<Longrightarrow> valid_cluster s c"
  shows "chain_bytes img (s\<lparr>disk := w\<rparr>) cs = chain_bytes img s cs"
proof -
  have "cluster_bytes img (s\<lparr>disk := w\<rparr>) c = cluster_bytes img s c" if "c \<in> set cs" for c
    using cluster_bytes_cong [OF v valid [OF that] l] same that by blast
  then show ?thesis by (simp add: chain_bytes_def cong: map_cong)
qed

lemma write_at_front:
  "off + length ys \<le> length a \<Longrightarrow> write_at (a @ b) off ys = write_at a off ys @ b"
  by (simp add: write_at_def)

lemma write_at_append_both:
  "off \<le> length a \<Longrightarrow> length xs = length a - off \<Longrightarrow> write_at (a @ b) off (xs @ ys) = write_at a off xs @ write_at b 0 ys"
  by (simp add: write_at_def)

text \<open>One turn of the loop, at cluster \<open>c\<close>: \<open>q\<close> bytes go into the cluster, and the loop goes on.\<close>

lemma write_turn:
  assumes v: "volume img s" and t: "table_ok s" and c: "valid_cluster s c" and coff: "coff < spc s * 512"
    and k: "k < sz" and buffer: "sz \<le> length buffer" and q: "q = min (spc s * 512 - coff) (sz - k)"
  obtains w where "write_loop (Suc m) s buffer sz prev c coff k = (if k + q < sz
        then write_loop m (s\<lparr>disk := w\<rparr>) buffer sz c (link_of s c) 0 (k + q)
        else write_loop m (s\<lparr>disk := w\<rparr>) buffer sz prev c (coff + q) (k + q))"
    and "length (img w) = length (img (disk s))"
    and "cluster_bytes img (s\<lparr>disk := w\<rparr>) c = write_at (cluster_bytes img s c) coff
      (read_at buffer k q @ replicate (if coff = 0 \<and> sz - k < spc s * 512 then spc s * 512 - (sz - k) else 0) 0)"
    and "\<And>j. j < length (img (disk s)) \<Longrightarrow> \<not> in_cluster s c j \<Longrightarrow> img w ! j = img (disk s) ! j"
proof -
  let ?z = "spc s * 512"
  define d where "d = read_at buffer k q"
  have ld: "length d = min (?z - coff) (sz - k)" using buffer k by (simp add: d_def q read_at_def)
  have "0 < sz - k" using k by simp
  from write_buffer_volume [OF v c coff ld this]
  obtain buf where buf: "write_buffer s c coff (sz - k) = Ret (Inr buf, s)" "length buf = ?z"
      "write_at buf coff d = write_at (cluster_bytes img s c) coff
        (d @ replicate (if coff = 0 \<and> sz - k < ?z then ?z - (sz - k) else 0) 0)"
    by blast
  have "length (write_at buf coff d) = ?z" using buf(2) ld coff by simp
  from store_cluster [OF v c this] obtain res w where
    w: "store s (get_first_cluster_sector s c) (write_at buf coff d) (cluster_sectors s) = Ret (res, s\<lparr>disk := w\<rparr>)"
      "length (img w) = length (img (disk s))" "cluster_bytes img (s\<lparr>disk := w\<rparr>) c = write_at buf coff d"
      "\<And>j. j < length (img (disk s)) \<Longrightarrow> \<not> in_cluster s c j \<Longrightarrow> img w ! j = img (disk s) ! j"
    by blast
  have "next_cluster (s\<lparr>disk := w\<rparr>) c = Ret (link_of s c)"
    using next_cluster_valid [OF volume_disk [OF v w(2)], of c] c by simp
  then have "write_loop (Suc m) s buffer sz prev c coff k = (if k + q < sz
        then write_loop m (s\<lparr>disk := w\<rparr>) buffer sz c (link_of s c) 0 (k + q)
        else write_loop m (s\<lparr>disk := w\<rparr>) buffer sz prev c (coff + q) (k + q))"
    using k write_target_valid [OF t c] buf(1) bytes_per_cluster_volume [OF v] w(1)
    by (simp add: Let_def q d_def [unfolded q])
  then show thesis using that w(2-4) buf(3) by (simp add: d_def)
qed

lemma write_loop_chain:
  assumes "volume img s" and "table_ok s" and "is_chain s xs" and "coff < spc s * 512"
    and "coff + (sz - k) \<le> length xs * (spc s * 512)" and "k \<le> sz" and "sz \<le> length buffer" and "sz - k < n"
  shows "\<exists>w. write_loop n s buffer sz prev (hd xs) coff k = Ret (None, s\<lparr>disk := w\<rparr>) \<and>
    length (img w) = length (img (disk s)) \<and>
    chain_bytes img (s\<lparr>disk := w\<rparr>) xs = write_at (chain_bytes img s xs) coff
      (read_at buffer k (sz - k) @ replicate (cleared (spc s * 512) coff (sz - k)) 0) \<and>
    (\<forall>j < length (img (disk s)). (\<forall>c \<in> set xs. \<not> in_cluster s c j) \<longrightarrow> img w ! j = img (disk s) ! j)"
  using assms
proof (induction xs arbitrary: n s coff k prev)
  case (Cons c cs)
  let ?z = "spc s * 512"
  obtain m where n: "n = Suc m" using Cons.prems(8) by (cases n) auto
  show ?case
  proof (cases "k < sz")
    case False
    then have "k = sz" using Cons.prems(6) by simp
    then show ?thesis by (intro exI [of _ "disk s"]) (simp add: n cleared_def read_at_def)
  next
    case True
    note v = Cons.prems(1)
    have c: "valid_cluster s c" using is_chain_valid [OF Cons.prems(3)] .
    define q where "q = min (?z - coff) (sz - k)"
    have q: "0 < q" "q \<le> sz - k" "q \<le> ?z - coff" using True Cons.prems(4) by (simp_all add: q_def)
    define d where "d = read_at buffer k q"
    have ld: "length d = q" using True Cons.prems(7) q(2) by (simp add: d_def read_at_def)
    have lb: "length (cluster_bytes img s c) = ?z" using length_cluster_bytes [OF v c] .
    from write_turn [OF v Cons.prems(2) c Cons.prems(4) True Cons.prems(7) q_def]
    obtain w1 where step: "write_loop n s buffer sz prev c coff k = (if k + q < sz
        then write_loop m (s\<lparr>disk := w1\<rparr>) buffer sz c (link_of s c) 0 (k + q)
        else write_loop m (s\<lparr>disk := w1\<rparr>) buffer sz prev c (coff + q) (k + q))"
      and w1: "length (img w1) = length (img (disk s))"
        "cluster_bytes img (s\<lparr>disk := w1\<rparr>) c = write_at (cluster_bytes img s c) coff
          (d @ replicate (if coff = 0 \<and> sz - k < ?z then ?z - (sz - k) else 0) 0)"
        "\<And>j. j < length (img (disk s)) \<Longrightarrow> \<not> in_cluster s c j \<Longrightarrow> img w1 ! j = img (disk s) ! j"
      unfolding n d_def by blast
    let ?s1 = "s\<lparr>disk := w1\<rparr>"
    have v1: "volume img ?s1" using volume_disk [OF v w1(1)] .
    have sep: "\<not> in_cluster s c j" if "a \<in> set cs" "in_cluster s a j" for a j
      using clusters_disjoint [OF c is_chain_all_valid [OF Cons.prems(3), of a]] that is_chain_distinct [OF Cons.prems(3)]
      by auto
    have rest: "chain_bytes img ?s1 cs = chain_bytes img s cs"
      using chain_bytes_cong [OF v w1(1), of cs] w1(3) sep is_chain_all_valid [OF Cons.prems(3)] by auto
    show ?thesis
    proof (cases "k + q < sz")
      case False
      then have e: "q = sz - k" "k + q = sz" using q(2) True by simp_all
      have le: "coff + (sz - k) \<le> ?z" using q(3) e(1) Cons.prems(4) by linarith
      have fin: "write_loop m ?s1 buffer sz prev c (coff + q) (k + q) = Ret (None, ?s1)"
        using Cons.prems(8) q(1) e n by (cases m) auto
      have de: "d = read_at buffer k (sz - k)" by (simp add: d_def e(1))
      have cl: "cleared ?z coff (sz - k) = (if coff = 0 \<and> sz - k < ?z then ?z - (sz - k) else 0)"
        using cleared_last [OF Cons.prems(4) le] True by auto
      have "chain_bytes img ?s1 (c # cs) = write_at (chain_bytes img s (c # cs)) coff
          (read_at buffer k (sz - k) @ replicate (cleared ?z coff (sz - k)) 0)"
        unfolding chain_bytes_Cons rest w1(2) cl de [symmetric]
        by (rule write_at_front [symmetric]) (use le lb ld e(1) in \<open>auto simp: d_def read_at_def\<close>)
      then show ?thesis using step False fin w1(1,3) by (intro exI [of _ w1]) auto
    next
      case more: True
      then have e: "q = ?z - coff" by (auto simp: q_def)
      have "cs \<noteq> []" using Cons.prems(4,5) more e by auto
      then have l: "link_of s c = hd cs" "is_chain s cs" using Cons.prems(3) by (cases cs; simp)+
      have len: "0 + (sz - (k + q)) \<le> length cs * (spc ?s1 * 512)" using Cons.prems(4,5) e by simp
      have pos: "0 < spc ?s1 * 512" using v by (simp add: volume_def)
      obtain w2 where w2: "write_loop m ?s1 buffer sz c (hd cs) 0 (k + q) = Ret (None, s\<lparr>disk := w2\<rparr>)"
          "length (img w2) = length (img w1)"
          "chain_bytes img (s\<lparr>disk := w2\<rparr>) cs = write_at (chain_bytes img ?s1 cs) 0
             (read_at buffer (k + q) (sz - (k + q)) @ replicate (cleared ?z 0 (sz - (k + q))) 0)"
          "\<And>j. j < length (img w1) \<Longrightarrow> (\<And>a. a \<in> set cs \<Longrightarrow> \<not> in_cluster s a j) \<Longrightarrow> img w2 ! j = img w1 ! j"
      proof -
        have "sz - (k + q) < m" using Cons.prems(8) n more q(1) by linarith
        then show thesis using that Cons.IH [OF v1 _ _ pos len, of m c] Cons.prems(2,7) l(2) more by auto
      qed
      have "cluster_bytes img (?s1\<lparr>disk := w2\<rparr>) c = cluster_bytes img ?s1 c"
        using cluster_bytes_cong [OF v1, of c w2] c w2(2,4) sep by auto
      then have cb: "cluster_bytes img (s\<lparr>disk := w2\<rparr>) c = write_at (cluster_bytes img s c) coff d"
        using w1(2) more e Cons.prems(4) by (auto split: if_splits)
      have dd: "read_at buffer k (sz - k) = d @ read_at buffer (k + q) (sz - (k + q))"

      proof -
        have "sz - k = q + (sz - (k + q))" using more by simp
        then show ?thesis unfolding d_def by (metis read_at_append)
      qed
      have cl: "cleared ?z coff (sz - k) = cleared ?z 0 (sz - (k + q))"
      proof -
        have "coff + (sz - k) - ?z = sz - (k + q)" using e Cons.prems(4) more by simp
        then show ?thesis using cleared_next [OF Cons.prems(4), of "sz - k"] e Cons.prems(4) more by simp
      qed
      have "chain_bytes img (s\<lparr>disk := w2\<rparr>) (c # cs) = write_at (chain_bytes img s (c # cs)) coff
          (read_at buffer k (sz - k) @ replicate (cleared ?z coff (sz - k)) 0)"
        unfolding chain_bytes_Cons w2(3) rest cb dd cl append_assoc
        by (rule write_at_append_both [symmetric]) (use lb ld e Cons.prems(4) more in \<open>auto simp: q_def\<close>)
      then show ?thesis using step more l(1) w2 w1(1,3) by (intro exI [of _ w2]) auto
    qed
  qed
qed simp

section \<open>Writing inside a file\<close>

lemma write_skip_chain:
  assumes v: "volume img s" and t: "table_ok s" and csz: "csz = spc s * 512"
  shows "is_chain s xs \<Longrightarrow> off < length xs * csz \<Longrightarrow> off < n \<Longrightarrow>
    \<exists>p. write_skip n s csz prev (hd xs) off = Ret (Inr (p, xs ! (off div csz), off mod csz), s)"
proof (induction xs arbitrary: n off prev)
  case (Cons c cs)
  obtain m where n: "n = Suc m" using Cons.prems(3) by (cases n) auto
  have pos: "0 < csz" using v csz by (simp add: volume_def)
  have c: "valid_cluster s c" using is_chain_valid [OF Cons.prems(1)] .
  have lt: "\<not> c \<ge> CLUSTER_CHAIN_END"
    using c t by (auto simp: valid_cluster_def table_ok_def word_le_nat_alt CLUSTER_CHAIN_END_def)
  show ?case
  proof (cases "off < csz")
    case True
    then show ?thesis by (simp add: n)
  next
    case False
    then obtain d ds where cs: "cs = d # ds" using Cons.prems(2) by (cases cs) auto
    have "\<exists>p. write_skip m s csz c d (off - csz) = Ret (Inr (p, cs ! ((off - csz) div csz), (off - csz) mod csz), s)"
      using Cons.IH [of "off - csz" m c] Cons.prems False pos cs n by auto
    moreover have "off div csz = Suc ((off - csz) div csz)" "off mod csz = (off - csz) mod csz"
      using False pos by (simp_all add: le_div_geq le_mod_geq not_less)
    ultimately show ?thesis
      using False next_cluster_valid [OF v c] Cons.prems(1) cs lt by (auto simp: n)
  qed
qed simp

text \<open>Replacing 32 bytes of the sector of a handle.\<close>

lemma fat_write_dirent_volume:
  assumes v: "volume img s" and h: "(unat (handle_sector h) + 1) * 512 \<le> length (img (disk s))" "handle_offset h + 32 \<le> 512"
    and e: "length (fde_name e) = 11"
  obtains w where "fat_write_dirent s h e = Ret (s\<lparr>disk := w\<rparr>)"
    and "img w = write_at (img (disk s)) (unat (handle_sector h) * 512 + handle_offset h) (bytes_of_dirent e)"
proof -
  let ?b = "read_at (img (disk s)) (unat (handle_sector h) * 512) 512"
  have sv: "serves (blocks s) (backing (data s)) 512 img" using v by (simp add: volume_def)
  obtain res where ld: "load s (handle_sector h) 1 512 = Ret (res, ?b, s)" using load_sector [OF sv h(1)] by blast
  have le: "length (bytes_of_dirent e) = 32" using length_bytes_of_dirent [OF e] .
  have len: "length (write_at ?b (handle_offset h) (bytes_of_dirent e)) = 512" using h le by simp
  obtain res w where st: "store s (handle_sector h) (write_at ?b (handle_offset h) (bytes_of_dirent e)) 1 = Ret (res, s\<lparr>disk := w\<rparr>)"
      "img w = write_at (img (disk s)) (unat (handle_sector h) * 512) (write_at ?b (handle_offset h) (bytes_of_dirent e))"
    using store_sector [OF sv h(1) len] by blast
  show thesis
  proof (rule that)
    show "fat_write_dirent s h e = Ret (s\<lparr>disk := w\<rparr>)" using ld st(1) h(2) by (simp add: fat_write_dirent_def)
    show "img w = write_at (img (disk s)) (unat (handle_sector h) * 512 + handle_offset h) (bytes_of_dirent e)"
      unfolding st(2) using h le by (intro write_at_sector) simp_all
  qed
qed

lemma fat_read_dirent_volume:
  assumes v: "volume img s" and h: "h \<noteq> 0" "(unat (handle_sector h) + 1) * 512 \<le> length (img (disk s))" "handle_offset h + 32 \<le> 512"
  shows "fat_read_dirent s h = Ret (dirent_of (read_at (img (disk s)) (unat (handle_sector h) * 512 + handle_offset h) 32), s)"
proof -
  have sv: "serves (blocks s) (backing (data s)) 512 img" using v by (simp add: volume_def)
  obtain res where ld: "load s (handle_sector h) 1 512 = Ret (res, read_at (img (disk s)) (unat (handle_sector h) * 512) 512, s)"
    using load_sector [OF sv h(2)] by blast
  have "read_at (read_at (img (disk s)) (unat (handle_sector h) * 512) 512) (handle_offset h) 32 =
      read_at (img (disk s)) (unat (handle_sector h) * 512 + handle_offset h) 32"
    using h by (intro nth_equalityI) (auto simp: add.assoc)
  then show ?thesis using ld h by (simp add: fat_read_dirent_def)
qed

lemma cleared_mod:
  assumes "0 < csz"
  shows "cleared csz off n = cleared csz (off mod csz) n"
proof -
  have "(off + n) mod csz = (off mod csz + n) mod csz" by (simp add: mod_add_left_eq)
  moreover have "(off + n) div csz = off div csz + (off mod csz + n) div csz"
    using assms by (metis add.assoc div_mult_mod_eq div_mult_self3 less_not_refl2)
  ultimately show ?thesis using assms by (auto simp: cleared_def)
qed

lemma write_at_back: "off = length a + k \<Longrightarrow> write_at (a @ b) off xs = a @ write_at b k xs"
  by (simp add: write_at_def)

lemma write_chain:
  assumes v: "volume img s" and t: "table_ok s" and ch: "is_chain s cs" and csz: "csz = spc s * 512"
    and fits: "off + sz \<le> length cs * csz" and pos: "0 < sz" and buf: "sz \<le> length buffer" and n: "sz < n"
  shows "\<exists>w. write_loop n s buffer sz p (cs ! (off div csz)) (off mod csz) 0 = Ret (None, s\<lparr>disk := w\<rparr>) \<and>
    length (img w) = length (img (disk s)) \<and>
    chain_bytes img (s\<lparr>disk := w\<rparr>) cs = write_at (chain_bytes img s cs) off (take sz buffer @ replicate (cleared csz off sz) 0) \<and>
    (\<forall>j < length (img (disk s)). (\<forall>c \<in> set cs. \<not> in_cluster s c j) \<longrightarrow> img w ! j = img (disk s) ! j)"
proof -
  let ?i = "off div csz"
  have z: "0 < csz" using v csz by (simp add: volume_def)
  have i: "?i < length cs" using fits pos z by (simp add: div_less_iff_less_mult)
  let ?xs = "drop ?i cs"
  have xs: "is_chain s ?xs" "hd ?xs = cs ! ?i" using chain_drop [OF ch i] i by (simp_all add: hd_drop_conv_nth)
  have om: "off = ?i * csz + off mod csz" by simp
  have len: "off mod csz + (sz - 0) \<le> length ?xs * csz"
    using fits om i by (simp add: diff_mult_distrib le_diff_conv2 less_imp_le)
  note wl = write_loop_chain [OF v t xs(1), folded csz, of "off mod csz" sz 0 buffer n p, OF _ len _ buf]
  obtain w where w: "write_loop n s buffer sz p (cs ! ?i) (off mod csz) 0 = Ret (None, s\<lparr>disk := w\<rparr>)"
      "length (img w) = length (img (disk s))"
      "chain_bytes img (s\<lparr>disk := w\<rparr>) ?xs = write_at (chain_bytes img s ?xs) (off mod csz)
        (read_at buffer 0 sz @ replicate (cleared csz (off mod csz) sz) 0)"
      "\<And>j. j < length (img (disk s)) \<Longrightarrow> (\<And>c. c \<in> set ?xs \<Longrightarrow> \<not> in_cluster s c j) \<Longrightarrow> img w ! j = img (disk s) ! j"
    using wl z n xs(2) by auto
  have split: "chain_bytes img r cs = chain_bytes img r (take ?i cs) @ chain_bytes img r ?xs" for r
    by (simp add: chain_bytes_def flip: concat_append map_append)
  have apart: "c \<notin> set ?xs" if "c \<in> set (take ?i cs)" for c
    using that is_chain_distinct [OF ch] by (metis append_take_drop_id disjoint_iff distinct_append)
  have front: "chain_bytes img (s\<lparr>disk := w\<rparr>) (take ?i cs) = chain_bytes img s (take ?i cs)"
  proof (rule chain_bytes_cong [OF v w(2)])
    fix j c assume j: "j < length (img (disk s))" and c: "c \<in> set (take ?i cs)" "in_cluster s c j"
    have "\<not> in_cluster s d j" if "d \<in> set ?xs" for d
      using clusters_disjoint [OF is_chain_all_valid [OF ch] is_chain_all_valid [OF ch], of c d j] c that apart
      using in_set_takeD [OF c(1)] in_set_dropD [OF that] by auto
    then show "img w ! j = img (disk s) ! j" using w(4) j by blast
  qed (rule is_chain_all_valid [OF ch in_set_takeD])
  have "length (chain_bytes img s (take ?i cs)) = ?i * csz"
    using length_chain_bytes [OF v ch] length_chain_bytes [OF v xs(1)] split [of s] i csz
    by (metis add_diff_cancel_right' diff_diff_cancel diff_mult_distrib length_append length_drop less_imp_le)
  then have "off = length (chain_bytes img s (take ?i cs)) + off mod csz" by simp
  note right = write_at_back [OF this]
  have "read_at buffer 0 sz = take sz buffer" by (simp add: read_at_def)
  then have "chain_bytes img (s\<lparr>disk := w\<rparr>) cs = write_at (chain_bytes img s cs) off (take sz buffer @ replicate (cleared csz off sz) 0)"
    unfolding split [of "s\<lparr>disk := w\<rparr>"] split [of s] right front w(3) cleared_mod [OF z, of off sz] by (simp only:)
  moreover have "img w ! j = img (disk s) ! j" if "j < length (img (disk s))" "\<forall>c \<in> set cs. \<not> in_cluster s c j" for j
    using w(4) [OF that(1)] that(2) in_set_dropD [of _ ?i cs] by blast
  ultimately show ?thesis using w(1,2) by blast
qed

lemma unix_to_fat_total: "\<exists>dt. unix_to_fat_timestamp t = Ret dt"
  using to_datetime_total [of "unat t"] by (auto simp: unix_to_fat_timestamp_def Let_def)

lemma modified_fields [simp]:
  "fde_name (modified e dt) = fde_name e" "attributes (modified e dt) = attributes e"
  "fde_file_size (modified e dt) = fde_file_size e" "first_cluster (modified e dt) = first_cluster e"
  by (simp_all add: modified_def first_cluster_def)

text \<open>Writing an entry back and reading it.\<close>

lemma write_dirent_read:
  assumes v: "volume img s" and h: "h \<noteq> 0" "(unat (handle_sector h) + 1) * 512 \<le> length (img (disk s))" "handle_offset h + 32 \<le> 512"
    and e: "length (fde_name e) = 11"
    and apart: "\<And>c. c \<in> set cs \<Longrightarrow> valid_cluster s c \<and>
      (unat (handle_sector h) < cluster_sector s c \<or> cluster_sector s c + spc s \<le> unat (handle_sector h))"
  obtains w where "fat_write_dirent s h e = Ret (s\<lparr>disk := w\<rparr>)" and "fat_read_dirent (s\<lparr>disk := w\<rparr>) h = Ret (e, s\<lparr>disk := w\<rparr>)"
    and "chain_bytes img (s\<lparr>disk := w\<rparr>) cs = chain_bytes img s cs"
proof -
  let ?a = "unat (handle_sector h) * 512 + handle_offset h"
  obtain w where w: "fat_write_dirent s h e = Ret (s\<lparr>disk := w\<rparr>)"
      "img w = write_at (img (disk s)) ?a (bytes_of_dirent e)"
    using fat_write_dirent_volume [OF v h(2,3) e] by blast
  have le: "length (bytes_of_dirent e) = 32" using length_bytes_of_dirent [OF e] .
  have fits: "?a + length (bytes_of_dirent e) \<le> length (img (disk s))" using h(2,3) le by simp
  have l: "length (img w) = length (img (disk s))" using w(2) fits by simp
  have "read_at (img w) ?a 32 = bytes_of_dirent e" using w(2) read_at_write_at [OF fits] le by simp
  then have rd: "fat_read_dirent (s\<lparr>disk := w\<rparr>) h = Ret (e, s\<lparr>disk := w\<rparr>)"
    using fat_read_dirent_volume [OF volume_disk [OF v l] h(1)] h(2,3) l dirent_of_bytes_of_dirent [OF e] by simp
  have "chain_bytes img (s\<lparr>disk := w\<rparr>) cs = chain_bytes img s cs"
  proof (rule chain_bytes_cong [OF v l])
    fix j c assume j: "j < length (img (disk s))" "c \<in> set cs" "in_cluster s c j"
    have "\<not> (?a \<le> j \<and> j < ?a + 32)"
      using apart [OF j(2)] j(3) h(3) unfolding in_cluster_def by auto
    then show "img w ! j = img (disk s) ! j" using w(2) fits j(1) le by (auto simp: nth_write_at)
  qed (use apart in blast)
  then show thesis using that w(1) rd by blast
qed



end
