(* ===== verification/Spec2Isabelle.thy ===== *)
theory Spec2Isabelle
  imports Tty Timer Memops Kheap Partitions Paging Fd Signals Waiting Fatwrite
begin

text \<open>
  A verification library for the kernel of GlitchedOS (\<open>src/kernel\<close>), a small operating system in C
  for x86-64.

  \<^bold>\<open>How the model is made.\<close>  Each theory models one component, in the order and with the names of the
  source.  A struct is a record, an array a list (or a function from addresses where the source
  computes addresses), a machine integer a word of its width where its overflow matters and an
  \<open>int\<close> or \<open>nat\<close> where the theory says that it does not.  A function that changes state takes the
  state and returns it; a C error code is the negative \<open>int\<close> it is in the source.  The type
  \<open>outcome\<close> of the theory Prelude says how a call ends: \<open>Ret\<close> with a result, \<open>Fault\<close> when the C
  code leaves the object it accesses, dereferences a null or freed pointer or divides by zero,
  \<open>Blocks\<close> when it has used up the scheduling events or the fuel it was given, \<open>Panic\<close> when it stops
  the machine.  Code outside the
  component is a parameter: hardware drivers are records of functions over a device state of any
  type, what other tasks do while a call sleeps is an explicit list of events, the clock is an
  argument.

  \<^bold>\<open>Components and theories.\<close>

  \<^item> Prelude: machine types, error numbers (\<open>error.h\<close>), outcomes, byte arrays, ring buffers, and the
    locale \<open>byte_channel\<close>, the contract of a first-in-first-out channel of bytes.
  \<^item> Pipe (\<open>usermode/pipe.c\<close>) and Tty (\<open>drivers/tty.c\<close>): the two ring buffers of the kernel.  Both are
    interpretations of \<open>byte_channel\<close>; the lemmas show that no byte is lost, duplicated or reordered,
    the behaviour of every branch, that a blocked writer finishes when it is drained, that the line
    discipline refines a line editor, full buffers and the overrun of the line buffer included.
  \<^item> Timer (\<open>drivers/timer.c\<close>): ticks and the conversion between Unix time and dates, shown to be the
    Gregorian calendar.
  \<^item> Memops and Kheap (\<open>memory/mman.c\<close>): the memory primitives against their bytewise meaning, and the
    allocator: blocks in use never overlap, when it panics, what \<open>kfree\<close> releases.
  \<^item> Blockdev, Partitions (\<open>drivers/block.c\<close>, \<open>drivers/partitions.c\<close>) and Chrdev (\<open>drivers/chrdev.c\<close>,
    \<open>drivers/nulldev.c\<close>): byte access to sectors against the device image, the partition driver as a
    refinement of a smaller device, MBR and GPT detection.
  \<^item> Ramfs, Devfs (\<open>fs/ramfs.c\<close>, \<open>fs/devfs.c\<close>): files as block lists against byte lists, the directory
    tree as a pointer structure.
  \<^item> Paths, Vfs, Fsdrivers (\<open>vfs.c\<close>): path normalisation, the mount tree, lookup across mounts as a
    refinement of a walk along names, file operations and the reference counts of mounts, and the
    two memory file systems as drivers below them.
  \<^item> Netbytes, Netif, Ipnet (\<open>drivers/net.c\<close>, \<open>net/\<close>): byte order and checksums, interfaces, Ethernet
    and ARP, IP routing, fragmentation and reassembly, ICMP, UDP and sockets.
  \<^item> Fd (\<open>usermode/fd.c\<close>): descriptor tables and file descriptions over files, pipes and sockets; the
    reference counts (right up to closes that failed), and the round trip through a pipe.
  \<^item> Paging (\<open>memory/paging.c\<close>): the page allocator, the four levels of page tables, copy-on-write and the
    checks of user pointers; that a region is mapped to fresh pages and nothing else changes, that no
    page is lost, and which ranges the pointer check misses.
  \<^item> Tasks, Programs, Scheduler (\<open>usermode/scheduler.c\<close>, \<open>elf.c\<close>, \<open>break.c\<close>): tasks as a store of
    records linked into a ring and a tree, signal delivery, task switches, program loading, process
    creation, sleeping and waiting; that the choice of the next task is round robin, and that a ready task
    waits for at most one turn of the tasks before it as long as no task is created or collected.  A
    chain of forks is outside that bound, since new tasks are put right behind the current one.
  \<^item> Schedinv: the invariant of the scheduler (the ring of tasks, well-formed tasks) over a step relation
    with a rule per system call and interrupt, and what it gives: the choice of the next task always
    ends, no task escapes \<open>SIGKILL\<close>.
  \<^item> Signals, Waiting: the round trip through a signal handler, the end of a process and its wait status,
    sleeping, \<open>fork\<close> and the break.
  \<^item> Fat and Fatops (\<open>fs/fat.c\<close>, \<open>fs/fat.h\<close>): the FAT32 driver over the block layer: the boot sector,
    the table and its copies, the search for free clusters, 8.3 names, directory scans, and every
    operation the driver gives to the virtual file system.
  \<^item> Fatfiles, Fatwrite, Fatalloc, Fatdirs: what the FAT driver does to a volume: reading a file returns
    the bytes of its cluster chain; writing inside a file puts the bytes at their place and keeps what
    is before them, but clears the rest of a last cluster that it starts; the search for a free cluster
    finds the first one in its order of search, which leaves out earlier sectors of the table unless the table
    fits the volume exactly; deleting releases the chain, lookup finds
    the entry of a name, time stamps survive their encoding; and where the driver loops for ever.
  The components call each other as in the kernel: the file systems call the block and character layer,
  which call the drivers; the virtual file system calls the file systems through their records; the
  network stack calls the interface layer.  The theories import each other the same way.

  \<^bold>\<open>Properties.\<close>  The theorems marked C1, C2 and so on are the properties of the development.  Some of
  them prove a defect: the theorem then states what the code does on the inputs it mishandles.

  \<^bold>\<open>Fuel.\<close>  Loops over linked lists (directory entries, mount points) get one unit more than the number
  of addresses the allocator has handed out, which no list without a cycle exceeds.  The fragment loop
  of \<open>ip_send\<close> gets 46 units: a payload of 65535 bytes has 45 fragments of 1480 bytes.  Loops over the
  ring of tasks get \<open>ring_fuel\<close>, three units more than the addresses of tasks.  Loops along a chain of
  clusters get \<open>chain_fuel\<close>, one unit more than the allocation table has entries, which no chain without
  a cycle exceeds (twice that where the loop also allocates, three times where it also extends the file,
  and the offset in addition where it counts bytes).  All other loops have termination proofs or an explicit list
  of events.

  \<^bold>\<open>Simplifications.\<close>  Each system call and each interrupt is one step of \<open>sched_step\<close>, although the
  source runs system calls with interrupts enabled; where a call gives up the processor (\<open>yield_current\<close>,
  sleeping reads and writes) the other tasks are explicit.  The addresses that \<open>sched_kmalloc\<close> hands
  out for tasks and stacks are never used again, so that a stale pointer faults in the model.  The counts of
  pages in \<open>memory_bitmap\<close> and the reference counts of mounts and descriptions are unbounded numbers; they would wrap only
  after \<open>2 ^ 31\<close> references or more.  The page tables have no large pages, and the translation lookaside buffer is
  not modelled.  \<open>ip_received\<close> leaves the frame as it was where the source clears the checksum field of
  a frame that it drops.

  \<^bold>\<open>Not modelled.\<close>  Descriptor tables, interrupt entry and context switch (assembly and privileged
  instructions), device drivers that consist of port and memory-mapped accesses (ATA, RTL8139, PS/2,
  serial, PCI, framebuffer), the boot sequence, and the vendored code (\<open>libc\<close>, \<open>limine\<close>, \<open>shell\<close>).
  System call dispatch (\<open>usermode/syscalls.c\<close>) unpacks registers, checks user pointers and calls
  functions modelled here; it keeps no state of its own.  GLFS (\<open>fs/glfs.c\<close>) forwards to a library
  in a submodule whose sources are not in the repository.
\<close>

end
